(* ===== verification/Prelude.thy ===== *)
theory Prelude
  imports Main "HOL-Library.Word" "HOL-Library.Multiset"
begin

text \<open>
  Shared vocabulary of the development: the machine integer types of the C code, byte
  encodings of little-endian words, copies into and out of byte buffers (\<open>memcpy\<close>,
  \<open>memset\<close>), and the generic facts about them that the component theories use.

  The device is a 32-bit little-endian ARM, so \<open>size_t\<close>, \<open>uintptr_t\<close> and
  \<open>unsigned long\<close> are 32-bit words.
\<close>

unbundle bit_operations_syntax

section \<open>Machine integers\<close>

type_synonym u8 = "8 word"
type_synonym u16 = "16 word"
type_synonym u32 = "32 word"
type_synonym u64 = "64 word"

lemma u32_max: "(0xffffffff :: u32) = - 1"
  by (simp add: minus_1_eq_mask mask_eq_exp_minus_1)

lemma unat_succ: "n \<noteq> 0xffffffff \<Longrightarrow> unat (n + 1 :: u32) = Suc (unat n)"
proof -
  assume "n \<noteq> 0xffffffff"
  then have "n \<noteq> - 1" using u32_max by metis
  then have "1 + n \<noteq> 0" by (simp add: eq_neg_iff_add_eq_0 add.commute)
  then show ?thesis by (simp add: unatSuc add.commute)
qed

lemma u32_less_succ: "n \<noteq> 0xffffffff \<Longrightarrow> n < (n + 1 :: u32)"
  by (simp add: word_less_nat_alt unat_succ)

text \<open>Facts that every component may use to unfold its operations.\<close>

named_theorems step_defs "definitions unfolded by the per-operation proofs"
named_theorems frame "what an operation leaves unchanged"

section \<open>Outcomes\<close>

text \<open>
  What a C function that may not return does: it returns a value, it ends the process with
  \<open>os_sched_exit(7)\<close> (\<open>fatal\<close>), after which nothing of the state is left, it writes
  past an object, after which C says nothing, or it never returns.
\<close>

datatype 'a outcome = Done 'a | Exited | Undefined | Blocked

primrec then_do :: "'a outcome \<Rightarrow> ('a \<Rightarrow> 'b outcome) \<Rightarrow> 'b outcome" where
  "then_do (Done x) f = f x"
| "then_do Exited f = Exited"
| "then_do Undefined f = Undefined"
| "then_do Blocked f = Blocked"

lemma then_do_assoc: "then_do (then_do m f) g = then_do m (\<lambda>x. then_do (f x) g)"
  by (cases m) simp_all

lemma then_do_Done:
  "then_do m f = Done y \<longleftrightarrow> (\<exists>x. m = Done x \<and> f x = Done y)"
  by (cases m) auto

section \<open>Little-endian encodings\<close>

text \<open>\<open>memcpy\<close> of the first \<open>n\<close> bytes of an integer, as the device lays it out.\<close>

primrec le_bytes :: "nat \<Rightarrow> 'a::len word \<Rightarrow> u8 list" where
  "le_bytes 0 w = []"
| "le_bytes (Suc n) w = ucast w # le_bytes n (drop_bit 8 w)"

text \<open>The integer read back from its bytes.\<close>

primrec le_val :: "u8 list \<Rightarrow> 'a::len word" where
  "le_val [] = 0"
| "le_val (b # bs) = ucast b OR push_bit 8 (le_val bs)"

lemma length_le_bytes [simp]: "length (le_bytes n w) = n"
  by (induction n arbitrary: w) auto

lemma le_bytes_2: "le_bytes 2 w = [ucast w, ucast (drop_bit 8 w)]"
  by (simp add: numeral_2_eq_2)

lemma le_bytes_4:
  "le_bytes 4 w = [ucast w, ucast (drop_bit 8 w), ucast (drop_bit 16 w), ucast (drop_bit 24 w)]"
  by (simp add: eval_nat_numeral)

lemma bit_le_val:
  "bit (le_val bs :: 'a::len word) i \<longleftrightarrow>
     i < LENGTH('a) \<and> i div 8 < length bs \<and> bit (bs ! (i div 8)) (i mod 8)"
proof (induction bs arbitrary: i)
  case Nil
  then show ?case by simp
next
  case (Cons b bs)
  show ?case
  proof (cases "i < 8")
    case True
    then show ?thesis
      by (auto simp: bit_or_iff bit_push_bit_iff bit_word_ucast_iff dest: bit_imp_le_length)
  next
    case False
    then have i: "i div 8 = Suc ((i - 8) div 8)" "i mod 8 = (i - 8) mod 8"
      by (auto simp: le_div_geq le_mod_geq)
    have "\<not> bit b i" using False bit_imp_le_length [of b i] by auto
    then show ?thesis
      using False Cons.IH [of "i - 8"]
      by (auto simp: bit_or_iff bit_push_bit_iff bit_word_ucast_iff i)
  qed
qed

lemma nth_le_bytes:
  "j < n \<Longrightarrow> le_bytes n w ! j = ucast (drop_bit (8 * j) w)"
proof (induction n arbitrary: w j)
  case 0
  then show ?case by simp
next
  case (Suc n)
  then show ?case by (cases j) (auto simp: algebra_simps)
qed

lemma le_val_le_bytes:
  assumes "LENGTH('a) \<le> 8 * n"
  shows "le_val (le_bytes n w) = (w :: 'a::len word)"
proof (rule bit_word_eqI)
  fix i assume "i < LENGTH('a)"
  moreover from this assms have "i div 8 < n" by auto
  moreover have "8 * (i div 8) + i mod 8 = i" by simp
  ultimately show "bit (le_val (le_bytes n w) :: 'a word) i = bit w i"
    by (auto simp: bit_le_val nth_le_bytes bit_word_ucast_iff bit_drop_bit_eq)
qed

lemma le_val_le_bytes_id [simp]:
  "le_val (le_bytes 2 w2) = (w2 :: u16)"
  "le_val (le_bytes 4 w4) = (w4 :: u32)"
  "le_val (le_bytes 8 w8) = (w8 :: u64)"
  by (rule le_val_le_bytes, simp)+

lemma le_bytes_inject:
  "LENGTH('a) \<le> 8 * n \<Longrightarrow> le_bytes n v = le_bytes n w \<longleftrightarrow> v = (w :: 'a::len word)"
  by (metis le_val_le_bytes)

lemma le_bytes_inject_id [simp]:
  "le_bytes 4 v4 = le_bytes 4 (w4 :: u32) \<longleftrightarrow> v4 = w4"
  "le_bytes 2 v2 = le_bytes 2 (w2 :: u16) \<longleftrightarrow> v2 = w2"
  by (rule le_bytes_inject, simp)+

lemma le_bytes_le_val:
  assumes "length bs = n" "8 * n \<le> LENGTH('a)"
  shows "le_bytes n (le_val bs :: 'a::len word) = bs"
proof (rule nth_equalityI)
  show "length (le_bytes n (le_val bs :: 'a word)) = length bs" using assms by simp
  fix j assume "j < length (le_bytes n (le_val bs :: 'a word))"
  then have j: "j < n" "j < length bs" using assms by auto
  show "le_bytes n (le_val bs :: 'a word) ! j = bs ! j"
  proof (rule bit_word_eqI)
    fix i assume i: "i < LENGTH(8)"
    then have "8 * j + i < LENGTH('a)" using j assms by auto
    then show "bit (le_bytes n (le_val bs :: 'a word) ! j) i = bit (bs ! j) i"
      using j i by (simp add: nth_le_bytes bit_word_ucast_iff bit_drop_bit_eq bit_le_val)
  qed
qed

lemma le_bytes_le_val_id [simp]:
  "length bs = 2 \<Longrightarrow> le_bytes 2 (le_val bs :: u16) = bs"
  "length bs = 4 \<Longrightarrow> le_bytes 4 (le_val bs :: u32) = bs"
  by (rule le_bytes_le_val; simp)+

section \<open>Byte buffers\<close>

text \<open>\<open>memcpy(&xs[off], ys, length ys)\<close> into a buffer that is large enough.\<close>

definition splice :: "'a list \<Rightarrow> nat \<Rightarrow> 'a list \<Rightarrow> 'a list" where
  "splice xs off ys = take off xs @ ys @ drop (off + length ys) xs"

text \<open>The \<open>n\<close> elements of a buffer from offset \<open>off\<close>.\<close>

definition slice :: "'a list \<Rightarrow> nat \<Rightarrow> nat \<Rightarrow> 'a list" where
  "slice xs off n = take n (drop off xs)"

lemma length_splice [simp]:
  "off + length ys \<le> length xs \<Longrightarrow> length (splice xs off ys) = length xs"
  by (simp add: splice_def)

lemma length_slice [simp]:
  "off + n \<le> length xs \<Longrightarrow> length (slice xs off n) = n"
  by (simp add: slice_def)

lemma splice_empty [simp]: "splice xs off [] = xs"
  by (simp add: splice_def)

lemma slice_zero [simp]: "slice xs off 0 = []"
  by (simp add: slice_def)

lemma slice_splice_same [simp]:
  "off + length ys \<le> length xs \<Longrightarrow> n = length ys \<Longrightarrow> slice (splice xs off ys) off n = ys"
  by (simp add: slice_def splice_def)

lemma nth_splice:
  assumes "off + length ys \<le> length xs" "i < length xs"
  shows "splice xs off ys ! i =
    (if i < off then xs ! i else if i < off + length ys then ys ! (i - off) else xs ! i)"
  using assms by (auto simp: splice_def nth_append min_def)

lemma nth_slice: "off + n \<le> length xs \<Longrightarrow> i < n \<Longrightarrow> slice xs off n ! i = xs ! (off + i)"
  by (simp add: slice_def)

section \<open>Lists and options\<close>

lemma option_eq_by_Some: "(\<And>v. x = Some v \<longleftrightarrow> y = Some v) \<Longrightarrow> x = y"
  by (cases x; cases y) auto

lemma length_takeWhile_less:
  "length (takeWhile P xs) < length xs \<longleftrightarrow> (\<exists>x \<in> set xs. \<not> P x)"
  by (metis length_takeWhile_le linorder_not_le nat_less_le set_takeWhileD takeWhile_eq_all_conv
      takeWhile_eq_take take_all_iff)

end
