(* ===== verification/Device.thy ===== *)
theory Device
  imports Prelude
begin

text \<open>
  The device below the VM: the environment (the host, the clock and the cryptographic
  library of the operating system, none of which is code of this repository), the APDU
  buffer \<open>G_io_apdu_buffer\<close> that the VM shares with the transport, and the APDU
  commands and parser of \<open>vm/src/apdu.h\<close>.
\<close>

section \<open>The environment\<close>

text \<open>
  \<open>env\<close> holds what the VM calls but does not contain. The host is arbitrary: it answers
  a transmission with any bytes, as a function of the transcript of everything the device
  has sent it so far (latest first). Each cryptographic primitive is a function of its
  inputs; what a theorem needs of one is a hypothesis of that theorem.
  \<^item> \<open>host\<close>, \<open>clock\<close>: the reply to a transcript, and \<open>G_io_app.ms\<close> after the exchange;
  \<^item> \<open>sha256\<close>, \<open>hmac_sha256 key\<close>, \<open>aes_cbc_encrypt key iv\<close>,
    \<open>aes_cbc_decrypt key iv\<close>: \<open>cx_hash_sha256\<close>, \<open>cx_hmac_no_throw\<close>,
    \<open>cx_aes_iv_no_throw\<close>;
  \<^item> \<open>random_bytes i n\<close>: the \<open>n\<close> bytes of the \<open>i\<close>-th call of \<open>cx_get_random_bytes\<close>;
  \<^item> \<open>privkey_ok\<close>, \<open>pubkey_ok\<close>, \<open>public_key\<close>, \<open>sign\<close>, \<open>verify\<close>: ECDSA on
    secp256k1, from raw keys (\<open>False\<close> or \<open>None\<close> where the library reports an error);
  \<^item> \<open>on_speculos\<close>: whether \<open>os_version\<close> is the emulator's.
\<close>

record env =
  host :: "u8 list list \<Rightarrow> u8 list"
  clock :: "u8 list list \<Rightarrow> u32"
  sha256 :: "u8 list \<Rightarrow> u8 list"
  hmac_sha256 :: "u8 list \<Rightarrow> u8 list \<Rightarrow> u8 list"
  aes_cbc_encrypt :: "u8 list \<Rightarrow> u8 list \<Rightarrow> u8 list \<Rightarrow> u8 list"
  aes_cbc_decrypt :: "u8 list \<Rightarrow> u8 list \<Rightarrow> u8 list \<Rightarrow> u8 list"
  random_bytes :: "nat \<Rightarrow> nat \<Rightarrow> u8 list"
  privkey_ok :: "u8 list \<Rightarrow> bool"
  pubkey_ok :: "u8 list \<Rightarrow> bool"
  public_key :: "u8 list \<Rightarrow> u8 list option"
  sign :: "u8 list \<Rightarrow> u8 list \<Rightarrow> u8 list option"
  verify :: "u8 list \<Rightarrow> u8 list \<Rightarrow> u8 list \<Rightarrow> bool"
  on_speculos :: bool

section \<open>Pages\<close>

text \<open>\<open>PAGE_SIZE\<close>, \<open>PAGE_START\<close>, \<open>BUFFER_MAX_SIZE\<close> and \<open>BUFFER_MIN_SIZE\<close> of \<open>page.h\<close>.\<close>

definition PAGE_SIZE :: u32 where
  "PAGE_SIZE = 256"

definition PAGE_START :: "u32 \<Rightarrow> u32" where
  "PAGE_START addr = addr AND NOT (PAGE_SIZE - 1)"

definition BUFFER_MAX_SIZE :: "u32 \<Rightarrow> u32" where
  "BUFFER_MAX_SIZE addr = PAGE_SIZE - (addr - PAGE_START addr)"

definition BUFFER_MIN_SIZE :: "u32 \<Rightarrow> u32 \<Rightarrow> u32" where
  "BUFFER_MIN_SIZE addr sz = (if BUFFER_MAX_SIZE addr < sz then BUFFER_MAX_SIZE addr else sz)"

datatype page_prot_e = PAGE_PROT_RO | PAGE_PROT_RW

text \<open>\<open>struct page_s\<close>: \<open>p_data\<close> has \<open>PAGE_SIZE\<close> bytes.\<close>

record page_s =
  p_addr :: u32
  p_data :: "u8 list"
  p_iv :: u32

section \<open>Page arithmetic\<close>

text \<open>The offset of an address in its page.\<close>

definition page_off :: "u32 \<Rightarrow> nat" where
  "page_off addr = unat addr mod 256"

lemma PAGE_SIZE_val [simp]: "unat PAGE_SIZE = 256"
  by (simp add: PAGE_SIZE_def)

lemma take_bit_8_unat: "unat (take_bit 8 (a :: u32)) = unat a mod 256"
  by (simp add: take_bit_eq_mod unat_mod_distrib)

lemma PAGE_START_eq: "PAGE_START addr = addr - take_bit 8 addr"
proof -
  have "NOT (PAGE_SIZE - 1 :: u32) = NOT (mask 8)"
    by (simp add: PAGE_SIZE_def mask_eq_exp_minus_1)
  moreover have "addr - take_bit 8 addr = addr AND NOT (take_bit 8 addr)"
    by (rule disjunctive_diff_eq_and_not) (simp add: bit_eq_iff bit_simps)
  moreover have "addr AND NOT (take_bit 8 addr) = addr AND NOT (mask 8)"
    by (rule bit_word_eqI) (auto simp: bit_simps)
  ultimately show ?thesis
    by (simp add: PAGE_START_def)
qed

lemma unat_PAGE_START: "unat (PAGE_START addr) = unat addr - page_off addr"
proof -
  have "take_bit 8 addr \<le> addr"
    by (simp add: word_le_nat_alt take_bit_8_unat)
  then show ?thesis
    by (simp add: PAGE_START_eq unat_sub take_bit_8_unat page_off_def)
qed

lemma unat_PAGE_START_div: "unat (PAGE_START addr) = 256 * (unat addr div 256)"
  by (simp add: unat_PAGE_START page_off_def minus_mod_eq_mult_div)

lemma PAGE_START_idem [simp]: "PAGE_START (PAGE_START addr) = PAGE_START addr"
  by (simp add: word_unat_eq_iff unat_PAGE_START_div)

lemma PAGE_START_le: "PAGE_START addr \<le> addr"
  by (simp add: word_le_nat_alt unat_PAGE_START)

lemma page_off_less [simp]: "page_off addr < 256"
  by (simp add: page_off_def)

lemma unat_sub_PAGE_START: "unat (addr - PAGE_START addr) = page_off addr"
  by (simp add: unat_sub PAGE_START_le unat_PAGE_START)
     (metis page_off_def diff_diff_cancel mod_less_eq_dividend)

lemma unat_BUFFER_MAX_SIZE: "unat (BUFFER_MAX_SIZE addr) = 256 - page_off addr"
proof -
  have "addr - PAGE_START addr \<le> PAGE_SIZE"
    by (simp add: word_le_nat_alt unat_sub_PAGE_START less_imp_le)
  then show ?thesis
    by (simp add: BUFFER_MAX_SIZE_def unat_sub unat_sub_PAGE_START)
qed

lemma unat_BUFFER_MIN_SIZE:
  "unat (BUFFER_MIN_SIZE addr sz) = min (256 - page_off addr) (unat sz)"
  by (auto simp: BUFFER_MIN_SIZE_def unat_BUFFER_MAX_SIZE word_less_nat_alt)

text \<open>A chunk of a non-empty guest buffer is never empty and never crosses a page.\<close>

lemma BUFFER_MIN_SIZE_pos: "sz \<noteq> 0 \<Longrightarrow> 0 < unat (BUFFER_MIN_SIZE addr sz)"
  by (simp add: unat_BUFFER_MIN_SIZE unat_gt_0)

lemma BUFFER_MIN_SIZE_le: "unat (BUFFER_MIN_SIZE addr sz) \<le> unat sz"
  by (simp add: unat_BUFFER_MIN_SIZE)

lemma BUFFER_MIN_SIZE_page: "page_off addr + unat (BUFFER_MIN_SIZE addr sz) \<le> 256"
  unfolding unat_BUFFER_MIN_SIZE using page_off_less [of addr] by linarith

section \<open>The APDU buffer and the transport\<close>

text \<open>
  \<open>d_buf\<close> is \<open>G_io_apdu_buffer\<close>, of \<open>IO_APDU_BUFFER_SIZE\<close> bytes (the static assertions of
  the code require at least 260). \<open>d_sent\<close> is the transcript of what was transmitted, latest
  first; \<open>d_ms\<close> is \<open>G_io_app.ms\<close>; \<open>d_draws\<close> counts the calls of the random generator.
\<close>

record device =
  d_buf :: "u8 list"
  d_sent :: "u8 list list"
  d_ms :: u32
  d_draws :: nat

text \<open>
  \<open>io_exchange(CHANNEL_APDU, tx)\<close> transmits the first \<open>tx\<close> bytes of the buffer and
  returns once a new APDU has been received at the start of the buffer, with its length. The
  transport never writes past the buffer, and leaves what is behind the APDU as it was.
\<close>

definition io_exchange :: "env \<Rightarrow> nat \<Rightarrow> device \<Rightarrow> nat \<times> device" where
  "io_exchange E tx d =
     (let t = take tx (d_buf d) # d_sent d;
          r = take (length (d_buf d)) (host E t)
      in (length r, d\<lparr>d_buf := splice (d_buf d) 0 r, d_sent := t, d_ms := clock E t\<rparr>))"

text \<open>The same with the flag \<open>IO_RETURN_AFTER_TX\<close>: it returns without waiting for a reply.\<close>

definition io_transmit :: "nat \<Rightarrow> device \<Rightarrow> device" where
  "io_transmit tx d = d\<lparr>d_sent := take tx (d_buf d) # d_sent d\<rparr>"

text \<open>Writes through a pointer into the buffer.\<close>

definition write_buf :: "nat \<Rightarrow> u8 list \<Rightarrow> device \<Rightarrow> device" where
  "write_buf off bs d = d\<lparr>d_buf := splice (d_buf d) off bs\<rparr>"

definition get_random :: "env \<Rightarrow> nat \<Rightarrow> device \<Rightarrow> u8 list \<times> device" where
  "get_random E n d = (random_bytes E (d_draws d) n, d\<lparr>d_draws := Suc (d_draws d)\<rparr>)"

section \<open>APDU commands\<close>

datatype cmd_stream_e =
    CMD_REQUEST_PAGE | CMD_REQUEST_HMAC | CMD_REQUEST_PROOF | CMD_COMMIT_PAGE | CMD_COMMIT_HMAC
  | CMD_SEND_BUFFER | CMD_RECV_BUFFER | CMD_EXIT | CMD_FATAL | CMD_REQUEST_MANIFEST
  | CMD_REQUEST_APP_PAGE | CMD_REQUEST_APP_HMAC

primrec cmd_code :: "cmd_stream_e \<Rightarrow> u16" where
  "cmd_code CMD_REQUEST_PAGE = 0x6101"
| "cmd_code CMD_REQUEST_HMAC = 0x6102"
| "cmd_code CMD_REQUEST_PROOF = 0x6103"
| "cmd_code CMD_COMMIT_PAGE = 0x6201"
| "cmd_code CMD_COMMIT_HMAC = 0x6202"
| "cmd_code CMD_SEND_BUFFER = 0x6301"
| "cmd_code CMD_RECV_BUFFER = 0x6401"
| "cmd_code CMD_EXIT = 0x6501"
| "cmd_code CMD_FATAL = 0x6601"
| "cmd_code CMD_REQUEST_MANIFEST = 0x6701"
| "cmd_code CMD_REQUEST_APP_PAGE = 0x6801"
| "cmd_code CMD_REQUEST_APP_HMAC = 0x6802"

text \<open>
  The two bytes of the field \<open>cmd\<close>: every handler stores
  \<open>(CMD >> 8) | ((CMD & 0xff) << 8)\<close>, so that the status word is sent big-endian.
\<close>

definition cmd_bytes :: "cmd_stream_e \<Rightarrow> u8 list" where
  "cmd_bytes c = le_bytes 2 (drop_bit 8 (cmd_code c) OR push_bit 8 (cmd_code c AND 0xff))"

lemma length_cmd_bytes [simp]: "length (cmd_bytes c) = 2"
  by (simp add: cmd_bytes_def)

lemma cmd_bytes_big_endian:
  "cmd_bytes c = [ucast (drop_bit 8 (cmd_code c)), ucast (cmd_code c)]"
  by (cases c) (simp_all add: cmd_bytes_def le_bytes_2)

section \<open>Parsing an APDU\<close>

text \<open>
  \<open>struct apdu_s\<close>: a copy of the first 260 bytes of the buffer at the time it is parsed (no
  handler writes the buffer between the parse and its last use of the pointer).
\<close>

record apdu_s =
  a_cla :: u8
  a_ins :: u8
  a_p1 :: u8
  a_p2 :: u8
  a_lc :: u8
  a_data :: "u8 list"

definition apdu_of :: "u8 list \<Rightarrow> apdu_s" where
  "apdu_of buf = \<lparr>a_cla = buf ! 0, a_ins = buf ! 1, a_p1 = buf ! 2, a_p2 = buf ! 3,
     a_lc = buf ! 4, a_data = slice buf 5 255\<rparr>"

definition parse_apdu :: "nat \<Rightarrow> device \<Rightarrow> apdu_s option" where
  "parse_apdu sz d =
     (let apdu = apdu_of (d_buf d)
      in if sz < 5 \<or> sz - 5 \<noteq> unat (a_lc apdu) then None else Some apdu)"

section \<open>Frame facts\<close>

definition buf_ok :: "device \<Rightarrow> bool" where
  "buf_ok d \<longleftrightarrow> 260 \<le> length (d_buf d)"

lemma length_io_exchange_buf [simp]:
  "length (d_buf (snd (io_exchange E tx d))) = length (d_buf d)"
  by (simp add: io_exchange_def Let_def)

lemma buf_ok_io_exchange [simp]: "buf_ok (snd (io_exchange E tx d)) = buf_ok d"
  by (simp add: buf_ok_def)

lemma buf_ok_write_buf [simp]:
  "off + length bs \<le> length (d_buf d) \<Longrightarrow> buf_ok (write_buf off bs d) = buf_ok d"
  by (simp add: buf_ok_def write_buf_def)

lemma buf_ok_io_transmit [simp]: "buf_ok (io_transmit tx d) = buf_ok d"
  by (simp add: buf_ok_def io_transmit_def)

lemma io_exchange_sent [frame]:
  "d_sent (snd (io_exchange E tx d)) = take tx (d_buf d) # d_sent d"
  by (simp add: io_exchange_def Let_def)

lemma io_exchange_draws [frame]: "d_draws (snd (io_exchange E tx d)) = d_draws d"
  by (simp add: io_exchange_def Let_def)

lemma parse_apdu_Some:
  "parse_apdu sz d = Some a \<Longrightarrow> a = apdu_of (d_buf d) \<and> sz = 5 + unat (a_lc a)"
  by (auto simp: parse_apdu_def Let_def split: if_splits)

lemma length_a_data: "buf_ok d \<Longrightarrow> parse_apdu sz d = Some a \<Longrightarrow> length (a_data a) = 255"
  by (auto dest!: parse_apdu_Some simp: apdu_of_def buf_ok_def)

text \<open>
  A reply that is a well-formed APDU is parsed into its own fields: nothing of what the
  buffer held before shows in the first \<open>lc\<close> bytes of the data.
\<close>

lemma parse_reply:
  assumes "io_exchange E tx d = (sz, d')" and "parse_apdu sz d' = Some a"
    and "t = take tx (d_buf d) # d_sent d" and "length (host E t) \<le> length (d_buf d)"
  shows "host E t = [a_cla a, a_ins a, a_p1 a, a_p2 a, a_lc a] @ take (unat (a_lc a)) (a_data a)"
proof -
  let ?r = "host E t"
  have d': "d_buf d' = ?r @ drop (length ?r) (d_buf d)" and sz: "sz = length ?r"
    using assms by (auto simp: io_exchange_def Let_def splice_def)
  from parse_apdu_Some [OF assms(2)] have a: "a = apdu_of (d_buf d')"
    and len: "length ?r = 5 + unat (a_lc a)" using sz by auto
  have nth: "d_buf d' ! i = ?r ! i" if "i < 5" for i
    using that len by (simp add: d' nth_append)
  have lc: "unat (a_lc a) \<le> 255" using unsigned_less [of "a_lc a", where 'a = nat] by simp
  have "take (unat (a_lc a)) (a_data a) = drop 5 ?r"
    using len lc by (simp add: a apdu_of_def slice_def d' min_def take_drop)
  moreover have "take 5 ?r = [?r ! 0, ?r ! 1, ?r ! 2, ?r ! 3, ?r ! 4]"
    using len by (auto simp: list_eq_iff_nth_eq nth_Cons' less_Suc_eq eval_nat_numeral)
  moreover have "[?r ! 0, ?r ! 1, ?r ! 2, ?r ! 3, ?r ! 4] = [a_cla a, a_ins a, a_p1 a, a_p2 a, a_lc a]"
    by (simp add: a apdu_of_def nth)
  ultimately show ?thesis
    by (metis append_take_drop_id)
qed

end
