(* ===== verification/Loading.thy ===== *)
theory Loading
  imports Device
begin

text \<open>
  The loading screen (\<open>vm/src/loading.c\<close>) and the display calls the VM makes. What is
  displayed is a log, latest first: the drawing itself is the operating system's.
\<close>

section \<open>The display\<close>

datatype ui_event =
    Display_icon nat
  | Screen_update
  | Draw_bg u32
  | Draw_rect u32 u32 u32 u32 u32
  | Draw_bitmap u32 u32 u32 u32 "u8 list" u32 "u8 list" u32
  | Draw_with_context "u8 list" "u8 list option" u32 u32
  | Draw_status "u8 list"
  | App_idle
  | Menu_main

section \<open>The loading state\<close>

text \<open>The four static variables of \<open>loading.c\<close>, and the log.\<close>

record loading =
  app_loading :: bool
  app_loading_counter :: u32
  app_loading_ticker :: u32
  app_loading_step :: u32
  ui_log :: "ui_event list"

definition TICKER_THRESHOLD :: u32 where "TICKER_THRESHOLD = 175"

definition INSTRUCTIONS_THRESHOLD :: u32 where "INSTRUCTIONS_THRESHOLD = 2000"

definition NUMBER_OF_ICONS :: u32 where "NUMBER_OF_ICONS = 8"

definition log_ui :: "ui_event \<Rightarrow> loading \<Rightarrow> loading" where
  "log_ui e l = l\<lparr>ui_log := e # ui_log l\<rparr>"

text \<open>The icons are numbered from 1; the default case of the switch is the first.\<close>

definition display_next_icon :: "loading \<Rightarrow> loading" where
  "display_next_icon l =
    (let icon = (if app_loading_step l < 8 then Suc (unat (app_loading_step l)) else 1);
         l = log_ui Screen_update (log_ui (Display_icon icon) l)
     in l\<lparr>app_loading_step := (app_loading_step l + 1) mod NUMBER_OF_ICONS\<rparr>)"

definition sys_app_loading_stop :: "loading \<Rightarrow> bool \<times> loading" where
  "sys_app_loading_stop l =
     (if app_loading l then (True, l\<lparr>app_loading := False\<rparr>) else (False, l))"

text \<open>\<open>ms\<close> is \<open>G_io_app.ms\<close>.\<close>

definition app_loading_update_ui :: "bool \<Rightarrow> u32 \<Rightarrow> loading \<Rightarrow> loading" where
  "app_loading_update_ui host_exchange ms l =
    (if \<not> app_loading l then l
     else if host_exchange then
       (if ms \<ge> app_loading_ticker l + TICKER_THRESHOLD
        then display_next_icon (l\<lparr>app_loading_ticker := ms\<rparr>) else l)
     else
       (if app_loading_counter l mod INSTRUCTIONS_THRESHOLD = 0 then display_next_icon l else l))"

definition app_loading_inc_counter :: "u32 \<Rightarrow> loading \<Rightarrow> loading" where
  "app_loading_inc_counter ms l =
    (if \<not> app_loading l then l
     else app_loading_update_ui False ms (l\<lparr>app_loading_counter := app_loading_counter l + 1\<rparr>))"

text \<open>
  The part of \<open>sys_app_loading_start\<close> after the status has been copied; \<open>strlen\<close> stops at the
  first zero byte.
\<close>

definition draw_loading :: "u8 list \<Rightarrow> loading \<Rightarrow> loading" where
  "draw_loading loading_status l =
     display_next_icon
       (log_ui (Draw_status (takeWhile (\<lambda>c. c \<noteq> 0) loading_status)) (log_ui (Draw_bg 0) l))"

section \<open>The step stays below the number of icons\<close>

definition loading_ok :: "loading \<Rightarrow> bool" where
  "loading_ok l \<longleftrightarrow> app_loading_step l < NUMBER_OF_ICONS"

lemma loading_ok_next: "loading_ok (display_next_icon l)"
  by (simp add: loading_ok_def display_next_icon_def Let_def NUMBER_OF_ICONS_def log_ui_def
      word_less_nat_alt unat_mod_distrib)

lemma loading_ok_update: "loading_ok l \<Longrightarrow> loading_ok (app_loading_update_ui h ms l)"
  using loading_ok_next by (auto simp: app_loading_update_ui_def) 

lemma loading_ok_inc: "loading_ok l \<Longrightarrow> loading_ok (app_loading_inc_counter ms l)"
  using loading_ok_update [of "l\<lparr>app_loading_counter := app_loading_counter l + 1\<rparr>"]
  by (auto simp: app_loading_inc_counter_def loading_ok_def)

text \<open>Nothing is drawn while no app is loading.\<close>

lemma no_ui_unless_loading [simp]:
  "\<not> app_loading l \<Longrightarrow> app_loading_update_ui h ms l = l"
  "\<not> app_loading l \<Longrightarrow> app_loading_inc_counter ms l = l"
  by (simp_all add: app_loading_update_ui_def app_loading_inc_counter_def)

end
