(* ===== verification/Lfsr.thy ===== *)
theory Lfsr
  imports Prelude
begin

text \<open>
  The generator that picks the page to evict (\<open>vm/src/lfsr.c\<close>): a 16-bit xorshift. It never
  reaches the fixed point 0, so that the choice never gets stuck.
\<close>

definition lfsr_get_random :: "u16 \<Rightarrow> u16 \<times> u16" where
  "lfsr_get_random lfsr_state =
    (let lfsr = lfsr_state;
         lfsr = lfsr XOR drop_bit 7 lfsr;
         lfsr = lfsr XOR push_bit 9 lfsr;
         lfsr = lfsr XOR drop_bit 13 lfsr
     in (lfsr, lfsr))"

definition lfsr_init :: u16 where
  "lfsr_init = 0xACE1"

text \<open>Each of the three steps is injective on zero: a non-zero word stays non-zero.\<close>

lemma xor_drop_bit_nonzero:
  assumes "w XOR drop_bit n w = 0" "0 < n"
  shows "(w :: 'a::len word) = 0"
proof (rule ccontr)
  assume "w \<noteq> 0"
  have eq: "w = drop_bit n w"
    using assms(1) by (metis xor.left_neutral xor_self_eq xor.assoc)
  obtain i where "bit w i" using \<open>w \<noteq> 0\<close> by (auto simp: bit_eq_iff)
  define m where "m = Max {i. bit w i}"
  have "finite {i. bit w i}"
    by (rule finite_subset [of _ "{..<LENGTH('a)}"]) (auto dest: bit_imp_le_length)
  then have m: "bit w m" "\<And>i. bit w i \<Longrightarrow> i \<le> m"
    using \<open>bit w i\<close> Max_in [of "{i. bit w i}"] by (auto simp: m_def)
  have "bit w (m + n)"
    using m(1) eq by (metis add.commute bit_drop_bit_eq comp_apply)
  then show False using m(2) [of "m + n"] assms(2) by simp
qed

lemma xor_push_bit_nonzero:
  assumes "w XOR push_bit n w = 0" "0 < n"
  shows "(w :: 'a::len word) = 0"
proof (rule ccontr)
  assume "w \<noteq> 0"
  have eq: "w = push_bit n w"
    using assms(1) by (metis xor.left_neutral xor_self_eq xor.assoc)
  obtain i where "bit w i" using \<open>w \<noteq> 0\<close> by (auto simp: bit_eq_iff)
  define m where "m = (LEAST i. bit w i)"
  have m: "bit w m" "\<And>i. bit w i \<Longrightarrow> m \<le> i"
    using \<open>bit w i\<close> by (auto simp: m_def intro: LeastI Least_le)
  have "n \<le> m" "bit w (m - n)"
    using m(1) eq by (metis bit_push_bit_iff)+
  then show False using m(2) [of "m - n"] assms(2) by simp
qed

lemma lfsr_nonzero: "x \<noteq> 0 \<Longrightarrow> fst (lfsr_get_random x) \<noteq> 0 \<and> snd (lfsr_get_random x) \<noteq> 0"
  unfolding lfsr_get_random_def Let_def fst_conv snd_conv conj_absorb
  by (rule notI, drule xor_drop_bit_nonzero, simp, drule xor_push_bit_nonzero, simp,
      drule xor_drop_bit_nonzero, simp, simp)

lemma lfsr_init_nonzero: "lfsr_init \<noteq> 0"
  by (simp add: lfsr_init_def)

text \<open>The states after \<open>n\<close> draws.\<close>

primrec lfsr_run :: "nat \<Rightarrow> u16" where
  "lfsr_run 0 = lfsr_init"
| "lfsr_run (Suc n) = snd (lfsr_get_random (lfsr_run n))"

section \<open>Property\<close>

text \<open>
  The generator never reaches zero, the only state it could not leave, however many
  pages have been evicted.
\<close>

theorem lfsr_never_zero: "lfsr_run n \<noteq> 0"
  by (induction n) (simp_all add: lfsr_init_nonzero lfsr_nonzero)

end
