(* ===== verification/Merkle_Tree.thy ===== *)
theory Merkle_Tree
  imports Prelude
begin

text \<open>
  The anti-replay Merkle tree. The device keeps only its root hash, size and last entry
  (\<open>vm/src/merkle.c\<close>); the host keeps the tree and sends proofs. The first half is the C
  code. The second half is the tree those three values stand for: the one of
  \<open>host/merkletree.py\<close> (RFC 6962), with what an accepted proof says about it and how the
  updates of the device follow it. \<open>sha\<close> is SHA-256, code of the operating system.
\<close>

section \<open>The device's half: merkle.c\<close>

text \<open>\<open>struct proof_s\<close> and \<open>struct entry_s\<close>; \<open>entry_bytes\<close> is the union's array view.\<close>

record proof_s =
  p_op :: u8
  p_digest :: "u8 list"

record entry_s =
  e_addr :: u32
  e_iv :: u32

lemma entry_eta [simp]: "\<lparr>e_addr = e_addr e, e_iv = e_iv e\<rparr> = e"
  by (rule entry_s.equality) simp_all

definition entry_bytes :: "entry_s \<Rightarrow> u8 list" where
  "entry_bytes e = le_bytes 4 (e_addr e) @ le_bytes 4 (e_iv e)"

record merkle_tree_ctx_s =
  root_hash :: "u8 list"
  mt_n :: u32
  last_entry :: entry_s

definition hash_entry :: "(u8 list \<Rightarrow> u8 list) \<Rightarrow> entry_s \<Rightarrow> u8 list" where
  "hash_entry sha entry = sha ([0x00] @ entry_bytes entry)"

definition hash_nodes :: "(u8 list \<Rightarrow> u8 list) \<Rightarrow> u8 list \<Rightarrow> u8 list \<Rightarrow> u8 list" where
  "hash_nodes sha left right = sha ([0x01] @ left @ right)"

text \<open>
  \<open>proof_hash(entry, proof, count, digest)\<close>: the list is the \<open>count\<close> proof nodes from
  \<open>proof\<close> on, and the result is the final content of \<open>digest\<close>. With no entry the fold
  starts from the digest passed in. The letter \<open>L\<close> is 76.
\<close>

fun proof_loop :: "(u8 list \<Rightarrow> u8 list) \<Rightarrow> proof_s list \<Rightarrow> u8 list \<Rightarrow> u8 list" where
  "proof_loop sha [] digest = digest"
| "proof_loop sha (p # ps) digest =
     proof_loop sha ps
       (if p_op p = 76 then hash_nodes sha (p_digest p) digest
        else hash_nodes sha digest (p_digest p))"

definition proof_hash ::
    "(u8 list \<Rightarrow> u8 list) \<Rightarrow> entry_s option \<Rightarrow> proof_s list \<Rightarrow> u8 list \<Rightarrow> u8 list" where
  "proof_hash sha entry ps digest =
     proof_loop sha ps (case entry of None \<Rightarrow> digest | Some e \<Rightarrow> hash_entry sha e)"

function bit_count_loop :: "u32 \<Rightarrow> u32 \<Rightarrow> u32" where
  "bit_count_loop x cnt =
     (if x = 0 then cnt else bit_count_loop (drop_bit 1 x) (cnt + (x AND 1)))"
  by pat_completeness auto
termination
proof (relation "measure (\<lambda>(x, cnt). unat x)")
  fix x cnt :: u32 assume "x \<noteq> 0"
  then have "unat x div 2 < unat x" by (simp add: unat_gt_0)
  then show "((drop_bit 1 x, cnt + (x AND 1)), x, cnt) \<in> measure (\<lambda>(x, cnt). unat x)"
    by (simp add: unsigned_drop_bit_eq drop_bit_Suc unat_div_distrib)
qed simp

declare bit_count_loop.simps [simp del]

definition bit_count :: "u32 \<Rightarrow> u32" where
  "bit_count x = bit_count_loop x 0"

definition merkle_verify_proof ::
    "(u8 list \<Rightarrow> u8 list) \<Rightarrow> entry_s \<Rightarrow> proof_s list \<Rightarrow> merkle_tree_ctx_s \<Rightarrow> bool" where
  "merkle_verify_proof sha entry ps ctx \<longleftrightarrow> proof_hash sha (Some entry) ps [] = root_hash ctx"

definition merkle_insert ::
    "(u8 list \<Rightarrow> u8 list) \<Rightarrow> entry_s \<Rightarrow> proof_s list \<Rightarrow> merkle_tree_ctx_s \<Rightarrow>
     bool \<times> merkle_tree_ctx_s" where
  "merkle_insert sha entry ps ctx =
    (if mt_n ctx = 0 then
       (True, ctx\<lparr>root_hash := hash_entry sha entry, last_entry := entry, mt_n := mt_n ctx + 1\<rparr>)
     else if mt_n ctx = 0xffffffff then (False, ctx)
     else
       let cnt = of_nat (length ps) :: u32;
           tree_level = cnt - (bit_count (mt_n ctx) - 1)
       in if tree_level > cnt then (False, ctx)
          else if proof_hash sha (Some (last_entry ctx)) ps [] \<noteq> root_hash ctx then (False, ctx)
          else
            let tmp_proof = \<lparr>p_op = 76,
                  p_digest = proof_hash sha (Some (last_entry ctx)) (take (unat tree_level) ps) []\<rparr>;
                root = proof_hash sha (Some entry) [tmp_proof] [];
                root = proof_hash sha None (drop (unat tree_level) ps) root
            in (True, ctx\<lparr>root_hash := root, last_entry := entry, mt_n := mt_n ctx + 1\<rparr>))"

definition merkle_update ::
    "(u8 list \<Rightarrow> u8 list) \<Rightarrow> entry_s \<Rightarrow> entry_s \<Rightarrow> proof_s list \<Rightarrow> merkle_tree_ctx_s \<Rightarrow>
     bool \<times> merkle_tree_ctx_s" where
  "merkle_update sha old_entry entry ps ctx =
    (if \<not> merkle_verify_proof sha old_entry ps ctx then (False, ctx)
     else
       let ctx = ctx\<lparr>root_hash := proof_hash sha (Some entry) ps []\<rparr>
       in (True, if last_entry ctx = old_entry then ctx\<lparr>last_entry := entry\<rparr> else ctx))"

definition init_merkle_tree :: "u8 list \<Rightarrow> u32 \<Rightarrow> entry_s \<Rightarrow> merkle_tree_ctx_s" where
  "init_merkle_tree root_hash_init merkle_tree_size last_entry_init =
     \<lparr>root_hash = root_hash_init, mt_n = merkle_tree_size, last_entry = last_entry_init\<rparr>"

section \<open>The host's half: merkletree.py\<close>

text \<open>\<open>1 << (n.bit_length() - 1)\<close>, for positive \<open>n\<close>.\<close>

fun largest_power_of_two :: "nat \<Rightarrow> nat" where
  "largest_power_of_two n = (if n < 2 then 1 else 2 * largest_power_of_two (n div 2))"

declare largest_power_of_two.simps [simp del]

lemma largest_power_of_two_is_power: "\<exists>k. largest_power_of_two n = 2 ^ k"
proof (induction n rule: largest_power_of_two.induct)
  case (1 n)
  show ?case
  proof (cases "n < 2")
    case True
    then show ?thesis by (intro exI [of _ 0]) (simp add: largest_power_of_two.simps)
  next
    case False
    then obtain k where "largest_power_of_two (n div 2) = 2 ^ k" using 1 by blast
    then show ?thesis
      using False by (intro exI [of _ "Suc k"]) (simp add: largest_power_of_two.simps [of n])
  qed
qed

lemma largest_power_of_two_bounds:
  "0 < n \<Longrightarrow> largest_power_of_two n \<le> n \<and> n < 2 * largest_power_of_two n"
proof (induction n rule: largest_power_of_two.induct)
  case (1 n)
  show ?case
  proof (cases "n < 2")
    case True
    then show ?thesis using 1 by (simp add: largest_power_of_two.simps)
  next
    case False
    then have "largest_power_of_two (n div 2) \<le> n div 2 \<and> n div 2 < 2 * largest_power_of_two (n div 2)"
      using "1.IH" by simp
    moreover have "2 * (n div 2) \<le> n" "n < 2 * (n div 2) + 2" by auto
    ultimately show ?thesis
      using False by (simp add: largest_power_of_two.simps [of n]) linarith
  qed
qed

text \<open>Where a list of at least two entries is split.\<close>

lemma split_bounds:
  assumes "1 < n"
  shows "0 < largest_power_of_two (n - 1)" "largest_power_of_two (n - 1) < n"
    "n \<le> 2 * largest_power_of_two (n - 1)"
  using largest_power_of_two_bounds [of "n - 1"] assms by (cases "largest_power_of_two (n - 1)"; auto)+

lemma largest_power_of_two_eqI:
  assumes "(2::nat) ^ k \<le> n" "n < 2 * 2 ^ k"
  shows "largest_power_of_two n = 2 ^ k"
proof -
  obtain j where j: "largest_power_of_two n = 2 ^ j"
    using largest_power_of_two_is_power by blast
  have "0 < n" using assms(1) less_le_trans [of 0 "2 ^ k" n] by simp
  then have b: "2 ^ j \<le> n" "n < 2 * 2 ^ j" using largest_power_of_two_bounds [of n] j by auto
  have "(2::nat) ^ j < 2 ^ Suc k" "(2::nat) ^ k < 2 ^ Suc j" using b assms by auto
  then have "j < Suc k" "k < Suc j" 
    using power_less_imp_less_exp [of "2::nat" j "Suc k"] power_less_imp_less_exp [of "2::nat" k "Suc j"]
    by auto
  then show ?thesis using j by (simp add: less_Suc_eq)
qed

text \<open>\<open>MerkleTree.mth\<close>, the root hash, and \<open>MerkleTree._path\<close>, a leaf's proof.\<close>

function mth :: "(u8 list \<Rightarrow> u8 list) \<Rightarrow> entry_s list \<Rightarrow> u8 list" where
  "mth sha es =
    (if es = [] then sha []
     else if length es = 1 then hash_entry sha (hd es)
     else let k = largest_power_of_two (length es - 1)
          in hash_nodes sha (mth sha (take k es)) (mth sha (drop k es)))"
  by pat_completeness auto
termination
proof (relation "measure (\<lambda>(sha, es). length es)")
  fix sha :: "u8 list \<Rightarrow> u8 list" and es :: "entry_s list" and k
  assume "es \<noteq> []" "length es \<noteq> 1" and k: "k = largest_power_of_two (length es - 1)"
  then have "1 < length es" by (cases es) auto
  from split_bounds [OF this] k
  show "((sha, take k es), sha, es) \<in> measure (\<lambda>(sha, es). length es)"
    "((sha, drop k es), sha, es) \<in> measure (\<lambda>(sha, es). length es)" by auto
qed simp

function mt_path :: "(u8 list \<Rightarrow> u8 list) \<Rightarrow> nat \<Rightarrow> entry_s list \<Rightarrow> proof_s list" where
  "mt_path sha m es =
    (if length es \<le> 1 then []
     else let k = largest_power_of_two (length es - 1)
          in if m < k then mt_path sha m (take k es) @ [\<lparr>p_op = 82, p_digest = mth sha (drop k es)\<rparr>]
             else mt_path sha (m - k) (drop k es) @ [\<lparr>p_op = 76, p_digest = mth sha (take k es)\<rparr>])"
  by pat_completeness auto
termination
proof (relation "measure (\<lambda>(sha, m, es). length es)")
  fix sha :: "u8 list \<Rightarrow> u8 list" and m and es :: "entry_s list" and k
  assume "\<not> length es \<le> 1" and k: "k = largest_power_of_two (length es - 1)"
  then have "1 < length es" by simp
  from split_bounds [OF this] k
  show "((sha, m, take k es), sha, m, es) \<in> measure (\<lambda>(sha, m, es). length es)"
    "((sha, m - k, drop k es), sha, m, es) \<in> measure (\<lambda>(sha, m, es). length es)" by auto
qed simp

declare mth.simps [simp del] mt_path.simps [simp del]

section \<open>The tree behind the hashes\<close>

datatype mtree = Leaf entry_s | Node mtree mtree

primrec mt_hash :: "(u8 list \<Rightarrow> u8 list) \<Rightarrow> mtree \<Rightarrow> u8 list" where
  "mt_hash sha (Leaf e) = hash_entry sha e"
| "mt_hash sha (Node l r) = hash_nodes sha (mt_hash sha l) (mt_hash sha r)"

text \<open>The shape of \<open>mth\<close> depends on the number of entries only.\<close>

function tree_of :: "entry_s list \<Rightarrow> mtree" where
  "tree_of es =
    (if length es \<le> 1 then Leaf (hd es)
     else let k = largest_power_of_two (length es - 1)
          in Node (tree_of (take k es)) (tree_of (drop k es)))"
  by pat_completeness auto
termination
proof (relation "measure length")
  fix es :: "entry_s list" and k
  assume "\<not> length es \<le> 1" and k: "k = largest_power_of_two (length es - 1)"
  then have "1 < length es" by simp
  from split_bounds [OF this] k
  show "(take k es, es) \<in> measure length" "(drop k es, es) \<in> measure length" by auto
qed simp

declare tree_of.simps [simp del]

lemma tree_of_single [simp]: "tree_of [e] = Leaf e"
  by (subst tree_of.simps) simp

lemma tree_of_split:
  assumes "\<not> length es \<le> 1"
  defines "k \<equiv> largest_power_of_two (length es - 1)"
  shows "tree_of es = Node (tree_of (take k es)) (tree_of (drop k es))"
  using assms by (subst tree_of.simps) (simp add: Let_def)

lemma mth_tree_of: "es \<noteq> [] \<Longrightarrow> mth sha es = mt_hash sha (tree_of es)"
proof (induction es rule: tree_of.induct)
  case (1 es)
  show ?case
  proof (cases "length es \<le> 1")
    case True
    then show ?thesis using 1 by (cases es) (simp_all add: mth.simps [of _ "[_]"])
  next
    case False
    define k where "k = largest_power_of_two (length es - 1)"
    have k: "0 < k" "k < length es" using split_bounds [of "length es"] False k_def by auto
    have "mth sha (take k es) = mt_hash sha (tree_of (take k es))"
         "mth sha (drop k es) = mt_hash sha (tree_of (drop k es))"
      using "1.IH" "1.prems" False k_def k by auto
    moreover have "mth sha es = hash_nodes sha (mth sha (take k es)) (mth sha (drop k es))"
      using False by (subst mth.simps) (auto simp: k_def Let_def)
    ultimately show ?thesis
      using tree_of_split [OF False] by (simp add: k_def)
  qed
qed


section \<open>What an accepted proof says\<close>

text \<open>
  Every byte string that is hashed to compute the root of a tree, or to check a proof. The
  theorems below assume that SHA-256 has no collision among these strings, and nothing of any
  other string.
\<close>

primrec tree_inputs :: "(u8 list \<Rightarrow> u8 list) \<Rightarrow> mtree \<Rightarrow> u8 list set" where
  "tree_inputs sha (Leaf e) = {[0] @ entry_bytes e}"
| "tree_inputs sha (Node l r) =
     {[1] @ mt_hash sha l @ mt_hash sha r} \<union> tree_inputs sha l \<union> tree_inputs sha r"

definition root_inputs :: "(u8 list \<Rightarrow> u8 list) \<Rightarrow> entry_s list \<Rightarrow> u8 list set" where
  "root_inputs sha es = (if es = [] then {[]} else tree_inputs sha (tree_of es))"

fun loop_inputs :: "(u8 list \<Rightarrow> u8 list) \<Rightarrow> proof_s list \<Rightarrow> u8 list \<Rightarrow> u8 list set" where
  "loop_inputs sha [] digest = {}"
| "loop_inputs sha (p # ps) digest =
     (let s = [1] @ (if p_op p = 76 then p_digest p @ digest else digest @ p_digest p)
      in {s} \<union> loop_inputs sha ps (sha s))"

definition proof_inputs ::
    "(u8 list \<Rightarrow> u8 list) \<Rightarrow> entry_s \<Rightarrow> proof_s list \<Rightarrow> u8 list set" where
  "proof_inputs sha e ps = {[0] @ entry_bytes e} \<union> loop_inputs sha ps (hash_entry sha e)"

text \<open>
  \<open>fair sha es e ps\<close>: digests have the size the code declares, the number of proof nodes
  fits \<open>size_t\<close>, and checking \<open>ps\<close> for \<open>e\<close>
  does not exhibit a collision with the hashes of the tree over \<open>es\<close>.
\<close>

definition fair ::
    "(u8 list \<Rightarrow> u8 list) \<Rightarrow> entry_s list \<Rightarrow> entry_s \<Rightarrow> proof_s list \<Rightarrow> bool" where
  "fair sha es e ps \<longleftrightarrow>
     (\<forall>x. length (sha x) = 32) \<and> (\<forall>p \<in> set ps. length (p_digest p) = 32) \<and>
     length ps < 2 ^ 32 \<and>
     inj_on sha (root_inputs sha es \<union> proof_inputs sha e ps)"

text \<open>A proof, read from the root down, is a path to a leaf with the hashes of the siblings.\<close>

fun is_path :: "(u8 list \<Rightarrow> u8 list) \<Rightarrow> proof_s list \<Rightarrow> entry_s \<Rightarrow> mtree \<Rightarrow> bool" where
  "is_path sha [] e T = (T = Leaf e)"
| "is_path sha (p # qs) e (Leaf e') = False"
| "is_path sha (p # qs) e (Node l r) =
     (if p_op p = 76 then p_digest p = mt_hash sha l \<and> is_path sha qs e r
      else p_digest p = mt_hash sha r \<and> is_path sha qs e l)"

text \<open>The tree with the leaf at the end of the path replaced.\<close>

fun set_path :: "proof_s list \<Rightarrow> entry_s \<Rightarrow> mtree \<Rightarrow> mtree" where
  "set_path [] e T = Leaf e"
| "set_path (p # qs) e (Leaf e') = Leaf e'"
| "set_path (p # qs) e (Node l r) =
     (if p_op p = 76 then Node l (set_path qs e r) else Node (set_path qs e l) r)"

lemma proof_loop_snoc:
  "proof_loop sha (ps @ [p]) d =
    (if p_op p = 76 then hash_nodes sha (p_digest p) (proof_loop sha ps d)
     else hash_nodes sha (proof_loop sha ps d) (p_digest p))"
  by (induction ps arbitrary: d) auto

lemma loop_inputs_snoc:
  "loop_inputs sha (ps @ [p]) d = loop_inputs sha ps d \<union>
    {[1] @ (if p_op p = 76 then p_digest p @ proof_loop sha ps d
            else proof_loop sha ps d @ p_digest p)}"
  by (induction ps arbitrary: d) (auto simp: Let_def hash_nodes_def)

lemma entry_bytes_inject: "entry_bytes e = entry_bytes e' \<longleftrightarrow> e = (e' :: entry_s)"
  by (auto simp: entry_bytes_def intro: entry_s.equality)

lemma length_mt_hash: "\<forall>x. length (sha x) = n \<Longrightarrow> length (mt_hash sha T) = n"
  by (cases T) (auto simp: hash_entry_def hash_nodes_def)

lemma length_proof_loop:
  "\<forall>x. length (sha x) = n \<Longrightarrow> length d = n \<Longrightarrow> length (proof_loop sha ps d) = n"
  by (induction ps arbitrary: d) (auto simp: hash_nodes_def)

text \<open>Read bottom up, the list ends at the root; hence the induction from the end.\<close>

lemma path_sound:
  assumes "proof_loop sha ps (hash_entry sha e) = mt_hash sha T"
    and "\<forall>x. length (sha x) = 32" "\<forall>p \<in> set ps. length (p_digest p) = 32"
    and "inj_on sha (tree_inputs sha T \<union> proof_inputs sha e ps)"
  shows "is_path sha (rev ps) e T"
  using assms(1,3,4)
proof (induction ps arbitrary: T rule: rev_induct)
  case Nil
  then show ?case
  proof (cases T)
    case (Leaf e')
    then have "entry_bytes e = entry_bytes e'"
      using Nil(1) inj_onD [OF Nil(3), of "[0] @ entry_bytes e" "[0] @ entry_bytes e'"]
      by (simp add: hash_entry_def proof_inputs_def)
    then show ?thesis by (simp add: Leaf entry_bytes_inject)
  next
    case (Node l r)
    then show ?thesis
      using Nil(1) inj_onD [OF Nil(3), of "[0] @ entry_bytes e" "[1] @ mt_hash sha l @ mt_hash sha r"]
      by (simp add: hash_entry_def hash_nodes_def proof_inputs_def)
  qed
next
  case (snoc p ps)
  let ?d = "proof_loop sha ps (hash_entry sha e)"
  let ?s = "[1] @ (if p_op p = 76 then p_digest p @ ?d else ?d @ p_digest p)"
  have hd: "sha ?s = mt_hash sha T"
    using snoc.prems(1) by (auto simp: proof_loop_snoc hash_nodes_def)
  have mem: "?s \<in> proof_inputs sha e (ps @ [p])"
    by (simp add: proof_inputs_def loop_inputs_snoc)
  show ?case
  proof (cases T)
    case (Leaf e')
    then show ?thesis
      using hd mem inj_onD [OF snoc.prems(3), of ?s "[0] @ entry_bytes e'"]
      by (simp add: hash_entry_def)
  next
    case (Node l r)
    have "?s = [1] @ mt_hash sha l @ mt_hash sha r"
      using hd mem Node inj_onD [OF snoc.prems(3), of ?s "[1] @ mt_hash sha l @ mt_hash sha r"]
      by (simp add: hash_nodes_def)
    moreover have "length (mt_hash sha l) = 32" "length (p_digest p) = 32" "length ?d = 32"
      using assms(2) snoc.prems(2)
      by (simp_all add: length_mt_hash length_proof_loop hash_entry_def)
    ultimately have eqs: "if p_op p = 76 then p_digest p = mt_hash sha l \<and> ?d = mt_hash sha r
        else ?d = mt_hash sha l \<and> p_digest p = mt_hash sha r"
      by (auto split: if_splits)
    have "inj_on sha (tree_inputs sha r \<union> proof_inputs sha e ps)"
         "inj_on sha (tree_inputs sha l \<union> proof_inputs sha e ps)"
      using snoc.prems(3) Node
      by (auto simp: proof_inputs_def loop_inputs_snoc elim!: inj_on_subset)
    then show ?thesis
      using eqs snoc.IH [of l] snoc.IH [of r] snoc.prems(2) Node by (auto split: if_splits)
  qed
qed

lemma set_path_hash:
  "is_path sha qs e T \<Longrightarrow>
    proof_loop sha (rev qs) (hash_entry sha e') = mt_hash sha (set_path qs e' T)"
  by (induction sha qs e T rule: is_path.induct) (auto simp: proof_loop_snoc split: if_splits)

lemma set_path_same: "is_path sha qs e T \<Longrightarrow> set_path qs e T = T"
  by (induction sha qs e T rule: is_path.induct) (auto split: if_splits)

lemma path_complete:
  "is_path sha qs e T \<Longrightarrow> proof_loop sha (rev qs) (hash_entry sha e) = mt_hash sha T"
  by (metis set_path_hash set_path_same)


section \<open>Paths in the tree over a list of entries\<close>

lemma length_1_hd: "es \<noteq> [] \<Longrightarrow> length es \<le> 1 \<Longrightarrow> es = [hd es]"
  by (cases es) auto

lemma tree_of_update_split:
  assumes "1 < length es" and "k = largest_power_of_two (length es - 1)"
  shows "tree_of (es[i := x]) =
    (if i < k then Node (tree_of ((take k es)[i := x])) (tree_of (drop k es))
     else Node (tree_of (take k es)) (tree_of ((drop k es)[i - k := x])))"
  using assms tree_of_split [of "es[i := x]"]
  by (auto simp: take_update_swap drop_update_swap drop_update_cancel list_update_beyond)

lemma is_path_index:
  "es \<noteq> [] \<Longrightarrow> is_path sha qs e (tree_of es) \<Longrightarrow>
    \<exists>i < length es. es ! i = e \<and> (\<forall>e'. set_path qs e' (tree_of es) = tree_of (es[i := e']))"
proof (induction es arbitrary: qs rule: tree_of.induct)
  case (1 es)
  show ?case
  proof (cases "length es \<le> 1")
    case True
    then obtain x where es: "es = [x]" using "1.prems"(1) length_1_hd by blast
    then have "qs = [] \<and> e = x" using 1(4) by (cases qs) auto
    then show ?thesis by (simp add: es)
  next
    case False
    define k where "k = largest_power_of_two (length es - 1)"
    have k: "0 < k" "k < length es" using split_bounds [of "length es"] False k_def by auto
    have T: "tree_of es = Node (tree_of (take k es)) (tree_of (drop k es))"
      using tree_of_split [OF False] k_def by simp
    have ne: "take k es \<noteq> []" "drop k es \<noteq> []" using k by auto
    from 1(4) T obtain p qs' where qs: "qs = p # qs'" by (cases qs) auto
    show ?thesis
    proof (cases "p_op p = 76")
      case True
      then have "is_path sha qs' e (tree_of (drop k es))" using 1(4) T qs by simp
      then obtain i where "i < length (drop k es)" "drop k es ! i = e"
        "\<And>e'. set_path qs' e' (tree_of (drop k es)) = tree_of ((drop k es)[i := e'])"
        using "1.IH"(2) [OF False k_def _ \<open>is_path sha qs' e (tree_of (drop k es))\<close>] ne by blast
      then show ?thesis
        using tree_of_update_split [OF _ k_def] False T qs True k
        by (intro exI [of _ "k + i"]) (auto simp: add.commute)
    next
      case nL: False
      then have "is_path sha qs' e (tree_of (take k es))" using 1(4) T qs by simp
      then obtain i where "i < length (take k es)" "take k es ! i = e"
        "\<And>e'. set_path qs' e' (tree_of (take k es)) = tree_of ((take k es)[i := e'])"
        using "1.IH"(1) [OF False k_def _ \<open>is_path sha qs' e (tree_of (take k es))\<close>] ne by blast
      then show ?thesis
        using tree_of_update_split [OF _ k_def] False T qs nL k
        by (intro exI [of _ i]) auto
    qed
  qed
qed

lemma is_path_mem: "es \<noteq> [] \<Longrightarrow> is_path sha qs e (tree_of es) \<Longrightarrow> e \<in> set es"
  using is_path_index by (metis nth_mem)

lemma mt_path_is_path:
  "m < length es \<Longrightarrow> is_path sha (rev (mt_path sha m es)) (es ! m) (tree_of es)"
proof (induction sha m es rule: mt_path.induct)
  case (1 sha m es)
  show ?case
  proof (cases "length es \<le> 1")
    case True
    then obtain x where "es = [x]" "m = 0" using "1.prems" by (cases es) auto
    then show ?thesis by (simp add: mt_path.simps)
  next
    case False
    define k where "k = largest_power_of_two (length es - 1)"
    have k: "0 < k" "k < length es" using split_bounds [of "length es"] False k_def by auto
    have T: "tree_of es = Node (tree_of (take k es)) (tree_of (drop k es))"
      using tree_of_split [OF False] k_def by simp
    have ne: "take k es \<noteq> []" "drop k es \<noteq> []" using k by auto
    show ?thesis
    proof (cases "m < k")
      case True
      then show ?thesis
        using "1.IH"(1) [OF False k_def True] k False ne
        by (subst mt_path.simps) (simp add: T k_def [symmetric] Let_def mth_tree_of del: One_nat_def)
    next
      case ge: False
      then show ?thesis
        using "1.IH"(2) [OF False k_def ge] k False ne "1.prems"
        by (subst mt_path.simps) (simp add: T k_def [symmetric] Let_def mth_tree_of del: One_nat_def)
    qed
  qed
qed

section \<open>Appending an entry\<close>

fun pop :: "nat \<Rightarrow> nat" where
  "pop n = (if n = 0 then 0 else n mod 2 + pop (n div 2))"

declare pop.simps [simp del]

lemma pop_power: "m < 2 ^ k \<Longrightarrow> pop (2 ^ k + m) = 1 + pop m"
proof (induction k arbitrary: m)
  case 0
  then show ?case by (simp add: pop.simps [of "Suc 0"] pop.simps [of 0])
next
  case (Suc k)
  have "(2 ^ Suc k + m) mod 2 = m mod 2" "(2 ^ Suc k + m) div 2 = 2 ^ k + m div 2"
    by (simp_all add: mod_add_left_eq)
  moreover have "m div 2 < 2 ^ k" using Suc.prems by auto
  ultimately show ?case
    using Suc.IH [of "m div 2"] by (subst pop.simps) (auto simp: pop.simps [of m] pop.simps [of 0])
qed

lemma pop_le: "n < 2 ^ k \<Longrightarrow> pop n \<le> k"
proof (induction k arbitrary: n)
  case 0
  then show ?case by (simp add: pop.simps)
next
  case (Suc k)
  then have "pop (n div 2) \<le> k" by auto
  moreover have "n mod 2 \<le> 1" by auto
  ultimately show ?case by (subst pop.simps) auto
qed

lemma pop_pos: "0 < n \<Longrightarrow> 0 < pop n"
proof (induction n rule: pop.induct)
  case (1 n)
  then show ?case by (subst pop.simps) (cases "n mod 2 = 0"; auto)
qed

lemma bit_count_loop: "bit_count_loop x cnt = cnt + of_nat (pop (unat x))"
proof (induction x cnt rule: bit_count_loop.induct)
  case (1 x cnt)
  show ?case
  proof (cases "x = 0")
    case True
    then show ?thesis by (subst bit_count_loop.simps) (simp add: pop.simps)
  next
    case False
    then have p: "0 < unat x" by (simp add: unat_gt_0)
    have "unat (drop_bit 1 x) = unat x div 2"
      by (simp add: unsigned_drop_bit_eq drop_bit_Suc unat_div_distrib)
    moreover have "x AND 1 = of_nat (unat x mod 2)"
    proof -
      have "unat (x AND 1) = unat x mod 2" by (simp add: and_one_eq unat_mod_distrib)
      then have "of_nat (unat (x AND 1)) = (of_nat (unat x mod 2) :: u32)" by (rule arg_cong)
      then show ?thesis by simp
    qed
    ultimately show ?thesis
      using False p "1.IH" by (subst bit_count_loop.simps, subst pop.simps) simp
  qed
qed

lemma unat_bit_count: "unat (bit_count x) = pop (unat x)"
proof -
  have "pop (unat x) \<le> 32"
    by (rule pop_le) (use unsigned_less [of x, where 'a = nat] in simp)
  then have "pop (unat x) < 2 ^ LENGTH(32)" by simp
  then show ?thesis by (simp only: bit_count_def bit_count_loop add_0 unat_of_nat mod_less)
qed


text \<open>
  The path to the last entry runs down the right spine. Its first \<open>pop n - 1\<close> nodes join
  complete subtrees of different sizes; below them is the complete subtree that the appended
  leaf is joined to. This is the \<open>tree_level\<close> of \<open>merkle_insert\<close>.
\<close>

lemma append_spine:
  "es \<noteq> [] \<Longrightarrow> distinct es \<Longrightarrow> is_path sha qs (last es) (tree_of es) \<Longrightarrow>
   m = pop (length es) - 1 \<Longrightarrow>
   m \<le> length qs \<and>
   mt_hash sha (tree_of (es @ [e])) =
     proof_loop sha (rev (take m qs))
       (hash_nodes sha (proof_loop sha (rev (drop m qs)) (hash_entry sha (last es)))
         (hash_entry sha e))"
proof (induction es arbitrary: qs m rule: tree_of.induct)
  case (1 es)
  define n where "n = length es"
  have len: "proof_loop sha (rev qs) (hash_entry sha (last es)) = mt_hash sha (tree_of es)"
    using path_complete "1.prems"(3) by blast
  have n0: "0 < n" using "1.prems"(1) n_def by simp
  have app: "tree_of (es @ [e]) =
      Node (tree_of (take j (es @ [e]))) (tree_of (drop j (es @ [e])))"
    if "j = largest_power_of_two n" for j
    using tree_of_split [of "es @ [e]"] that n0 n_def by simp
  obtain j where "largest_power_of_two n = 2 ^ j" using largest_power_of_two_is_power by blast
  then have j: "2 ^ j \<le> n" "n < 2 * 2 ^ j" "largest_power_of_two n = 2 ^ j"
    using largest_power_of_two_bounds [OF n0] by auto
  show ?case
  proof (cases "n = 2 ^ j")
    case True
    then have "m = 0" using "1.prems"(4) pop_power [of 0 j] by (simp add: n_def pop.simps [of 0])
    moreover have "tree_of (es @ [e]) = Node (tree_of es) (Leaf e)"
      using app [of "2 ^ j"] j True n_def by simp
    ultimately show ?thesis using len by simp
  next
    case False
    then have kn: "2 ^ j < n" using j by simp
    then have big: "\<not> length es \<le> 1"
      unfolding n_def [symmetric] using one_le_power [of "2 :: nat" j] by linarith
    define k where "k = largest_power_of_two (length es - 1)"
    have k: "k = 2 ^ j"
      using largest_power_of_two_eqI [of j "n - 1"] kn j by (simp add: k_def n_def)
    have T: "tree_of es = Node (tree_of (take k es)) (tree_of (drop k es))"
      using tree_of_split [OF big] k_def by simp
    have ne: "take k es \<noteq> []" "drop k es \<noteq> []" using k kn n_def by auto
    obtain p qs' where qs: "qs = p # qs'" using "1.prems"(3) T by (cases qs) auto
    have lst: "last es = last (drop k es)" using ne by (simp add: last_drop)
    have "last es \<notin> set (take k es)"
      using "1.prems"(2) ne lst by (metis append_take_drop_id disjoint_iff distinct_append last_in_set)
    then have "\<not> is_path sha qs' (last es) (tree_of (take k es))"
      using is_path_mem ne(1) by blast
    then have p: "p_op p = 76" "p_digest p = mt_hash sha (tree_of (take k es))"
        "is_path sha qs' (last (drop k es)) (tree_of (drop k es))"
      using "1.prems"(3) T qs lst by (auto split: if_splits)
    have d: "length (drop k es) = n - k" by (simp add: n_def)
    have "n - k < 2 ^ j" using j k by simp
    then have popn: "pop n = 1 + pop (n - k)" using pop_power [of "n - k" j] kn k by simp
    have m: "m = 1 + (pop (length (drop k es)) - 1)"
      using "1.prems"(4) popn pop_pos [of "n - k"] kn k by (simp add: n_def)
    define m' where "m' = pop (length (drop k es)) - 1"
    have mm: "m = Suc m'" using m m'_def by simp
    have ih: "m' \<le> length qs' \<and> mt_hash sha (tree_of (drop k es @ [e])) =
        proof_loop sha (rev (take m' qs')) (hash_nodes sha
          (proof_loop sha (rev (drop m' qs')) (hash_entry sha (last (drop k es)))) (hash_entry sha e))"
      using "1.IH"(2) [OF big k_def ne(2) _ p(3) m'_def] "1.prems"(2) by simp
    have "tree_of (es @ [e]) = Node (tree_of (take k es)) (tree_of (drop k es @ [e]))"
      using app [of k] j k kn n_def by simp
    then show ?thesis using ih p mm qs lst by (simp add: proof_loop_snoc)
  qed
qed

section \<open>The device's context represents a list of counters\<close>

text \<open>
  The context stands for the entries \<open>es\<close>: their tree has the root hash, their number is the
  size, and the last one is the last entry. No address has two entries.
\<close>

definition mt_rep :: "(u8 list \<Rightarrow> u8 list) \<Rightarrow> merkle_tree_ctx_s \<Rightarrow> entry_s list \<Rightarrow> bool" where
  "mt_rep sha ctx es \<longleftrightarrow>
     root_hash ctx = mth sha es \<and> unat (mt_n ctx) = length es \<and>
     (es \<noteq> [] \<longrightarrow> last_entry ctx = last es) \<and> distinct (map e_addr es)"

lemma proof_hash_entry: "proof_hash sha (Some e) ps d = proof_loop sha ps (hash_entry sha e)"
  by (simp add: proof_hash_def)

lemma root_no_nil:
  assumes "fair sha [] e ps"
  shows "proof_loop sha ps (hash_entry sha e) \<noteq> sha []"
proof -
  have "\<exists>s. s \<noteq> [] \<and> s \<in> proof_inputs sha e ps \<and> proof_loop sha ps (hash_entry sha e) = sha s"
  proof (cases ps rule: rev_cases)
    case Nil
    then show ?thesis by (auto simp: hash_entry_def proof_inputs_def)
  next
    case (snoc qs p)
    then show ?thesis
      by (intro exI [of _ "[1] @ (if p_op p = 76 then p_digest p @ proof_loop sha qs (hash_entry sha e)
            else proof_loop sha qs (hash_entry sha e) @ p_digest p)"])
        (simp add: proof_inputs_def loop_inputs_snoc proof_loop_snoc hash_nodes_def)
  qed
  then show ?thesis using assms by (auto simp: fair_def root_inputs_def inj_on_def)
qed

text \<open>An accepted proof is a path to that entry in the tree the context stands for.\<close>

lemma verify_path:
  assumes "mt_rep sha ctx es" "fair sha es e ps"
    and "proof_hash sha (Some e) ps d = root_hash ctx"
  shows "es \<noteq> [] \<and> is_path sha (rev ps) e (tree_of es)"
proof -
  have eq: "proof_loop sha ps (hash_entry sha e) = mth sha es"
    using assms by (simp add: mt_rep_def proof_hash_entry)
  have ne: "es \<noteq> []" using root_no_nil assms(2) eq by (auto simp: mth.simps)
  then show ?thesis
    using assms(2) eq path_sound [of sha ps e "tree_of es"]
    by (auto simp: fair_def root_inputs_def mth_tree_of)
qed


lemma merkle_verify_path:
  assumes "mt_rep sha ctx es" "fair sha es e ps" "merkle_verify_proof sha e ps ctx"
  shows "es \<noteq> [] \<and> is_path sha (rev ps) e (tree_of es)"
  using verify_path assms by (simp add: merkle_verify_proof_def)

lemma merkle_update_rep:
  assumes "mt_rep sha ctx es" "fair sha es old ps" "e_addr new = e_addr old"
    and "merkle_update sha old new ps ctx = (ok, ctx')"
  shows "if ok then \<exists>i < length es. es ! i = old \<and> mt_rep sha ctx' (es[i := new]) else ctx' = ctx"
proof (cases "merkle_verify_proof sha old ps ctx")
  case False
  then show ?thesis using assms(4) by (simp add: merkle_update_def)
next
  case True
  from merkle_verify_path [OF assms(1,2) True]
  have ne: "es \<noteq> []" and path: "is_path sha (rev ps) old (tree_of es)" by auto
  from is_path_index [OF this] obtain i where i: "i < length es" "es ! i = old"
    "set_path (rev ps) new (tree_of es) = tree_of (es[i := new])" by auto
  have root: "proof_hash sha (Some new) ps [] = mth sha (es[i := new])"
    using set_path_hash [OF path, of new] i(3) ne by (simp add: proof_hash_entry mth_tree_of)
  have last: "last (es[i := new]) = (if last es = old then new else last es)"
  proof (cases "i = length es - 1")
    case True
    then show ?thesis using i ne by (simp add: last_list_update last_conv_nth)
  next
    case False
    moreover have "distinct es" using assms(1) by (simp add: mt_rep_def distinct_map)
    ultimately have "es ! (length es - 1) \<noteq> es ! i"
      using i(1) ne nth_eq_iff_index_eq [of es "length es - 1" i] by auto
    then show ?thesis using i ne False by (simp add: last_list_update last_conv_nth)
  qed
  have "map e_addr (es[i := new]) = map e_addr es"
    using i assms(3) by (simp add: map_update list_update_same_conv)
  then show ?thesis
    using assms(1,4) True root last i(1,2)
    by (auto simp: merkle_update_def mt_rep_def Let_def intro!: exI [of _ i])
qed

lemma merkle_insert_rep:
  assumes "mt_rep sha ctx es" "es \<noteq> [] \<longrightarrow> fair sha es (last es) ps"
    and "e_addr e \<notin> e_addr ` set es"
    and "merkle_insert sha e ps ctx = (ok, ctx')"
  shows "if ok then mt_rep sha ctx' (es @ [e]) else ctx' = ctx"
proof (cases "es = []")
  case True
  then show ?thesis
    using assms by (auto simp: merkle_insert_def mt_rep_def mth.simps [of _ "[_]"] unat_eq_zero)
next
  case False
  have n: "unat (mt_n ctx) = length es" and l: "last_entry ctx = last es"
    and dist: "distinct es" "distinct (map e_addr es)"
    using assms(1) False by (auto simp: mt_rep_def distinct_map)
  define lvl where "lvl = (of_nat (length ps) :: u32) - (bit_count (mt_n ctx) - 1)"
  have n0: "mt_n ctx \<noteq> 0" using n False by auto
  show ?thesis
  proof (cases "ok")
    case False
    then show ?thesis using assms(4) n0
      by (auto simp: merkle_insert_def Let_def split: if_splits)
  next
    case True
    then have c: "mt_n ctx \<noteq> 0xffffffff" "\<not> lvl > of_nat (length ps)"
      "proof_hash sha (Some (last es)) ps [] = root_hash ctx"
      and ctx': "ctx' = ctx\<lparr>root_hash := proof_hash sha None (drop (unat lvl) ps)
          (hash_nodes sha (proof_loop sha (take (unat lvl) ps) (hash_entry sha (last es))) (hash_entry sha e)),
        last_entry := e, mt_n := mt_n ctx + 1\<rparr>"
      using assms(4) n0 l
      by (auto simp: merkle_insert_def Let_def lvl_def proof_hash_def split: if_splits)
    define m where "m = pop (length es) - 1"
    have "is_path sha (rev ps) (last es) (tree_of es)"
      using verify_path [OF assms(1)] assms(2) False c(3) by blast
    from append_spine [OF False dist(1) this m_def]
    have m: "m \<le> length ps" and root: "mt_hash sha (tree_of (es @ [e])) =
        proof_loop sha (rev (take m (rev ps))) (hash_nodes sha
          (proof_loop sha (rev (drop m (rev ps))) (hash_entry sha (last es))) (hash_entry sha e))"
      by auto
    have "unat (bit_count (mt_n ctx)) = Suc m"
      using pop_pos [of "length es"] False by (simp add: unat_bit_count n m_def)
    then have "unat (bit_count (mt_n ctx) - 1) = m"
      by (subst unat_sub) (simp_all add: word_le_nat_alt)
    moreover have "unat (of_nat (length ps) :: u32) = length ps"
      using assms(2) False by (simp add: unat_of_nat fair_def)
    ultimately have lvl: "unat lvl = length ps - m"
      using m by (simp add: lvl_def unat_sub word_le_nat_alt)
    have "root_hash ctx' = mth sha (es @ [e])"
      using root lvl m by (simp add: ctx' mth_tree_of proof_hash_def take_rev drop_rev)
    moreover have "unat (mt_n ctx + 1) = length (es @ [e])"
      using c(1) n by (simp add: unat_succ)
    ultimately show ?thesis
      using True assms(3) dist by (auto simp: mt_rep_def ctx')
  qed
qed

lemma mt_path_verifies:
  assumes "mt_rep sha ctx es" "m < length es"
  shows "merkle_verify_proof sha (es ! m) (mt_path sha m es) ctx"
proof -
  have "es \<noteq> []" using assms(2) by auto
  then show ?thesis
    using path_complete [OF mt_path_is_path [OF assms(2), of sha]] assms(1)
    by (simp add: merkle_verify_proof_def proof_hash_entry mt_rep_def mth_tree_of)
qed


section \<open>The contract the pager relies on\<close>

text \<open>
  \<open>counters es\<close> is what the tree is for: the counter last committed for each page address.
\<close>

definition counters :: "entry_s list \<Rightarrow> u32 \<rightharpoonup> u32" where
  "counters es = map_of (map (\<lambda>e. (e_addr e, e_iv e)) es)"

text \<open>The list with the entry of one address replaced.\<close>

definition replace_entry :: "entry_s \<Rightarrow> entry_s list \<Rightarrow> entry_s list" where
  "replace_entry new es = map (\<lambda>e. if e_addr e = e_addr new then new else e) es"

lemma counters_replace:
  assumes "e_addr new \<in> e_addr ` set es"
  shows "counters (replace_entry new es) = (counters es)(e_addr new \<mapsto> e_iv new)"
proof
  fix a
  have "counters (replace_entry new es) a =
      (if a = e_addr new then if a \<in> e_addr ` set es then Some (e_iv new) else None
       else counters es a)" for es
    by (induction es) (auto simp: counters_def replace_entry_def)
  then show "counters (replace_entry new es) a = ((counters es)(e_addr new \<mapsto> e_iv new)) a"
    using assms by simp
qed

lemma list_update_replace:
  assumes "distinct (map e_addr es)" "i < length es" "e_addr (es ! i) = e_addr new"
  shows "es[i := new] = replace_entry new es"
proof (rule nth_equalityI)
  fix j assume j: "j < length (es[i := new])"
  then have "i \<noteq> j \<Longrightarrow> e_addr (es ! j) \<noteq> e_addr new"
    using assms unfolding distinct_conv_nth by (metis length_list_update length_map nth_map)
  then show "es[i := new] ! j = replace_entry new es ! j"
    using j assms by (auto simp: replace_entry_def nth_list_update)
qed (simp add: replace_entry_def)

text \<open>
  The interface of a replay-protected store, as its client (\<open>stream.c\<close>) uses it: \<open>rep\<close>
  relates a context to the entries it stands for, \<open>okp\<close> says that a proof shows no collision.
\<close>

locale replay_protection =
  fixes rep :: "'c \<Rightarrow> entry_s list \<Rightarrow> bool"
    and okp :: "entry_s list \<Rightarrow> entry_s \<Rightarrow> 'p \<Rightarrow> bool"
    and verify_op :: "entry_s \<Rightarrow> 'p \<Rightarrow> 'c \<Rightarrow> bool"
    and update_op :: "entry_s \<Rightarrow> entry_s \<Rightarrow> 'p \<Rightarrow> 'c \<Rightarrow> bool \<times> 'c"
    and insert_op :: "entry_s \<Rightarrow> 'p \<Rightarrow> 'c \<Rightarrow> bool \<times> 'c"
  assumes rep_distinct: "rep c es \<Longrightarrow> distinct (map e_addr es)"
    and verify_law: "rep c es \<Longrightarrow> okp es e p \<Longrightarrow> verify_op e p c \<Longrightarrow> e \<in> set es"
    and update_law: "rep c es \<Longrightarrow> okp es old p \<Longrightarrow> e_addr new = e_addr old \<Longrightarrow>
      update_op old new p c = (ok, c') \<Longrightarrow>
      if ok then \<exists>i < length es. es ! i = old \<and> rep c' (es[i := new]) else c' = c"
    and insert_law: "rep c es \<Longrightarrow> es \<noteq> [] \<longrightarrow> okp es (last es) p \<Longrightarrow>
      e_addr e \<notin> e_addr ` set es \<Longrightarrow> insert_op e p c = (ok, c') \<Longrightarrow>
      if ok then rep c' (es @ [e]) else c' = c"
begin

lemma counters_Some: "rep c es \<Longrightarrow> counters es a = Some v \<longleftrightarrow> \<lparr>e_addr = a, e_iv = v\<rparr> \<in> set es"
  using rep_distinct [of c es]
  by (auto simp: counters_def comp_def image_iff intro!: bexI [of _ "\<lparr>e_addr = a, e_iv = v\<rparr>"])

text \<open>A verified entry is the address's current counter: a replayed one is rejected.\<close>

lemma verified_counter:
  assumes "rep c es" "okp es e p" "verify_op e p c"
  shows "counters es (e_addr e) = Some (e_iv e)"
  using counters_Some [OF assms(1), of "e_addr e" "e_iv e"] verify_law [OF assms]
  by (simp add: entry_s.surjective [symmetric])

lemma updated_counters:
  assumes "rep c es" "okp es old p" "e_addr new = e_addr old" "update_op old new p c = (True, c')"
  shows "rep c' (replace_entry new es) \<and> counters es (e_addr old) = Some (e_iv old) \<and>
    counters (replace_entry new es) = (counters es)(e_addr old \<mapsto> e_iv new)"
proof -
  obtain i where i: "i < length es" "es ! i = old" "rep c' (es[i := new])"
    using update_law [OF assms] by auto
  have "es[i := new] = replace_entry new es"
    by (rule list_update_replace) (use i assms(3) rep_distinct [OF assms(1)] in auto)
  moreover have mem: "old \<in> set es" using i(1,2) nth_mem by blast
  moreover have "counters es (e_addr old) = Some (e_iv old)"
    using counters_Some [OF assms(1)] mem by simp
  moreover have "e_addr new \<in> e_addr ` set es" using mem assms(3) by auto
  ultimately show ?thesis using i(3) assms(3) by (simp add: counters_replace)
qed

lemma inserted_counters:
  assumes "rep c es" "es \<noteq> [] \<longrightarrow> okp es (last es) p" "counters es (e_addr e) = None"
    and "insert_op e p c = (True, c')"
  shows "rep c' (es @ [e]) \<and> counters (es @ [e]) = (counters es)(e_addr e \<mapsto> e_iv e)"
proof -
  have new: "e_addr e \<notin> e_addr ` set es"
    using assms(3) by (auto simp: counters_def map_of_eq_None_iff image_iff)
  have "rep c' (es @ [e])" using insert_law [OF assms(1,2) new assms(4)] by simp
  moreover have "counters (es @ [e]) a = ((counters es)(e_addr e \<mapsto> e_iv e)) a" for a
    using assms(3) by (auto simp: counters_def map_add_def split: option.splits)
  ultimately show ?thesis by blast
qed

end

text \<open>\<open>merkle.c\<close> keeps the contract.\<close>

interpretation mt: replay_protection
    "mt_rep sha" "fair sha" "merkle_verify_proof sha" "merkle_update sha" "merkle_insert sha"
  for sha
proof
  fix c c' es e old new ps ok
  show "mt_rep sha c es \<Longrightarrow> distinct (map e_addr es)" by (simp add: mt_rep_def)
  show "e \<in> set es"
    if "mt_rep sha c es" "fair sha es e ps" "merkle_verify_proof sha e ps c"
    using merkle_verify_path [OF that] is_path_mem by blast
  show "if ok then \<exists>i < length es. es ! i = old \<and> mt_rep sha c' (es[i := new]) else c' = c"
    if "mt_rep sha c es" "fair sha es old ps" "e_addr new = e_addr old"
      "merkle_update sha old new ps c = (ok, c')"
    using merkle_update_rep [OF that] .
  show "if ok then mt_rep sha c' (es @ [e]) else c' = c"
    if "mt_rep sha c es" "es \<noteq> [] \<longrightarrow> fair sha es (last es) ps" "e_addr e \<notin> e_addr ` set es"
      "merkle_insert sha e ps c = (ok, c')"
    using merkle_insert_rep [OF that] .
qed


section \<open>Properties\<close>

text \<open>
  C7: an accepted proof is about the present. If the device's context stands for the entries
  \<open>es\<close> and checking the proof exhibits no SHA-256 collision, then an entry accepted by
  \<open>merkle_verify_proof\<close> carries the counter that was last committed for its address.
\<close>

theorem merkle_verify_current:
  assumes "mt_rep sha ctx es" and "fair sha es e ps" and "merkle_verify_proof sha e ps ctx"
  shows "counters es (e_addr e) = Some (e_iv e)"
  using assms by (rule mt.verified_counter)

text \<open>
  C8: a successful \<open>merkle_update\<close> replaces the counter of exactly one address, and had the
  right old counter; a failed one leaves the context as it was.
\<close>

theorem merkle_update_counters:
  assumes "mt_rep sha ctx es" and "fair sha es old ps" and "e_addr new = e_addr old"
    and "merkle_update sha old new ps ctx = (ok, ctx')"
  shows "if ok then counters es (e_addr old) = Some (e_iv old) \<and>
      mt_rep sha ctx' (replace_entry new es) \<and>
      counters (replace_entry new es) = (counters es)(e_addr old \<mapsto> e_iv new)
    else ctx' = ctx"
proof (cases ok)
  case True
  then show ?thesis using mt.updated_counters [OF assms(1-3)] assms(4) by auto
next
  case False
  then show ?thesis using merkle_update_rep [OF assms] by simp
qed

text \<open>
  C9: a successful \<open>merkle_insert\<close> of an address that has no entry appends its entry: the context, of
  which the device keeps only the root, the size and the last entry, is then the one of the tree with
  one more leaf; a failed one leaves it as it was. The digests have 32 bytes and the proof given for
  the last entry exhibits no collision (\<open>fair\<close>).
\<close>

theorem merkle_insert_appends:
  assumes "mt_rep sha ctx es" and "es \<noteq> [] \<longrightarrow> fair sha es (last es) ps"
    and "counters es (e_addr e) = None" and "merkle_insert sha e ps ctx = (ok, ctx')"
  shows "if ok then mt_rep sha ctx' (es @ [e]) \<and>
      counters (es @ [e]) = (counters es)(e_addr e \<mapsto> e_iv e)
    else ctx' = ctx"
proof (cases ok)
  case True
  then show ?thesis using mt.inserted_counters [OF assms(1-3)] assms(4) by simp
next
  case False
  have "e_addr e \<notin> e_addr ` set es"
    using assms(3) by (auto simp: counters_def map_of_eq_None_iff image_iff)
  then show ?thesis using merkle_insert_rep [OF assms(1,2) _ assms(4)] False by simp
qed

text \<open>
  C10: the device accepts the proofs of the host's tree: for every leaf, the path that
  \<open>merkletree.py\<close> computes is accepted for the leaf's entry.
\<close>

theorem merkle_host_proof_accepted:
  assumes "mt_rep sha ctx es" and "m < length es"
  shows "merkle_verify_proof sha (es ! m) (mt_path sha m es) ctx"
  using assms by (rule mt_path_verifies)

text \<open>The hypotheses hold on a tree of two entries, with a padding function as the hash.\<close>

definition pad_sha :: "u8 list \<Rightarrow> u8 list" where
  "pad_sha x = take 32 (x @ replicate 32 0)"

definition ex_entries :: "entry_s list" where
  "ex_entries = [\<lparr>e_addr = 0x100, e_iv = 3\<rparr>, \<lparr>e_addr = 0x200, e_iv = 5\<rparr>]"

definition ex_ctx :: merkle_tree_ctx_s where
  "ex_ctx = \<lparr>root_hash = mth pad_sha ex_entries, mt_n = 2, last_entry = last ex_entries\<rparr>"

definition ex_proof :: "proof_s list" where
  "ex_proof = mt_path pad_sha 1 ex_entries"

lemma ex_tree: "tree_of ex_entries =
    Node (Leaf \<lparr>e_addr = 0x100, e_iv = 3\<rparr>) (Leaf \<lparr>e_addr = 0x200, e_iv = 5\<rparr>)"
  by (simp add: ex_entries_def tree_of.simps [of "[_, _]"] largest_power_of_two.simps)

lemma ex_rep: "mt_rep pad_sha ex_ctx ex_entries"
  by (simp add: mt_rep_def ex_ctx_def ex_entries_def)

lemma ex_proof_eq:
  "ex_proof = [\<lparr>p_op = 76, p_digest = hash_entry pad_sha \<lparr>e_addr = 0x100, e_iv = 3\<rparr>\<rparr>]"
  by (simp add: ex_proof_def ex_entries_def mt_path.simps largest_power_of_two.simps
      mth.simps)

lemma nth_pad_sha: "i < length x \<Longrightarrow> i < 32 \<Longrightarrow> pad_sha x ! i = x ! i"
  by (simp add: pad_sha_def nth_append)

lemma pad_sha_inj:
  assumes "\<And>x. x \<in> S \<Longrightarrow> 3 \<le> length x" "inj_on (\<lambda>x. (x ! 0, x ! 2)) S"
  shows "inj_on pad_sha S"
proof (rule inj_onI)
  fix x y assume S: "x \<in> S" "y \<in> S" and e: "pad_sha x = pad_sha y"
  have "x ! i = y ! i" if "i < 3" for i
    using nth_pad_sha [of i x] nth_pad_sha [of i y] assms(1) S e that by force
  from this [of 0] this [of 2] show "x = y" using inj_onD [OF assms(2)] S by simp
qed

lemma ex_fair: "fair pad_sha ex_entries \<lparr>e_addr = 0x200, e_iv = 5\<rparr> ex_proof"
proof -
  let ?S = "{[1] @ hash_entry pad_sha \<lparr>e_addr = 0x100, e_iv = 3\<rparr> @
      hash_entry pad_sha \<lparr>e_addr = 0x200, e_iv = 5\<rparr>,
      [0] @ entry_bytes \<lparr>e_addr = 0x100, e_iv = 3\<rparr>, [0] @ entry_bytes \<lparr>e_addr = 0x200, e_iv = 5\<rparr>}"
  have "inj_on (\<lambda>x. (x ! 0, x ! 2)) ?S" by (simp add: inj_on_def entry_bytes_def le_bytes_4)
  then have "inj_on pad_sha ?S"
    by (rule pad_sha_inj [rotated]) (auto simp: entry_bytes_def hash_entry_def pad_sha_def)
  moreover have "root_inputs pad_sha ex_entries \<union>
      proof_inputs pad_sha \<lparr>e_addr = 0x200, e_iv = 5\<rparr> ex_proof = ?S"
    using ex_tree
    by (auto simp: root_inputs_def proof_inputs_def ex_proof_eq Let_def ex_entries_def)
  moreover have "\<forall>x. length (pad_sha x) = 32" by (auto simp: pad_sha_def)
  ultimately show ?thesis unfolding fair_def by (simp add: ex_proof_eq hash_entry_def)
qed

theorem merkle_verify_current_witness:
  "counters ex_entries 0x200 = Some 5"
proof -
  have "merkle_verify_proof pad_sha (ex_entries ! 1) (mt_path pad_sha 1 ex_entries) ex_ctx"
    by (rule mt_path_verifies [OF ex_rep]) (simp add: ex_entries_def)
  then have "merkle_verify_proof pad_sha \<lparr>e_addr = 0x200, e_iv = 5\<rparr> ex_proof ex_ctx"
    by (simp add: ex_entries_def ex_proof_def)
  from merkle_verify_current [OF ex_rep ex_fair this] show ?thesis by simp
qed

theorem merkle_host_proof_accepted_witness:
  "merkle_verify_proof pad_sha \<lparr>e_addr = 0x200, e_iv = 5\<rparr> ex_proof ex_ctx"
  using merkle_host_proof_accepted [OF ex_rep, of 1] by (simp add: ex_entries_def ex_proof_def)

theorem merkle_update_counters_witness:
  "\<exists>ctx' es'.
     merkle_update pad_sha \<lparr>e_addr = 0x200, e_iv = 5\<rparr> \<lparr>e_addr = 0x200, e_iv = 6\<rparr> ex_proof ex_ctx =
       (True, ctx') \<and>
     mt_rep pad_sha ctx' es' \<and> counters es' = (counters ex_entries)(0x200 \<mapsto> 6)"
proof -
  let ?old = "\<lparr>e_addr = 0x200, e_iv = 5\<rparr>" and ?new = "\<lparr>e_addr = 0x200, e_iv = 6\<rparr>"
  have "merkle_verify_proof pad_sha (ex_entries ! 1) (mt_path pad_sha 1 ex_entries) ex_ctx"
    by (rule mt_path_verifies [OF ex_rep]) (simp add: ex_entries_def)
  then have "merkle_verify_proof pad_sha ?old ex_proof ex_ctx"
    by (simp add: ex_entries_def ex_proof_def)
  then obtain ctx' where u: "merkle_update pad_sha ?old ?new ex_proof ex_ctx = (True, ctx')"
    by (auto simp: merkle_update_def Let_def)
  from merkle_update_counters [OF ex_rep ex_fair _ u] show ?thesis
    using u by auto
qed

theorem merkle_insert_appends_witness:
  "\<exists>ctx'. merkle_insert pad_sha \<lparr>e_addr = 0x300, e_iv = 1\<rparr> ex_proof ex_ctx = (True, ctx') \<and>
     mt_rep pad_sha ctx' (ex_entries @ [\<lparr>e_addr = 0x300, e_iv = 1\<rparr>])"
proof -
  have "merkle_verify_proof pad_sha (ex_entries ! 1) (mt_path pad_sha 1 ex_entries) ex_ctx"
    by (rule mt_path_verifies [OF ex_rep]) (simp add: ex_entries_def)
  then have v: "proof_hash pad_sha (Some (last_entry ex_ctx)) ex_proof [] = root_hash ex_ctx"
    by (simp add: ex_ctx_def ex_entries_def ex_proof_def merkle_verify_proof_def)
  have "bit_count 2 = 1" by (simp add: bit_count_def bit_count_loop.simps)
  then obtain ctx' where
    u: "merkle_insert pad_sha \<lparr>e_addr = 0x300, e_iv = 1\<rparr> ex_proof ex_ctx = (True, ctx')"
    using v by (auto simp: merkle_insert_def Let_def ex_proof_eq ex_ctx_def)
  have l: "last ex_entries = \<lparr>e_addr = 0x200, e_iv = 5\<rparr>" by (simp add: ex_entries_def)
  from merkle_insert_appends [OF ex_rep _ _ u] ex_fair l show ?thesis
    using u by (auto simp: counters_def ex_entries_def)
qed

end
