(* ===== verification/Rv_Decode.thy ===== *)
theory Rv_Decode
  imports Prelude
begin

text \<open>
  The RV32IM instruction decoder of \<open>vm/src/cpu.c\<close> with the bit fields of
  \<open>vm/src/rv_cpu.h\<close>, and the instruction formats of the RISC-V manual that it is meant to
  decode: an encoder per format, against which the decoder and the immediates are proved.
\<close>

section \<open>Operations and fields\<close>

datatype (plugins only: code size) rv_op =
    RV_OP_UNKNOWN | RV_OP_LUI | RV_OP_AUIPC | RV_OP_JAL | RV_OP_JALR
  | RV_OP_BEQ | RV_OP_BNE | RV_OP_BLT | RV_OP_BGE | RV_OP_BLTU | RV_OP_BGEU
  | RV_OP_LB | RV_OP_LH | RV_OP_LW | RV_OP_LBU | RV_OP_LHU | RV_OP_SB | RV_OP_SH | RV_OP_SW
  | RV_OP_ADDI | RV_OP_SLTI | RV_OP_SLTIU | RV_OP_XORI | RV_OP_ORI | RV_OP_ANDI
  | RV_OP_SLLI | RV_OP_SRLI | RV_OP_SRAI
  | RV_OP_ADD | RV_OP_SUB | RV_OP_SLL | RV_OP_SLT | RV_OP_SLTU | RV_OP_XOR | RV_OP_SRL
  | RV_OP_SRA | RV_OP_OR | RV_OP_AND
  | RV_OP_FENCE | RV_OP_FENCE_TSO | RV_OP_PAUSE | RV_OP_ECALL | RV_OP_EBREAK
  | RV_OP_MUL | RV_OP_MULH | RV_OP_MULHSU | RV_OP_MULHU
  | RV_OP_DIV | RV_OP_DIVU | RV_OP_REM | RV_OP_REMU

text \<open>A bit field of \<open>n\<close> bits from bit \<open>lo\<close>, unsigned (\<open>u32 f : n\<close>) or signed (\<open>i32 f : n\<close>).\<close>

definition ufield :: "u32 \<Rightarrow> nat \<Rightarrow> nat \<Rightarrow> u32" where
  "ufield inst lo n = take_bit n (drop_bit lo inst)"

definition sfield :: "u32 \<Rightarrow> nat \<Rightarrow> nat \<Rightarrow> u32" where
  "sfield inst lo n = signed_take_bit (n - 1) (drop_bit lo inst)"

text \<open>The register fields of \<open>union rv_inst\<close>; five bits, so an index below 32.\<close>

definition f_rd :: "u32 \<Rightarrow> nat" where "f_rd inst = unat (ufield inst 7 5)"

definition f_rs1 :: "u32 \<Rightarrow> nat" where "f_rs1 inst = unat (ufield inst 15 5)"

definition f_rs2 :: "u32 \<Rightarrow> nat" where "f_rs2 inst = unat (ufield inst 20 5)"

section \<open>Immediates\<close>

definition imm_i :: "u32 \<Rightarrow> u32" where
  "imm_i inst = sfield inst 20 12"

definition imm_u :: "u32 \<Rightarrow> u32" where
  "imm_u inst = push_bit 12 (sfield inst 12 20)"

definition imm_s :: "u32 \<Rightarrow> u32" where
  "imm_s inst = push_bit 5 (sfield inst 25 7) OR ufield inst 7 5"

definition imm_b :: "u32 \<Rightarrow> u32" where
  "imm_b inst = push_bit 12 (sfield inst 31 1) OR push_bit 11 (ufield inst 7 1) OR
     push_bit 5 (ufield inst 25 6) OR push_bit 1 (ufield inst 8 4)"

definition imm_j :: "u32 \<Rightarrow> u32" where
  "imm_j inst = push_bit 20 (sfield inst 31 1) OR push_bit 12 (ufield inst 12 8) OR
     push_bit 11 (ufield inst 20 1) OR push_bit 1 (ufield inst 21 10)"

definition sign_extend_h :: "u32 \<Rightarrow> u32" where
  "sign_extend_h x = scast (ucast x :: u16)"

definition sign_extend_b :: "u32 \<Rightarrow> u32" where
  "sign_extend_b x = scast (ucast x :: u8)"

section \<open>The decoder\<close>

text \<open>\<open>rv_cpu_decode\<close>, one nested \<open>switch\<close> per opcode.\<close>

definition decode_branch :: "u32 \<Rightarrow> rv_op" where
  "decode_branch inst =
    (let k = inst AND 0x0000707f
     in if k = 0x00000063 then RV_OP_BEQ
        else if k = 0x00001063 then RV_OP_BNE
        else if k = 0x00004063 then RV_OP_BLT
        else if k = 0x00005063 then RV_OP_BGE
        else if k = 0x00006063 then RV_OP_BLTU
        else if k = 0x00007063 then RV_OP_BGEU
        else RV_OP_UNKNOWN)"

definition decode_load :: "u32 \<Rightarrow> rv_op" where
  "decode_load inst =
    (let k = inst AND 0x0000707f
     in if k = 0x00000003 then RV_OP_LB
        else if k = 0x00001003 then RV_OP_LH
        else if k = 0x00002003 then RV_OP_LW
        else if k = 0x00004003 then RV_OP_LBU
        else if k = 0x00005003 then RV_OP_LHU
        else RV_OP_UNKNOWN)"

definition decode_store :: "u32 \<Rightarrow> rv_op" where
  "decode_store inst =
    (let k = inst AND 0x0000707f
     in if k = 0x00000023 then RV_OP_SB
        else if k = 0x00001023 then RV_OP_SH
        else if k = 0x00002023 then RV_OP_SW
        else RV_OP_UNKNOWN)"

definition decode_op_imm :: "u32 \<Rightarrow> rv_op" where
  "decode_op_imm inst =
    (let k = inst AND 0x0000707f; h = inst AND 0xfe00707f
     in if k = 0x00000013 then RV_OP_ADDI
        else if k = 0x00002013 then RV_OP_SLTI
        else if k = 0x00003013 then RV_OP_SLTIU
        else if k = 0x00004013 then RV_OP_XORI
        else if k = 0x00006013 then RV_OP_ORI
        else if k = 0x00007013 then RV_OP_ANDI
        else if k = 0x00001013 then
          (if h = 0x00001013 then RV_OP_SLLI else RV_OP_UNKNOWN)
        else if k = 0x00005013 then
          (if h = 0x00005013 then RV_OP_SRLI
           else if h = 0x40005013 then RV_OP_SRAI
           else RV_OP_UNKNOWN)
        else RV_OP_UNKNOWN)"

definition decode_op :: "u32 \<Rightarrow> rv_op" where
  "decode_op inst =
    (let h = inst AND 0xfe00707f
     in if h = 0x00000033 then RV_OP_ADD
        else if h = 0x40000033 then RV_OP_SUB
        else if h = 0x00001033 then RV_OP_SLL
        else if h = 0x00002033 then RV_OP_SLT
        else if h = 0x00003033 then RV_OP_SLTU
        else if h = 0x00004033 then RV_OP_XOR
        else if h = 0x00005033 then RV_OP_SRL
        else if h = 0x40005033 then RV_OP_SRA
        else if h = 0x00006033 then RV_OP_OR
        else if h = 0x00007033 then RV_OP_AND
        else if h = 0x02000033 then RV_OP_MUL
        else if h = 0x02001033 then RV_OP_MULH
        else if h = 0x02002033 then RV_OP_MULHSU
        else if h = 0x02003033 then RV_OP_MULHU
        else if h = 0x02004033 then RV_OP_DIV
        else if h = 0x02005033 then RV_OP_DIVU
        else if h = 0x02006033 then RV_OP_REM
        else if h = 0x02007033 then RV_OP_REMU
        else RV_OP_UNKNOWN)"

definition rv_cpu_decode :: "u32 \<Rightarrow> rv_op" where
  "rv_cpu_decode inst =
    (let opcode = inst AND 0x0000007f
     in if opcode = 0x00000037 then RV_OP_LUI
        else if opcode = 0x00000017 then RV_OP_AUIPC
        else if opcode = 0x0000006f then RV_OP_JAL
        else if opcode = 0x00000067 then
          (if inst AND 0x0000707f = 0x00000067 then RV_OP_JALR else RV_OP_UNKNOWN)
        else if opcode = 0x00000063 then decode_branch inst
        else if opcode = 0x00000003 then decode_load inst
        else if opcode = 0x00000023 then decode_store inst
        else if opcode = 0x00000013 then decode_op_imm inst
        else if opcode = 0x00000033 then decode_op inst
        else if opcode = 0x0000000f then
          (if inst AND 0x0000707f = 0x0000000f then
             (if inst = 0x8330000f then RV_OP_FENCE_TSO
              else if inst = 0x0100000f then RV_OP_PAUSE
              else RV_OP_FENCE)
           else RV_OP_UNKNOWN)
        else if opcode = 0x00000073 then
          (if inst = 0x00000073 then RV_OP_ECALL
           else if inst = 0x00100073 then RV_OP_EBREAK
           else RV_OP_UNKNOWN)
        else RV_OP_UNKNOWN)"

section \<open>The instruction formats of the manual\<close>

text \<open>
  An instruction of RV32IM with its operands: registers, and immediates as the programmer
  writes them (a branch offset is in multiples of two, without its lowest bit).
\<close>

datatype rv_instr =
    R_type rv_op "5 word" "5 word" "5 word"
  | I_type rv_op "5 word" "5 word" "12 word"
  | Sh_type rv_op "5 word" "5 word" "5 word"
  | S_type rv_op "5 word" "5 word" "12 word"
  | B_type rv_op "5 word" "5 word" "12 word"
  | U_type rv_op "5 word" "20 word"
  | J_type rv_op "5 word" "20 word"
  | F_type rv_op "4 word" "4 word" "4 word" "5 word" "5 word"
  | Sys_type rv_op

primrec instr_op :: "rv_instr \<Rightarrow> rv_op" where
  "instr_op (R_type op rd rs1 rs2) = op"
| "instr_op (I_type op rd rs1 imm) = op"
| "instr_op (Sh_type op rd rs1 sh) = op"
| "instr_op (S_type op rs1 rs2 imm) = op"
| "instr_op (B_type op rs1 rs2 imm) = op"
| "instr_op (U_type op rd imm) = op"
| "instr_op (J_type op rd imm) = op"
| "instr_op (F_type op fm pred succ rd rs1) = op"
| "instr_op (Sys_type op) = op"

text \<open>The opcode, \<open>funct3\<close> and \<open>funct7\<close> of each operation, by format.\<close>

definition r_code :: "rv_op \<Rightarrow> (u32 \<times> u32) option" where
  "r_code = map_of
    [(RV_OP_ADD, 0, 0x00),
     (RV_OP_SUB, 0, 0x20),
     (RV_OP_SLL, 1, 0x00),
     (RV_OP_SLT, 2, 0x00),
     (RV_OP_SLTU, 3, 0x00),
     (RV_OP_XOR, 4, 0x00),
     (RV_OP_SRL, 5, 0x00),
     (RV_OP_SRA, 5, 0x20),
     (RV_OP_OR, 6, 0x00),
     (RV_OP_AND, 7, 0x00),
     (RV_OP_MUL, 0, 0x01),
     (RV_OP_MULH, 1, 0x01),
     (RV_OP_MULHSU, 2, 0x01),
     (RV_OP_MULHU, 3, 0x01),
     (RV_OP_DIV, 4, 0x01),
     (RV_OP_DIVU, 5, 0x01),
     (RV_OP_REM, 6, 0x01),
     (RV_OP_REMU, 7, 0x01)]"

definition i_code :: "rv_op \<Rightarrow> (u32 \<times> u32) option" where
  "i_code = map_of
    [(RV_OP_JALR, 0x67, 0),
     (RV_OP_LB, 0x03, 0),
     (RV_OP_LH, 0x03, 1),
     (RV_OP_LW, 0x03, 2),
     (RV_OP_LBU, 0x03, 4),
     (RV_OP_LHU, 0x03, 5),
     (RV_OP_ADDI, 0x13, 0),
     (RV_OP_SLTI, 0x13, 2),
     (RV_OP_SLTIU, 0x13, 3),
     (RV_OP_XORI, 0x13, 4),
     (RV_OP_ORI, 0x13, 6),
     (RV_OP_ANDI, 0x13, 7)]"

definition sh_code :: "rv_op \<Rightarrow> (u32 \<times> u32) option" where
  "sh_code = map_of
    [(RV_OP_SLLI, 1, 0x00),
     (RV_OP_SRLI, 5, 0x00),
     (RV_OP_SRAI, 5, 0x20)]"

definition s_code :: "rv_op \<Rightarrow> u32 option" where
  "s_code = map_of
    [(RV_OP_SB, 0),
     (RV_OP_SH, 1),
     (RV_OP_SW, 2)]"

definition b_code :: "rv_op \<Rightarrow> u32 option" where
  "b_code = map_of
    [(RV_OP_BEQ, 0),
     (RV_OP_BNE, 1),
     (RV_OP_BLT, 4),
     (RV_OP_BGE, 5),
     (RV_OP_BLTU, 6),
     (RV_OP_BGEU, 7)]"

text \<open>
  The three instructions of the \<open>FENCE\<close> format, by their mode, predecessor and successor sets and
  registers, and the immediate that distinguishes the two \<open>SYSTEM\<close> instructions.
\<close>

definition fence_op :: "4 word \<Rightarrow> 4 word \<Rightarrow> 4 word \<Rightarrow> 5 word \<Rightarrow> 5 word \<Rightarrow> rv_op" where
  "fence_op fm pred succ rd rs1 =
    (if (fm, pred, succ, rd, rs1) = (8, 3, 3, 0, 0) then RV_OP_FENCE_TSO
     else if (fm, pred, succ, rd, rs1) = (0, 1, 0, 0, 0) then RV_OP_PAUSE
     else RV_OP_FENCE)"

definition sys_code :: "rv_op \<Rightarrow> u32 option" where
  "sys_code = map_of [(RV_OP_ECALL, 0), (RV_OP_EBREAK, 1)]"

text \<open>The six fields of a word, and the encoder: where the manual puts each operand.\<close>

definition word6 :: "u32 \<Rightarrow> u32 \<Rightarrow> u32 \<Rightarrow> u32 \<Rightarrow> u32 \<Rightarrow> u32 \<Rightarrow> u32" where
  "word6 f7 r2 r1 f3 d opc = push_bit 25 (take_bit 7 f7) OR push_bit 20 (take_bit 5 r2) OR
     push_bit 15 (take_bit 5 r1) OR push_bit 12 (take_bit 3 f3) OR push_bit 7 (take_bit 5 d) OR
     take_bit 7 opc"

text \<open>A slice of an immediate.\<close>

definition bits :: "'a::len word \<Rightarrow> nat \<Rightarrow> nat \<Rightarrow> u32" where
  "bits w lo n = ucast (take_bit n (drop_bit lo w))"

fun rv_encode :: "rv_instr \<Rightarrow> u32 option" where
  "rv_encode (R_type op rd rs1 rs2) =
     map_option (\<lambda>(f3, f7). word6 f7 (bits rs2 0 5) (bits rs1 0 5) f3 (bits rd 0 5) 0x33) (r_code op)"
| "rv_encode (I_type op rd rs1 imm) =
     map_option (\<lambda>(opc, f3). word6 (bits imm 5 7) (bits imm 0 5) (bits rs1 0 5) f3 (bits rd 0 5) opc)
       (i_code op)"
| "rv_encode (Sh_type op rd rs1 sh) =
     map_option (\<lambda>(f3, f7). word6 f7 (bits sh 0 5) (bits rs1 0 5) f3 (bits rd 0 5) 0x13) (sh_code op)"
| "rv_encode (S_type op rs1 rs2 imm) =
     map_option (\<lambda>f3. word6 (bits imm 5 7) (bits rs2 0 5) (bits rs1 0 5) f3 (bits imm 0 5) 0x23)
       (s_code op)"
| "rv_encode (B_type op rs1 rs2 imm) =
     map_option (\<lambda>f3. word6 (push_bit 6 (bits imm 11 1) OR bits imm 4 6) (bits rs2 0 5) (bits rs1 0 5) f3
       (push_bit 1 (bits imm 0 4) OR bits imm 10 1) 0x63) (b_code op)"
| "rv_encode (U_type op rd imm) =
     (if op = RV_OP_LUI \<or> op = RV_OP_AUIPC then
        Some (push_bit 12 (ucast imm) OR push_bit 7 (bits rd 0 5) OR
              take_bit 7 (if op = RV_OP_LUI then 0x37 else 0x17))
      else None)"
| "rv_encode (J_type op rd imm) =
     (if op = RV_OP_JAL then
        Some (push_bit 31 (bits imm 19 1) OR push_bit 21 (bits imm 0 10) OR
              push_bit 20 (bits imm 10 1) OR push_bit 12 (bits imm 11 8) OR
              push_bit 7 (bits rd 0 5) OR take_bit 7 0x6f)
      else None)"
| "rv_encode (F_type op fm pred succ rd rs1) =
     (if op = fence_op fm pred succ rd rs1 then
        Some (word6 (push_bit 3 (bits fm 0 4) OR bits pred 1 3)
          (push_bit 4 (bits pred 0 1) OR bits succ 0 4) (bits rs1 0 5) 0 (bits rd 0 5) 0x0f)
      else None)"
| "rv_encode (Sys_type op) = map_option (\<lambda>imm. word6 0 imm 0 0 0 0x73) (sys_code op)"

text \<open>The operands as the executor extracts them from the word.\<close>

fun operands_decoded :: "rv_instr \<Rightarrow> u32 \<Rightarrow> bool" where
  "operands_decoded (R_type op rd rs1 rs2) w \<longleftrightarrow>
     f_rd w = unat rd \<and> f_rs1 w = unat rs1 \<and> f_rs2 w = unat rs2"
| "operands_decoded (I_type op rd rs1 imm) w \<longleftrightarrow>
     f_rd w = unat rd \<and> f_rs1 w = unat rs1 \<and> imm_i w = scast imm"
| "operands_decoded (Sh_type op rd rs1 sh) w \<longleftrightarrow>
     f_rd w = unat rd \<and> f_rs1 w = unat rs1 \<and> imm_i w AND 0x1f = ucast sh"
| "operands_decoded (S_type op rs1 rs2 imm) w \<longleftrightarrow>
     f_rs1 w = unat rs1 \<and> f_rs2 w = unat rs2 \<and> imm_s w = scast imm"
| "operands_decoded (B_type op rs1 rs2 imm) w \<longleftrightarrow>
     f_rs1 w = unat rs1 \<and> f_rs2 w = unat rs2 \<and> imm_b w = push_bit 1 (scast imm)"
| "operands_decoded (U_type op rd imm) w \<longleftrightarrow>
     f_rd w = unat rd \<and> imm_u w = push_bit 12 (ucast imm)"
| "operands_decoded (J_type op rd imm) w \<longleftrightarrow>
     f_rd w = unat rd \<and> imm_j w = push_bit 1 (scast imm)"
| "operands_decoded (F_type op fm pred succ rd rs1) w \<longleftrightarrow>
     f_rd w = unat rd \<and> f_rs1 w = unat rs1 \<and>
     imm_i w = scast (word_cat fm (word_cat pred succ :: 8 word) :: 12 word)"
| "operands_decoded (Sys_type op) w \<longleftrightarrow> f_rd w = 0 \<and> f_rs1 w = 0"


section \<open>Decoding an encoded instruction\<close>

text \<open>The masks of the decoder, as fields.\<close>

lemma mask_opcode: "w AND 0x7f = take_bit 7 (w :: u32)"
  by (simp add: take_bit_eq_mask mask_eq_exp_minus_1)

lemma mask_funct3:
  "w AND 0x707f = push_bit 12 (take_bit 3 (drop_bit 12 w)) OR take_bit 7 (w :: u32)"
proof -
  have m: "(0x707f :: u32) = push_bit 12 (mask 3) OR mask 7"
    by (simp add: mask_eq_exp_minus_1)
  show ?thesis unfolding m by (rule bit_word_eqI) (auto simp: bit_simps)
qed

lemma mask_funct7:
  "w AND 0xfe00707f = push_bit 25 (take_bit 7 (drop_bit 25 w)) OR
     push_bit 12 (take_bit 3 (drop_bit 12 w)) OR take_bit 7 (w :: u32)"
proof -
  have m: "(0xfe00707f :: u32) = push_bit 25 (mask 7) OR push_bit 12 (mask 3) OR mask 7"
    by (simp add: mask_eq_exp_minus_1)
  show ?thesis unfolding m by (rule bit_word_eqI) (auto simp: bit_simps)
qed

lemma word6_fields:
  "take_bit 7 (word6 f7 r2 r1 f3 d opc) = take_bit 7 opc"
  "take_bit 3 (drop_bit 12 (word6 f7 r2 r1 f3 d opc)) = take_bit 3 f3"
  "take_bit 7 (drop_bit 25 (word6 f7 r2 r1 f3 d opc)) = take_bit 7 f7"
  "take_bit 5 (drop_bit 7 (word6 f7 r2 r1 f3 d opc)) = take_bit 5 d"
  "take_bit 5 (drop_bit 15 (word6 f7 r2 r1 f3 d opc)) = take_bit 5 r1"
  "take_bit 5 (drop_bit 20 (word6 f7 r2 r1 f3 d opc)) = take_bit 5 r2"
  by (rule bit_word_eqI, auto simp: word6_def bit_simps)+


text \<open>Two words of 32 bits are compared bit by bit.\<close>

lemma less_32: "i < 32 \<longleftrightarrow> i \<in> set [0, 1, 2, 3, 4, 5, 6, 7, 8, 9, 10, 11, 12, 13, 14, 15, 16, 17, 18, 19,
    20, 21, 22, 23, 24, 25, 26, 27, 28, 29, 30, 31 :: nat]"
  by simp presburger

lemma word32_eqI:
  "(\<forall>i \<in> set [0, 1, 2, 3, 4, 5, 6, 7, 8, 9, 10, 11, 12, 13, 14, 15, 16, 17, 18, 19,
    20, 21, 22, 23, 24, 25, 26, 27, 28, 29, 30, 31]. bit a i = bit b i) \<Longrightarrow> a = (b :: u32)"
  unfolding less_32 [symmetric] Ball_def by (rule bit_word_eqI) simp

lemma bit_sfield:
  "bit (sfield w lo n) i \<longleftrightarrow> i < 32 \<and> bit w (lo + (if i < n - 1 then i else n - 1))"
  by (auto simp: sfield_def bit_simps min_def)

lemma bit_ufield: "bit (ufield w lo n) i \<longleftrightarrow> i < n \<and> bit w (lo + i)"
  by (auto simp: ufield_def bit_simps)

lemma bit_bits: "bit (bits (w :: 'a::len word) lo n) i \<longleftrightarrow> i < 32 \<and> i < n \<and> bit w (lo + i)"
  by (auto simp: bits_def bit_simps)

lemma bit_push32: "bit (push_bit n (w :: u32)) i \<longleftrightarrow> n \<le> i \<and> i < 32 \<and> bit w (i - n)"
  by (auto simp: bit_simps)

lemma bit_scast32:
  "bit (scast (w :: 'a::len word) :: u32) i \<longleftrightarrow>
     i < 32 \<and> bit w (if i < LENGTH('a) then i else LENGTH('a) - 1)"
  by (auto simp: bit_word_scast_iff)
    (metis bit_imp_le_length diff_le_self less_imp_diff_less not_less_iff_gr_or_eq)+

lemma bit_ucast32: "bit (ucast (w :: 'a::len word) :: u32) i \<longleftrightarrow> i < 32 \<and> i < LENGTH('a) \<and> bit w i"
  by (auto simp: bit_word_ucast_iff dest: bit_imp_le_length)

lemmas to_bits = word6_def bit_sfield bit_ufield bit_bits bit_push32 bit_scast32 bit_ucast32
  bit_or_iff bit_and_iff bit_take_bit_iff bit_mask_iff list.set ball_simps

lemmas bit_index = numeral_2_eq_2 [symmetric]

lemma imm_i_word6: "imm_i (word6 (bits imm 5 7) (bits imm 0 5) r1 f3 d opc) = scast (imm :: 12 word)"
  by (rule word32_eqI, simp only: to_bits imm_i_def) (simp add: bit_index)

lemma shamt_word6:
  "imm_i (word6 f7 (bits (sh :: 5 word) 0 5) r1 f3 d opc) AND 0x1f = ucast sh"
proof -
  have m: "(0x1f :: u32) = mask 5" by (simp add: mask_eq_exp_minus_1)
  show ?thesis
    unfolding m by (rule word32_eqI, simp only: to_bits imm_i_def) (simp add: bit_index)
qed

lemma imm_s_word6: "imm_s (word6 (bits imm 5 7) r2 r1 f3 (bits imm 0 5) opc) = scast (imm :: 12 word)"
  by (rule word32_eqI, simp only: to_bits imm_s_def) (simp add: bit_index)

lemma imm_b_word6:
  "imm_b (word6 (push_bit 6 (bits imm 11 1) OR bits imm 4 6) r2 r1 f3
     (push_bit 1 (bits imm 0 4) OR bits imm 10 1) opc) = push_bit 1 (scast (imm :: 12 word))"
  by (rule word32_eqI, simp only: to_bits imm_b_def) (simp add: bit_index)

lemma imm_u_U:
  "imm_u (push_bit 12 (ucast (imm :: 20 word)) OR push_bit 7 (bits (rd :: 5 word) 0 5) OR
     take_bit 7 opc) = push_bit 12 (ucast imm)"
  by (rule word32_eqI, simp only: to_bits imm_u_def) simp

lemma imm_j_J:
  "imm_j (push_bit 31 (bits imm 19 1) OR push_bit 21 (bits imm 0 10) OR
     push_bit 20 (bits imm 10 1) OR push_bit 12 (bits imm 11 8) OR
     push_bit 7 (bits (rd :: 5 word) 0 5) OR take_bit 7 opc) = push_bit 1 (scast (imm :: 20 word))"
  by (rule word32_eqI, simp only: to_bits imm_j_def) (simp add: bit_index)

lemma U_fields:
  "take_bit 7 (push_bit 12 (x :: u32) OR push_bit 7 y OR take_bit 7 opc) = take_bit 7 opc"
  "take_bit 5 (drop_bit 7 (push_bit 12 (x :: u32) OR push_bit 7 (bits (rd :: 5 word) 0 5) OR
     take_bit 7 opc)) = bits rd 0 5"
  by (rule bit_word_eqI, auto simp: bits_def bit_simps)+

lemma bits_reg: "unat (bits (r :: 5 word) 0 5) = unat r"
proof -
  have "unat r < 2 ^ 5" using unsigned_less [of r, where 'a = nat] by simp
  then have "take_bit 32 (unat r) = unat r" by (simp add: take_bit_nat_eq_self)
  then show ?thesis by (simp add: bits_def take_bit_word_eq_self unsigned_ucast_eq)
qed


lemma take_bit_bits: "take_bit n (bits w lo n) = bits w lo n"
  by (rule bit_word_eqI) (auto simp: bit_bits bit_take_bit_iff)

lemmas word6_regs = f_rd_def f_rs1_def f_rs2_def ufield_def word6_fields take_bit_bits bits_reg

lemmas decoder = rv_cpu_decode_def decode_branch_def decode_load_def decode_store_def
  decode_op_imm_def decode_op_def Let_def mask_opcode mask_funct3 mask_funct7

lemma map_of_cases:
  "map_of ((k, v) # kvs) x = Some y \<longleftrightarrow> x = k \<and> y = v \<or> x \<noteq> k \<and> map_of kvs x = Some y"
  by auto

lemma imm_i_fence:
  fixes fm pred succ :: "4 word"
  shows "imm_i (word6 (push_bit 3 (bits fm 0 4) OR bits pred 1 3)
     (push_bit 4 (bits pred 0 1) OR bits succ 0 4) r1 f3 d opc) =
     scast (word_cat fm (word_cat pred succ :: 8 word) :: 12 word)"
  by (rule word32_eqI, simp only: to_bits imm_i_def bit_word_cat_iff)
    (simp add: bit_index bit_word_cat_iff)

text \<open>The fields of a word of the \<open>FENCE\<close> format determine it.\<close>

lemma fence_fields:
  fixes fm pred succ :: "4 word" and rd rs1 :: "5 word"
  assumes "w = word6 (push_bit 3 (bits fm 0 4) OR bits pred 1 3)
    (push_bit 4 (bits pred 0 1) OR bits succ 0 4) (bits rs1 0 5) 0 (bits rd 0 5) 0x0f"
  shows "fm = ucast (drop_bit 28 w)" "pred = ucast (drop_bit 24 w)" "succ = ucast (drop_bit 20 w)"
    "rs1 = ucast (drop_bit 15 w)" "rd = ucast (drop_bit 7 w)"
  unfolding assms by (rule bit_word_eqI; auto simp: word6_def bit_bits bit_simps)+

lemma fence_words:
  fixes fm pred succ :: "4 word" and rd rs1 :: "5 word"
  assumes "w = word6 (push_bit 3 (bits fm 0 4) OR bits pred 1 3)
    (push_bit 4 (bits pred 0 1) OR bits succ 0 4) (bits rs1 0 5) 0 (bits rd 0 5) 0x0f"
  shows "w = 0x8330000f \<longleftrightarrow> (fm, pred, succ, rd, rs1) = (8, 3, 3, 0, 0)"
    "w = 0x0100000f \<longleftrightarrow> (fm, pred, succ, rd, rs1) = (0, 1, 0, 0, 0)"
proof -
  note inv = fence_fields [OF assms]
  have "word6 (push_bit 3 (bits (8 :: 4 word) 0 4) OR bits (3 :: 4 word) 1 3)
      (push_bit 4 (bits (3 :: 4 word) 0 1) OR bits (3 :: 4 word) 0 4) (bits (0 :: 5 word) 0 5) 0
      (bits (0 :: 5 word) 0 5) 0x0f = 0x8330000f"
    "word6 (push_bit 3 (bits (0 :: 4 word) 0 4) OR bits (1 :: 4 word) 1 3)
      (push_bit 4 (bits (1 :: 4 word) 0 1) OR bits (0 :: 4 word) 0 4) (bits (0 :: 5 word) 0 5) 0
      (bits (0 :: 5 word) 0 5) 0x0f = 0x0100000f"
    by code_simp+
  then show "w = 0x8330000f \<longleftrightarrow> (fm, pred, succ, rd, rs1) = (8, 3, 3, 0, 0)"
    "w = 0x0100000f \<longleftrightarrow> (fm, pred, succ, rd, rs1) = (0, 1, 0, 0, 0)"
    using assms inv by auto
qed

lemma decode_encode:
  assumes "rv_encode i = Some w"
  shows "rv_cpu_decode w = instr_op i \<and> operands_decoded i w"
proof (cases i)
  case (R_type op rd rs1 rs2)
  with assms obtain f3 f7 where c: "r_code op = Some (f3, f7)"
    and w: "w = word6 f7 (bits rs2 0 5) (bits rs1 0 5) f3 (bits rd 0 5) 0x33" by auto
  from c have "rv_cpu_decode w = op"
    by (auto simp: r_code_def map_of_cases w decoder word6_fields split: if_splits)
  then show ?thesis by (simp add: R_type w word6_regs)
next
  case (I_type op rd rs1 imm)
  with assms obtain opc f3 where c: "i_code op = Some (opc, f3)"
    and w: "w = word6 (bits imm 5 7) (bits imm 0 5) (bits rs1 0 5) f3 (bits rd 0 5) opc" by auto
  from c have "rv_cpu_decode w = op"
    unfolding i_code_def map_of_cases by (elim disjE conjE) (simp_all add: w decoder word6_fields)
  then show ?thesis by (simp add: I_type w word6_regs imm_i_word6)
next
  case (Sh_type op rd rs1 sh)
  with assms obtain f3 f7 where c: "sh_code op = Some (f3, f7)"
    and w: "w = word6 f7 (bits sh 0 5) (bits rs1 0 5) f3 (bits rd 0 5) 0x13" by auto
  from c have "rv_cpu_decode w = op"
    by (auto simp: sh_code_def map_of_cases w decoder word6_fields split: if_splits)
  then show ?thesis by (simp add: Sh_type w word6_regs shamt_word6)
next
  case (S_type op rs1 rs2 imm)
  with assms obtain f3 where c: "s_code op = Some f3"
    and w: "w = word6 (bits imm 5 7) (bits rs2 0 5) (bits rs1 0 5) f3 (bits imm 0 5) 0x23" by auto
  from c have "rv_cpu_decode w = op"
    by (auto simp: s_code_def map_of_cases w decoder word6_fields split: if_splits)
  then show ?thesis by (simp add: S_type w word6_regs imm_s_word6)
next
  case (B_type op rs1 rs2 imm)
  with assms obtain f3 where c: "b_code op = Some f3"
    and w: "w = word6 (push_bit 6 (bits imm 11 1) OR bits imm 4 6) (bits rs2 0 5) (bits rs1 0 5) f3
       (push_bit 1 (bits imm 0 4) OR bits imm 10 1) 0x63" by auto
  from c have "rv_cpu_decode w = op"
    by (auto simp: b_code_def map_of_cases w decoder word6_fields split: if_splits)
  then show ?thesis unfolding w by (simp only: B_type operands_decoded.simps word6_regs imm_b_word6 instr_op.simps)
next
  case (U_type op rd imm)
  define opc :: u32 where "opc = (if op = RV_OP_LUI then 0x37 else 0x17)"
  have w: "w = push_bit 12 (ucast imm) OR push_bit 7 (bits rd 0 5) OR take_bit 7 opc"
    and op: "op = RV_OP_LUI \<or> op = RV_OP_AUIPC"
    using assms by (auto simp: U_type opc_def split: if_splits)
  have "take_bit 7 w = take_bit 7 opc" "take_bit 5 (drop_bit 7 w) = bits rd 0 5"
    "imm_u w = push_bit 12 (ucast imm)"
    unfolding w by (rule U_fields imm_u_U)+
  then show ?thesis
    using op by (elim disjE) (simp_all add: U_type rv_cpu_decode_def mask_opcode opc_def f_rd_def
        ufield_def bits_reg)
next
  case (J_type op rd imm)
  let ?x = "push_bit 19 (bits imm 19 1) OR push_bit 9 (bits imm 0 10) OR push_bit 8 (bits imm 10 1) OR bits imm 11 8"
  have op: "op = RV_OP_JAL" and w: "w = push_bit 31 (bits imm 19 1) OR push_bit 21 (bits imm 0 10) OR
      push_bit 20 (bits imm 10 1) OR push_bit 12 (bits imm 11 8) OR
      push_bit 7 (bits rd 0 5) OR take_bit 7 0x6f"
    using assms by (simp_all only: J_type rv_encode.simps option.inject option.distinct split: if_splits)
  have s: "w = push_bit 12 ?x OR push_bit 7 (bits rd 0 5) OR take_bit 7 0x6f"
    by (simp add: w push_bit_or or.assoc)
  have "take_bit 7 w = take_bit 7 0x6f" "take_bit 5 (drop_bit 7 w) = bits rd 0 5"
    unfolding s by (rule U_fields)+
  moreover have "imm_j w = push_bit 1 (scast imm)"
    unfolding w by (rule imm_j_J)
  ultimately show ?thesis
    using op by (simp add: J_type rv_cpu_decode_def mask_opcode f_rd_def ufield_def bits_reg)
next
  case (F_type op fm pred succ rd rs1)
  define f7 r2 where "f7 = push_bit 3 (bits fm 0 4) OR bits pred 1 3"
    and "r2 = push_bit 4 (bits pred 0 1) OR bits succ 0 4"
  have w: "w = word6 f7 r2 (bits rs1 0 5) 0 (bits rd 0 5) 0x0f"
    and op: "op = fence_op fm pred succ rd rs1"
    using assms by (simp_all add: F_type f7_def r2_def split: if_splits)
  note exact = fence_words [OF w [unfolded f7_def r2_def]]
  have "take_bit 7 w = 0x0f" "take_bit 3 (drop_bit 12 w) = 0"
    by (simp_all add: w word6_fields)
  then have "rv_cpu_decode w = op"
    unfolding op fence_op_def exact [symmetric]
    by (simp add: rv_cpu_decode_def mask_opcode mask_funct3 Let_def)
  moreover have "imm_i w = scast (word_cat fm (word_cat pred succ :: 8 word) :: 12 word)"
    unfolding w f7_def r2_def by (rule imm_i_fence)
  ultimately show ?thesis by (simp add: F_type w word6_regs)
next
  case (Sys_type op)
  then have "op = RV_OP_ECALL \<and> w = 0x73 \<or> op = RV_OP_EBREAK \<and> w = 0x100073"
    using assms by (auto simp: sys_code_def word6_def split: if_splits)
  moreover have "rv_cpu_decode 0x73 = RV_OP_ECALL" "rv_cpu_decode 0x100073 = RV_OP_EBREAK"
    "f_rd 0x73 = 0" "f_rd 0x100073 = 0" "f_rs1 0x73 = 0" "f_rs1 0x100073 = 0"
    by code_simp+
  ultimately show ?thesis using Sys_type by auto
qed

section \<open>Properties\<close>

text \<open>
  C37: the decoder is right on every instruction of RV32IM in the manual's encoding, \<open>FENCE\<close>,
  \<open>FENCE.TSO\<close>, \<open>PAUSE\<close>, \<open>ECALL\<close> and \<open>EBREAK\<close> included: it returns the operation, and the register
  fields and immediates read from the word are the operands, with their sign, scale and bit order.
\<close>

theorem rv_decode_encode:
  assumes "rv_encode i = Some w"
  shows "rv_cpu_decode w = instr_op i \<and> operands_decoded i w"
  using assms by (rule decode_encode)

lemma encode_addi: "rv_encode (I_type RV_OP_ADDI 5 6 0xfff) = Some 0xfff30293"
  by code_simp

lemma encode_ecall: "rv_encode (Sys_type RV_OP_ECALL) = Some 0x73"
  by code_simp

theorem rv_decode_encode_witness:
  "rv_cpu_decode 0xfff30293 = RV_OP_ADDI \<and> f_rd 0xfff30293 = 5 \<and> f_rs1 0xfff30293 = 6 \<and>
   imm_i 0xfff30293 = - 1 \<and> rv_cpu_decode 0x73 = RV_OP_ECALL"
  using rv_decode_encode [OF encode_addi] rv_decode_encode [OF encode_ecall] by simp

end
