(* ===== verification/Rv_Execute.thy ===== *)
theory Rv_Execute
  imports Rv_Decode "HOL-Library.Signed_Division"
begin

text \<open>
  Execution of one RISC-V instruction, \<open>rv_cpu_execute\<close> of \<open>vm/src/cpu.c\<close>, against the
  semantics of the RISC-V manual. The functions the C file links to (\<open>mem_read\<close>,
  \<open>mem_write\<close>, \<open>ecall\<close>) are the fields of a \<open>bus\<close>: the application links it to the paged
  memory and the system calls, the test program \<open>vm/tests/vm.c\<close> to a flat memory.
\<close>

section \<open>The CPU\<close>

record rv_cpu =
  pc :: u32
  regs :: "u32 list"

definition RV_REG_SP :: nat where "RV_REG_SP = 2"

definition RV_REG_T0 :: nat where "RV_REG_T0 = 5"

definition RV_REG_A0 :: nat where "RV_REG_A0 = 10"

definition rv_cpu_reset :: rv_cpu where
  "rv_cpu_reset = \<lparr>pc = 0, regs = replicate 32 0\<rparr>"

definition set_reg :: "nat \<Rightarrow> u32 \<Rightarrow> rv_cpu \<Rightarrow> rv_cpu" where
  "set_reg i v cpu = cpu\<lparr>regs := (regs cpu)[i := v]\<rparr>"

record 's bus =
  bus_read :: "u32 \<Rightarrow> nat \<Rightarrow> 's \<Rightarrow> u32 option \<times> 's"
  bus_write :: "u32 \<Rightarrow> nat \<Rightarrow> u32 \<Rightarrow> 's \<Rightarrow> bool \<times> 's"
  bus_ecall :: "rv_cpu \<Rightarrow> 's \<Rightarrow> (bool \<times> rv_cpu \<times> 's) outcome"

section \<open>The cases of the switch\<close>

text \<open>\<open>(int32_t)a >> n\<close> and the comparison of two registers as \<open>int32_t\<close>.\<close>

definition sar :: "u32 \<Rightarrow> u32 \<Rightarrow> u32" where
  "sar a n = signed_drop_bit (unat n) a"

definition slt :: "u32 \<Rightarrow> u32 \<Rightarrow> bool" where
  "slt a b \<longleftrightarrow> sint a < sint b"

text \<open>The cases that store a value in \<open>rd\<close> and go to the next instruction.\<close>

definition alu_value :: "rv_op \<Rightarrow> u32 \<Rightarrow> rv_cpu \<Rightarrow> u32 option" where
  "alu_value op inst cpu =
    (let a = regs cpu ! f_rs1 inst; b = regs cpu ! f_rs2 inst; MOD_32 = 0x1f in
     case op of
       RV_OP_ADD \<Rightarrow> Some (a + b)
     | RV_OP_ADDI \<Rightarrow> Some (a + imm_i inst)
     | RV_OP_SUB \<Rightarrow> Some (a - b)
     | RV_OP_AND \<Rightarrow> Some (a AND b)
     | RV_OP_ANDI \<Rightarrow> Some (a AND imm_i inst)
     | RV_OP_OR \<Rightarrow> Some (a OR b)
     | RV_OP_ORI \<Rightarrow> Some (a OR imm_i inst)
     | RV_OP_XOR \<Rightarrow> Some (a XOR b)
     | RV_OP_XORI \<Rightarrow> Some (a XOR imm_i inst)
     | RV_OP_SLL \<Rightarrow> Some (push_bit (unat (b AND MOD_32)) a)
     | RV_OP_SRL \<Rightarrow> Some (drop_bit (unat (b AND MOD_32)) a)
     | RV_OP_SLLI \<Rightarrow> Some (push_bit (unat (imm_i inst AND MOD_32)) a)
     | RV_OP_SRLI \<Rightarrow> Some (drop_bit (unat (imm_i inst AND MOD_32)) a)
     | RV_OP_SRA \<Rightarrow> Some (sar a (b AND MOD_32))
     | RV_OP_SRAI \<Rightarrow> Some (sar a (imm_i inst AND MOD_32))
     | RV_OP_SLT \<Rightarrow> Some (if slt a b then 1 else 0)
     | RV_OP_SLTI \<Rightarrow> Some (if slt a (imm_i inst) then 1 else 0)
     | RV_OP_SLTU \<Rightarrow> Some (if a < b then 1 else 0)
     | RV_OP_SLTIU \<Rightarrow> Some (if a < imm_i inst then 1 else 0)
     | RV_OP_LUI \<Rightarrow> Some (imm_u inst)
     | RV_OP_AUIPC \<Rightarrow> Some (pc cpu + imm_u inst)
     | _ \<Rightarrow> None)"

text \<open>
  The multiplications and divisions. \<open>(i64)\<close> of a \<open>uint32_t\<close> zero-extends; the 64-bit
  product is shifted right by 32 and truncated. \<open>INT_MIN\<close> is \<open>0x80000000\<close>.
\<close>

definition mul_high :: "u64 \<Rightarrow> u64 \<Rightarrow> u32" where
  "mul_high a b = ucast (drop_bit 32 (a * b))"

definition muldiv_value :: "rv_op \<Rightarrow> u32 \<Rightarrow> u32 \<Rightarrow> u32 option" where
  "muldiv_value op a b =
    (case op of
       RV_OP_MUL \<Rightarrow> Some (a * b)
     | RV_OP_MULH \<Rightarrow> Some (mul_high (ucast a) (ucast b))
     | RV_OP_MULHSU \<Rightarrow> Some (mul_high (ucast a) (ucast b))
     | RV_OP_MULHU \<Rightarrow> Some (mul_high (ucast a) (ucast b))
     | RV_OP_DIV \<Rightarrow>
         Some (if b \<noteq> 0 \<and> \<not> (a = 0x80000000 \<and> b = 0xffffffff)
               then word_of_int (sint a sdiv sint b) else 0xffffffff)
     | RV_OP_DIVU \<Rightarrow> Some (if b \<noteq> 0 then a div b else 0xffffffff)
     | _ \<Rightarrow> None)"

text \<open>The branches: the increment of the program counter.\<close>

definition branch_inc :: "rv_op \<Rightarrow> u32 \<Rightarrow> rv_cpu \<Rightarrow> u32 option" where
  "branch_inc op inst cpu =
    (let a = regs cpu ! f_rs1 inst; b = regs cpu ! f_rs2 inst;
         pc_inc = (\<lambda>c. Some (if c then imm_b inst else 4)) in
     case op of
       RV_OP_BEQ \<Rightarrow> pc_inc (a = b)
     | RV_OP_BNE \<Rightarrow> pc_inc (a \<noteq> b)
     | RV_OP_BLT \<Rightarrow> pc_inc (slt a b)
     | RV_OP_BGE \<Rightarrow> pc_inc (\<not> slt a b)
     | RV_OP_BLTU \<Rightarrow> pc_inc (a < b)
     | RV_OP_BGEU \<Rightarrow> pc_inc (a \<ge> b)
     | _ \<Rightarrow> None)"

text \<open>The loads: the size of the access and what is done with the value read.\<close>

definition load_kind :: "rv_op \<Rightarrow> (nat \<times> (u32 \<Rightarrow> u32)) option" where
  "load_kind op =
    (case op of
       RV_OP_LB \<Rightarrow> Some (1, sign_extend_b)
     | RV_OP_LH \<Rightarrow> Some (2, sign_extend_h)
     | RV_OP_LW \<Rightarrow> Some (4, id)
     | RV_OP_LBU \<Rightarrow> Some (1, id)
     | RV_OP_LHU \<Rightarrow> Some (2, id)
     | _ \<Rightarrow> None)"

definition store_size :: "rv_op \<Rightarrow> nat option" where
  "store_size op =
    (case op of RV_OP_SB \<Rightarrow> Some 1 | RV_OP_SH \<Rightarrow> Some 2 | RV_OP_SW \<Rightarrow> Some 4 | _ \<Rightarrow> None)"

section \<open>One instruction\<close>

text \<open>
  The end of \<open>rv_cpu_execute\<close>: \<open>x0\<close> is cleared and the program counter set, on success and
  on failure.
\<close>

definition finish :: "rv_cpu \<Rightarrow> u32 \<Rightarrow> u32 \<Rightarrow> rv_cpu" where
  "finish cpu pc_set pc_inc = (set_reg 0 0 cpu)\<lparr>pc := pc_set + pc_inc\<rparr>"

definition rv_cpu_execute ::
    "'s bus \<Rightarrow> u32 \<Rightarrow> rv_cpu \<Rightarrow> 's \<Rightarrow> (bool \<times> rv_cpu \<times> 's) outcome" where
  "rv_cpu_execute B inst cpu s =
    (let op = rv_cpu_decode inst; rd = f_rd inst; rs1 = f_rs1 inst; rs2 = f_rs2 inst;
         a = regs cpu ! rs1; b = regs cpu ! rs2; pc_set = pc cpu in
     case alu_value op inst cpu of Some v \<Rightarrow> Done (True, finish (set_reg rd v cpu) pc_set 4, s)
   | None \<Rightarrow> (case muldiv_value op a b of
       Some v \<Rightarrow> Done (True, finish (set_reg rd v cpu) pc_set 4, s)
   | None \<Rightarrow> (case branch_inc op inst cpu of
       Some pc_inc \<Rightarrow> Done (True, finish cpu pc_set pc_inc, s)
   | None \<Rightarrow> (case load_kind op of
       Some (n, ext) \<Rightarrow>
         (case bus_read B (a + imm_i inst) n s of
            (Some value, s') \<Rightarrow> Done (True, finish (set_reg rd (ext value) cpu) pc_set 4, s')
          | (None, s') \<Rightarrow> Done (False, finish cpu pc_set 4, s'))
   | None \<Rightarrow> (case store_size op of
       Some n \<Rightarrow>
         (case bus_write B (a + imm_s inst) n b s of
            (success, s') \<Rightarrow> Done (success, finish cpu pc_set 4, s'))
   | None \<Rightarrow> (case op of
       RV_OP_JAL \<Rightarrow> Done (True, finish (set_reg rd (pc cpu + 4) cpu) pc_set (imm_j inst), s)
     | RV_OP_JALR \<Rightarrow>
         (let pc_set = (a + imm_i inst) AND NOT 1
          in Done (True, finish (set_reg rd (pc cpu + 4) cpu) pc_set 0, s))
     | RV_OP_REMU \<Rightarrow>
         (if b \<noteq> 0 then Done (True, finish (set_reg rd (a mod b) cpu) pc_set 4, s)
          else Done (True, finish (set_reg rd b (set_reg rs1 b cpu)) pc_set 4, s))
     | RV_OP_ECALL \<Rightarrow>
         then_do (bus_ecall B cpu s)
           (\<lambda>(success, cpu', s'). Done (success, finish cpu' pc_set 4, s'))
     | _ \<Rightarrow> Exited))))))"


section \<open>The manual's semantics\<close>

text \<open>
  The reference: the effect of an instruction given by its operands, with the arithmetic on
  integers, \<open>sint\<close> and \<open>uint\<close> being the signed and the unsigned reading of a register.
\<close>

definition isa_binary :: "rv_op \<Rightarrow> u32 \<Rightarrow> u32 \<Rightarrow> int" where
  "isa_binary op x y =
    (let n = nat (uint y mod 32) in
     case op of
       RV_OP_ADD \<Rightarrow> uint x + uint y
     | RV_OP_SUB \<Rightarrow> uint x - uint y
     | RV_OP_AND \<Rightarrow> uint x AND uint y
     | RV_OP_OR \<Rightarrow> uint x OR uint y
     | RV_OP_XOR \<Rightarrow> uint x XOR uint y
     | RV_OP_SLL \<Rightarrow> uint x * 2 ^ n
     | RV_OP_SRL \<Rightarrow> uint x div 2 ^ n
     | RV_OP_SRA \<Rightarrow> sint x div 2 ^ n
     | RV_OP_SLT \<Rightarrow> (if sint x < sint y then 1 else 0)
     | RV_OP_SLTU \<Rightarrow> (if uint x < uint y then 1 else 0)
     | RV_OP_MUL \<Rightarrow> sint x * sint y
     | RV_OP_MULH \<Rightarrow> sint x * sint y div 2 ^ 32
     | RV_OP_MULHSU \<Rightarrow> sint x * uint y div 2 ^ 32
     | RV_OP_MULHU \<Rightarrow> uint x * uint y div 2 ^ 32
     | RV_OP_DIV \<Rightarrow> (if y = 0 then - 1 else sint x sdiv sint y)
     | RV_OP_DIVU \<Rightarrow> (if y = 0 then 2 ^ 32 - 1 else uint x div uint y)
     | RV_OP_REM \<Rightarrow> (if y = 0 then sint x else sint x smod sint y)
     | RV_OP_REMU \<Rightarrow> (if y = 0 then uint x else uint x mod uint y)
     | _ \<Rightarrow> 0)"

text \<open>The register form of an immediate operation.\<close>

definition isa_imm_op :: "rv_op \<Rightarrow> rv_op" where
  "isa_imm_op op =
    (case op of
       RV_OP_ADDI \<Rightarrow> RV_OP_ADD
     | RV_OP_SLTI \<Rightarrow> RV_OP_SLT
     | RV_OP_SLTIU \<Rightarrow> RV_OP_SLTU
     | RV_OP_XORI \<Rightarrow> RV_OP_XOR
     | RV_OP_ORI \<Rightarrow> RV_OP_OR
     | RV_OP_ANDI \<Rightarrow> RV_OP_AND
     | RV_OP_SLLI \<Rightarrow> RV_OP_SLL
     | RV_OP_SRLI \<Rightarrow> RV_OP_SRL
     | RV_OP_SRAI \<Rightarrow> RV_OP_SRA
     | _ \<Rightarrow> RV_OP_UNKNOWN)"

definition isa_cond :: "rv_op \<Rightarrow> u32 \<Rightarrow> u32 \<Rightarrow> bool" where
  "isa_cond op x y =
    (case op of
       RV_OP_BEQ \<Rightarrow> uint x = uint y
     | RV_OP_BNE \<Rightarrow> uint x \<noteq> uint y
     | RV_OP_BLT \<Rightarrow> sint x < sint y
     | RV_OP_BGE \<Rightarrow> sint x \<ge> sint y
     | RV_OP_BLTU \<Rightarrow> uint x < uint y
     | RV_OP_BGEU \<Rightarrow> uint x \<ge> uint y
     | _ \<Rightarrow> False)"

text \<open>The width of a load in bytes, and whether the value is signed.\<close>

definition isa_load :: "rv_op \<Rightarrow> (nat \<times> bool) option" where
  "isa_load op =
    (case op of
       RV_OP_LB \<Rightarrow> Some (1, True)
     | RV_OP_LH \<Rightarrow> Some (2, True)
     | RV_OP_LW \<Rightarrow> Some (4, True)
     | RV_OP_LBU \<Rightarrow> Some (1, False)
     | RV_OP_LHU \<Rightarrow> Some (2, False)
     | _ \<Rightarrow> None)"

text \<open>Writing a register: \<open>x0\<close> ignores it.\<close>

definition isa_write :: "5 word \<Rightarrow> int \<Rightarrow> rv_cpu \<Rightarrow> rv_cpu" where
  "isa_write rd v cpu =
     (if rd = 0 then cpu else cpu\<lparr>regs := (regs cpu)[unat rd := word_of_int v]\<rparr>)"

definition isa_pc :: "int \<Rightarrow> rv_cpu \<Rightarrow> rv_cpu" where
  "isa_pc v cpu = cpu\<lparr>pc := word_of_int v\<rparr>"

text \<open>
  The memory accesses of one hart are in order already, so that the fences only go to the next
  instruction. \<open>ECALL\<close> is a request to the execution environment, the \<open>bus_ecall\<close> of the bus; an
  environment without a debugger ends on \<open>EBREAK\<close>.
\<close>

fun isa_exec :: "'s bus \<Rightarrow> rv_instr \<Rightarrow> rv_cpu \<Rightarrow> 's \<Rightarrow> (bool \<times> rv_cpu \<times> 's) outcome" where
  "isa_exec B (R_type op rd rs1 rs2) cpu s =
    (let x = regs cpu ! unat rs1; y = regs cpu ! unat rs2
     in Done (True, isa_pc (uint (pc cpu) + 4) (isa_write rd (isa_binary op x y) cpu), s))"
| "isa_exec B (I_type op rd rs1 imm) cpu s =
    (let x = regs cpu ! unat rs1; next_pc = isa_pc (uint (pc cpu) + 4); addr = uint x + sint imm in
     if op = RV_OP_JALR then
       Done (True, isa_pc (addr div 2 * 2) (isa_write rd (uint (pc cpu) + 4) cpu), s)
     else case isa_load op of
       Some (n, sgd) \<Rightarrow>
         (case bus_read B (word_of_int addr) n s of
            (Some v, s') \<Rightarrow>
              Done (True, next_pc (isa_write rd
                (if sgd then signed_take_bit (8 * n - 1) (uint v) else uint v) cpu), s')
          | (None, s') \<Rightarrow> Done (False, next_pc cpu, s'))
     | None \<Rightarrow> Done (True, next_pc (isa_write rd (isa_binary (isa_imm_op op) x (scast imm)) cpu), s))"
| "isa_exec B (Sh_type op rd rs1 sh) cpu s =
    (let x = regs cpu ! unat rs1
     in Done (True, isa_pc (uint (pc cpu) + 4)
          (isa_write rd (isa_binary (isa_imm_op op) x (ucast sh)) cpu), s))"
| "isa_exec B (S_type op rs1 rs2 imm) cpu s =
    (let x = regs cpu ! unat rs1; y = regs cpu ! unat rs2;
         n = (if op = RV_OP_SB then 1 else if op = RV_OP_SH then 2 else 4)
     in case bus_write B (word_of_int (uint x + sint imm)) n y s of
          (ok, s') \<Rightarrow> Done (ok, isa_pc (uint (pc cpu) + 4) cpu, s'))"
| "isa_exec B (B_type op rs1 rs2 imm) cpu s =
    (let x = regs cpu ! unat rs1; y = regs cpu ! unat rs2
     in Done (True, isa_pc (uint (pc cpu) + (if isa_cond op x y then 2 * sint imm else 4)) cpu, s))"
| "isa_exec B (U_type op rd imm) cpu s =
     Done (True, isa_pc (uint (pc cpu) + 4) (isa_write rd
       ((if op = RV_OP_AUIPC then uint (pc cpu) else 0) + uint imm * 2 ^ 12) cpu), s)"
| "isa_exec B (J_type op rd imm) cpu s =
     Done (True, isa_pc (uint (pc cpu) + 2 * sint imm) (isa_write rd (uint (pc cpu) + 4) cpu), s)"
| "isa_exec B (F_type op fm pred succ rd rs1) cpu s = Done (True, isa_pc (uint (pc cpu) + 4) cpu, s)"
| "isa_exec B (Sys_type op) cpu s =
    (if op = RV_OP_ECALL then
       then_do (bus_ecall B cpu s) (\<lambda>(ok, cpu', s').
         Done (ok, isa_pc (uint (pc cpu) + 4) (cpu'\<lparr>regs := (regs cpu')[0 := 0]\<rparr>), s'))
     else Exited)"

text \<open>
  The operands on which the C code is not the manual, and the fences, which it does not execute: see
  the findings.
\<close>

fun conforming :: "rv_instr \<Rightarrow> rv_cpu \<Rightarrow> bool" where
  "conforming (R_type op rd rs1 rs2) cpu \<longleftrightarrow>
    (let x = regs cpu ! unat rs1; y = regs cpu ! unat rs2 in
     (op = RV_OP_MULH \<longrightarrow> 0 \<le> sint x \<and> 0 \<le> sint y) \<and>
     (op = RV_OP_MULHSU \<longrightarrow> 0 \<le> sint x) \<and>
     (op = RV_OP_DIV \<longrightarrow> \<not> (sint x = - (2 ^ 31) \<and> sint y = - 1)) \<and>
     op \<noteq> RV_OP_REM \<and>
     (op = RV_OP_REMU \<longrightarrow> y \<noteq> 0))"
| "conforming (F_type op fm pred succ rd rs1) cpu \<longleftrightarrow> False"
| "conforming _ cpu \<longleftrightarrow> True"

text \<open>The registers as the CPU keeps them.\<close>

definition cpu_ok :: "rv_cpu \<Rightarrow> bool" where
  "cpu_ok cpu \<longleftrightarrow> length (regs cpu) = 32 \<and> regs cpu ! 0 = 0"


section \<open>The C arithmetic is the manual's\<close>

lemma nat_shamt: "unat (y AND 0x1f) = nat (uint (y :: u32) mod 32)"
proof -
  have "y AND 0x1f = take_bit 5 y"
    by (simp add: take_bit_eq_mask mask_eq_exp_minus_1)
  then have "unat (y AND 0x1f) = unat y mod 32"
    by (simp add: take_bit_eq_mod unat_mod_distrib)
  then show ?thesis by (simp add: nat_mod_distrib)
qed

lemma take_bit_uint:
  assumes "LENGTH('a) \<le> n"
  shows "take_bit n (uint (x :: 'a::len word)) = uint x"
proof -
  have "(2 :: int) ^ LENGTH('a) \<le> 2 ^ n" using assms by simp
  then have "uint x < 2 ^ n" using unsigned_less [of x, where 'a = int] by linarith
  then show ?thesis by (simp add: take_bit_int_eq_self)
qed

lemma word_of_int_unsigned_drop: "word_of_int (uint x div 2 ^ n) = drop_bit n (x :: u32)"
proof -
  have "uint (drop_bit n x) = uint x div 2 ^ n"
    by (simp add: unsigned_drop_bit_eq take_bit_uint flip: drop_bit_eq_div)
  then show ?thesis by (metis word_of_int_uint)
qed

lemma sar_eq: "sar x n = word_of_int (sint x div 2 ^ unat n)"
proof -
  have "sint (sar x n) = sint x div 2 ^ unat n"
    by (simp add: sar_def sint_signed_drop_bit_eq drop_bit_eq_div)
  then have "word_of_int (sint (sar x n)) = (word_of_int (sint x div 2 ^ unat n) :: u32)" by simp
  then show ?thesis by simp
qed

lemma uint_ucast64: "uint (ucast (x :: u32) :: u64) = uint x"
  by (simp add: uint_up_ucast is_up)

lemma mul_high_eq:
  "mul_high (ucast x) (ucast y) = word_of_int (uint (x :: u32) * uint (y :: u32) div 2 ^ 32)"
proof -
  have "uint x < 2 ^ 32" "uint y < 2 ^ 32"
    using unsigned_less [of x, where 'a = int] unsigned_less [of y, where 'a = int] by simp_all
  then have "uint x * uint y \<le> (2 ^ 32 - 1) * (2 ^ 32 - 1)"
    by (intro mult_mono) auto
  then have lt: "uint x * uint y < 2 ^ 64" by simp
  then have p: "uint ((ucast x :: u64) * ucast y) = uint x * uint y"
    by (simp add: uint_word_ariths uint_ucast64)
  have "uint (drop_bit 32 ((ucast x :: u64) * ucast y)) = uint x * uint y div 2 ^ 32"
    unfolding unsigned_drop_bit_eq p using lt by (simp add: drop_bit_eq_div take_bit_int_eq_self)
  then show ?thesis
    unfolding mul_high_def by (metis ucast_eq)
qed

lemma sint_eq_uint_nonneg:
  assumes "0 \<le> sint (x :: u32)"
  shows "sint x = uint x"
proof -
  have "uint x = take_bit 32 (sint x)" by (simp add: uint_sint)
  moreover have "sint x < 2 ^ 31" using sint_lt [of x] by simp
  ultimately show ?thesis using assms by (simp add: take_bit_int_eq_self)
qed


lemma div_2_32_cong: "0 \<le> sint (x :: u32) \<Longrightarrow> 0 \<le> sint (y :: u32) \<Longrightarrow>
    sint x * sint y div 2 ^ 32 = uint x * uint y div 2 ^ 32"
  by (simp add: sint_eq_uint_nonneg)

lemma sint_min32: "sint (0x80000000 :: u32) = - (2 ^ 31)" "sint (0xffffffff :: u32) = - 1"
  by simp_all

lemma sint_min32_iff: "sint (x :: u32) = - (2 ^ 31) \<longleftrightarrow> x = 0x80000000"
  "sint (x :: u32) = - 1 \<longleftrightarrow> x = 0xffffffff"
  using signed_word_eqI [of x "0x80000000"] signed_word_eqI [of x "0xffffffff"] by auto

lemma word_of_int_bitwise:
  "word_of_int (uint x AND uint y) = (x AND y :: u32)"
  "word_of_int (uint x OR uint y) = (x OR y :: u32)"
  "word_of_int (uint x XOR uint y) = (x XOR y :: u32)"
  by (simp_all flip: unsigned_and_eq unsigned_or_eq unsigned_xor_eq)

text \<open>A value stored in \<open>rd\<close> and the return to the next instruction.\<close>

lemma finish_isa:
  assumes "cpu_ok cpu"
  shows "finish (set_reg (unat rd) v cpu) p i = isa_pc (uint p + uint i) (isa_write rd (uint v) cpu)"
proof -
  have "unat rd < 32" using unsigned_less [of rd, where 'a = nat] by simp
  moreover have "rd \<noteq> 0 \<Longrightarrow> unat rd \<noteq> 0" by (simp add: unat_eq_zero)
  moreover have "(regs cpu)[0 := v, 0 := 0] = regs cpu" "(regs cpu)[0 := 0] = regs cpu"
    using assms by (simp_all add: cpu_ok_def list_update_same_conv)
  ultimately show ?thesis
    using assms by (auto simp: finish_def set_reg_def isa_pc_def isa_write_def cpu_ok_def list_update_swap)
qed

lemma finish_isa_pc: "cpu_ok cpu \<Longrightarrow> finish cpu p i = isa_pc (uint p + uint i) cpu"
  by (simp add: finish_def set_reg_def isa_pc_def cpu_ok_def list_update_same_conv)

text \<open>Each case of the switch, against the manual.\<close>

lemma alu_value_R:
  assumes "alu_value op inst cpu = Some v" "r_code op \<noteq> None"
    and "regs cpu ! f_rs1 inst = x" "regs cpu ! f_rs2 inst = y"
  shows "v = word_of_int (isa_binary op x y)"
  using assms
  by (cases op) (auto simp: alu_value_def isa_binary_def r_code_def Let_def nat_shamt
      word_of_int_unsigned_drop sar_eq slt_def word_less_def push_bit_eq_mult word_of_int_bitwise)


lemma word_of_int_uint_div: "word_of_int (uint x div uint y) = (x div y :: u32)"
  by (simp add: word_div_def)

lemma word_of_int_uint_mod: "word_of_int (uint x mod uint y) = (x mod y :: u32)"
  by (simp add: word_mod_def)

lemma muldiv_value_isa:
  assumes "muldiv_value op x y = Some v"
    and "op = RV_OP_MULH \<longrightarrow> 0 \<le> sint x \<and> 0 \<le> sint y" "op = RV_OP_MULHSU \<longrightarrow> 0 \<le> sint x"
    and "op = RV_OP_DIV \<longrightarrow> \<not> (sint x = - (2 ^ 31) \<and> sint y = - 1)"
  shows "v = word_of_int (isa_binary op x y)"
proof (cases op)
  case RV_OP_MULH
  then show ?thesis using assms by (simp add: muldiv_value_def isa_binary_def mul_high_eq sint_eq_uint_nonneg)
next
  case RV_OP_MULHSU
  then show ?thesis using assms by (simp add: muldiv_value_def isa_binary_def mul_high_eq sint_eq_uint_nonneg)
next
  case RV_OP_MULHU
  then show ?thesis using assms by (simp add: muldiv_value_def isa_binary_def mul_high_eq)
next
  case RV_OP_DIV
  then show ?thesis
    using assms unfolding sint_min32_iff by (auto simp: muldiv_value_def isa_binary_def)
next
  case RV_OP_DIVU
  then show ?thesis using assms
    by (auto simp: muldiv_value_def isa_binary_def word_of_int_uint_div)
qed (use assms in \<open>simp_all add: muldiv_value_def isa_binary_def\<close>)

lemmas exec_tables = alu_value_def muldiv_value_def branch_inc_def load_kind_def store_size_def
  Let_def

lemma exec_R:
  assumes "r_code op \<noteq> None" "rv_cpu_decode w = op" "operands_decoded (R_type op rd rs1 rs2) w"
    and "cpu_ok cpu" "conforming (R_type op rd rs1 rs2) cpu"
  shows "rv_cpu_execute B w cpu s = isa_exec B (R_type op rd rs1 rs2) cpu s"
proof -
  let ?x = "regs cpu ! unat rs1" and ?y = "regs cpu ! unat rs2"
  have f: "f_rd w = unat rd" "f_rs1 w = unat rs1" "f_rs2 w = unat rs2" using assms(3) by auto
  consider (alu) v where "alu_value op w cpu = Some v"
    | (mul) v where "alu_value op w cpu = None" "muldiv_value op ?x ?y = Some v"
    | (remu) "op = RV_OP_REMU" "?y \<noteq> 0"
    using assms(1,5) by (cases op) (auto simp: r_code_def exec_tables)
  then obtain v where v: "rv_cpu_execute B w cpu s = Done (True, finish (set_reg (unat rd) v cpu) (pc cpu) 4, s)"
    and r: "v = word_of_int (isa_binary op ?x ?y)"
  proof cases
    case alu
    then show ?thesis
      using that [of v] alu_value_R [OF alu assms(1)] f assms(2) by (simp add: rv_cpu_execute_def)
  next
    case mul
    then have r: "v = word_of_int (isa_binary op ?x ?y)"
      by (intro muldiv_value_isa [OF mul(2)]) (use assms(5) in \<open>simp_all add: Let_def\<close>)
    have "rv_cpu_execute B w cpu s = Done (True, finish (set_reg (unat rd) v cpu) (pc cpu) 4, s)"
      by (simp add: rv_cpu_execute_def mul f assms(2))
    then show ?thesis using r by (rule that)
  next
    case remu
    have "rv_cpu_execute B w cpu s = Done (True, finish (set_reg (unat rd) (?x mod ?y) cpu) (pc cpu) 4, s)"
      using remu assms(2) by (simp add: rv_cpu_execute_def exec_tables f)
    moreover have "?x mod ?y = word_of_int (isa_binary op ?x ?y)"
      using remu by (simp add: isa_binary_def word_of_int_uint_mod)
    ultimately show ?thesis by (rule that)
  qed
  show ?thesis
    unfolding v finish_isa [OF assms(4)] isa_exec.simps Let_def isa_write_def r by simp
qed


lemma alu_imm_isa:
  assumes "isa_imm_op op \<noteq> RV_OP_UNKNOWN" "regs cpu ! f_rs1 w = x"
    and "if op \<in> {RV_OP_SLLI, RV_OP_SRLI, RV_OP_SRAI} then imm_i w AND 0x1f = y AND 0x1f else imm_i w = y"
  shows "alu_value op w cpu = Some (word_of_int (isa_binary (isa_imm_op op) x y))"
  using assms
  by (cases op) (auto simp: alu_value_def isa_binary_def isa_imm_op_def Let_def nat_shamt [symmetric]
      word_of_int_unsigned_drop sar_eq slt_def word_less_def push_bit_eq_mult word_of_int_bitwise)

text \<open>The sign extension of a value that was read.\<close>

lemma sign_extend_isa:
  "sign_extend_b v = word_of_int (signed_take_bit 7 (uint v))"
  "sign_extend_h v = word_of_int (signed_take_bit 15 (uint v))"
  by (rule bit_word_eqI; auto simp: sign_extend_b_def sign_extend_h_def bit_simps min_def;
      metis bit_uint_iff)+

lemma clear_lsb: "z div 2 * 2 = z AND NOT (1 :: int)"
proof (rule bit_eqI)
  fix n show "bit (z div 2 * 2) n = bit (z AND NOT 1) n"
    by (cases n) (simp_all add: bit_double_iff bit_and_iff bit_not_iff bit_1_iff mult.commute [of _ 2]
        flip: bit_Suc del: not_one_eq)
qed

lemma jalr_isa: "(x + y) AND NOT 1 = word_of_int ((uint x + sint y) div 2 * 2)" for x y :: u32
proof -
  have "bit (x + y) n = bit (uint x + sint y) n" if "n < 32" for n
  proof -
    have "x + y = word_of_int (uint x + sint y)" by simp
    then show ?thesis using that by (simp only: bit_word_of_int_iff) simp
  qed
  then show ?thesis
    unfolding clear_lsb by (intro bit_word_eqI) (simp add: bit_simps bit_word_of_int_iff)
qed


lemma sign_extend_word: "word_of_int (signed_take_bit 31 (uint v)) = (v :: u32)"
proof -
  have "signed_take_bit 31 (uint v) = sint v" by (simp add: sint_uint)
  then show ?thesis by simp
qed

lemma exec_I:
  assumes "i_code op \<noteq> None" "rv_cpu_decode w = op" "operands_decoded (I_type op rd rs1 imm) w"
    and ok: "cpu_ok cpu"
  shows "rv_cpu_execute B w cpu s = isa_exec B (I_type op rd rs1 imm) cpu s"
proof -
  let ?x = "regs cpu ! unat rs1"
  have f: "f_rd w = unat rd" "f_rs1 w = unat rs1" "imm_i w = scast imm" using assms(3) by auto
  have si: "sint (scast imm :: u32) = sint imm" by (simp add: sint_up_scast is_up)
  consider (jalr) "op = RV_OP_JALR"
    | (load) n ext sgd where "load_kind op = Some (n, ext)" "isa_load op = Some (n, sgd)"
        "\<And>v. ext v = word_of_int (if sgd then signed_take_bit (8 * n - 1) (uint v) else uint v)"
        "op \<in> {RV_OP_LB, RV_OP_LH, RV_OP_LW, RV_OP_LBU, RV_OP_LHU}"
    | (imm) "isa_imm_op op \<notin> {RV_OP_UNKNOWN, RV_OP_SLL, RV_OP_SRL, RV_OP_SRA}" "isa_load op = None"
        "op \<noteq> RV_OP_JALR" "op \<notin> {RV_OP_SLLI, RV_OP_SRLI, RV_OP_SRAI}"
    using assms(1)
    by (cases op) (auto simp: i_code_def load_kind_def isa_load_def isa_imm_op_def sign_extend_isa
        sign_extend_word)
  then show ?thesis
  proof cases
    case jalr
    have "(?x + scast imm) AND NOT 1 = word_of_int ((uint ?x + sint imm) div 2 * 2)"
      using jalr_isa [of ?x "scast imm"] by (simp only: si)
    then show ?thesis
      using jalr assms(2)
      by (simp add: rv_cpu_execute_def exec_tables f finish_isa [OF ok] isa_pc_def isa_write_def)
  next
    case load
    from load(4) have "alu_value op w cpu = None" "muldiv_value op a b = None" "branch_inc op w cpu = None" for a b
      by (auto simp: exec_tables)
    moreover have "op \<noteq> RV_OP_JALR" using load(4) by auto
    ultimately show ?thesis
      using load(1-3) assms(2)
      by (simp add: rv_cpu_execute_def f Let_def finish_isa [OF ok] finish_isa_pc [OF ok] isa_pc_def
          isa_write_def split: prod.splits option.splits)
  next
    case imm
    have "alu_value op w cpu = Some (word_of_int (isa_binary (isa_imm_op op) ?x (scast imm)))"
      by (rule alu_imm_isa) (use imm f in auto)
    then show ?thesis
      using imm assms(2)
      by (simp add: rv_cpu_execute_def f Let_def finish_isa [OF ok] isa_pc_def isa_write_def)
  qed
qed

lemma exec_Sh:
  assumes "sh_code op \<noteq> None" "rv_cpu_decode w = op" "operands_decoded (Sh_type op rd rs1 sh) w"
    and ok: "cpu_ok cpu"
  shows "rv_cpu_execute B w cpu s = isa_exec B (Sh_type op rd rs1 sh) cpu s"
proof -
  let ?x = "regs cpu ! unat rs1"
  have f: "f_rd w = unat rd" "f_rs1 w = unat rs1" "imm_i w AND 0x1f = ucast sh" using assms(3) by auto
  have "unat sh < 32" using unsigned_less [of sh, where 'a = nat] by simp
  then have "(ucast sh :: u32) AND 0x1f = ucast sh"
    using f(3) by (metis and.assoc and.idem)
  then have "alu_value op w cpu = Some (word_of_int (isa_binary (isa_imm_op op) ?x (ucast sh)))"
    by (intro alu_imm_isa)
      (use assms(1) f in \<open>cases op; auto simp: sh_code_def isa_imm_op_def\<close>)+
  then show ?thesis
    using assms(2) by (simp add: rv_cpu_execute_def f Let_def finish_isa [OF ok] isa_pc_def isa_write_def)
qed


lemma exec_S:
  assumes "s_code op \<noteq> None" "rv_cpu_decode w = op" "operands_decoded (S_type op rs1 rs2 imm) w"
    and ok: "cpu_ok cpu"
  shows "rv_cpu_execute B w cpu s = isa_exec B (S_type op rs1 rs2 imm) cpu s"
proof -
  have f: "f_rs1 w = unat rs1" "f_rs2 w = unat rs2" "imm_s w = scast imm" using assms(3) by auto
  have "op \<in> {RV_OP_SB, RV_OP_SH, RV_OP_SW}"
    using assms(1) by (cases op) (auto simp: s_code_def)
  then show ?thesis
    using assms(2)
    by (auto simp: rv_cpu_execute_def exec_tables f finish_isa_pc [OF ok] isa_pc_def
        split: prod.splits)
qed

lemma exec_B:
  assumes "b_code op \<noteq> None" "rv_cpu_decode w = op" "operands_decoded (B_type op rs1 rs2 imm) w"
    and ok: "cpu_ok cpu"
  shows "rv_cpu_execute B w cpu s = isa_exec B (B_type op rs1 rs2 imm) cpu s"
proof -
  let ?x = "regs cpu ! unat rs1" and ?y = "regs cpu ! unat rs2"
  have f: "f_rs1 w = unat rs1" "f_rs2 w = unat rs2" "imm_b w = push_bit 1 (scast imm)"
    using assms(3) by auto
  have n: "alu_value op w cpu = None" "muldiv_value op a b = None"
      "branch_inc op w cpu = Some (if isa_cond op ?x ?y then imm_b w else 4)" for a b
    using assms(1) f by (cases op; auto simp: b_code_def exec_tables isa_cond_def slt_def
        word_less_def word_le_def word_uint_eq_iff)+
  have "push_bit 1 (scast imm) = (word_of_int (2 * sint imm) :: u32)"
    by (simp add: push_bit_eq_mult)
  then show ?thesis
    using assms(2)
    by (simp add: rv_cpu_execute_def Let_def n f finish_isa_pc [OF ok] isa_pc_def)
qed

lemma exec_Sys:
  "rv_cpu_decode w = RV_OP_ECALL \<Longrightarrow>
     rv_cpu_execute B w cpu s = isa_exec B (Sys_type RV_OP_ECALL) cpu s"
  "rv_cpu_decode w = RV_OP_EBREAK \<Longrightarrow>
     rv_cpu_execute B w cpu s = isa_exec B (Sys_type RV_OP_EBREAK) cpu s"
  by (simp_all add: rv_cpu_execute_def exec_tables finish_def set_reg_def isa_pc_def)

text \<open>What the C code does where it is not the manual.\<close>

lemma exec_remu_0:
  "rv_cpu_decode w = RV_OP_REMU \<Longrightarrow> regs cpu ! f_rs2 w = 0 \<Longrightarrow>
     rv_cpu_execute B w cpu s =
       Done (True, finish (set_reg (f_rd w) 0 (set_reg (f_rs1 w) 0 cpu)) (pc cpu) 4, s)"
  by (simp add: rv_cpu_execute_def exec_tables)

lemma exec_ends:
  "rv_cpu_decode w \<in> {RV_OP_REM, RV_OP_FENCE, RV_OP_FENCE_TSO, RV_OP_PAUSE, RV_OP_EBREAK, RV_OP_UNKNOWN}
     \<Longrightarrow> rv_cpu_execute B w cpu s = Exited"
  by (auto simp: rv_cpu_execute_def exec_tables)

lemma exec_mulh:
  "rv_cpu_decode w \<in> {RV_OP_MULH, RV_OP_MULHSU} \<Longrightarrow>
     rv_cpu_execute B w cpu s = Done (True, finish (set_reg (f_rd w)
       (word_of_int (isa_binary RV_OP_MULHU (regs cpu ! f_rs1 w) (regs cpu ! f_rs2 w))) cpu) (pc cpu) 4, s)"
proof -
  have "muldiv_value op x y = Some (word_of_int (isa_binary RV_OP_MULHU x y))" "alu_value op w cpu = None"
    if "op \<in> {RV_OP_MULH, RV_OP_MULHSU}" for op x y
    using that by (elim insertE emptyE; simp add: muldiv_value_def alu_value_def isa_binary_def mul_high_eq)+
  then show "rv_cpu_decode w \<in> {RV_OP_MULH, RV_OP_MULHSU} \<Longrightarrow> ?thesis"
    by (simp only: rv_cpu_execute_def Let_def option.case)
qed

lemma exec_div_overflow:
  "rv_cpu_decode w = RV_OP_DIV \<Longrightarrow> regs cpu ! f_rs1 w = 0x80000000 \<Longrightarrow> regs cpu ! f_rs2 w = 0xffffffff \<Longrightarrow>
     rv_cpu_execute B w cpu s =
       Done (True, finish (set_reg (f_rd w) 0xffffffff cpu) (pc cpu) 4, s)"
  by (simp add: rv_cpu_execute_def exec_tables)

text \<open>Every instruction keeps the size of the register file, if the system calls do, and clears \<open>x0\<close>.\<close>

lemma execute_cpu_ok:
  assumes "rv_cpu_execute B w cpu s = Done (ok, cpu', s')" and "length (regs cpu) = 32"
    and "\<And>ok' c' t'. bus_ecall B cpu s = Done (ok', c', t') \<Longrightarrow> length (regs c') = length (regs cpu)"
  shows "cpu_ok cpu'"
proof -
  have fin: "cpu_ok (finish c p i) \<longleftrightarrow> length (regs c) = 32" for c p i
    by (auto simp: cpu_ok_def finish_def set_reg_def)
  show ?thesis
  proof (cases "rv_cpu_decode w = RV_OP_ECALL")
    case True
    then obtain ok' c' t' where "bus_ecall B cpu s = Done (ok', c', t')" "cpu' = finish c' (pc cpu) 4"
      using assms(1) by (cases "bus_ecall B cpu s") (auto simp: rv_cpu_execute_def exec_tables)
    then show ?thesis using assms(2,3) fin by metis
  next
    case False
    then show ?thesis
      using assms(1,2)
      by (auto simp: rv_cpu_execute_def Let_def set_reg_def fin
          split: option.splits prod.splits rv_op.splits if_splits)
  qed
qed

section \<open>Properties\<close>

text \<open>
  C38: the CPU implements the manual. For every RV32IM instruction, in any state of the CPU
  and on any bus, \<open>rv_cpu_execute\<close> on the encoded word has exactly the effect the manual
  gives to the instruction, on the operands for which the C code is conforming; \<open>ECALL\<close> is the call of
  the bus, and the fences, which the C code does not execute, are not conforming.
\<close>

theorem rv_cpu_execute_isa:
  assumes "rv_encode i = Some w" and "cpu_ok cpu" and "conforming i cpu"
  shows "rv_cpu_execute B w cpu s = isa_exec B i cpu s"
proof -
  have d: "rv_cpu_decode w = instr_op i" "operands_decoded i w"
    using decode_encode [OF assms(1)] by auto
  show ?thesis
  proof (cases i)
    case (R_type op rd rs1 rs2)
    then have "r_code op \<noteq> None" using assms(1) by auto
    with R_type d assms exec_R show ?thesis by simp
  next
    case (I_type op rd rs1 imm)
    then have "i_code op \<noteq> None" using assms(1) by auto
    with I_type d assms(2) exec_I show ?thesis by (metis instr_op.simps(2))
  next
    case (Sh_type op rd rs1 sh)
    then have "sh_code op \<noteq> None" using assms(1) by auto
    with Sh_type d assms(2) exec_Sh show ?thesis by (metis instr_op.simps(3))
  next
    case (S_type op rs1 rs2 imm)
    then have "s_code op \<noteq> None" using assms(1) by auto
    with S_type d assms(2) exec_S show ?thesis by (metis instr_op.simps(4))
  next
    case (B_type op rs1 rs2 imm)
    then have "b_code op \<noteq> None" using assms(1) by auto
    with B_type d assms(2) exec_B show ?thesis by (metis instr_op.simps(5))
  next
    case (U_type op rd imm)
    then have "op = RV_OP_LUI \<or> op = RV_OP_AUIPC" using assms(1) by (auto split: if_splits)
    then have "rv_cpu_execute B w cpu s = Done (True, finish (set_reg (unat rd)
        ((if op = RV_OP_AUIPC then pc cpu else 0) + push_bit 12 (ucast imm)) cpu) (pc cpu) 4, s)"
      using d U_type by (elim disjE) (simp_all add: rv_cpu_execute_def alu_value_def Let_def)
    then show ?thesis
      by (simp add: U_type finish_isa [OF assms(2)] isa_pc_def isa_write_def push_bit_eq_mult)
  next
    case (J_type op rd imm)
    then have op: "op = RV_OP_JAL" using assms(1) by (auto split: if_splits)
    have "rv_cpu_execute B w cpu s = Done (True, finish (set_reg (unat rd)
        (pc cpu + 4) cpu) (pc cpu) (push_bit 1 (scast imm)), s)"
      using d J_type op by (simp add: rv_cpu_execute_def exec_tables)
    then show ?thesis
      by (simp add: J_type finish_isa [OF assms(2)] isa_pc_def isa_write_def push_bit_eq_mult)
  next
    case (F_type op fm pred succ rd rs1)
    then show ?thesis using assms(3) by simp
  next
    case (Sys_type op)
    then have "op = RV_OP_ECALL \<or> op = RV_OP_EBREAK"
      using assms(1) by (auto simp: sys_code_def split: if_splits)
    then show ?thesis using d Sys_type exec_Sys by fastforce
  qed
qed

text \<open>
  C39: the divergences from the manual, for every encoding, bus and state. \<open>MULH\<close> and \<open>MULHSU\<close> always
  compute \<open>MULHU\<close>: the casts to \<open>i64\<close> extend with zeros, so that the high half of
  \<open>- 1 * - 1\<close> is not 0. A division that overflows yields \<open>0xffffffff\<close> where the manual has the
  dividend. \<open>REMU\<close> by zero clears \<open>rd\<close> and \<open>rs1\<close>, where the manual keeps \<open>rs1\<close> and copies it to
  \<open>rd\<close>. \<open>REM\<close> and the fences end the process, as \<open>EBREAK\<close> and the words that are not decoded do.
\<close>

theorem rv_divergences:
  "(rv_cpu_decode w \<in> {RV_OP_MULH, RV_OP_MULHSU} \<longrightarrow>
     rv_cpu_execute B w cpu s = Done (True, finish (set_reg (f_rd w)
       (word_of_int (isa_binary RV_OP_MULHU (regs cpu ! f_rs1 w) (regs cpu ! f_rs2 w))) cpu) (pc cpu) 4, s)) \<and>
   muldiv_value RV_OP_MULH (- 1) (- 1) = Some 0xfffffffe \<and>
   isa_binary RV_OP_MULH (- 1) (- 1) = 0 \<and>
   (rv_cpu_decode w = RV_OP_DIV \<and> regs cpu ! f_rs1 w = 0x80000000 \<and> regs cpu ! f_rs2 w = 0xffffffff \<longrightarrow>
     rv_cpu_execute B w cpu s = Done (True, finish (set_reg (f_rd w) 0xffffffff cpu) (pc cpu) 4, s)) \<and>
   word_of_int (isa_binary RV_OP_DIV 0x80000000 0xffffffff) = (0x80000000 :: u32) \<and>
   (rv_cpu_decode w = RV_OP_REMU \<and> regs cpu ! f_rs2 w = 0 \<longrightarrow>
     rv_cpu_execute B w cpu s =
       Done (True, finish (set_reg (f_rd w) 0 (set_reg (f_rs1 w) 0 cpu)) (pc cpu) 4, s)) \<and>
   isa_binary RV_OP_REMU x 0 = uint x \<and>
   (rv_cpu_decode w \<in> {RV_OP_REM, RV_OP_FENCE, RV_OP_FENCE_TSO, RV_OP_PAUSE, RV_OP_EBREAK, RV_OP_UNKNOWN} \<longrightarrow>
     rv_cpu_execute B w cpu s = Exited)"
proof (intro conjI impI)
  show "muldiv_value RV_OP_MULH (- 1) (- 1) = Some 0xfffffffe" by code_simp
qed (simp_all only: exec_mulh exec_div_overflow exec_remu_0 exec_ends, simp_all add: isa_binary_def)

text \<open>The witnesses run \<open>addi x5, x6, -1\<close> after a reset.\<close>

definition ex_bus :: "unit bus" where
  "ex_bus = \<lparr>bus_read = (\<lambda>a n s. (Some 0, s)), bus_write = (\<lambda>a n v s. (True, s)),
     bus_ecall = (\<lambda>c s. Done (True, c, s))\<rparr>"

lemma ex_cpu_ok: "cpu_ok rv_cpu_reset"
  by (simp add: cpu_ok_def rv_cpu_reset_def)

theorem rv_cpu_execute_isa_witness:
  "rv_cpu_execute ex_bus 0xfff30293 rv_cpu_reset () =
     isa_exec ex_bus (I_type RV_OP_ADDI 5 6 0xfff) rv_cpu_reset ()"
  using rv_cpu_execute_isa [OF encode_addi ex_cpu_ok] by simp

theorem rv_divergences_witness:
  "rv_cpu_execute ex_bus 0x027372b3 (set_reg 6 5 rv_cpu_reset) () = Done (True, rv_cpu_reset\<lparr>pc := 4\<rparr>, ()) \<and>
   rv_cpu_execute ex_bus 0x027362b3 rv_cpu_reset () = Exited \<and>
   rv_cpu_execute ex_bus 0x0ff0000f rv_cpu_reset () = Exited \<and>
   rv_cpu_execute ex_bus 0x00100073 rv_cpu_reset () = Exited"
proof (intro conjI)
  have d: "rv_cpu_decode 0x027372b3 = RV_OP_REMU" "rv_cpu_decode 0x027362b3 = RV_OP_REM"
    "rv_cpu_decode 0x0ff0000f = RV_OP_FENCE" "rv_cpu_decode 0x00100073 = RV_OP_EBREAK" by code_simp+
  have f: "f_rd 0x027372b3 = 5" "f_rs1 0x027372b3 = 6" "f_rs2 0x027372b3 = 7" by code_simp+
  have r: "regs (set_reg 6 5 rv_cpu_reset) ! 7 = 0"
    by (simp add: set_reg_def rv_cpu_reset_def)
  have z: "finish (set_reg 5 0 (set_reg 6 0 (set_reg 6 5 rv_cpu_reset))) (pc (set_reg 6 5 rv_cpu_reset)) 4 =
      rv_cpu_reset\<lparr>pc := 4\<rparr>"
    by (simp add: finish_def set_reg_def rv_cpu_reset_def list_eq_iff_nth_eq nth_list_update)
  show "rv_cpu_execute ex_bus 0x027372b3 (set_reg 6 5 rv_cpu_reset) () = Done (True, rv_cpu_reset\<lparr>pc := 4\<rparr>, ())"
    using rv_divergences [of "0x027372b3" ex_bus "set_reg 6 5 rv_cpu_reset" "()"] by (simp add: d f r z)
  show "rv_cpu_execute ex_bus 0x027362b3 rv_cpu_reset () = Exited"
    "rv_cpu_execute ex_bus 0x0ff0000f rv_cpu_reset () = Exited"
    "rv_cpu_execute ex_bus 0x00100073 rv_cpu_reset () = Exited"
    using rv_divergences [of _ ex_bus rv_cpu_reset "()"] by (simp_all add: d)
qed

end
