(* ===== verification/Vm_State.thy ===== *)
theory Vm_State
  imports Loading Lfsr Merkle_Tree Rv_Execute
begin

text \<open>
  The state of the VM: the static variables of all the files under \<open>vm/src\<close>, in one record.
  The manifest of an application, the layout of \<open>struct manifest_s\<close> of \<open>stream.h\<close>.
\<close>

section \<open>The paged memory: memory.c\<close>

datatype section_e = SECTION_CODE | SECTION_STACK | SECTION_DATA

record section_s =
  s_start :: u32
  s_end :: u32

text \<open>
  \<open>struct cache_s\<close>: \<open>npage\<close> is the length of the array. \<open>current_page\<close> is an index into it.
\<close>

record cache_s =
  pages :: "page_s list"
  writeable :: bool
  current_page :: "nat option"

text \<open>The three caches of \<open>struct memory_s\<close> are named by the section they serve.\<close>

record memory_s =
  sections :: "section_e \<Rightarrow> section_s"
  caches :: "section_e \<Rightarrow> cache_s"
  bss_max :: u32
  stack_min :: u32

text \<open>\<open>NPAGE_CODE\<close>, \<open>NPAGE_STACK\<close>, \<open>NPAGE_DATA\<close> on the Nano X and the Nano S Plus.\<close>

primrec NPAGE :: "section_e \<Rightarrow> nat" where
  "NPAGE SECTION_CODE = 65"
| "NPAGE SECTION_STACK = 10"
| "NPAGE SECTION_DATA = 10"

section \<open>The manifest\<close>

text \<open>
  \<open>struct manifest_s\<close> is packed, 160 bytes; it is kept as its bytes, which the code hashes,
  and read at the offsets of its fields.
\<close>

type_synonym manifest_s = "u8 list"

definition MANIFEST_SIZE :: nat where "MANIFEST_SIZE = 160"

definition m_name :: "manifest_s \<Rightarrow> u8 list" where "m_name m = slice m 4 32"

definition m_app_hash :: "manifest_s \<Rightarrow> u8 list" where "m_app_hash m = slice m 52 32"

definition m_pc :: "manifest_s \<Rightarrow> u32" where "m_pc m = le_val (slice m 84 4)"

definition m_bss :: "manifest_s \<Rightarrow> u32" where "m_bss m = le_val (slice m 88 4)"

primrec section_index :: "section_e \<Rightarrow> nat" where
  "section_index SECTION_CODE = 0"
| "section_index SECTION_STACK = 1"
| "section_index SECTION_DATA = 2"

definition m_sections :: "manifest_s \<Rightarrow> section_e \<Rightarrow> section_s" where
  "m_sections m s =
    (let off = 92 + 8 * section_index s
     in \<lparr>s_start = le_val (slice m off 4), s_end = le_val (slice m (off + 4) 4)\<rparr>)"

definition m_root_hash :: "manifest_s \<Rightarrow> u8 list" where "m_root_hash m = slice m 116 32"

definition m_merkle_size :: "manifest_s \<Rightarrow> u32" where "m_merkle_size m = le_val (slice m 148 4)"

definition m_last_entry :: "manifest_s \<Rightarrow> entry_s" where
  "m_last_entry m = \<lparr>e_addr = le_val (slice m 152 4), e_iv = le_val (slice m 156 4)\<rparr>"

section \<open>The state\<close>

text \<open>
  The keys of \<open>struct app_s\<close> and its CPU, the context of \<open>merkle.c\<close>, the memory, the buttons
  of \<open>ecall.c\<close>, the seeds that \<open>keys.c\<close> keeps in the non-volatile memory, the name that
  \<open>ui.c\<close> displays and the flag of \<open>main.c\<close>. \<open>button_events\<close> is the environment's: the
  states of the buttons at the button events still to come.
\<close>

record vm =
  dev :: device
  load :: loading
  mt :: merkle_tree_ctx_s
  mem :: memory_s
  lfsr_state :: u16
  hmac_static_key :: "u8 list"
  dyn_aes :: "u8 list"
  dyn_hmac :: "u8 list"
  cpu :: rv_cpu
  g_button_mask :: u32
  g_button_same_mask_counter :: u32
  ecdsa_seed :: "u8 list"
  hmac_seed :: "u8 list"
  nv_initialized :: bool
  app_name :: "u8 list"
  app_running :: bool
  button_events :: "u32 list"

text \<open>Operations on the parts.\<close>

definition on_dev :: "(device \<Rightarrow> device) \<Rightarrow> vm \<Rightarrow> vm" where
  "on_dev f s = s\<lparr>dev := f (dev s)\<rparr>"

definition exchange :: "env \<Rightarrow> nat \<Rightarrow> vm \<Rightarrow> apdu_s option \<times> vm" where
  "exchange E tx s =
    (let (sz, d) = io_exchange E tx (dev s) in (parse_apdu sz d, s\<lparr>dev := d\<rparr>))"

text \<open>\<open>app_loading_update_ui(true)\<close>, called before an exchange.\<close>

definition update_ui :: "vm \<Rightarrow> vm" where
  "update_ui s = s\<lparr>load := app_loading_update_ui True (d_ms (dev s)) (load s)\<rparr>"

definition cache_of :: "section_e \<Rightarrow> vm \<Rightarrow> cache_s" where
  "cache_of c s = caches (mem s) c"

definition set_cache :: "section_e \<Rightarrow> cache_s \<Rightarrow> vm \<Rightarrow> vm" where
  "set_cache c k s = s\<lparr>mem := (mem s)\<lparr>caches := (caches (mem s))(c := k)\<rparr>\<rparr>"

definition set_page :: "section_e \<Rightarrow> nat \<Rightarrow> page_s \<Rightarrow> vm \<Rightarrow> vm" where
  "set_page c n p s = set_cache c (cache_of c s\<lparr>pages := (pages (cache_of c s))[n := p]\<rparr>) s"

definition get_page_at :: "section_e \<Rightarrow> nat \<Rightarrow> vm \<Rightarrow> page_s" where
  "get_page_at c n s = pages (cache_of c s) ! n"

section \<open>Frame facts\<close>

lemma cache_of_set_cache [simp]:
  "cache_of c (set_cache c' k s) = (if c = c' then k else cache_of c s)"
  by (simp add: cache_of_def set_cache_def)

lemma set_cache_parts [simp]:
  "dev (set_cache c k s) = dev s" "mt (set_cache c k s) = mt s" "load (set_cache c k s) = load s"
  "cpu (set_cache c k s) = cpu s" "lfsr_state (set_cache c k s) = lfsr_state s"
  "sections (mem (set_cache c k s)) = sections (mem s)"
  "bss_max (mem (set_cache c k s)) = bss_max (mem s)"
  "stack_min (mem (set_cache c k s)) = stack_min (mem s)"
  "dyn_aes (set_cache c k s) = dyn_aes s" "dyn_hmac (set_cache c k s) = dyn_hmac s"
  "hmac_static_key (set_cache c k s) = hmac_static_key s"
  by (simp_all add: set_cache_def)

lemma exchange_parts [simp]:
  "mt (snd (exchange E tx s)) = mt s" "mem (snd (exchange E tx s)) = mem s"
  "load (snd (exchange E tx s)) = load s" "lfsr_state (snd (exchange E tx s)) = lfsr_state s"
  "dyn_aes (snd (exchange E tx s)) = dyn_aes s" "dyn_hmac (snd (exchange E tx s)) = dyn_hmac s"
  "hmac_static_key (snd (exchange E tx s)) = hmac_static_key s" "cpu (snd (exchange E tx s)) = cpu s"
  "length (d_buf (dev (snd (exchange E tx s)))) = length (d_buf (dev s))"
  by (simp_all add: exchange_def split: prod.splits)
    (metis length_io_exchange_buf snd_conv)

lemma on_dev_parts [simp]:
  "mt (on_dev f s) = mt s" "mem (on_dev f s) = mem s" "load (on_dev f s) = load s"
  "lfsr_state (on_dev f s) = lfsr_state s" "dyn_aes (on_dev f s) = dyn_aes s"
  "dyn_hmac (on_dev f s) = dyn_hmac s" "hmac_static_key (on_dev f s) = hmac_static_key s"
  "cpu (on_dev f s) = cpu s" "dev (on_dev f s) = f (dev s)"
  by (simp_all add: on_dev_def)

lemma update_ui_parts [simp]:
  "mt (update_ui s) = mt s" "mem (update_ui s) = mem s" "dev (update_ui s) = dev s"
  "lfsr_state (update_ui s) = lfsr_state s" "dyn_aes (update_ui s) = dyn_aes s"
  "dyn_hmac (update_ui s) = dyn_hmac s" "hmac_static_key (update_ui s) = hmac_static_key s"
  "cpu (update_ui s) = cpu s"
  by (simp_all add: update_ui_def)

end
