(* ===== verification/Keys.thy ===== *)
theory Keys
  imports Vm_State
begin

text \<open>
  The device's seeds and the keys derived from them (\<open>vm/src/keys.c\<close>): per application, the
  static HMAC key of its initial pages and the ECDSA key that signs its manifest. The curve
  operations are the operating system's.
\<close>

definition nv_app_state_init :: "env \<Rightarrow> vm \<Rightarrow> vm" where
  "nv_app_state_init E s =
    (if nv_initialized s then s
     else if \<not> on_speculos E then
       (let (ecdsa, d) = get_random E 32 (dev s); (hmac, d) = get_random E 32 d
        in s\<lparr>dev := d, ecdsa_seed := ecdsa, hmac_seed := hmac, nv_initialized := True\<rparr>)
     else s\<lparr>ecdsa_seed := replicate 32 97, hmac_seed := replicate 32 98, nv_initialized := True\<rparr>)"

definition derive_secret :: "env \<Rightarrow> u8 list \<Rightarrow> u8 list \<Rightarrow> u8 list" where
  "derive_secret E app_hash seed = sha256 E (seed @ app_hash)"

definition derive_hmac_key :: "env \<Rightarrow> u8 list \<Rightarrow> vm \<Rightarrow> u8 list" where
  "derive_hmac_key E app_hash s = derive_secret E app_hash (hmac_seed s)"

definition get_privkey :: "env \<Rightarrow> u8 list \<Rightarrow> vm \<Rightarrow> u8 list option" where
  "get_privkey E app_hash s =
    (let privkey_data = derive_secret E app_hash (ecdsa_seed s)
     in if privkey_ok E privkey_data then Some privkey_data else None)"

definition compute_manifest_hash :: "env \<Rightarrow> manifest_s \<Rightarrow> u8 list" where
  "compute_manifest_hash E manifest = sha256 E manifest"

text \<open>The signature of the manifest, on success.\<close>

definition sign_manifest :: "env \<Rightarrow> manifest_s \<Rightarrow> vm \<Rightarrow> u8 list option" where
  "sign_manifest E manifest s =
    (let digest = compute_manifest_hash E manifest in
     case get_privkey E (m_app_hash manifest) s of
       None \<Rightarrow> None
     | Some privkey \<Rightarrow> sign E privkey digest)"

definition get_device_pubkey :: "env \<Rightarrow> u8 list \<Rightarrow> vm \<Rightarrow> u8 list option" where
  "get_device_pubkey E app_hash s =
    (case get_privkey E app_hash s of None \<Rightarrow> None | Some privkey \<Rightarrow> public_key E privkey)"

definition verify_manifest_signature ::
    "env \<Rightarrow> manifest_s \<Rightarrow> u8 list \<Rightarrow> u8 list \<Rightarrow> bool" where
  "verify_manifest_signature E manifest pubkey signature =
     verify E pubkey (compute_manifest_hash E manifest) signature"

definition verify_manifest_device_signature ::
    "env \<Rightarrow> manifest_s \<Rightarrow> u8 list \<Rightarrow> vm \<Rightarrow> bool" where
  "verify_manifest_device_signature E manifest signature s =
    (case get_device_pubkey E (m_app_hash manifest) s of
       None \<Rightarrow> False
     | Some pubkey \<Rightarrow> verify_manifest_signature E manifest pubkey signature)"

definition hsm_pubkey_bytes :: "u8 list" where
  "hsm_pubkey_bytes =
    [0x04, 0xc5, 0x41, 0x1c, 0xc0, 0x15, 0x4a, 0xba, 0x30, 0x1a, 0x97, 0x0d, 0xa1,
     0x16, 0x05, 0xa5, 0xc6, 0x80, 0x6f, 0x5e, 0x3a, 0x62, 0xde, 0x57, 0x32, 0x4c,
     0xd1, 0x4e, 0x63, 0x7a, 0x90, 0x18, 0x01, 0x06, 0xcc, 0x66, 0xf8, 0xb6, 0x09,
     0xd7, 0xf1, 0xcb, 0x3d, 0x72, 0x90, 0x4c, 0x7f, 0x6d, 0x83, 0x0c, 0x19, 0x76,
     0x10, 0x35, 0xd1, 0xcb, 0x23, 0x85, 0x30, 0x5d, 0x0c, 0xfe, 0x9f, 0xe9, 0x0b]"

definition get_hsm_pubkey :: "env \<Rightarrow> u8 list option" where
  "get_hsm_pubkey E = (if pubkey_ok E hsm_pubkey_bytes then Some hsm_pubkey_bytes else None)"

definition verify_manifest_hsm_signature :: "env \<Rightarrow> manifest_s \<Rightarrow> u8 list \<Rightarrow> bool" where
  "verify_manifest_hsm_signature E manifest signature =
    (case get_hsm_pubkey E of
       None \<Rightarrow> False
     | Some pubkey \<Rightarrow> verify_manifest_signature E manifest pubkey signature)"

lemma length_hsm_pubkey: "length hsm_pubkey_bytes = 65"
  by (simp add: hsm_pubkey_bytes_def)

text \<open>
  The device accepts its own signature, if ECDSA verifies what it signs with the public key
  of the same private key.
\<close>

lemma device_signature_verifies:
  assumes "sign_manifest E m s = Some sig"
    and "\<And>k p dg sg. public_key E k = Some p \<Longrightarrow> sign E k dg = Some sg \<Longrightarrow> verify E p dg sg"
    and "\<And>k. privkey_ok E k \<Longrightarrow> public_key E k \<noteq> None"
  shows "verify_manifest_device_signature E m sig s"
  using assms
  by (auto simp: sign_manifest_def verify_manifest_device_signature_def get_device_pubkey_def
      verify_manifest_signature_def get_privkey_def Let_def split: option.splits if_splits)

end
