(* ===== verification/Stream_Pages.thy ===== *)
theory Stream_Pages
  imports Keys
begin

text \<open>
  The pager's protocol with the host (\<open>vm/src/stream.c\<close>): requesting a page, which the host
  stores encrypted and authenticated, and committing it. The C functions take a pointer into
  a cache; here they take the page and return it updated, also on failure, and the caller
  stores it back.
\<close>

section \<open>Cryptography of a page\<close>

text \<open>\<open>compute_iv\<close>: the address and the counter, and eight zero bytes.\<close>

definition compute_iv :: "u32 \<Rightarrow> u32 \<Rightarrow> u8 list" where
  "compute_iv addr iv32 = le_bytes 4 addr @ le_bytes 4 iv32 @ replicate 8 0"

definition encrypt_page :: "env \<Rightarrow> u8 list \<Rightarrow> u32 \<Rightarrow> u32 \<Rightarrow> vm \<Rightarrow> u8 list" where
  "encrypt_page E bs addr iv32 s = aes_cbc_encrypt E (dyn_aes s) (compute_iv addr iv32) bs"

definition decrypt_page :: "env \<Rightarrow> u8 list \<Rightarrow> u32 \<Rightarrow> u32 \<Rightarrow> vm \<Rightarrow> u8 list" where
  "decrypt_page E bs addr iv32 s = aes_cbc_decrypt E (dyn_aes s) (compute_iv addr iv32) bs"

text \<open>\<open>init_hmac_ctx\<close>: the key that authenticates a page with that counter.\<close>

definition hmac_key_for :: "u32 \<Rightarrow> vm \<Rightarrow> u8 list" where
  "hmac_key_for iv s = (if iv = 0 then hmac_static_key s else dyn_hmac s)"

definition page_mac :: "env \<Rightarrow> u8 list \<Rightarrow> entry_s \<Rightarrow> vm \<Rightarrow> u8 list" where
  "page_mac E bs entry s = hmac_sha256 E (hmac_key_for (e_iv entry) s) (bs @ entry_bytes entry)"

section \<open>The proof in an APDU\<close>

text \<open>\<open>count\<close> packed nodes of 33 bytes.\<close>

primrec parse_proof :: "nat \<Rightarrow> u8 list \<Rightarrow> proof_s list" where
  "parse_proof 0 bs = []"
| "parse_proof (Suc n) bs =
     \<lparr>p_op = bs ! 0, p_digest = slice bs 1 32\<rparr> # parse_proof n (drop 33 bs)"

definition apdu_proof :: "apdu_s \<Rightarrow> proof_s list option" where
  "apdu_proof apdu =
    (if a_lc apdu mod 33 \<noteq> 0 then None
     else Some (parse_proof (unat (a_lc apdu div 33)) (a_data apdu)))"

section \<open>Requesting a page\<close>

text \<open>
  The two later requests reuse the buffer as the reply left it: they only store the command
  at its offset 4, so that the first four bytes they transmit are the header of the reply.
\<close>

definition request_cmd :: "env \<Rightarrow> cmd_stream_e \<Rightarrow> vm \<Rightarrow> apdu_s option \<times> vm" where
  "request_cmd E c s = exchange E 6 (on_dev (write_buf 4 (cmd_bytes c)) s)"

text \<open>Step 4: the proof that the counter is current.\<close>

definition request_proof :: "env \<Rightarrow> entry_s \<Rightarrow> vm \<Rightarrow> bool \<times> vm" where
  "request_proof E entry s =
    (case request_cmd E CMD_REQUEST_PROOF s of
       (None, s) \<Rightarrow> (False, s)
     | (Some apdu, s) \<Rightarrow>
         (case apdu_proof apdu of
            None \<Rightarrow> (False, s)
          | Some ps \<Rightarrow> (merkle_verify_proof (sha256 E) entry ps (mt s), s)))"

text \<open>Steps 2 to 4: the response is \<open>struct response_hmac_s\<close>, the counter and the MAC.\<close>

definition request_hmac :: "env \<Rightarrow> page_s \<Rightarrow> bool \<Rightarrow> vm \<Rightarrow> bool \<times> page_s \<times> vm" where
  "request_hmac E page read_only s =
    (case request_cmd E CMD_REQUEST_HMAC s of
       (None, s) \<Rightarrow> (False, page, s)
     | (Some apdu, s) \<Rightarrow>
         if a_lc apdu \<noteq> 36 then (False, page, s)
         else
           let iv = le_val (slice (a_data apdu) 0 4);
               r_mac = slice (a_data apdu) 4 32;
               entry = \<lparr>e_addr = p_addr page, e_iv = iv\<rparr>
           in if page_mac E (p_data page) entry s \<noteq> r_mac then (False, page, s)
              else
                let page = page\<lparr>p_iv := iv\<rparr>;
                    page = (if iv \<noteq> 0
                            then page\<lparr>p_data := decrypt_page E (p_data page) (p_addr page) iv s\<rparr>
                            else page)
                in if read_only then (iv = 0, page, s)
                   else (case request_proof E entry s of (ok, s) \<Rightarrow> (ok, page, s)))"

definition stream_request_page ::
    "env \<Rightarrow> page_s \<Rightarrow> u32 \<Rightarrow> bool \<Rightarrow> vm \<Rightarrow> bool \<times> page_s \<times> vm" where
  "stream_request_page E page addr read_only s =
    (let s = update_ui s;
         s = on_dev (write_buf 0 (le_bytes 4 addr @ cmd_bytes CMD_REQUEST_PAGE)) s
     in case exchange E 6 s of
          (None, s) \<Rightarrow> (False, page, s)
        | (Some apdu, s) \<Rightarrow>
            if a_lc apdu \<noteq> 255 then (False, page, s)
            else request_hmac E
                   (page\<lparr>p_addr := addr, p_data := a_p2 apdu # take 255 (a_data apdu)\<rparr>) read_only s)"

section \<open>Committing a page\<close>

text \<open>Step 3: the reply to the last message is the proof of the old leaf.\<close>

definition commit_proof :: "env \<Rightarrow> page_s \<Rightarrow> bool \<Rightarrow> proof_s list \<Rightarrow> vm \<Rightarrow> bool \<times> vm" where
  "commit_proof E page insrt ps s =
    (let entry = \<lparr>e_addr = p_addr page, e_iv = p_iv page\<rparr>;
         old_entry = \<lparr>e_addr = p_addr page, e_iv = p_iv page - 1\<rparr>
     in case (if insrt then merkle_insert (sha256 E) entry ps (mt s)
              else merkle_update (sha256 E) old_entry entry ps (mt s)) of
          (ok, ctx) \<Rightarrow> (ok, s\<lparr>mt := ctx\<rparr>))"

text \<open>
  The first message is the ciphertext and the command, the second the address, the counter,
  the MAC and the command. The MAC is computed from the buffer before the first is sent.
\<close>

definition stream_commit_page :: "env \<Rightarrow> page_s \<Rightarrow> bool \<Rightarrow> vm \<Rightarrow> bool \<times> page_s \<times> vm" where
  "stream_commit_page E page insrt s =
    (let s = update_ui s in
     if p_iv page = 0xffffffff then (False, page, s)
     else
       let page = page\<lparr>p_iv := p_iv page + 1\<rparr>;
           enc = encrypt_page E (p_data page) (p_addr page) (p_iv page) s;
           entry = \<lparr>e_addr = p_addr page, e_iv = p_iv page\<rparr>;
           mac = page_mac E enc entry s;
           s = on_dev (write_buf 0 (enc @ cmd_bytes CMD_COMMIT_PAGE)) s
       in case exchange E 258 s of
            (None, s) \<Rightarrow> (False, page, s)
          | (Some apdu, s) \<Rightarrow>
              if a_lc apdu \<noteq> 0 then (False, page, s)
              else
                let s = on_dev (write_buf 0 (le_bytes 4 (p_addr page) @ le_bytes 4 (p_iv page) @
                          mac @ cmd_bytes CMD_COMMIT_HMAC)) s
                in case exchange E 42 s of
                     (None, s) \<Rightarrow> (False, page, s)
                   | (Some apdu, s) \<Rightarrow>
                       (case apdu_proof apdu of
                          None \<Rightarrow> (False, page, s)
                        | Some ps \<Rightarrow>
                            (case commit_proof E page insrt ps s of (ok, s) \<Rightarrow> (ok, page, s))))"


section \<open>What an exchange returns\<close>

text \<open>The transcript a transmission of \<open>tx\<close> bytes leads to.\<close>

definition query :: "nat \<Rightarrow> vm \<Rightarrow> u8 list list" where
  "query tx s = take tx (d_buf (dev s)) # d_sent (dev s)"

lemma exchange_Some:
  assumes "exchange E tx s = (Some a, s')" "buf_ok (dev s)"
  defines "r \<equiv> host E (query tx s)"
  shows "5 + unat (a_lc a) \<le> length r" "a_p2 a = r ! 3" "a_lc a = r ! 4"
    "\<And>off n. off + n \<le> unat (a_lc a) \<Longrightarrow> slice (a_data a) off n = slice r (5 + off) n"
    "take 4 (d_buf (dev s')) = take 4 r" "d_sent (dev s') = query tx s" "buf_ok (dev s')"
    "length (a_data a) = 255"
proof -
  obtain sz d where x: "io_exchange E tx (dev s) = (sz, d)" by (cases "io_exchange E tx (dev s)")
  then have a: "parse_apdu sz d = Some a" and s': "dev s' = d"
    using assms(1) by (auto simp: exchange_def)
  define r' where "r' = take (length (d_buf (dev s))) r"
  have d: "d_buf d = r' @ drop (length r') (d_buf (dev s))" and sz: "sz = length r'"
    using x by (auto simp: io_exchange_def Let_def splice_def r'_def r_def query_def)
  from parse_apdu_Some [OF a] have ap: "a = apdu_of (d_buf d)" and len: "length r' = 5 + unat (a_lc a)"
    using sz by auto
  have lc: "unat (a_lc a) \<le> 255" using unsigned_less [of "a_lc a", where 'a = nat] by simp
  have le: "length r' \<le> length r" by (simp add: r'_def)
  then show "5 + unat (a_lc a) \<le> length r" using len by simp
  have nth: "d_buf d ! i = r ! i" if "i < length r'" for i
    using that by (simp add: d nth_append) (simp add: r'_def)
  show "a_p2 a = r ! 3" "a_lc a = r ! 4"
    using nth [of 3] nth [of 4] len by (simp_all add: ap apdu_of_def)
  show "slice (a_data a) off n = slice r (5 + off) n" if "off + n \<le> unat (a_lc a)" for off n
  proof (rule nth_equalityI)
    have bl: "260 \<le> length (d_buf d)"
      using assms(2) d le by (auto simp: buf_ok_def r'_def)
    have l: "length (a_data a) = 255" using bl by (simp add: ap apdu_of_def)
    then show "length (slice (a_data a) off n) = length (slice r (5 + off) n)"
      using that lc len le by simp
    fix i assume "i < length (slice (a_data a) off n)"
    then have i: "i < n" using l that lc by simp
    have "slice (a_data a) off n ! i = d_buf d ! (5 + off + i)"
      using i l that lc bl by (simp add: nth_slice) (simp add: ap apdu_of_def nth_slice add.assoc)
    also have "\<dots> = r ! (5 + off + i)" using i that len by (intro nth) simp
    finally show "slice (a_data a) off n ! i = slice r (5 + off) n ! i"
      using i that len le by (simp add: nth_slice)
  qed
  have "take 4 (d_buf d) = take 4 r'" using len by (simp add: d)
  then show "take 4 (d_buf (dev s')) = take 4 r"
    using len by (simp add: s' r'_def min_def split: if_splits)
  show "d_sent (dev s') = query tx s"
    using x io_exchange_sent [of E tx "dev s"] s' by (simp add: query_def)
  show "buf_ok (dev s')"
    using assms(2) x buf_ok_io_exchange [of E tx "dev s"] s' by simp
  then show "length (a_data a) = 255" using length_a_data a s' by simp
qed

text \<open>A message written at the start of the buffer is what is transmitted.\<close>

lemma query_write_0:
  assumes "buf_ok (dev s)" "length bs = tx" "tx \<le> 260"
  shows "query tx (on_dev (write_buf 0 bs) s) = bs # d_sent (dev s)"
    "buf_ok (dev (on_dev (write_buf 0 bs) s))"
  using assms by (auto simp: query_def write_buf_def splice_def buf_ok_def)

lemma query_write_4:
  assumes "buf_ok (dev s)" "length bs = 2"
  shows "query 6 (on_dev (write_buf 4 bs) s) = (take 4 (d_buf (dev s)) @ bs) # d_sent (dev s)"
    "buf_ok (dev (on_dev (write_buf 4 bs) s))"
  using assms by (auto simp: query_def write_buf_def splice_def buf_ok_def)


section \<open>What a successful request has checked\<close>

text \<open>
  The three transcripts of a request for the page at \<open>addr\<close>, and what the host answered to
  them: the ciphertext, the counter and the MAC, and the proof.
\<close>

definition page_query :: "vm \<Rightarrow> u32 \<Rightarrow> u8 list list" where
  "page_query s addr = (le_bytes 4 addr @ cmd_bytes CMD_REQUEST_PAGE) # d_sent (dev s)"

definition hmac_query :: "env \<Rightarrow> vm \<Rightarrow> u32 \<Rightarrow> u8 list list" where
  "hmac_query E s addr =
     (take 4 (host E (page_query s addr)) @ cmd_bytes CMD_REQUEST_HMAC) # page_query s addr"

definition proof_query :: "env \<Rightarrow> vm \<Rightarrow> u32 \<Rightarrow> u8 list list" where
  "proof_query E s addr =
     (take 4 (host E (hmac_query E s addr)) @ cmd_bytes CMD_REQUEST_PROOF) # hmac_query E s addr"

definition answer_ct :: "env \<Rightarrow> vm \<Rightarrow> u32 \<Rightarrow> u8 list" where
  "answer_ct E s addr =
     host E (page_query s addr) ! 3 # slice (host E (page_query s addr)) 5 255"

definition answer_iv :: "env \<Rightarrow> vm \<Rightarrow> u32 \<Rightarrow> u32" where
  "answer_iv E s addr = le_val (slice (host E (hmac_query E s addr)) 5 4)"

definition answer_mac :: "env \<Rightarrow> vm \<Rightarrow> u32 \<Rightarrow> u8 list" where
  "answer_mac E s addr = slice (host E (hmac_query E s addr)) 9 32"

definition proof_in :: "u8 list \<Rightarrow> proof_s list" where
  "proof_in r = parse_proof (unat (r ! 4 div 33)) (drop 5 r)"

definition answer_proof :: "env \<Rightarrow> vm \<Rightarrow> u32 \<Rightarrow> proof_s list" where
  "answer_proof E s addr = proof_in (host E (proof_query E s addr))"

text \<open>The parts of the state that neither operation changes, and what they change.\<close>

definition pager_frame :: "vm \<Rightarrow> vm \<Rightarrow> bool" where
  "pager_frame s s' \<longleftrightarrow> mem s' = mem s \<and> lfsr_state s' = lfsr_state s \<and> cpu s' = cpu s \<and>
     hmac_static_key s' = hmac_static_key s \<and> dyn_aes s' = dyn_aes s \<and> dyn_hmac s' = dyn_hmac s \<and>
     (buf_ok (dev s) \<longrightarrow> buf_ok (dev s'))"

lemma pager_frame_refl [simp]: "pager_frame s s"
  by (simp add: pager_frame_def)

lemma pager_frame_trans: "pager_frame s t \<Longrightarrow> pager_frame t u \<Longrightarrow> pager_frame s u"
  by (auto simp: pager_frame_def)

lemma pager_frame_exchange: "exchange E tx s = (r, s') \<Longrightarrow> pager_frame s s'"
proof -
  assume "exchange E tx s = (r, s')"
  then have "s' = snd (exchange E tx s)" by simp
  then show ?thesis by (auto simp: pager_frame_def buf_ok_def)
qed

lemma pager_frame_update_ui: "pager_frame s (update_ui s)"
  by (simp add: pager_frame_def)

lemma pager_frame_write:
  "off + length bs \<le> 260 \<Longrightarrow> pager_frame s (on_dev (write_buf off bs) s)"
  by (auto simp: pager_frame_def buf_ok_def write_buf_def)

lemma pager_frame_macs:
  assumes "pager_frame s s'"
  shows "hmac_key_for iv s' = hmac_key_for iv s" "page_mac E bs e s' = page_mac E bs e s"
    "encrypt_page E bs a iv s' = encrypt_page E bs a iv s"
    "decrypt_page E bs a iv s' = decrypt_page E bs a iv s"
  using assms
  by (simp_all add: pager_frame_def hmac_key_for_def page_mac_def encrypt_page_def decrypt_page_def)

lemma parse_proof_cong:
  "33 * n \<le> length bs \<Longrightarrow> 33 * n \<le> length cs \<Longrightarrow> take (33 * n) bs = take (33 * n) cs \<Longrightarrow>
    parse_proof n bs = parse_proof n cs"
proof (induction n arbitrary: bs cs)
  case 0
  then show ?case by simp
next
  case (Suc n)
  define N where "N = 33 * n"
  have m: "33 * Suc n = 33 + N" by (simp add: N_def)
  have eq: "take (33 + N) bs = take (33 + N) cs" and len: "33 + N \<le> length bs" "33 + N \<le> length cs"
    using Suc.prems unfolding m by auto
  have nth: "bs ! i = cs ! i" if "i < 33" for i
    using arg_cong [OF eq, of "\<lambda>l. l ! i"] that by simp
  then have "bs ! 0 = cs ! 0" by simp
  moreover have "slice bs 1 32 = slice cs 1 32"
    by (rule nth_equalityI) (use len nth in \<open>simp_all add: nth_slice\<close>)
  moreover have "take N (drop 33 bs) = take N (drop 33 cs)"
    using eq by (simp add: take_drop add.commute)
  then have "parse_proof n (drop 33 bs) = parse_proof n (drop 33 cs)"
    using Suc.IH [of "drop 33 bs" "drop 33 cs"] len by (simp add: N_def)
  ultimately show ?case by simp
qed

lemma apdu_proof_in:
  assumes "exchange E tx s = (Some a, s')" "buf_ok (dev s)" "apdu_proof a = Some ps"
  shows "ps = proof_in (host E (query tx s))"
proof -
  note x = exchange_Some [OF assms(1,2)]
  let ?r = "host E (query tx s)" and ?n = "unat (a_lc a div 33)"
  have n: "33 * ?n \<le> unat (a_lc a)" by (simp add: unat_div_distrib)
  have "unat (a_lc a) \<le> 255" using unsigned_less [of "a_lc a", where 'a = nat] by simp
  then have "33 * ?n \<le> length (a_data a)" "33 * ?n \<le> length (drop 5 ?r)"
    using n x(1,8) by auto
  moreover have "take (33 * ?n) (a_data a) = take (33 * ?n) (drop 5 ?r)"
    using x(4) [of 0 "33 * ?n"] n by (simp add: slice_def)
  ultimately have "parse_proof ?n (a_data a) = parse_proof ?n (drop 5 ?r)"
    by (rule parse_proof_cong)
  then show ?thesis
    using assms(3) x(3) by (auto simp: apdu_proof_def proof_in_def split: if_splits)
qed

lemma request_cmd_Some:
  assumes "request_cmd E c s = (Some a, s')" "buf_ok (dev s)"
  defines "q \<equiv> (take 4 (d_buf (dev s)) @ cmd_bytes c) # d_sent (dev s)"
  shows "pager_frame s s'" "mt s' = mt s" "5 + unat (a_lc a) \<le> length (host E q)"
    "\<And>off n. off + n \<le> unat (a_lc a) \<Longrightarrow> slice (a_data a) off n = slice (host E q) (5 + off) n"
    "take 4 (d_buf (dev s')) = take 4 (host E q)" "d_sent (dev s') = q" "buf_ok (dev s')"
    "\<And>ps. apdu_proof a = Some ps \<Longrightarrow> ps = proof_in (host E q)"
proof -
  let ?s = "on_dev (write_buf 4 (cmd_bytes c)) s"
  have x: "exchange E 6 ?s = (Some a, s')" using assms(1) by (simp add: request_cmd_def)
  have b: "buf_ok (dev ?s)" and q: "query 6 ?s = q"
    using query_write_4 [OF assms(2), of "cmd_bytes c"] by (auto simp: q_def)
  note e = exchange_Some [OF x b, unfolded q]
  show "pager_frame s s'"
    using pager_frame_trans [OF pager_frame_write pager_frame_exchange [OF x]] by simp
  have "s' = snd (exchange E 6 ?s)" using x by simp
  then show "mt s' = mt s" by simp
  show "\<And>ps. apdu_proof a = Some ps \<Longrightarrow> ps = proof_in (host E q)"
    using apdu_proof_in [OF x b] q by simp
  show "5 + unat (a_lc a) \<le> length (host E q)" "take 4 (d_buf (dev s')) = take 4 (host E q)"
    "d_sent (dev s') = q" "buf_ok (dev s')" using e by auto
  show "\<And>off n. off + n \<le> unat (a_lc a) \<Longrightarrow> slice (a_data a) off n = slice (host E q) (5 + off) n"
    using e(4) by simp
qed


lemma pager_frame_request_cmd: "request_cmd E c s = (r, s') \<Longrightarrow> pager_frame s s' \<and> mt s' = mt s"
proof -
  assume x: "request_cmd E c s = (r, s')"
  let ?s = "on_dev (write_buf 4 (cmd_bytes c)) s"
  have x': "exchange E 6 ?s = (r, s')" using x by (simp add: request_cmd_def)
  then have "s' = snd (exchange E 6 ?s)" by simp
  then have "mt s' = mt s" by simp
  then show ?thesis
    using pager_frame_trans [OF pager_frame_write pager_frame_exchange [OF x']] by simp
qed

lemma request_proof_frame:
  "request_proof E e s = (ok, s') \<Longrightarrow> pager_frame s s' \<and> mt s' = mt s"
  by (auto simp: request_proof_def split: prod.splits option.splits dest: pager_frame_request_cmd)

lemma request_hmac_frame:
  assumes "request_hmac E page ro s = (ok, page', s')"
  shows "pager_frame s s' \<and> mt s' = mt s"
proof -
  obtain r s1 where r: "request_cmd E CMD_REQUEST_HMAC s = (r, s1)" by fastforce
  from pager_frame_request_cmd [OF r] have 1: "pager_frame s s1 \<and> mt s1 = mt s" .
  obtain ok2 s2 where p: "request_proof E \<lparr>e_addr = p_addr page,
      e_iv = le_val (slice (a_data (the r)) 0 4)\<rparr> s1 = (ok2, s2)" by fastforce
  from request_proof_frame [OF p] 1 have 2: "pager_frame s s2 \<and> mt s2 = mt s"
    using pager_frame_trans by auto
  show ?thesis
    using assms r p 1 2
    by (auto simp: request_hmac_def Let_def split: option.splits if_splits)
qed

text \<open>A request changes neither the tree nor the memory, and what it returns is the answer.\<close>

lemma request_page_frame:
  assumes "stream_request_page E page addr ro s = (ok, page', s')"
  shows "pager_frame s s' \<and> mt s' = mt s"
proof -
  let ?s = "on_dev (write_buf 0 (le_bytes 4 addr @ cmd_bytes CMD_REQUEST_PAGE)) (update_ui s)"
  obtain r s1 where r: "exchange E 6 ?s = (r, s1)" by fastforce
  have "s1 = snd (exchange E 6 ?s)" using r by simp
  then have "mt s1 = mt s" by simp
  moreover have "pager_frame s s1"
    by (rule pager_frame_trans [OF pager_frame_update_ui
          pager_frame_trans [OF pager_frame_write pager_frame_exchange [OF r]]]) simp
  ultimately show ?thesis
    using assms r
    by (auto simp: stream_request_page_def Let_def split: option.splits if_splits
        dest!: request_hmac_frame intro: pager_frame_trans)
qed

lemma request_page_checked:
  assumes "stream_request_page E page addr ro s = (True, page', s')" "buf_ok (dev s)"
  defines "iv \<equiv> answer_iv E s addr" and "ct \<equiv> answer_ct E s addr"
  shows "p_addr page' = addr \<and> p_iv page' = iv \<and>
    page_mac E ct \<lparr>e_addr = addr, e_iv = iv\<rparr> s = answer_mac E s addr \<and>
    p_data page' = (if iv = 0 then ct else decrypt_page E ct addr iv s) \<and>
    (if ro then iv = 0
     else merkle_verify_proof (sha256 E) \<lparr>e_addr = addr, e_iv = iv\<rparr> (answer_proof E s addr) (mt s))"
proof -
  let ?s = "on_dev (write_buf 0 (le_bytes 4 addr @ cmd_bytes CMD_REQUEST_PAGE)) (update_ui s)"
  have b: "buf_ok (dev (update_ui s))" using assms(2) by simp
  have q: "query 6 ?s = page_query s addr" and bs: "buf_ok (dev ?s)"
    using query_write_0 [OF b, of "le_bytes 4 addr @ cmd_bytes CMD_REQUEST_PAGE" 6]
    by (simp_all add: page_query_def)
  from assms(1) obtain a s1 where x: "exchange E 6 ?s = (Some a, s1)" and lc: "a_lc a = 255"
    and h: "request_hmac E (page\<lparr>p_addr := addr, p_data := a_p2 a # take 255 (a_data a)\<rparr>) ro s1 =
        (True, page', s')"
    by (auto simp: stream_request_page_def Let_def split: prod.splits option.splits if_splits)
  note e1 = exchange_Some [OF x bs, unfolded q]
  have f1: "pager_frame s s1"
    by (rule pager_frame_trans [OF pager_frame_update_ui
          pager_frame_trans [OF pager_frame_write pager_frame_exchange [OF x]]]) simp
  have "s1 = snd (exchange E 6 ?s)" using x by simp
  then have mt1: "mt s1 = mt s" by simp
  have ct: "a_p2 a # take 255 (a_data a) = ct"
    using e1(2) e1(4) [of 0 255] lc by (simp add: ct_def answer_ct_def slice_def)
  define page1 where "page1 = page\<lparr>p_addr := addr, p_data := ct\<rparr>"
  have hq: "(take 4 (d_buf (dev s1)) @ cmd_bytes CMD_REQUEST_HMAC) # d_sent (dev s1) = hmac_query E s addr"
    using e1(5,6) by (simp add: hmac_query_def)
  from h obtain a2 s2 where c2: "request_cmd E CMD_REQUEST_HMAC s1 = (Some a2, s2)"
      and lc2: "a_lc a2 = 36"
      and iv': "le_val (slice (a_data a2) 0 4) = iv \<longrightarrow> True"
    by (auto simp: request_hmac_def Let_def split: prod.splits option.splits if_splits)
  note e2 = request_cmd_Some [OF c2 e1(7), unfolded hq]
  have iv: "le_val (slice (a_data a2) 0 4) = iv"
    using e2(4) [of 0 4] lc2 by (simp add: iv_def answer_iv_def)
  have mac: "slice (a_data a2) 4 32 = answer_mac E s addr"
    using e2(4) [of 4 32] lc2 by (simp add: answer_mac_def)
  have f2: "pager_frame s s2" using f1 e2(1) pager_frame_trans by blast
  note k = pager_frame_macs [OF f2]
  let ?e = "\<lparr>e_addr = addr, e_iv = iv\<rparr>"
  from h have res: "page_mac E ct ?e s = answer_mac E s addr"
      "p_addr page' = addr" "p_iv page' = iv"
      "p_data page' = (if iv = 0 then ct else decrypt_page E ct addr iv s)"
      "if ro then iv = 0 else fst (request_proof E ?e s2)"
    unfolding ct page1_def [symmetric]
    by (auto simp: request_hmac_def Let_def c2 lc2 iv mac page1_def k split: if_splits prod.splits)
  have pq: "(take 4 (d_buf (dev s2)) @ cmd_bytes CMD_REQUEST_PROOF) # d_sent (dev s2) = proof_query E s addr"
    using e2(5,6) by (simp add: proof_query_def)
  have "merkle_verify_proof (sha256 E) ?e (answer_proof E s addr) (mt s)"
    if "fst (request_proof E ?e s2)"
  proof -
    from that obtain a3 s3 ps where c3: "request_cmd E CMD_REQUEST_PROOF s2 = (Some a3, s3)"
      and ps: "apdu_proof a3 = Some ps" and v: "merkle_verify_proof (sha256 E) ?e ps (mt s3)"
      by (auto simp: request_proof_def split: prod.splits option.splits)
    note e3 = request_cmd_Some [OF c3 e2(7), unfolded pq]
    show ?thesis using v e3(8) [OF ps] e3(2) e2(2) mt1 by (simp add: answer_proof_def)
  qed
  then show ?thesis using res by auto
qed


section \<open>What a commit sends and checks\<close>

definition commit_ct :: "env \<Rightarrow> page_s \<Rightarrow> vm \<Rightarrow> u8 list" where
  "commit_ct E page s = encrypt_page E (p_data page) (p_addr page) (p_iv page + 1) s"

definition commit_mac :: "env \<Rightarrow> page_s \<Rightarrow> vm \<Rightarrow> u8 list" where
  "commit_mac E page s =
     page_mac E (commit_ct E page s) \<lparr>e_addr = p_addr page, e_iv = p_iv page + 1\<rparr> s"

text \<open>The transcript after the two messages.\<close>

definition commit_query :: "env \<Rightarrow> page_s \<Rightarrow> vm \<Rightarrow> u8 list list" where
  "commit_query E page s =
    (le_bytes 4 (p_addr page) @ le_bytes 4 (p_iv page + 1) @ commit_mac E page s @
       cmd_bytes CMD_COMMIT_HMAC) #
    (commit_ct E page s @ cmd_bytes CMD_COMMIT_PAGE) # d_sent (dev s)"

definition commit_answer :: "env \<Rightarrow> page_s \<Rightarrow> vm \<Rightarrow> proof_s list" where
  "commit_answer E page s = proof_in (host E (commit_query E page s))"

text \<open>The documented sizes of the primitives: CBC without padding keeps the length.\<close>

definition sizes_ok :: "env \<Rightarrow> bool" where
  "sizes_ok E \<longleftrightarrow> (\<forall>k iv bs. length (aes_cbc_encrypt E k iv bs) = length bs) \<and>
     (\<forall>k m. length (hmac_sha256 E k m) = 32) \<and> (\<forall>m. length (sha256 E m) = 32)"

lemma merkle_failure:
  "merkle_insert sha e ps ctx = (False, ctx') \<Longrightarrow> ctx' = ctx"
  "merkle_update sha old new ps ctx = (False, ctx') \<Longrightarrow> ctx' = ctx"
  by (auto simp: merkle_insert_def merkle_update_def Let_def split: if_splits)

lemma commit_proof_frame:
  "commit_proof E page insrt ps s = (ok, s') \<Longrightarrow>
    pager_frame s s' \<and> dev s' = dev s \<and> (\<not> ok \<longrightarrow> mt s' = mt s)"
  by (auto simp: commit_proof_def pager_frame_def Let_def split: prod.splits if_splits
      dest: merkle_failure)

lemma commit_page_frame:
  assumes "stream_commit_page E page insrt s = (ok, page', s')" "sizes_ok E" "length (p_data page) = 256"
  shows "pager_frame s s' \<and> (\<not> ok \<longrightarrow> mt s' = mt s) \<and>
    p_addr page' = p_addr page \<and> p_data page' = p_data page"
proof -
  let ?p = "page\<lparr>p_iv := p_iv page + 1\<rparr>"
  let ?enc = "encrypt_page E (p_data page) (p_addr page) (p_iv page + 1) (update_ui s)"
  let ?mac = "page_mac E ?enc \<lparr>e_addr = p_addr page, e_iv = p_iv page + 1\<rparr> (update_ui s)"
  let ?s1 = "on_dev (write_buf 0 (?enc @ cmd_bytes CMD_COMMIT_PAGE)) (update_ui s)"
  have len: "length ?enc = 256" "length ?mac = 32"
    using assms(2,3) by (simp_all add: sizes_ok_def encrypt_page_def page_mac_def)
  obtain r1 s2 where x1: "exchange E 258 ?s1 = (r1, s2)" by fastforce
  let ?s3 = "on_dev (write_buf 0 (le_bytes 4 (p_addr page) @ le_bytes 4 (p_iv page + 1) @ ?mac @
      cmd_bytes CMD_COMMIT_HMAC)) s2"
  obtain r2 s4 where x2: "exchange E 42 ?s3 = (r2, s4)" by fastforce
  have f1: "pager_frame s ?s1"
    by (rule pager_frame_trans [OF pager_frame_update_ui pager_frame_write]) (simp add: len)
  have f2: "pager_frame s s2" using pager_frame_trans [OF f1 pager_frame_exchange [OF x1]] .
  have f3: "pager_frame s ?s3"
    by (rule pager_frame_trans [OF f2 pager_frame_write]) (simp add: len)
  have f4: "pager_frame s s4" using pager_frame_trans [OF f3 pager_frame_exchange [OF x2]] .
  have "s2 = snd (exchange E 258 ?s1)" "s4 = snd (exchange E 42 ?s3)" using x1 x2 by simp_all
  then have "mt s2 = mt s" "mt s4 = mt s" by simp_all
  moreover have "pager_frame s (update_ui s)" by (rule pager_frame_update_ui)
  ultimately show ?thesis
    using assms(1) f2 f4 x1 x2
    by (auto simp: stream_commit_page_def Let_def split: option.splits if_splits prod.splits
        dest!: commit_proof_frame intro: pager_frame_trans)
qed

lemma commit_page_checked:
  assumes "stream_commit_page E page insrt s = (True, page', s')" "buf_ok (dev s)"
    and "sizes_ok E" "length (p_data page) = 256"
  defines "entry \<equiv> \<lparr>e_addr = p_addr page, e_iv = p_iv page + 1\<rparr>"
  shows "p_iv page \<noteq> 0xffffffff \<and> page' = page\<lparr>p_iv := p_iv page + 1\<rparr> \<and>
    d_sent (dev s') = commit_query E page s \<and>
    (if insrt then merkle_insert (sha256 E) entry (commit_answer E page s) (mt s)
     else merkle_update (sha256 E) \<lparr>e_addr = p_addr page, e_iv = p_iv page\<rparr> entry
       (commit_answer E page s) (mt s)) = (True, mt s')"
proof -
  let ?p = "page\<lparr>p_iv := p_iv page + 1\<rparr>"
  let ?s0 = "update_ui s"
  note k = pager_frame_macs [OF pager_frame_update_ui [of s]]
  let ?enc = "encrypt_page E (p_data page) (p_addr page) (p_iv page + 1) ?s0"
  let ?mac = "page_mac E ?enc \<lparr>e_addr = p_addr page, e_iv = p_iv page + 1\<rparr> ?s0"
  let ?s1 = "on_dev (write_buf 0 (?enc @ cmd_bytes CMD_COMMIT_PAGE)) ?s0"
  have enc: "?enc = commit_ct E page s" and mac: "?mac = commit_mac E page s"
    by (simp_all add: commit_ct_def commit_mac_def k)
  have len: "length ?enc = 256" "length ?mac = 32"
    using assms(3,4) by (simp_all add: sizes_ok_def encrypt_page_def page_mac_def)
  have b0: "buf_ok (dev ?s0)" using assms(2) by simp
  have q1: "query 258 ?s1 = (commit_ct E page s @ cmd_bytes CMD_COMMIT_PAGE) # d_sent (dev s)"
    and b1: "buf_ok (dev ?s1)"
    using query_write_0 [OF b0, of "?enc @ cmd_bytes CMD_COMMIT_PAGE" 258] len by (simp_all add: enc)
  from assms(1) obtain a1 s2 where iv: "p_iv page \<noteq> 0xffffffff"
    and x1: "exchange E 258 ?s1 = (Some a1, s2)" and lc: "a_lc a1 = 0"
    by (auto simp: stream_commit_page_def Let_def split: prod.splits option.splits if_splits)
  note e1 = exchange_Some [OF x1 b1, unfolded q1]
  let ?s3 = "on_dev (write_buf 0 (le_bytes 4 (p_addr page) @ le_bytes 4 (p_iv page + 1) @ ?mac @
      cmd_bytes CMD_COMMIT_HMAC)) s2"
  have q2: "query 42 ?s3 = commit_query E page s" and b3: "buf_ok (dev ?s3)"
    using query_write_0 [OF e1(7), of "le_bytes 4 (p_addr page) @ le_bytes 4 (p_iv page + 1) @ ?mac @
      cmd_bytes CMD_COMMIT_HMAC" 42] len e1(6) by (simp_all add: commit_query_def mac)
  obtain r2 s4 where x2': "exchange E 42 ?s3 = (r2, s4)" by fastforce
  have eq: "stream_commit_page E page insrt s =
      (case r2 of None \<Rightarrow> (False, ?p, s4)
       | Some apdu \<Rightarrow> (case apdu_proof apdu of None \<Rightarrow> (False, ?p, s4)
           | Some ps \<Rightarrow> (case commit_proof E ?p insrt ps s4 of (ok, s) \<Rightarrow> (ok, ?p, s))))"
    using iv x1 lc x2' by (simp add: stream_commit_page_def Let_def)
  note res = assms(1) [unfolded eq]
  from res obtain a2 where a2: "r2 = Some a2" by (cases r2) auto
  from res a2 obtain ps where ps: "apdu_proof a2 = Some ps" by (cases "apdu_proof a2") auto
  from res a2 ps have c: "commit_proof E ?p insrt ps s4 = (True, s')" and p': "page' = ?p"
    by (cases "commit_proof E ?p insrt ps s4"; simp)+
  have x2: "exchange E 42 ?s3 = (Some a2, s4)" using x2' a2 by simp
  note e2 = exchange_Some [OF x2 b3, unfolded q2]
  have "s2 = snd (exchange E 258 ?s1)" "s4 = snd (exchange E 42 ?s3)" using x1 x2 by simp_all
  then have mt: "mt s4 = mt s" by simp
  have psq: "ps = commit_answer E page s"
    using apdu_proof_in [OF x2 b3 ps] by (simp add: q2 commit_answer_def)
  have "p_iv page + 1 - 1 = p_iv page" by simp
  then show ?thesis
    using iv p' c e2(6) commit_proof_frame [OF c] mt psq
    by (auto simp: commit_proof_def Let_def entry_def split: prod.splits if_splits)
qed


section \<open>An honest host is accepted\<close>

text \<open>A well-formed APDU: its length field agrees with its length.\<close>

definition apdu_wf :: "u8 list \<Rightarrow> bool" where
  "apdu_wf r \<longleftrightarrow> 5 \<le> length r \<and> length r = 5 + unat (r ! 4)"

lemma exchange_answers:
  assumes "apdu_wf (host E (query tx s))" "buf_ok (dev s)"
  shows "\<exists>a s'. exchange E tx s = (Some a, s') \<and> a_lc a = host E (query tx s) ! 4"
proof -
  let ?r = "host E (query tx s)"
  have lc: "unat (?r ! 4) \<le> 255" using unsigned_less [of "?r ! 4", where 'a = nat] by simp
  then have l: "length ?r \<le> length (d_buf (dev s))" using assms by (auto simp: apdu_wf_def buf_ok_def)
  obtain sz d where x: "io_exchange E tx (dev s) = (sz, d)" by (cases "io_exchange E tx (dev s)")
  have d: "d_buf d = ?r @ drop (length ?r) (d_buf (dev s))" and sz: "sz = length ?r"
    using x l by (auto simp: io_exchange_def Let_def splice_def query_def)
  have "d_buf d ! 4 = ?r ! 4" using assms(1) by (simp add: d nth_append apdu_wf_def)
  then have "parse_apdu sz d \<noteq> None" "a_lc (apdu_of (d_buf d)) = ?r ! 4"
    using assms(1) sz by (auto simp: parse_apdu_def Let_def apdu_of_def apdu_wf_def)
  then show ?thesis
    using x by (auto simp: exchange_def parse_apdu_def Let_def split: if_splits)
qed

text \<open>The answers of a host that holds the page and its proof.\<close>

definition host_serves :: "env \<Rightarrow> vm \<Rightarrow> u32 \<Rightarrow> bool \<Rightarrow> bool" where
  "host_serves E s addr ro \<longleftrightarrow>
    (let r1 = host E (page_query s addr); r2 = host E (hmac_query E s addr);
         r3 = host E (proof_query E s addr); iv = answer_iv E s addr;
         e = \<lparr>e_addr = addr, e_iv = iv\<rparr>
     in apdu_wf r1 \<and> r1 ! 4 = 255 \<and> apdu_wf r2 \<and> r2 ! 4 = 36 \<and>
        page_mac E (answer_ct E s addr) e s = answer_mac E s addr \<and>
        (if ro then iv = 0
         else apdu_wf r3 \<and> r3 ! 4 mod 33 = 0 \<and>
           merkle_verify_proof (sha256 E) e (answer_proof E s addr) (mt s)))"

lemma request_cmd_answers:
  assumes "buf_ok (dev s)" "q = (take 4 (d_buf (dev s)) @ cmd_bytes c) # d_sent (dev s)"
    and "apdu_wf (host E q)"
  shows "\<exists>a s'. request_cmd E c s = (Some a, s') \<and> a_lc a = host E q ! 4"
  using exchange_answers [of E 6 "on_dev (write_buf 4 (cmd_bytes c)) s"]
    query_write_4 [OF assms(1), of "cmd_bytes c"] assms(2,3)
  by (simp add: request_cmd_def)

lemma request_page_complete:
  assumes "host_serves E s addr ro" "buf_ok (dev s)"
  shows "\<exists>page' s'. stream_request_page E page addr ro s = (True, page', s')"
proof -
  let ?s = "on_dev (write_buf 0 (le_bytes 4 addr @ cmd_bytes CMD_REQUEST_PAGE)) (update_ui s)"
  let ?iv = "answer_iv E s addr" and ?ct = "answer_ct E s addr"
  let ?e = "\<lparr>e_addr = addr, e_iv = ?iv\<rparr>"
  note hs = assms(1) [unfolded host_serves_def Let_def]
  have b: "buf_ok (dev (update_ui s))" using assms(2) by simp
  have q: "query 6 ?s = page_query s addr" and bs: "buf_ok (dev ?s)"
    using query_write_0 [OF b, of "le_bytes 4 addr @ cmd_bytes CMD_REQUEST_PAGE" 6]
    by (simp_all add: page_query_def)
  obtain a s1 where x: "exchange E 6 ?s = (Some a, s1)" and lc: "a_lc a = 255"
    using exchange_answers [of E 6 ?s] q bs hs by auto
  note e1 = exchange_Some [OF x bs, unfolded q]
  have f1: "pager_frame s s1"
    by (rule pager_frame_trans [OF pager_frame_update_ui
          pager_frame_trans [OF pager_frame_write pager_frame_exchange [OF x]]]) simp
  have "s1 = snd (exchange E 6 ?s)" using x by simp
  then have mt1: "mt s1 = mt s" by simp
  have ct: "a_p2 a # take 255 (a_data a) = ?ct"
    using e1(2) e1(4) [of 0 255] lc by (simp add: answer_ct_def slice_def)
  have hq: "(take 4 (d_buf (dev s1)) @ cmd_bytes CMD_REQUEST_HMAC) # d_sent (dev s1) = hmac_query E s addr"
    using e1(5,6) by (simp add: hmac_query_def)
  obtain a2 s2 where c2: "request_cmd E CMD_REQUEST_HMAC s1 = (Some a2, s2)" and lc2: "a_lc a2 = 36"
    using request_cmd_answers [OF e1(7) hq [symmetric], of E] hs by auto
  note e2 = request_cmd_Some [OF c2 e1(7), unfolded hq]
  have iv: "le_val (slice (a_data a2) 0 4) = ?iv" and mac: "slice (a_data a2) 4 32 = answer_mac E s addr"
    using e2(4) [of 0 4] e2(4) [of 4 32] lc2 by (simp_all add: answer_iv_def answer_mac_def)
  have f2: "pager_frame s s2" using f1 e2(1) pager_frame_trans by blast
  have "fst (request_hmac E (page\<lparr>p_addr := addr, p_data := ?ct\<rparr>) ro s1)"
  proof (cases ro)
    case True
    have m: "page_mac E ?ct ?e s = answer_mac E s addr" using hs by blast
    have i: "?iv = 0" using hs True by simp
    from m i have "page_mac E ?ct \<lparr>e_addr = addr, e_iv = 0\<rparr> s = answer_mac E s addr" by simp
    then show ?thesis
      using True i by (simp add: request_hmac_def Let_def c2 lc2 iv mac pager_frame_macs [OF f2])
  next
    case False
    have pq: "(take 4 (d_buf (dev s2)) @ cmd_bytes CMD_REQUEST_PROOF) # d_sent (dev s2) = proof_query E s addr"
      using e2(5,6) by (simp add: proof_query_def)
    obtain a3 s3 where c3: "request_cmd E CMD_REQUEST_PROOF s2 = (Some a3, s3)"
      and l: "a_lc a3 = host E (proof_query E s addr) ! 4"
      using request_cmd_answers [OF e2(7) pq [symmetric], of E] hs False by auto
    have "a_lc a3 mod 33 = 0" using hs False unfolding l by presburger
    then obtain ps where ps: "apdu_proof a3 = Some ps" by (simp add: apdu_proof_def)
    note e3 = request_cmd_Some [OF c3 e2(7), unfolded pq]
    have "fst (request_proof E ?e s2)"
      using hs False e3(8) [OF ps] e3(2) e2(2) mt1 by (simp add: request_proof_def c3 ps answer_proof_def)
    then show ?thesis
      using hs False
      by (auto simp: request_hmac_def Let_def c2 lc2 iv mac pager_frame_macs [OF f2] split: prod.splits)
  qed
  then show ?thesis
    by (cases "request_hmac E (page\<lparr>p_addr := addr, p_data := ?ct\<rparr>) ro s1")
      (simp add: stream_request_page_def Let_def x lc ct)
qed

text \<open>The answers to a commit: an empty APDU, then the proof the tree operation needs.\<close>

definition host_stores :: "env \<Rightarrow> vm \<Rightarrow> page_s \<Rightarrow> bool \<Rightarrow> bool" where
  "host_stores E s p insrt \<longleftrightarrow>
    (let r1 = host E (tl (commit_query E p s)); r2 = host E (commit_query E p s);
         e = \<lparr>e_addr = p_addr p, e_iv = p_iv p + 1\<rparr>; old = \<lparr>e_addr = p_addr p, e_iv = p_iv p\<rparr>
     in apdu_wf r1 \<and> r1 ! 4 = 0 \<and> apdu_wf r2 \<and> r2 ! 4 mod 33 = 0 \<and>
        fst (if insrt then merkle_insert (sha256 E) e (commit_answer E p s) (mt s)
             else merkle_update (sha256 E) old e (commit_answer E p s) (mt s)))"

lemma commit_page_complete:
  assumes "host_stores E s p insrt" "buf_ok (dev s)" "sizes_ok E" "length (p_data p) = 256"
    and iv: "p_iv p \<noteq> 0xffffffff"
  shows "\<exists>page' s'. stream_commit_page E p insrt s = (True, page', s')"
proof -
  let ?p = "p\<lparr>p_iv := p_iv p + 1\<rparr>" and ?s0 = "update_ui s"
  note k = pager_frame_macs [OF pager_frame_update_ui [of s]]
  note hs = assms(1) [unfolded host_stores_def Let_def]
  let ?enc = "encrypt_page E (p_data p) (p_addr p) (p_iv p + 1) ?s0"
  let ?mac = "page_mac E ?enc \<lparr>e_addr = p_addr p, e_iv = p_iv p + 1\<rparr> ?s0"
  let ?s1 = "on_dev (write_buf 0 (?enc @ cmd_bytes CMD_COMMIT_PAGE)) ?s0"
  have enc: "?enc = commit_ct E p s" and mac: "?mac = commit_mac E p s"
    by (simp_all add: commit_ct_def commit_mac_def k)
  have len: "length ?enc = 256" "length ?mac = 32"
    using assms(3,4) by (simp_all add: sizes_ok_def encrypt_page_def page_mac_def)
  have b0: "buf_ok (dev ?s0)" using assms(2) by simp
  have q1: "query 258 ?s1 = tl (commit_query E p s)" and b1: "buf_ok (dev ?s1)"
    using query_write_0 [OF b0, of "?enc @ cmd_bytes CMD_COMMIT_PAGE" 258] len
    by (simp_all add: enc commit_query_def)
  obtain a1 s2 where x1: "exchange E 258 ?s1 = (Some a1, s2)" and lc: "a_lc a1 = 0"
    using exchange_answers [of E 258 ?s1] q1 b1 hs by auto
  note e1 = exchange_Some [OF x1 b1, unfolded q1]
  let ?s3 = "on_dev (write_buf 0 (le_bytes 4 (p_addr p) @ le_bytes 4 (p_iv p + 1) @ ?mac @
      cmd_bytes CMD_COMMIT_HMAC)) s2"
  have q2: "query 42 ?s3 = commit_query E p s" and b3: "buf_ok (dev ?s3)"
    using query_write_0 [OF e1(7), of "le_bytes 4 (p_addr p) @ le_bytes 4 (p_iv p + 1) @ ?mac @
      cmd_bytes CMD_COMMIT_HMAC" 42] len e1(6) by (simp_all add: commit_query_def mac)
  obtain a2 s4 where x2: "exchange E 42 ?s3 = (Some a2, s4)"
    and l: "a_lc a2 = host E (commit_query E p s) ! 4"
    using exchange_answers [of E 42 ?s3] q2 b3 hs by auto
  have "a_lc a2 mod 33 = 0" using hs unfolding l by blast
  then obtain ps where ps: "apdu_proof a2 = Some ps" by (simp add: apdu_proof_def)
  have "s2 = snd (exchange E 258 ?s1)" "s4 = snd (exchange E 42 ?s3)" using x1 x2 by simp_all
  then have mt: "mt s4 = mt s" by simp
  have psq: "ps = commit_answer E p s"
    using apdu_proof_in [OF x2 b3 ps] by (simp add: q2 commit_answer_def)
  have eq: "stream_commit_page E p insrt s =
      (case commit_proof E ?p insrt ps s4 of (ok, s) \<Rightarrow> (ok, ?p, s))"
    using iv x1 lc x2 ps by (simp add: stream_commit_page_def Let_def)
  have "fst (commit_proof E ?p insrt ps s4)"
    using hs by (auto simp: commit_proof_def Let_def mt psq split: prod.splits if_splits)
  then show ?thesis unfolding eq by (cases "commit_proof E ?p insrt ps s4") auto
qed

section \<open>The contract: an authenticated store of pages\<close>

text \<open>
  What the two operations implement for \<open>memory.c\<close>: a store of pages with their counters.
  The ghost \<open>g\<close> records what was authenticated so far, \<open>store g\<close> is the current page at each
  address; \<open>okr\<close> and \<open>okc\<close> are the cryptographic side conditions of one operation.
\<close>

locale page_store =
  fixes rep :: "'s \<Rightarrow> 'g \<Rightarrow> bool"
    and contents :: "'g \<Rightarrow> u32 \<rightharpoonup> u8 list \<times> u32"
    and okr :: "'s \<Rightarrow> 'g \<Rightarrow> u32 \<Rightarrow> bool"
    and okc :: "'s \<Rightarrow> 'g \<Rightarrow> page_s \<Rightarrow> bool \<Rightarrow> bool"
    and request_op :: "page_s \<Rightarrow> u32 \<Rightarrow> bool \<Rightarrow> 's \<Rightarrow> bool \<times> page_s \<times> 's"
    and commit_op :: "page_s \<Rightarrow> bool \<Rightarrow> 's \<Rightarrow> bool \<times> page_s \<times> 's"
    and next_ghost :: "page_s \<Rightarrow> bool \<Rightarrow> 'g \<Rightarrow> 'g"
  assumes request_law: "rep s g \<Longrightarrow> okr s g a \<Longrightarrow> request_op p a False s = (True, p', s') \<Longrightarrow>
      rep s' g \<and> p_addr p' = a \<and> contents g a = Some (p_data p', p_iv p')"
    and commit_law: "rep s g \<Longrightarrow> okc s g p ins \<Longrightarrow> commit_op p ins s = (True, p', s') \<Longrightarrow>
      ins \<longrightarrow> contents g (p_addr p) = None \<Longrightarrow>
      rep s' (next_ghost p ins g) \<and>
      contents (next_ghost p ins g) = (contents g)(p_addr p \<mapsto> (p_data p, p_iv p + 1)) \<and>
      (ins \<or> (\<exists>d. contents g (p_addr p) = Some (d, p_iv p)))"
begin

text \<open>
  What was committed is what the next request of that address returns; other addresses are
  not affected.
\<close>

lemma read_back:
  assumes "rep s g" "okc s g p ins" "commit_op p ins s = (True, p', s')"
    and "ins \<longrightarrow> contents g (p_addr p) = None"
    and "okr s' (next_ghost p ins g) a" "request_op q a False s' = (True, q', s'')"
  shows "if a = p_addr p then p_data q' = p_data p \<and> p_iv q' = p_iv p + 1
    else contents g a = Some (p_data q', p_iv q')"
proof -
  have c: "rep s' (next_ghost p ins g)"
    "contents (next_ghost p ins g) = (contents g)(p_addr p \<mapsto> (p_data p, p_iv p + 1))"
    using commit_law [OF assms(1-4)] by auto
  from request_law [OF c(1) assms(5,6)] show ?thesis by (auto simp: c(2))
qed

end

section \<open>The pager keeps the contract\<close>

text \<open>
  The ghost: the plaintext that was authenticated for each address and counter, by the device
  on a commit or, with counter 0, by the device that signed the application; and the entries of
  the tree. The invariant: the tree holds the highest counter of every address.
\<close>

type_synonym ghost = "(u32 \<times> u32 \<rightharpoonup> u8 list) \<times> entry_s list"

definition pager_rep :: "env \<Rightarrow> vm \<Rightarrow> ghost \<Rightarrow> bool" where
  "pager_rep E s g \<longleftrightarrow> (case g of (hist, es) \<Rightarrow>
     mt_rep (sha256 E) (mt s) es \<and> buf_ok (dev s) \<and>
     (\<forall>a v. hist (a, v) \<noteq> None \<longrightarrow> (\<exists>c. counters es a = Some c \<and> v \<le> c)) \<and>
     (\<forall>a c. counters es a = Some c \<longrightarrow> hist (a, c) \<noteq> None))"

definition stored :: "ghost \<Rightarrow> u32 \<rightharpoonup> u8 list \<times> u32" where
  "stored g a = (case g of (hist, es) \<Rightarrow>
     (case counters es a of None \<Rightarrow> None
      | Some c \<Rightarrow> map_option (\<lambda>d. (d, c)) (hist (a, c))))"

text \<open>
  The host did not forge: if the MAC it answers is valid for the ciphertext it answers, then
  that ciphertext was authenticated for that address and counter.
\<close>

definition genuine :: "env \<Rightarrow> vm \<Rightarrow> ghost \<Rightarrow> u32 \<Rightarrow> bool" where
  "genuine E s g a \<longleftrightarrow>
    (let ct = answer_ct E s a; iv = answer_iv E s a in
     page_mac E ct \<lparr>e_addr = a, e_iv = iv\<rparr> s = answer_mac E s a \<longrightarrow>
     (\<exists>d. fst g (a, iv) = Some d \<and> length d = 256 \<and>
        ct = (if iv = 0 then d else encrypt_page E d a iv s)))"

definition decrypts :: "env \<Rightarrow> bool" where
  "decrypts E \<longleftrightarrow> (\<forall>k iv d. length d = 256 \<longrightarrow> aes_cbc_decrypt E k iv (aes_cbc_encrypt E k iv d) = d)"

definition request_safe :: "env \<Rightarrow> vm \<Rightarrow> ghost \<Rightarrow> u32 \<Rightarrow> bool" where
  "request_safe E s g a \<longleftrightarrow> genuine E s g a \<and> decrypts E \<and>
     fair (sha256 E) (snd g) \<lparr>e_addr = a, e_iv = answer_iv E s a\<rparr> (answer_proof E s a)"

definition commit_safe :: "env \<Rightarrow> vm \<Rightarrow> ghost \<Rightarrow> page_s \<Rightarrow> bool \<Rightarrow> bool" where
  "commit_safe E s g page insrt \<longleftrightarrow> sizes_ok E \<and> length (p_data page) = 256 \<and>
    (if insrt then snd g \<noteq> [] \<longrightarrow> fair (sha256 E) (snd g) (last (snd g)) (commit_answer E page s)
     else fair (sha256 E) (snd g) \<lparr>e_addr = p_addr page, e_iv = p_iv page\<rparr> (commit_answer E page s))"

text \<open>The ghost after a commit.\<close>

definition ghost_commit :: "page_s \<Rightarrow> bool \<Rightarrow> ghost \<Rightarrow> ghost" where
  "ghost_commit p insrt g =
    (let e = \<lparr>e_addr = p_addr p, e_iv = p_iv p + 1\<rparr>
     in ((fst g)((p_addr p, p_iv p + 1) \<mapsto> p_data p),
         if insrt then snd g @ [e] else replace_entry e (snd g)))"

lemma stored_None: "pager_rep E s (hist, es) \<Longrightarrow> stored (hist, es) a = None \<longleftrightarrow> counters es a = None"
  by (auto simp: pager_rep_def stored_def split: option.splits)

lemma request_refines:
  assumes "pager_rep E s g" "request_safe E s g a" "stream_request_page E p a False s = (True, p', s')"
  shows "pager_rep E s' g \<and> p_addr p' = a \<and> stored g a = Some (p_data p', p_iv p')"
proof -
  obtain hist es where g: "g = (hist, es)" by (cases g)
  have buf: "buf_ok (dev s)" and rep: "mt_rep (sha256 E) (mt s) es"
    using assms(1) by (auto simp: pager_rep_def g)
  note c = request_page_checked [OF assms(3) buf]
  let ?iv = "answer_iv E s a" and ?ct = "answer_ct E s a"
  obtain d where d: "hist (a, ?iv) = Some d" "length d = 256"
      "?ct = (if ?iv = 0 then d else encrypt_page E d a ?iv s)"
    using assms(2) c by (auto simp: request_safe_def genuine_def Let_def g)
  have "counters es a = Some ?iv"
    using mt.verified_counter [OF rep, of "\<lparr>e_addr = a, e_iv = ?iv\<rparr>"] assms(2) c
    by (auto simp: request_safe_def g)
  moreover have "p_data p' = d"
    using c d assms(2) by (auto simp: request_safe_def decrypts_def encrypt_page_def decrypt_page_def)
  moreover have "pager_rep E s' g"
    using request_page_frame [OF assms(3)] assms(1) by (auto simp: pager_rep_def g pager_frame_def)
  ultimately show ?thesis using c d by (simp add: stored_def g)
qed

text \<open>A read-only page is authentic too: it is the one that was signed with counter 0.\<close>

lemma request_read_only:
  assumes "buf_ok (dev s)" "genuine E s g a" "stream_request_page E p a True s = (True, p', s')"
  shows "fst g (a, 0) = Some (p_data p') \<and> p_addr p' = a \<and> p_iv p' = 0"
  using request_page_checked [OF assms(3,1)] assms(2) by (auto simp: genuine_def Let_def)


text \<open>
  A commit moves the address to the next counter. The counter was not used before with the
  current keys, so no IV of the cipher and no input of the MAC is ever reused.
\<close>

lemma commit_refines:
  assumes "pager_rep E s g" "commit_safe E s g p insrt"
    and "stream_commit_page E p insrt s = (True, p', s')" "insrt \<longrightarrow> counters (snd g) (p_addr p) = None"
  shows "pager_rep E s' (ghost_commit p insrt g) \<and>
    counters (snd (ghost_commit p insrt g)) = (counters (snd g))(p_addr p \<mapsto> p_iv p + 1) \<and>
    fst g (p_addr p, p_iv p + 1) = None \<and>
    (insrt \<or> counters (snd g) (p_addr p) = Some (p_iv p))"
proof -
  obtain hist es where g: "g = (hist, es)" by (cases g)
  let ?a = "p_addr p" and ?e = "\<lparr>e_addr = p_addr p, e_iv = p_iv p + 1\<rparr>"
  define es' where "es' = snd (ghost_commit p insrt g)"
  have buf: "buf_ok (dev s)" and rep: "mt_rep (sha256 E) (mt s) es"
    and ub: "\<And>a v. hist (a, v) \<noteq> None \<Longrightarrow> \<exists>c. counters es a = Some c \<and> v \<le> c"
    and cur: "\<And>a c. counters es a = Some c \<Longrightarrow> hist (a, c) \<noteq> None"
    using assms(1) by (auto simp: pager_rep_def g)
  have sz: "sizes_ok E" "length (p_data p) = 256" using assms(2) by (auto simp: commit_safe_def)
  note c = commit_page_checked [OF assms(3) buf sz]
  have gt: "p_iv p < p_iv p + 1" using c u32_less_succ by blast
  have es': "mt_rep (sha256 E) (mt s') es'" "counters es' = (counters es)(?a \<mapsto> p_iv p + 1)"
      "insrt \<or> counters es ?a = Some (p_iv p)"
  proof (atomize (full), cases insrt)
    case True
    then show "mt_rep (sha256 E) (mt s') es' \<and> counters es' = (counters es)(?a \<mapsto> p_iv p + 1) \<and>
        (insrt \<or> counters es ?a = Some (p_iv p))"
      using mt.inserted_counters [OF rep, of "commit_answer E p s" ?e "mt s'"] c assms(2,4)
      by (auto simp: commit_safe_def es'_def g ghost_commit_def)
  next
    case False
    then show "mt_rep (sha256 E) (mt s') es' \<and> counters es' = (counters es)(?a \<mapsto> p_iv p + 1) \<and>
        (insrt \<or> counters es ?a = Some (p_iv p))"
      using mt.updated_counters [OF rep, of "\<lparr>e_addr = ?a, e_iv = p_iv p\<rparr>" "commit_answer E p s" ?e "mt s'"]
        c assms(2) by (auto simp: commit_safe_def es'_def g ghost_commit_def)
  qed
  have new: "hist (?a, p_iv p + 1) = None"
    using ub [of ?a "p_iv p + 1"] es'(3) assms(4) gt by (fastforce simp: g)
  have "buf_ok (dev s')"
    using commit_page_frame [OF assms(3) sz] buf by (auto simp: pager_frame_def)
  moreover have "\<exists>c. counters es' a = Some c \<and> v \<le> c"
    if "(hist((?a, p_iv p + 1) \<mapsto> p_data p)) (a, v) \<noteq> None" for a v
    using that ub [of a v] es'(2,3) assms(4) gt by (auto simp: g split: if_splits)
  moreover have "(hist((?a, p_iv p + 1) \<mapsto> p_data p)) (a, c) \<noteq> None"
    if "counters es' a = Some c" for a c
    using that cur [of a c] es'(2) by (auto split: if_splits)
  ultimately have "pager_rep E s' (hist((?a, p_iv p + 1) \<mapsto> p_data p), es')"
    using es'(1) unfolding pager_rep_def prod.case by blast
  moreover have "ghost_commit p insrt g = (hist((?a, p_iv p + 1) \<mapsto> p_data p), es')"
    by (simp add: es'_def ghost_commit_def g Let_def)
  ultimately show ?thesis using es' new by (simp add: g)
qed

interpretation pager: page_store "pager_rep E" stored "request_safe E" "commit_safe E"
    "stream_request_page E" "stream_commit_page E" ghost_commit for E
proof
  fix s s' g a p p' ins
  show "pager_rep E s' g \<and> p_addr p' = a \<and> stored g a = Some (p_data p', p_iv p')"
    if "pager_rep E s g" "request_safe E s g a" "stream_request_page E p a False s = (True, p', s')"
    using request_refines [OF that] .
  assume rep: "pager_rep E s g" and safe: "commit_safe E s g p ins"
    and c: "stream_commit_page E p ins s = (True, p', s')"
    and new: "ins \<longrightarrow> stored g (p_addr p) = None"
  have "ins \<longrightarrow> counters (snd g) (p_addr p) = None"
    using new stored_None [of E s "fst g" "snd g"] rep by simp
  note r = commit_refines [OF rep safe c this]
  have "stored (ghost_commit p ins g) a = ((stored g)(p_addr p \<mapsto> (p_data p, p_iv p + 1))) a" for a
    using r by (auto simp: stored_def ghost_commit_def Let_def split: option.splits prod.splits)
  moreover have "ins \<or> (\<exists>d. stored g (p_addr p) = Some (d, p_iv p))"
    using r rep by (auto simp: stored_def pager_rep_def split: prod.splits)
  ultimately show "pager_rep E s' (ghost_commit p ins g) \<and>
      stored (ghost_commit p ins g) = (stored g)(p_addr p \<mapsto> (p_data p, p_iv p + 1)) \<and>
      (ins \<or> (\<exists>d. stored g (p_addr p) = Some (d, p_iv p)))"
    using r by blast
qed

section \<open>A concrete pager\<close>

text \<open>
  The witnesses run on a device whose tree is the one of two entries above, with an honest
  host that serves the page at \<open>0x200\<close> filled with the byte \<open>b\<close>, with counter \<open>v\<close>, and a toy
  cryptography: the cipher is the identity and the MAC a constant.
\<close>

definition ex_page_bytes :: "u8 \<Rightarrow> u8 list" where
  "ex_page_bytes b = replicate 256 b"

definition ex_host :: "u8 \<Rightarrow> u32 \<Rightarrow> u8 list list \<Rightarrow> u8 list" where
  "ex_host b v t =
    (let m = hd t; c = drop (length m - 2) m in
     if c = cmd_bytes CMD_REQUEST_PAGE then [0, 0, 0, b, 255] @ replicate 255 b
     else if c = cmd_bytes CMD_REQUEST_HMAC then [0, 0, 0, 0, 36] @ le_bytes 4 (v :: u32) @ replicate 32 7
     else if c = cmd_bytes CMD_COMMIT_PAGE then [0, 0, 0, 0, 0]
     else [0, 0, 0, 0, 33, 76] @ hash_entry pad_sha \<lparr>e_addr = 0x100, e_iv = 3\<rparr>)"

definition ex_env :: "u8 \<Rightarrow> u32 \<Rightarrow> env" where
  "ex_env b v = \<lparr>host = ex_host b v, clock = (\<lambda>t. 0), sha256 = pad_sha, hmac_sha256 = (\<lambda>k m. replicate 32 7),
     aes_cbc_encrypt = (\<lambda>k iv d. d), aes_cbc_decrypt = (\<lambda>k iv d. d),
     random_bytes = (\<lambda>i n. replicate n 0), privkey_ok = (\<lambda>k. True), pubkey_ok = (\<lambda>k. True),
     public_key = Some, sign = (\<lambda>k d. Some d), verify = (\<lambda>k d s. s = d), on_speculos = True\<rparr>"

definition ex_vm :: vm where
  "ex_vm = \<lparr>dev = \<lparr>d_buf = replicate 300 0, d_sent = [], d_ms = 0, d_draws = 0\<rparr>,
     load = \<lparr>app_loading = False, app_loading_counter = 0, app_loading_ticker = 0,
       app_loading_step = 0, ui_log = []\<rparr>,
     mt = ex_ctx,
     mem = \<lparr>sections = (\<lambda>s. \<lparr>s_start = 0, s_end = 0\<rparr>),
       caches = (\<lambda>s. \<lparr>pages = [], writeable = s \<noteq> SECTION_CODE, current_page = None\<rparr>),
       bss_max = 0, stack_min = 0\<rparr>,
     lfsr_state = lfsr_init, hmac_static_key = [], dyn_aes = [], dyn_hmac = [],
     cpu = rv_cpu_reset, g_button_mask = 0, g_button_same_mask_counter = 0,
     ecdsa_seed = [], hmac_seed = [], nv_initialized = True, app_name = [], app_running = False,
     button_events = []\<rparr>"

definition ex_page :: page_s where
  "ex_page = \<lparr>p_addr = 0, p_data = replicate 256 0, p_iv = 0\<rparr>"

lemmas ex_env_sel = ex_env_def env.select_convs

lemma ex_sizes: "sizes_ok (ex_env b v)" "decrypts (ex_env b v)" "buf_ok (dev ex_vm)"
  by (auto simp: sizes_ok_def decrypts_def buf_ok_def ex_vm_def ex_env_def pad_sha_def)

text \<open>What the host answers, from the last two bytes of the message.\<close>

lemma ex_host_cmd:
  "ex_host b v ((xs @ cmd_bytes CMD_REQUEST_PAGE) # t) = [0, 0, 0, b, 255] @ replicate 255 b"
  "ex_host b v ((xs @ cmd_bytes CMD_REQUEST_HMAC) # t) =
     [0, 0, 0, 0, 36] @ le_bytes 4 (v :: u32) @ replicate 32 7"
  "ex_host b v ((xs @ cmd_bytes CMD_REQUEST_PROOF) # t) =
     [0, 0, 0, 0, 33, 76] @ hash_entry pad_sha \<lparr>e_addr = 0x100, e_iv = 3\<rparr>"
  "ex_host b v ((xs @ cmd_bytes CMD_COMMIT_PAGE) # t) = [0, 0, 0, 0, 0]"
  "ex_host b v ((xs @ cmd_bytes CMD_COMMIT_HMAC) # t) =
     [0, 0, 0, 0, 33, 76] @ hash_entry pad_sha \<lparr>e_addr = 0x100, e_iv = 3\<rparr>"
  by (simp_all add: ex_host_def Let_def cmd_bytes_def le_bytes_2)


lemma ex_queries:
  "host (ex_env b v) (page_query s a) = [0, 0, 0, b, 255] @ replicate 255 b"
  "host (ex_env b v) (hmac_query (ex_env b v) s a) = [0, 0, 0, 0, 36] @ le_bytes 4 (v :: u32) @ replicate 32 7"
  "host (ex_env b v) (proof_query (ex_env b v) s a) =
     [0, 0, 0, 0, 33, 76] @ hash_entry pad_sha \<lparr>e_addr = 0x100, e_iv = 3\<rparr>"
  "host (ex_env b v) (tl (commit_query (ex_env b v) p s)) = [0, 0, 0, 0, 0]"
  "host (ex_env b v) (commit_query (ex_env b v) p s) =
     [0, 0, 0, 0, 33, 76] @ hash_entry pad_sha \<lparr>e_addr = 0x100, e_iv = 3\<rparr>"
  unfolding page_query_def hmac_query_def proof_query_def commit_query_def list.sel ex_env_sel
    append_assoc [symmetric] ex_host_cmd by simp_all

lemma ex_slices: "slice ([0, 0, 0, b, 255] @ replicate 255 b) 5 255 = replicate 255 (b :: u8)"
  "slice ([0, 0, 0, 0, 36] @ le_bytes 4 (v :: u32) @ replicate 32 7) 5 4 = le_bytes 4 (v :: u32)"
  "slice ([0, 0, 0, 0, 36] @ le_bytes 4 (v :: u32) @ replicate 32 7) 9 32 = replicate 32 (7 :: u8)"
  by (simp_all add: slice_def)

lemma length_ex_digest: "length (hash_entry pad_sha e) = 32"
  by (simp add: hash_entry_def pad_sha_def)

lemma ex_answers:
  "answer_ct (ex_env b v) s a = ex_page_bytes b" "answer_iv (ex_env b v) s a = v"
  "answer_mac (ex_env b v) s a = replicate 32 7" "answer_proof (ex_env b v) s a = ex_proof"
  "commit_answer (ex_env b v) p s = ex_proof"
proof -
  have "replicate 256 b = b # replicate 255 b" by (simp add: replicate_Suc [symmetric] del: replicate_Suc)
  then show "answer_ct (ex_env b v) s a = ex_page_bytes b"
    by (simp add: answer_ct_def ex_queries ex_slices ex_page_bytes_def del: append.simps append_Cons)
      (simp add: nth_append)
  show "answer_iv (ex_env b v) s a = v" "answer_mac (ex_env b v) s a = replicate 32 7"
    by (simp_all only: answer_iv_def answer_mac_def ex_queries ex_slices le_val_le_bytes_id)
  have "proof_in ([0, 0, 0, 0, 33, 76] @ hash_entry pad_sha \<lparr>e_addr = 0x100, e_iv = 3\<rparr>) = ex_proof"
    by (simp add: proof_in_def ex_proof_eq slice_def length_ex_digest)
  then show "answer_proof (ex_env b v) s a = ex_proof" "commit_answer (ex_env b v) p s = ex_proof"
    by (simp_all only: answer_proof_def commit_answer_def ex_queries)
qed

lemma ex_vm_parts: "mt ex_vm = ex_ctx" "sha256 (ex_env b v) = pad_sha"
  by (simp_all add: ex_vm_def ex_env_def)

lemma ex_verifies: "merkle_verify_proof pad_sha \<lparr>e_addr = 0x200, e_iv = 5\<rparr> ex_proof ex_ctx"
  using mt_path_verifies [OF ex_rep, of 1] by (simp add: ex_entries_def ex_proof_def)

lemma ex_serves: "host_serves (ex_env 9 5) ex_vm 0x200 False"
  unfolding host_serves_def Let_def ex_queries ex_answers ex_vm_parts
  by (simp add: apdu_wf_def length_ex_digest ex_verifies page_mac_def ex_env_def)

definition ex_hist :: "u32 \<times> u32 \<rightharpoonup> u8 list" where
  "ex_hist = [(0x200, 5) \<mapsto> ex_page_bytes 9, (0x100, 3) \<mapsto> ex_page_bytes 9]"

definition ex_ghost :: ghost where
  "ex_ghost = (ex_hist, ex_entries)"

lemma ex_pager_rep: "pager_rep (ex_env b v) ex_vm ex_ghost"
proof -
  have "mt_rep pad_sha (mt ex_vm) ex_entries" using ex_rep by (simp add: ex_vm_parts)
  moreover have "\<exists>c. counters ex_entries a = Some c \<and> v \<le> c" if "ex_hist (a, v) \<noteq> None" for a v
    using that by (auto simp: ex_hist_def counters_def ex_entries_def split: if_splits)
  moreover have "ex_hist (a, c) \<noteq> None" if "counters ex_entries a = Some c" for a c
    using that by (auto simp: ex_hist_def counters_def ex_entries_def split: if_splits)
  ultimately show ?thesis
    using ex_sizes(3) by (simp add: pager_rep_def ex_ghost_def ex_vm_parts)
qed

lemma ex_request_safe: "request_safe (ex_env 9 5) ex_vm ex_ghost 0x200"
proof -
  have "genuine (ex_env 9 5) ex_vm ex_ghost 0x200"
    by (simp add: genuine_def ex_answers ex_ghost_def ex_hist_def encrypt_page_def)
      (simp add: ex_page_bytes_def ex_env_def)
  then show ?thesis
    using ex_sizes ex_fair by (simp add: request_safe_def ex_answers ex_vm_parts ex_ghost_def)
qed

definition ex_dirty :: page_s where
  "ex_dirty = \<lparr>p_addr = 0x200, p_data = replicate 256 1, p_iv = 5\<rparr>"

lemma ex_commit_safe: "commit_safe (ex_env b v) ex_vm ex_ghost ex_dirty False"
  using ex_sizes ex_fair
  by (simp add: commit_safe_def ex_answers ex_vm_parts ex_ghost_def ex_dirty_def)

lemma ex_stores: "host_stores (ex_env b v) ex_vm ex_dirty False"
  unfolding host_stores_def Let_def ex_queries ex_answers ex_vm_parts
  by (simp add: apdu_wf_def length_ex_digest ex_verifies ex_dirty_def merkle_update_def Let_def)


text \<open>The state after the commit, and the page read back.\<close>

abbreviation ex_committed :: ghost where
  "ex_committed \<equiv> ghost_commit ex_dirty False ex_ghost"

lemma ex_commit:
  obtains p' s' where "stream_commit_page (ex_env b v) ex_dirty False ex_vm = (True, p', s')"
    "pager_rep (ex_env b v) s' ex_committed"
proof -
  have "p_iv ex_dirty \<noteq> 0xffffffff" "length (p_data ex_dirty) = 256" by (simp_all add: ex_dirty_def)
  with commit_page_complete [OF ex_stores ex_sizes(3,1)] obtain p' s' where
    c: "stream_commit_page (ex_env b v) ex_dirty False ex_vm = (True, p', s')" by blast
  with commit_refines [OF ex_pager_rep ex_commit_safe c] that show ?thesis by blast
qed

abbreviation ex_entries' :: "entry_s list" where
  "ex_entries' \<equiv> [\<lparr>e_addr = 0x100, e_iv = 3\<rparr>, \<lparr>e_addr = 0x200, e_iv = 6\<rparr>]"

lemma ex_committed_eq: "ex_committed = (ex_hist((0x200, 6) \<mapsto> ex_page_bytes 1), ex_entries')"
  by (simp add: ghost_commit_def ex_dirty_def ex_ghost_def replace_entry_def ex_entries_def
      ex_page_bytes_def)

lemma ex_proof': "mt_path pad_sha 1 ex_entries' = ex_proof"
  by (simp add: ex_proof_eq mt_path.simps largest_power_of_two.simps mth.simps)

lemma ex_fair': "fair pad_sha ex_entries' \<lparr>e_addr = 0x200, e_iv = 6\<rparr> ex_proof"
proof -
  let ?S = "{[1] @ hash_entry pad_sha \<lparr>e_addr = 0x100, e_iv = 3\<rparr> @
      hash_entry pad_sha \<lparr>e_addr = 0x200, e_iv = 6\<rparr>,
      [0] @ entry_bytes \<lparr>e_addr = 0x100, e_iv = 3\<rparr>, [0] @ entry_bytes \<lparr>e_addr = 0x200, e_iv = 6\<rparr>}"
  have "inj_on (\<lambda>x. (x ! 0, x ! 2)) ?S" by (simp add: inj_on_def entry_bytes_def le_bytes_4)
  then have "inj_on pad_sha ?S"
    by (rule pad_sha_inj [rotated]) (auto simp: entry_bytes_def hash_entry_def pad_sha_def)
  moreover have "tree_of ex_entries' =
      Node (Leaf \<lparr>e_addr = 0x100, e_iv = 3\<rparr>) (Leaf \<lparr>e_addr = 0x200, e_iv = 6\<rparr>)"
    by (simp add: tree_of.simps [of "[_, _]"] largest_power_of_two.simps)
  then have "root_inputs pad_sha ex_entries' \<union>
      proof_inputs pad_sha \<lparr>e_addr = 0x200, e_iv = 6\<rparr> ex_proof = ?S"
    by (auto simp: root_inputs_def proof_inputs_def ex_proof_eq Let_def)
  moreover have "\<forall>x. length (pad_sha x) = 32" by (auto simp: pad_sha_def)
  ultimately show ?thesis unfolding fair_def by (simp add: ex_proof_eq hash_entry_def)
qed

lemma ex_read_back_safe: "request_safe (ex_env 1 6) s ex_committed 0x200"
proof -
  have "genuine (ex_env 1 6) s ex_committed 0x200"
    by (simp add: genuine_def ex_answers ex_committed_eq encrypt_page_def)
      (simp add: ex_page_bytes_def ex_env_def)
  then show ?thesis
    using ex_sizes ex_fair' by (simp add: request_safe_def ex_answers ex_vm_parts ex_committed_eq)
qed

lemma ex_read_back:
  assumes "pager_rep (ex_env 1 6) s ex_committed"
  obtains p' s' where "stream_request_page (ex_env 1 6) q 0x200 False s = (True, p', s')"
proof -
  have rep: "mt_rep pad_sha (mt s) ex_entries'" and b: "buf_ok (dev s)"
    using assms by (simp_all add: pager_rep_def ex_committed_eq ex_vm_parts)
  have "merkle_verify_proof pad_sha \<lparr>e_addr = 0x200, e_iv = 6\<rparr> ex_proof (mt s)"
    using mt_path_verifies [OF rep, of 1] ex_proof' by simp
  then have "host_serves (ex_env 1 6) s 0x200 False"
    unfolding host_serves_def Let_def ex_queries ex_answers ex_vm_parts
    by (simp add: apdu_wf_def length_ex_digest page_mac_def ex_env_def)
  then show ?thesis using request_page_complete b that by blast
qed

section \<open>Properties\<close>

text \<open>
  C11: integrity and freshness of a requested page. Whatever the host answers, if the request
  of a writeable page succeeds then the page is the one last committed at that address, with
  its counter, provided the host neither forged a MAC nor exhibited a SHA-256 collision.
\<close>

theorem request_page_authentic:
  assumes "pager_rep E s g" and "request_safe E s g addr"
    and "stream_request_page E page addr False s = (True, page', s')"
  shows "stored g addr = Some (p_data page', p_iv page') \<and> p_addr page' = addr \<and> pager_rep E s' g"
  using pager.request_law [OF assms] by simp

text \<open>
  a read-only page has counter 0 and is the one that was authenticated with the static
  key of the application, even though no proof is asked for.
\<close>

theorem request_read_only_authentic:
  assumes "buf_ok (dev s)" and "genuine E s g addr"
    and "stream_request_page E page addr True s = (True, page', s')"
  shows "fst g (addr, 0) = Some (p_data page') \<and> p_addr page' = addr \<and> p_iv page' = 0"
  using assms by (rule request_read_only)


text \<open>
  C13: round trip. After a commit, a successful request of the same address returns the
  committed bytes with the new counter, and a request of another address what was stored there.
\<close>

theorem commit_then_request:
  assumes "pager_rep E s g" and "commit_safe E s g page insrt"
    and "stream_commit_page E page insrt s = (True, page', s')"
    and "insrt \<longrightarrow> stored g (p_addr page) = None"
    and "request_safe E s' (ghost_commit page insrt g) addr"
    and "stream_request_page E q addr False s' = (True, q', s'')"
  shows "if addr = p_addr page then p_data q' = p_data page \<and> p_iv q' = p_iv page + 1
    else stored g addr = Some (p_data q', p_iv q')"
  by (rule pager.read_back [OF assms])

text \<open>
  an honest host is served. If the three answers are well-formed APDUs with a valid MAC
  and a valid proof (or a counter 0 for a read-only page), the request succeeds.
\<close>

theorem request_page_succeeds:
  assumes "host_serves E s addr ro" and "buf_ok (dev s)"
  shows "\<exists>page' s'. stream_request_page E page addr ro s = (True, page', s')"
  using assms by (rule request_page_complete)

text \<open>
  an exhausted counter is refused: the page is not changed, nothing is encrypted or sent,
  and only the loading screen may have been updated.
\<close>

theorem commit_counter_exhausted:
  "stream_commit_page E (page\<lparr>p_iv := 0xffffffff\<rparr>) insrt s =
     (False, page\<lparr>p_iv := 0xffffffff\<rparr>, update_ui s)"
  by (simp add: stream_commit_page_def Let_def)

theorem request_page_authentic_witness:
  "\<exists>page' s'. stream_request_page (ex_env 9 5) ex_page 0x200 False ex_vm = (True, page', s') \<and>
     p_data page' = replicate 256 9 \<and> p_iv page' = 5"
proof -
  obtain p' s' where r: "stream_request_page (ex_env 9 5) ex_page 0x200 False ex_vm = (True, p', s')"
    using request_page_complete [OF ex_serves ex_sizes(3)] by blast
  have "stored ex_ghost 0x200 = Some (replicate 256 9, 5)"
    by (simp add: stored_def ex_ghost_def ex_hist_def counters_def ex_entries_def ex_page_bytes_def)
  then show ?thesis
    using r request_page_authentic [OF ex_pager_rep ex_request_safe r] by simp
qed


theorem commit_then_request_witness:
  "\<exists>p' s' q' s''. stream_commit_page (ex_env 1 6) ex_dirty False ex_vm = (True, p', s') \<and>
     stream_request_page (ex_env 1 6) ex_page 0x200 False s' = (True, q', s'') \<and>
     p_data q' = replicate 256 1 \<and> p_iv q' = 6"
proof -
  obtain p' s' where c: "stream_commit_page (ex_env 1 6) ex_dirty False ex_vm = (True, p', s')"
    and rep: "pager_rep (ex_env 1 6) s' ex_committed" by (rule ex_commit)
  obtain q' s'' where r: "stream_request_page (ex_env 1 6) ex_page 0x200 False s' = (True, q', s'')"
    by (rule ex_read_back [OF rep])
  have "p_data q' = p_data ex_dirty \<and> p_iv q' = p_iv ex_dirty + 1"
    using commit_then_request [OF ex_pager_rep ex_commit_safe c _ ex_read_back_safe r]
    by (simp add: ex_dirty_def)
  then show ?thesis using c r by (auto simp: ex_dirty_def)
qed

theorem request_page_succeeds_witness:
  "\<exists>page' s'. stream_request_page (ex_env 9 5) ex_page 0x200 False ex_vm = (True, page', s')"
  by (rule request_page_succeeds [OF ex_serves ex_sizes(3)])

theorem request_read_only_authentic_witness:
  "\<exists>page' s'. stream_request_page (ex_env 9 0) ex_page 0x300 True ex_vm = (True, page', s') \<and>
     p_data page' = replicate 256 9 \<and> p_iv page' = 0"
proof -
  let ?g = "([(0x300, 0) \<mapsto> ex_page_bytes 9], []) :: ghost"
  have "host_serves (ex_env 9 0) ex_vm 0x300 True"
    unfolding host_serves_def Let_def ex_queries ex_answers ex_vm_parts
    by (simp add: apdu_wf_def page_mac_def ex_env_def)
  then obtain p' s' where r: "stream_request_page (ex_env 9 0) ex_page 0x300 True ex_vm = (True, p', s')"
    using request_page_complete [OF _ ex_sizes(3)] by blast
  have "genuine (ex_env 9 0) ex_vm ?g 0x300"
    by (simp add: genuine_def ex_answers ex_page_bytes_def)
  from request_read_only_authentic [OF ex_sizes(3) this r] show ?thesis
    using r by (simp add: ex_page_bytes_def)
qed

end
