(* ===== verification/Page_Cache.thy ===== *)
theory Page_Cache
  imports Stream_Pages
begin

text \<open>
  The paged memory of the guest (\<open>vm/src/memory.c\<close>): three caches of pages, sorted by their
  addresses, over the authenticated store of \<open>stream.c\<close>. A \<open>struct page_s *\<close> into a cache is
  the cache's section and the index of the page.
\<close>

section \<open>Initialisation\<close>

definition init_memory_sections :: "(section_e \<Rightarrow> section_s) \<Rightarrow> vm \<Rightarrow> vm" where
  "init_memory_sections secs s = s\<lparr>mem := (mem s)\<lparr>sections := secs\<rparr>\<rparr>"

text \<open>The arrays of pages are static and keep what they hold.\<close>

definition init_cache :: "bool \<Rightarrow> cache_s \<Rightarrow> cache_s" where
  "init_cache w cache = cache\<lparr>writeable := w, current_page := None\<rparr>"

definition init_caches :: "vm \<Rightarrow> vm" where
  "init_caches s =
    (let s = set_cache SECTION_CODE (init_cache False (cache_of SECTION_CODE s)) s;
         s = set_cache SECTION_STACK (init_cache True (cache_of SECTION_STACK s)) s;
         s = set_cache SECTION_DATA (init_cache True (cache_of SECTION_DATA s)) s
     in s\<lparr>lfsr_state := lfsr_init\<rparr>)"

definition init_memory_addresses :: "u32 \<Rightarrow> u32 \<Rightarrow> vm \<Rightarrow> vm" where
  "init_memory_addresses bss sp s =
     s\<lparr>mem := (mem s)\<lparr>stack_min := sp, bss_max := PAGE_START bss\<rparr>\<rparr>"

section \<open>Searching and sorting a cache\<close>

text \<open>The loop of \<open>binary_search\<close>; at most 65 pages, so \<open>int\<close> does not overflow.\<close>

function bsearch :: "page_s list \<Rightarrow> u32 \<Rightarrow> int \<Rightarrow> int \<Rightarrow> int" where
  "bsearch ps addr l r =
    (if l \<le> r then
       let m = l + (r - l) div 2; a = p_addr (ps ! nat m) in
       if a = addr then m
       else if a < addr then bsearch ps addr (m + 1) r
       else bsearch ps addr l (m - 1)
     else -1)"
  by pat_completeness auto
termination by (relation "measure (\<lambda>(ps, addr, l, r). nat (r - l + 1))") auto

declare bsearch.simps [simp del]

definition binary_search :: "page_s list \<Rightarrow> u32 \<Rightarrow> int" where
  "binary_search ps addr = bsearch ps addr 0 (int (length ps) - 1)"

text \<open>\<open>memmove(&ps[dst], &ps[src], n)\<close> and then the page at its new place.\<close>

definition move_pages :: "page_s list \<Rightarrow> nat \<Rightarrow> nat \<Rightarrow> nat \<Rightarrow> nat \<Rightarrow> page_s \<Rightarrow> page_s list" where
  "move_pages ps dst src n i page = (splice ps dst (slice ps src n))[i := page]"

text \<open>The two loops of \<open>reorder_pages\<close>, upwards from 0 and downwards from \<open>npage - 1\<close>.\<close>

function reorder_down :: "page_s list \<Rightarrow> nat \<Rightarrow> nat \<Rightarrow> page_s list \<times> nat" where
  "reorder_down ps n i =
    (if i < n then
       if p_addr (ps ! n) < p_addr (ps ! i)
       then (move_pages ps (i + 1) i (n - i) i (ps ! n), i)
       else reorder_down ps n (i + 1)
     else (ps, n))"
  by pat_completeness auto
termination by (relation "measure (\<lambda>(ps, n, i). n - i)") auto

function reorder_up :: "page_s list \<Rightarrow> nat \<Rightarrow> nat \<Rightarrow> page_s list \<times> nat" where
  "reorder_up ps n i =
    (if n < i then
       if p_addr (ps ! i) < p_addr (ps ! n)
       then (move_pages ps n (n + 1) (i - n) i (ps ! n), i)
       else reorder_up ps n (i - 1)
     else (ps, n))"
  by pat_completeness auto
termination by (relation "measure (\<lambda>(ps, n, i). i)") auto

declare reorder_down.simps [simp del] reorder_up.simps [simp del]

definition reorder_pages :: "page_s list \<Rightarrow> nat \<Rightarrow> page_s list \<times> nat" where
  "reorder_pages ps n =
    (let addr = p_addr (ps ! n) in
     if 0 < n \<and> addr < p_addr (ps ! (n - 1)) then reorder_down ps n 0
     else if n < length ps - 1 \<and> addr > p_addr (ps ! (n + 1)) then reorder_up ps n (length ps - 1)
     else (ps, n))"

definition reorder_cache :: "section_e \<Rightarrow> nat \<Rightarrow> vm \<Rightarrow> nat \<times> vm" where
  "reorder_cache c n s =
    (let (ps, i) = reorder_pages (pages (cache_of c s)) n
     in (i, set_cache c (cache_of c s\<lparr>pages := ps\<rparr>) s))"

definition find_page :: "section_e \<Rightarrow> u32 \<Rightarrow> vm \<Rightarrow> nat option" where
  "find_page c addr s =
    (let n = binary_search (pages (cache_of c s)) addr in if n < 0 then None else Some (nat n))"

definition evict_page :: "section_e \<Rightarrow> vm \<Rightarrow> nat \<times> vm" where
  "evict_page c s =
    (if p_addr (get_page_at c 0 s) = 0 then (0, s)
     else let (r, l) = lfsr_get_random (lfsr_state s)
          in (unat r mod length (pages (cache_of c s)), s\<lparr>lfsr_state := l\<rparr>))"

section \<open>Creating pages\<close>

text \<open>
  \<open>for (addr = from; addr < to; addr += PAGE_SIZE)\<close>. The fuel is the number of pages of the
  range and one more: the loop ends before it runs out when the bounds are page aligned, which
  they are (\<open>create_empty_fuel\<close> below).
\<close>

primrec create_empty_loop ::
    "nat \<Rightarrow> env \<Rightarrow> u32 \<Rightarrow> u32 \<Rightarrow> page_s \<Rightarrow> vm \<Rightarrow> bool \<times> page_s \<times> vm" where
  "create_empty_loop 0 E addr to page s = (False, page, s)"
| "create_empty_loop (Suc fuel) E addr to page s =
    (if addr < to then
       case stream_commit_page E (page\<lparr>p_data := replicate 256 0, p_addr := addr, p_iv := 0\<rparr>) True s of
         (False, page, s) \<Rightarrow> (False, page, s)
       | (True, page, s) \<Rightarrow> create_empty_loop fuel E (addr + PAGE_SIZE) to page s
     else (True, page, s))"

definition create_empty_pages :: "env \<Rightarrow> u32 \<Rightarrow> u32 \<Rightarrow> page_s \<Rightarrow> vm \<Rightarrow> bool \<times> page_s \<times> vm" where
  "create_empty_pages E from to page s =
     create_empty_loop (Suc (unat (to - from) div 256)) E from to page s"

text \<open>
  The growth of the heap and of the stack in \<open>create_page\<close>: whether it succeeded, whether a
  zero page was created, and the page that the commits of the empty pages used.
\<close>

definition grow :: "env \<Rightarrow> section_e \<Rightarrow> u32 \<Rightarrow> page_s \<Rightarrow> vm \<Rightarrow> bool \<times> bool \<times> page_s \<times> vm" where
  "grow E c addr page s =
    (if c = SECTION_DATA \<and> addr \<ge> bss_max (mem s) then
       (case create_empty_pages E (bss_max (mem s)) (addr + PAGE_SIZE) page s of
          (False, page, s) \<Rightarrow> (False, False, page, s)
        | (True, page, s) \<Rightarrow>
            (True, True, page, s\<lparr>mem := (mem s)\<lparr>bss_max := addr + PAGE_SIZE\<rparr>\<rparr>))
     else if c = SECTION_STACK \<and> addr < stack_min (mem s) then
       (case create_empty_pages E (PAGE_START addr) (stack_min (mem s)) page s of
          (False, page, s) \<Rightarrow> (False, False, page, s)
        | (True, page, s) \<Rightarrow> (True, True, page, s\<lparr>mem := (mem s)\<lparr>stack_min := addr\<rparr>\<rparr>))
     else (True, False, page, s))"

definition create_page :: "env \<Rightarrow> section_e \<Rightarrow> u32 \<Rightarrow> vm \<Rightarrow> nat option \<times> vm" where
  "create_page E c addr s =
    (let (n, s) = evict_page c s; page = get_page_at c n s; w = writeable (cache_of c s);
         (ok, page, s) = (if w \<and> p_addr page \<noteq> 0 then stream_commit_page E page False s
                          else (True, page, s))
     in if \<not> ok then (None, set_page c n page s)
        else case grow E c addr page s of
          (False, _, page, s) \<Rightarrow> (None, set_page c n page s)
        | (True, zero_page, page, s) \<Rightarrow>
            let (ok, page, s) =
                  (if zero_page then (True, \<lparr>p_addr = addr, p_data = replicate 256 0, p_iv = 1\<rparr>, s)
                   else stream_request_page E page addr (\<not> w) s);
                s = set_page c n page s
            in if \<not> ok then (None, s)
               else let (i, s) = reorder_cache c n s in (Some i, s))"

section \<open>Looking pages up\<close>

definition in_section :: "section_e \<Rightarrow> u32 \<Rightarrow> vm \<Rightarrow> bool" where
  "in_section c addr s \<longleftrightarrow>
     addr \<ge> s_start (sections (mem s) c) \<and> addr < s_end (sections (mem s) c)"

definition get_cache :: "u32 \<Rightarrow> page_prot_e \<Rightarrow> vm \<Rightarrow> section_e option" where
  "get_cache addr page_prot s =
    (if in_section SECTION_CODE addr s then
       (if page_prot \<noteq> PAGE_PROT_RO then None else Some SECTION_CODE)
     else if in_section SECTION_DATA addr s then Some SECTION_DATA
     else if in_section SECTION_STACK addr s then Some SECTION_STACK
     else None)"

definition get_page :: "env \<Rightarrow> u32 \<Rightarrow> page_prot_e \<Rightarrow> vm \<Rightarrow> (section_e \<times> nat) option \<times> vm" where
  "get_page E addr page_prot s =
    (let addr = PAGE_START addr in
     case get_cache addr page_prot s of
       None \<Rightarrow> (None, s)
     | Some c \<Rightarrow>
         (case find_page c addr s of
            Some n \<Rightarrow> (Some (c, n), s)
          | None \<Rightarrow> (case create_page E c addr s of (r, s) \<Rightarrow> (map_option (Pair c) r, s))))"

definition set_current :: "nat \<Rightarrow> vm \<Rightarrow> vm" where
  "set_current i s = set_cache SECTION_CODE (cache_of SECTION_CODE s\<lparr>current_page := Some i\<rparr>) s"

text \<open>\<open>get_code_page\<close> after its first test, the test on the page used last.\<close>

definition get_code_page_slow :: "env \<Rightarrow> u32 \<Rightarrow> vm \<Rightarrow> nat option \<times> vm" where
  "get_code_page_slow E addr s =
    (if \<not> in_section SECTION_CODE addr s then (None, s)
     else case find_page SECTION_CODE addr s of
       Some n \<Rightarrow> (Some n, s)
     | None \<Rightarrow>
         let (n, s) = evict_page SECTION_CODE s
         in case stream_request_page E (get_page_at SECTION_CODE n s) addr True s of
              (False, page, s) \<Rightarrow> (None, set_page SECTION_CODE n page s)
            | (True, page, s) \<Rightarrow>
                let (i, s) = reorder_cache SECTION_CODE n (set_page SECTION_CODE n page s)
                in (Some i, set_current i s))"

definition get_code_page :: "env \<Rightarrow> u32 \<Rightarrow> vm \<Rightarrow> nat option \<times> vm" where
  "get_code_page E addr s =
    (case current_page (cache_of SECTION_CODE s) of
       Some i \<Rightarrow>
         if p_addr (get_page_at SECTION_CODE i s) = addr then (Some i, s)
         else get_code_page_slow E addr s
     | None \<Rightarrow> get_code_page_slow E addr s)"


section \<open>The binary search is exact on a sorted cache\<close>

abbreviation addrs :: "page_s list \<Rightarrow> u32 list" where
  "addrs ps \<equiv> map p_addr ps"

lemma bsearch_correct:
  assumes "sorted (addrs ps)" "0 \<le> l" "r < int (length ps)"
  shows "if bsearch ps addr l r < 0 then \<forall>i. l \<le> int i \<and> int i \<le> r \<longrightarrow> p_addr (ps ! i) \<noteq> addr
    else nat (bsearch ps addr l r) < length ps \<and> p_addr (ps ! nat (bsearch ps addr l r)) = addr"
  using assms
proof (induction ps addr l r rule: bsearch.induct)
  case (1 ps addr l r)
  define m where "m = l + (r - l) div 2"
  show ?case
  proof (cases "l \<le> r")
    case False
    then show ?thesis by (subst (1 2 3) bsearch.simps) auto
  next
    case True
    then have m: "l \<le> m" "m \<le> r" by (auto simp: m_def)
    have le: "p_addr (ps ! i) \<le> p_addr (ps ! j)" if "i \<le> j" "j < length ps" for i j
      using sorted_nth_mono [OF "1.prems"(1), of i j] that by simp
    consider "p_addr (ps ! nat m) = addr" | "p_addr (ps ! nat m) < addr" | "addr < p_addr (ps ! nat m)"
      by (meson linorder_less_linear)
    then show ?thesis
    proof cases
      case 1
      then have "bsearch ps addr l r = m"
        using True by (subst bsearch.simps) (simp add: m_def Let_def)
      then show ?thesis using m 1 "1.prems" by auto
    next
      case 2
      then have e: "bsearch ps addr l r = bsearch ps addr (m + 1) r"
        using True 2 by (subst bsearch.simps) (auto simp: m_def Let_def)
      have "\<forall>i. l \<le> int i \<and> int i \<le> m \<longrightarrow> p_addr (ps ! i) \<noteq> addr"
        using le [of _ "nat m"] 2 m "1.prems" by (metis le_nat_iff nat_less_iff not_le order.trans
            order_le_less_trans zle_int nat_0_le)
      moreover have "if bsearch ps addr (m + 1) r < 0
          then \<forall>i. m + 1 \<le> int i \<and> int i \<le> r \<longrightarrow> p_addr (ps ! i) \<noteq> addr
          else nat (bsearch ps addr (m + 1) r) < length ps \<and>
            p_addr (ps ! nat (bsearch ps addr (m + 1) r)) = addr"
        using "1.IH"(1) [OF True m_def refl] 2 m "1.prems" by auto
      moreover have "int i \<le> m \<or> m + 1 \<le> int i" for i by linarith
      ultimately show ?thesis unfolding e by (cases "bsearch ps addr (m + 1) r < 0") (simp, metis, simp)
    next
      case 3
      then have e: "bsearch ps addr l r = bsearch ps addr l (m - 1)"
        using True 3 by (subst bsearch.simps) (auto simp: m_def Let_def)
      have "\<forall>i. m \<le> int i \<and> int i \<le> r \<longrightarrow> p_addr (ps ! i) \<noteq> addr"
      proof (intro allI impI)
        fix i assume "m \<le> int i \<and> int i \<le> r"
        then have "nat m \<le> i" "i < length ps" using m "1.prems" by auto
        then show "p_addr (ps ! i) \<noteq> addr" using le [of "nat m" i] 3 by auto
      qed
      moreover have "if bsearch ps addr l (m - 1) < 0
          then \<forall>i. l \<le> int i \<and> int i \<le> m - 1 \<longrightarrow> p_addr (ps ! i) \<noteq> addr
          else nat (bsearch ps addr l (m - 1)) < length ps \<and>
            p_addr (ps ! nat (bsearch ps addr l (m - 1))) = addr"
        using "1.IH"(2) [OF True m_def refl] 3 m "1.prems" by auto
      moreover have "m \<le> int i \<or> int i \<le> m - 1" for i by linarith
      ultimately show ?thesis unfolding e by (cases "bsearch ps addr l (m - 1) < 0") (simp, metis, simp)
    qed
  qed
qed

lemma find_page_Some:
  assumes "sorted (addrs (pages (cache_of c s)))" "find_page c addr s = Some n"
  shows "n < length (pages (cache_of c s)) \<and> p_addr (get_page_at c n s) = addr"
  using bsearch_correct [OF assms(1), of 0 "int (length (pages (cache_of c s))) - 1" addr] assms(2)
  by (auto simp: find_page_def binary_search_def Let_def get_page_at_def split: if_splits)

lemma find_page_None:
  assumes "sorted (addrs (pages (cache_of c s)))" "find_page c addr s = None"
  shows "addr \<notin> set (addrs (pages (cache_of c s)))"
proof -
  have "\<forall>i < length (pages (cache_of c s)). p_addr (pages (cache_of c s) ! i) \<noteq> addr"
    using bsearch_correct [OF assms(1), of 0 "int (length (pages (cache_of c s))) - 1" addr] assms(2)
    by (auto simp: find_page_def binary_search_def Let_def split: if_splits)
  then show ?thesis by (auto simp: in_set_conv_nth)
qed

section \<open>Reordering restores the order\<close>

text \<open>The array with the page at \<open>n\<close> taken out and put at \<open>i\<close>.\<close>

definition moved :: "page_s list \<Rightarrow> nat \<Rightarrow> nat \<Rightarrow> page_s list" where
  "moved ps n i = (let qs = take n ps @ drop (n + 1) ps in take i qs @ [ps ! n] @ drop i qs)"

lemma move_pages_down:
  assumes "i < n" "n < length ps"
  shows "move_pages ps (i + 1) i (n - i) i (ps ! n) = moved ps n i"
proof -
  have "splice ps (i + 1) (slice ps i (n - i)) = take (i + 1) ps @ slice ps i (n - i) @ drop (n + 1) ps"
    using assms by (simp add: splice_def slice_def min_def)
  moreover have "(take (i + 1) ps)[i := ps ! n] = take i ps @ [ps ! n]"
    using assms by (simp add: take_Suc_conv_app_nth list_update_append min_def)
  moreover have "slice ps i (n - i) = drop i (take n ps)"
    by (simp add: slice_def drop_take)
  ultimately show ?thesis
    using assms by (simp add: move_pages_def moved_def Let_def list_update_append min_def)
qed

lemma move_pages_up:
  assumes "n < i" "i < length ps"
  shows "move_pages ps n (n + 1) (i - n) i (ps ! n) = moved ps n i"
proof (rule nth_equalityI)
  let ?s = "slice ps (n + 1) (i - n)"
  have l: "length ?s = i - n" using assms by simp
  show "length (move_pages ps n (n + 1) (i - n) i (ps ! n)) = length (moved ps n i)"
    using assms l by (simp add: move_pages_def moved_def Let_def)
  fix j assume "j < length (move_pages ps n (n + 1) (i - n) i (ps ! n))"
  then have j: "j < length ps" using assms l by (simp add: move_pages_def)
  show "move_pages ps n (n + 1) (i - n) i (ps ! n) ! j = moved ps n i ! j"
    using assms l j
    by (auto simp: move_pages_def moved_def Let_def nth_list_update nth_splice nth_slice nth_append min_def)
qed

lemma mset_moved: "n < length ps \<Longrightarrow> mset (moved ps n i) = mset ps"
proof -
  assume n: "n < length ps"
  let ?qs = "take n ps @ drop (n + 1) ps"
  have "mset (moved ps n i) = mset (take i ?qs @ drop i ?qs) + {#ps ! n#}"
    by (simp only: moved_def Let_def mset_append) simp
  also have "\<dots> = mset (take n ps @ [ps ! n] @ drop (n + 1) ps)"
    by (simp only: append_take_drop_id mset_append) simp
  also have "take n ps @ [ps ! n] @ drop (n + 1) ps = ps"
    using n by (simp add: id_take_nth_drop [symmetric])
  finally show ?thesis .
qed


text \<open>
  What is asked of the array: it is sorted but for the page at \<open>n\<close>. Then \<open>reorder_pages\<close>
  sorts it and returns the new place of the page.
\<close>

definition sorted_but :: "page_s list \<Rightarrow> nat \<Rightarrow> bool" where
  "sorted_but ps n \<longleftrightarrow> n < length ps \<and> sorted (addrs (take n ps @ drop (n + 1) ps))"

lemma sorted_insert_at:
  assumes "sorted (map f qs)" "\<forall>x \<in> set (take i qs). f x \<le> f a" "\<forall>x \<in> set (drop i qs). f a \<le> f x"
  shows "sorted (map f (take i qs @ [a] @ drop i qs))"
proof -
  have "sorted (map f (take i qs) @ map f (drop i qs))"
    using assms(1) by (simp flip: map_append)
  then show ?thesis using assms(2,3) by (auto simp: sorted_append)
qed

lemma sorted_moved:
  assumes "sorted_but ps n"
    and "\<And>j. j < i \<Longrightarrow> p_addr ((take n ps @ drop (n + 1) ps) ! j) \<le> p_addr (ps ! n)"
    and "\<And>j. i \<le> j \<Longrightarrow> j < length ps - 1 \<Longrightarrow> p_addr (ps ! n) \<le> p_addr ((take n ps @ drop (n + 1) ps) ! j)"
  shows "sorted (addrs (moved ps n i))"
proof -
  let ?qs = "take n ps @ drop (n + 1) ps"
  have l: "length ?qs = length ps - 1" using assms(1) by (simp add: sorted_but_def)
  have "\<forall>x \<in> set (take i ?qs). p_addr x \<le> p_addr (ps ! n)"
  proof
    fix x assume "x \<in> set (take i ?qs)"
    then obtain j where "j < i" "j < length ?qs" "x = ?qs ! j"
      by (metis in_set_conv_nth length_take min_less_iff_conj nth_take)
    then show "p_addr x \<le> p_addr (ps ! n)" using assms(2) [of j] by simp
  qed
  moreover have "\<forall>x \<in> set (drop i ?qs). p_addr (ps ! n) \<le> p_addr x"
  proof
    fix x assume "x \<in> set (drop i ?qs)"
    then obtain j where "j < length (drop i ?qs)" "x = drop i ?qs ! j" by (metis in_set_conv_nth)
    then have "j < length ?qs - i" "x = ?qs ! (i + j)" by (simp_all only: length_drop nth_drop less_imp_le)
    then show "p_addr (ps ! n) \<le> p_addr x" using assms(3) [of "i + j"] l by simp
  qed
  ultimately show ?thesis
    using sorted_insert_at [of p_addr ?qs i "ps ! n"] assms(1)
    by (simp add: moved_def Let_def sorted_but_def)
qed

lemma nth_moved: "i < length ps \<Longrightarrow> n < length ps \<Longrightarrow> moved ps n i ! i = ps ! n"
  by (auto simp: moved_def Let_def nth_append min_def)

text \<open>The two loops stop at the first, respectively the last, page on the wrong side.\<close>

lemma reorder_down_finds:
  "i \<le> n \<Longrightarrow> n < length ps \<Longrightarrow> (\<And>j. j < i \<Longrightarrow> p_addr (ps ! j) \<le> p_addr (ps ! n)) \<Longrightarrow>
   (\<exists>j. i \<le> j \<and> j < n \<and> p_addr (ps ! n) < p_addr (ps ! j)) \<Longrightarrow>
   \<exists>k. reorder_down ps n i = (moved ps n k, k) \<and> k < n \<and> p_addr (ps ! n) < p_addr (ps ! k) \<and>
     (\<forall>j < k. p_addr (ps ! j) \<le> p_addr (ps ! n))"
proof (induction ps n i rule: reorder_down.induct)
  case (1 ps n i)
  show ?case
  proof (cases "p_addr (ps ! n) < p_addr (ps ! i)")
    case True
    moreover from this "1.prems" have "i < n" by (metis le_neq_implies_less order.asym order.trans not_le)
    ultimately show ?thesis
      using "1.prems" move_pages_down [of i n ps] by (subst reorder_down.simps) (auto intro!: exI [of _ i])
  next
    case False
    obtain j where j: "i \<le> j" "j < n" "p_addr (ps ! n) < p_addr (ps ! j)" using "1.prems"(4) by blast
    have "i < n" using j by simp
    moreover have "\<And>j. j < i + 1 \<Longrightarrow> p_addr (ps ! j) \<le> p_addr (ps ! n)"
      using "1.prems"(3) False by (metis Suc_eq_plus1 less_Suc_eq not_le)
    moreover have "i + 1 \<le> j" using j False by (metis Suc_eq_plus1 Suc_leI le_neq_implies_less)
    ultimately show ?thesis
      using "1.IH" [OF _ False] "1.prems"(2) j False by (subst reorder_down.simps) auto
  qed
qed

lemma reorder_up_finds:
  "n \<le> i \<Longrightarrow> i < length ps \<Longrightarrow> (\<And>j. i < j \<Longrightarrow> j < length ps \<Longrightarrow> p_addr (ps ! n) \<le> p_addr (ps ! j)) \<Longrightarrow>
   (\<exists>j. n < j \<and> j \<le> i \<and> p_addr (ps ! j) < p_addr (ps ! n)) \<Longrightarrow>
   \<exists>k. reorder_up ps n i = (moved ps n k, k) \<and> n < k \<and> k < length ps \<and>
     p_addr (ps ! k) < p_addr (ps ! n) \<and> (\<forall>j. k < j \<and> j < length ps \<longrightarrow> p_addr (ps ! n) \<le> p_addr (ps ! j))"
proof (induction ps n i rule: reorder_up.induct)
  case (1 ps n i)
  obtain j where j: "n < j" "j \<le> i" "p_addr (ps ! j) < p_addr (ps ! n)" using "1.prems"(4) by blast
  then have ni: "n < i" by simp
  show ?case
  proof (cases "p_addr (ps ! i) < p_addr (ps ! n)")
    case True
    then show ?thesis
      using "1.prems" ni move_pages_up [of n i ps] by (subst reorder_up.simps) (auto intro!: exI [of _ i])
  next
    case False
    have "\<And>j. i - 1 < j \<Longrightarrow> j < length ps \<Longrightarrow> p_addr (ps ! n) \<le> p_addr (ps ! j)"
      using "1.prems"(3) False ni
      by (metis Suc_pred' leI less_Suc_eq_le less_imp_Suc_add linorder_neqE_nat not_less_eq zero_less_Suc)
    moreover have "j \<le> i - 1" using j False by (metis Suc_pred' leI less_Suc_eq_le le_neq_implies_less ni
        gr_implies_not0 neq0_conv)
    moreover have "reorder_up ps n i = reorder_up ps n (i - 1)"
      using ni False by (subst reorder_up.simps) simp
    moreover have "n \<le> i - 1" "i - 1 < length ps" using ni "1.prems"(2) by auto
    ultimately show ?thesis
      using "1.IH" [OF ni False] j by metis
  qed
qed


lemma nth_without: "n < length ps \<Longrightarrow> j < length ps - 1 \<Longrightarrow>
    (take n ps @ drop (n + 1) ps) ! j = (if j < n then ps ! j else ps ! (j + 1))"
  by (auto simp: nth_append min_def)

lemma sorted_but_nth:
  assumes "sorted_but ps n" "i \<le> j" "j < length ps" "i \<noteq> n" "j \<noteq> n"
  shows "p_addr (ps ! i) \<le> p_addr (ps ! j)"
proof -
  let ?qs = "take n ps @ drop (n + 1) ps"
  have n: "n < length ps" and s: "sorted (addrs ?qs)" using assms(1) by (auto simp: sorted_but_def)
  have l: "length ?qs = length ps - 1" using n by simp
  define i' where "i' = (if i < n then i else i - 1)"
  define j' where "j' = (if j < n then j else j - 1)"
  have ij: "i' \<le> j'" "j' < length ?qs" using assms n l by (auto simp: i'_def j'_def)
  have "?qs ! k = ps ! (if k < n then k else k + 1)" if "k < length ?qs" for k
    using nth_without [OF n, of k] that unfolding l by (cases "k < n") simp_all
  then have "?qs ! i' = ps ! (if i' < n then i' else i' + 1)" "?qs ! j' = ps ! (if j' < n then j' else j' + 1)"
    using ij by auto
  moreover have "(if i' < n then i' else i' + 1) = i" "(if j' < n then j' else j' + 1) = j"
    using assms(4,5) by (auto simp: i'_def j'_def)
  ultimately have "ps ! i = ?qs ! i'" "ps ! j = ?qs ! j'" by metis+
  moreover have "addrs ?qs ! i' \<le> addrs ?qs ! j'"
    by (rule sorted_nth_mono [OF s ij(1)]) (use ij(2) in \<open>simp only: length_map\<close>)
  ultimately show ?thesis using ij by (metis le_less_trans nth_map)
qed

lemma reorder_pages_correct:
  assumes "sorted_but ps n"
  shows "\<exists>ps' i. reorder_pages ps n = (ps', i) \<and> sorted (addrs ps') \<and> mset ps' = mset ps \<and>
    i < length ps \<and> ps' ! i = ps ! n"
proof -
  have n: "n < length ps" using assms by (simp add: sorted_but_def)
  note mono = sorted_but_nth [OF assms]
  define A where "A \<longleftrightarrow> 0 < n \<and> p_addr (ps ! n) < p_addr (ps ! (n - 1))"
  define B where "B \<longleftrightarrow> n < length ps - 1 \<and> p_addr (ps ! n) > p_addr (ps ! (n + 1))"
  consider (down) A | (up) "\<not> A" B | (same) "\<not> A" "\<not> B" by blast
  then show ?thesis
  proof cases
    case down
    then have down: "0 < n" "p_addr (ps ! n) < p_addr (ps ! (n - 1))" by (auto simp: A_def)
    then obtain k where k: "reorder_down ps n 0 = (moved ps n k, k)" "k < n"
        "p_addr (ps ! n) < p_addr (ps ! k)" "\<forall>j < k. p_addr (ps ! j) \<le> p_addr (ps ! n)"
      using reorder_down_finds [of 0 n ps] n
      by (metis bot_nat_0.extremum diff_less less_nat_zero_code zero_less_one)
    have "sorted (addrs (moved ps n k))"
    proof (rule sorted_moved [OF assms])
      fix j assume "j < k"
      then show "p_addr ((take n ps @ drop (n + 1) ps) ! j) \<le> p_addr (ps ! n)"
        using k n by (simp add: nth_append)
    next
      fix j assume j: "k \<le> j" "j < length ps - 1"
      have "p_addr (ps ! k) \<le> p_addr (ps ! (if j < n then j else j + 1))"
        by (rule mono) (use j k n in auto)
      then show "p_addr (ps ! n) \<le> p_addr ((take n ps @ drop (n + 1) ps) ! j)"
        unfolding nth_without [OF n j(2)] using k(3) by (cases "j < n") simp_all
    qed
    then show ?thesis
      using down k n by (auto simp: reorder_pages_def Let_def mset_moved nth_moved)
  next
    case up
    then have up: "\<not> (0 < n \<and> p_addr (ps ! n) < p_addr (ps ! (n - 1)))" "n < length ps - 1"
        "p_addr (ps ! n) > p_addr (ps ! (n + 1))" unfolding A_def B_def by blast+
    have "n \<le> length ps - 1" "length ps - 1 < length ps" using n by auto
    then obtain k where k: "reorder_up ps n (length ps - 1) = (moved ps n k, k)" "n < k" "k < length ps"
        "p_addr (ps ! k) < p_addr (ps ! n)"
        "\<forall>j. k < j \<and> j < length ps \<longrightarrow> p_addr (ps ! n) \<le> p_addr (ps ! j)"
      using reorder_up_finds [of n "length ps - 1" ps] up n by fastforce
    have "sorted (addrs (moved ps n k))"
    proof (rule sorted_moved [OF assms])
      fix j assume j: "j < k"
      have le: "k \<le> length ps - 1" using k(3) by simp
      have "p_addr (ps ! (if j < n then j else j + 1)) \<le> p_addr (ps ! k)"
        by (rule mono) (use j k n in auto)
      then show "p_addr ((take n ps @ drop (n + 1) ps) ! j) \<le> p_addr (ps ! n)"
        unfolding nth_without [OF n less_le_trans [OF j le]] using k(4) by (cases "j < n") simp_all
    next
      fix j assume j: "k \<le> j" "j < length ps - 1"
      then show "p_addr (ps ! n) \<le> p_addr ((take n ps @ drop (n + 1) ps) ! j)"
        unfolding nth_without [OF n j(2)] using k by simp
    qed
    then show ?thesis
      using up k n by (auto simp: reorder_pages_def Let_def mset_moved nth_moved)
  next
    case same
    then have same: "\<not> (0 < n \<and> p_addr (ps ! n) < p_addr (ps ! (n - 1)))"
        "\<not> (n < length ps - 1 \<and> p_addr (ps ! n) > p_addr (ps ! (n + 1)))" unfolding A_def B_def by blast+
    have "moved ps n n = ps" using n by (simp add: moved_def Let_def id_take_nth_drop [symmetric])
    have "sorted (addrs (moved ps n n))"
    proof (rule sorted_moved [OF assms])
      fix j assume j: "j < n"
      have "p_addr (ps ! j) \<le> p_addr (ps ! (n - 1))" by (rule mono) (use j n in auto)
      then show "p_addr ((take n ps @ drop (n + 1) ps) ! j) \<le> p_addr (ps ! n)"
        using same(1) j n by (simp add: nth_append not_less)
    next
      fix j assume j: "n \<le> j" "j < length ps - 1"
      have "p_addr (ps ! (n + 1)) \<le> p_addr (ps ! (j + 1))" by (rule mono) (use j n in auto)
      then show "p_addr (ps ! n) \<le> p_addr ((take n ps @ drop (n + 1) ps) ! j)"
        unfolding nth_without [OF n j(2)] using same(2) j n by (simp add: not_less)
    qed
    then show ?thesis
      using same n \<open>moved ps n n = ps\<close> by (auto simp: reorder_pages_def Let_def)
  qed
qed


section \<open>The invariant of a cache\<close>

text \<open>
  A cache has its number of pages, sorted, at most one for each address that is not the 0 of a
  free page; only the code cache is read-only.
\<close>

definition cache_wf :: "section_e \<Rightarrow> cache_s \<Rightarrow> bool" where
  "cache_wf c k \<longleftrightarrow> length (pages k) = NPAGE c \<and> sorted (addrs (pages k)) \<and>
     (\<forall>p \<in> set (pages k). length (p_data p) = 256 \<and> PAGE_START (p_addr p) = p_addr p) \<and>
     (\<forall>a. a \<noteq> 0 \<longrightarrow> count (mset (addrs (pages k))) a \<le> 1) \<and>
     (writeable k \<longleftrightarrow> c \<noteq> SECTION_CODE) \<and> pred_option (\<lambda>i. i < NPAGE c) (current_page k)"

definition mem_wf :: "vm \<Rightarrow> bool" where
  "mem_wf s \<longleftrightarrow> (\<forall>c. cache_wf c (cache_of c s))"

lemma NPAGE_pos: "0 < NPAGE c"
  by (cases c) auto

lemma cache_wf_sorted: "cache_wf c k \<Longrightarrow> sorted (addrs (pages k))"
  by (simp add: cache_wf_def)

lemma sorted_without: "sorted xs \<Longrightarrow> sorted (take n xs @ drop (n + 1) xs)"
proof -
  assume "sorted xs"
  then have "\<forall>x \<in> set (take n xs). \<forall>y \<in> set (drop n xs). x \<le> y"
    using sorted_append [of "take n xs" "drop n xs"] by simp
  moreover have "set (drop (n + 1) xs) \<subseteq> set (drop n xs)" by (rule set_drop_subset_set_drop) simp
  ultimately show ?thesis using \<open>sorted xs\<close>
    unfolding sorted_append by (simp add: sorted_wrt_drop sorted_wrt_take) blast
qed

text \<open>A page put in place of the page at \<open>n\<close>, and the cache reordered.\<close>

lemma cache_wf_replace:
  assumes wf: "cache_wf c k" and n: "n < NPAGE c" and q: "length (p_data q) = 256"
      "PAGE_START (p_addr q) = p_addr q" "p_addr q \<notin> set (addrs (pages k))"
    and r: "reorder_pages ((pages k)[n := q]) n = (ps, i)"
  shows "cache_wf c (k\<lparr>pages := ps\<rparr>)" "i < NPAGE c" "ps ! i = q"
    "mset ps = add_mset q (mset (pages k) - {#pages k ! n#})"
proof -
  let ?ps = "pages k"
  have len: "length ?ps = NPAGE c" and s: "sorted (addrs ?ps)" using wf by (auto simp: cache_wf_def)
  have "sorted (addrs (take n ?ps @ drop (n + 1) ?ps))"
    using sorted_without [OF s, of n] by (simp add: take_map drop_map)
  then have "sorted_but (?ps[n := q]) n" using n len by (simp add: sorted_but_def)
  from reorder_pages_correct [OF this] r len n have c: "sorted (addrs ps)" "mset ps = mset (?ps[n := q])"
    "i < NPAGE c" "ps ! i = q" by auto
  show "mset ps = add_mset q (mset ?ps - {#?ps ! n#})"
    using c(2) n len by (simp add: mset_update)
  have m: "set ps \<subseteq> insert q (set ?ps)"
    using c(2) set_update_subset_insert [of ?ps n q] by (metis set_mset_mset)
  have "count (mset (addrs ps)) a \<le> 1" if "a \<noteq> 0" for a
  proof -
    have "mset (addrs ps) = add_mset (p_addr q) (image_mset p_addr (mset ?ps - {#?ps ! n#}))"
      using c(2) n len by (simp add: mset_update)
    moreover have "count (image_mset p_addr (mset ?ps - {#?ps ! n#})) a \<le> count (mset (addrs ?ps)) a"
      by (metis diff_subset_eq_self image_mset_subseteq_mono mset_map mset_subset_eq_count)
    moreover have "count (mset (addrs ?ps)) (p_addr q) = 0"
      using q(3) by (metis count_mset_0_iff)
    moreover have "count (mset (addrs ?ps)) a \<le> 1" using wf that by (auto simp: cache_wf_def)
    ultimately show ?thesis by (cases "a = p_addr q") auto
  qed
  moreover have "length ps = NPAGE c" using c(2) len by (metis length_list_update mset_eq_length)
  ultimately show "cache_wf c (k\<lparr>pages := ps\<rparr>)"
    using wf c(1) m q by (auto simp: cache_wf_def)
  show "i < NPAGE c" "ps ! i = q" using c by auto
qed


section \<open>Every operation keeps the invariant\<close>

definition lengths_ok :: "env \<Rightarrow> bool" where
  "lengths_ok E \<longleftrightarrow> sizes_ok E \<and> (\<forall>k iv bs. length (aes_cbc_decrypt E k iv bs) = length bs)"

lemma request_hmac_length:
  assumes "request_hmac E page ro s = (ok, page', s')" "lengths_ok E"
  shows "length (p_data page') = length (p_data page)"
  using assms
  by (auto simp: request_hmac_def Let_def lengths_ok_def decrypt_page_def
      split: option.splits prod.splits if_splits)

lemma request_page_length:
  assumes "stream_request_page E page a ro s = (True, page', s')" "buf_ok (dev s)" "lengths_ok E"
  shows "length (p_data page') = 256"
proof -
  let ?s = "on_dev (write_buf 0 (le_bytes 4 a @ cmd_bytes CMD_REQUEST_PAGE)) (update_ui s)"
  have b: "buf_ok (dev ?s)" using query_write_0 [of "update_ui s" _ 6] assms(2) by simp
  obtain r s1 where x: "exchange E 6 ?s = (r, s1)" by fastforce
  from assms(1) x obtain ap where ap: "r = Some ap"
    "request_hmac E (page\<lparr>p_addr := a, p_data := a_p2 ap # take 255 (a_data ap)\<rparr>) ro s1 = (True, page', s')"
    by (auto simp: stream_request_page_def Let_def split: option.splits if_splits)
  have "length (a_data ap) = 255" using exchange_Some(8) [of E 6 ?s ap s1] x ap b by simp
  with request_hmac_length [OF ap(2) assms(3)] show ?thesis by simp
qed

lemma evict_page_shape:
  assumes "evict_page c s = (n, s')" "cache_wf c (cache_of c s)"
  shows "n < NPAGE c \<and> (\<exists>l. s' = s\<lparr>lfsr_state := l\<rparr>)"
proof -
  have l: "length (pages (cache_of c s)) = NPAGE c" using assms(2) by (simp add: cache_wf_def)
  have "\<exists>l. s = s\<lparr>lfsr_state := l\<rparr>" by (rule exI [of _ "lfsr_state s"]) simp
  with assms(1) l NPAGE_pos [of c] show ?thesis
    by (auto simp: evict_page_def split: if_splits prod.splits)
qed

lemma pager_frame_lfsr [simp]: "pager_frame s (s\<lparr>lfsr_state := l\<rparr>) \<longleftrightarrow> l = lfsr_state s"
  by (auto simp: pager_frame_def)

text \<open>The zero pages are committed with the page as a buffer.\<close>

lemma create_empty_loop_frame:
  assumes "create_empty_loop fuel E addr to page s = (ok, page', s')" "sizes_ok E"
    "length (p_data page) = 256"
  shows "pager_frame s s' \<and> length (p_data page') = 256"
  using assms
proof (induction fuel arbitrary: addr page s)
  case 0
  then show ?case by simp
next
  case (Suc fuel)
  let ?p = "page\<lparr>p_data := replicate 256 0, p_addr := addr, p_iv := 0\<rparr>"
  obtain o1 p1 s1 where c: "stream_commit_page E ?p True s = (o1, p1, s1)" by (metis prod_cases3)
  have f: "pager_frame s s1 \<and> length (p_data p1) = 256"
    using commit_page_frame [OF c Suc.prems(2)] by simp
  show ?case
  proof (cases "addr < to \<and> o1")
    case True
    then have "create_empty_loop fuel E (addr + PAGE_SIZE) to p1 s1 = (ok, page', s')"
      using Suc.prems(1) c by simp
    from Suc.IH [OF this Suc.prems(2)] f show ?thesis using pager_frame_trans by blast
  next
    case False
    then show ?thesis using Suc.prems c f by (auto split: if_splits)
  qed
qed


text \<open>The loop over aligned bounds never runs out of fuel.\<close>

lemma PAGE_START_aligned: "PAGE_START a = a \<longleftrightarrow> unat a mod 256 = 0"
proof -
  have "PAGE_START a = a \<longleftrightarrow> 256 * (unat a div 256) = unat a"
    by (simp add: word_unat_eq_iff unat_PAGE_START_div)
  moreover have "256 * (unat a div 256) + unat a mod 256 = unat a" by simp
  ultimately show ?thesis by linarith
qed

lemma next_page:
  assumes "PAGE_START a = a" "PAGE_START b = b" "a < b"
  shows "unat (a + PAGE_SIZE) = unat a + 256" "PAGE_START (a + PAGE_SIZE) = a + PAGE_SIZE"
    "a + PAGE_SIZE \<le> b" "a < a + PAGE_SIZE"
proof -
  from assms(1,2) obtain i j where m: "unat a = 256 * i" "unat b = 256 * j"
    by (auto simp: PAGE_START_aligned mod_eq_0_iff_dvd elim!: dvdE)
  have "unat a < unat b" using assms(3) by (simp add: word_less_nat_alt)
  then have s: "unat a + 256 \<le> unat b" unfolding m by simp
  moreover have "unat b < 2 ^ 32" using unsigned_less [of b, where 'a = nat] by simp
  ultimately show u: "unat (a + PAGE_SIZE) = unat a + 256"
    by (simp add: PAGE_SIZE_def unat_word_ariths)
  show "PAGE_START (a + PAGE_SIZE) = a + PAGE_SIZE"
    unfolding PAGE_START_aligned u m by simp
  show "a + PAGE_SIZE \<le> b" "a < a + PAGE_SIZE"
    using s by (simp_all add: word_le_nat_alt word_less_nat_alt u)
qed

lemma create_empty_fuel:
  assumes "PAGE_START addr = addr" "PAGE_START to = to" "unat (to - addr) div 256 < fuel"
  shows "create_empty_loop (fuel + k) E addr to page s = create_empty_loop fuel E addr to page s"
  using assms
proof (induction fuel arbitrary: addr page s)
  case 0
  then show ?case by simp
next
  case (Suc fuel)
  show ?case
  proof (cases "addr < to")
    case False
    then show ?thesis by simp
  next
    case True
    note n = next_page [OF Suc.prems(1,2) True]
    have "unat (to - addr) = unat (to - (addr + PAGE_SIZE)) + 256"
      using n True by (simp add: unat_sub) (simp add: word_le_nat_alt)
    then have "unat (to - (addr + PAGE_SIZE)) div 256 < fuel" using Suc.prems(3) by simp
    from Suc.IH [OF n(2) Suc.prems(2) this] True show ?thesis by (auto split: prod.splits bool.splits)
  qed
qed


text \<open>What the steps of \<open>create_page\<close> leave alone: the caches and the layout.\<close>

definition caches_frame :: "vm \<Rightarrow> vm \<Rightarrow> bool" where
  "caches_frame s s' \<longleftrightarrow> caches (mem s') = caches (mem s) \<and> sections (mem s') = sections (mem s) \<and>
     (buf_ok (dev s) \<longrightarrow> buf_ok (dev s'))"

lemma caches_frame_pager: "pager_frame s s' \<Longrightarrow> caches_frame s s'"
  by (simp add: pager_frame_def caches_frame_def)

lemma caches_frame_trans: "caches_frame s t \<Longrightarrow> caches_frame t u \<Longrightarrow> caches_frame s u"
  by (simp add: caches_frame_def)

lemma caches_frame_cache: "caches_frame s s' \<Longrightarrow> cache_of c s' = cache_of c s"
  by (simp add: caches_frame_def cache_of_def)

lemma grow_frame:
  assumes "grow E c addr page s = (True, z, page', s')" "sizes_ok E" "length (p_data page) = 256"
  shows "caches_frame s s' \<and> length (p_data page') = 256"
proof -
  obtain o1 p1 s1 where c1: "create_empty_pages E (bss_max (mem s)) (addr + PAGE_SIZE) page s = (o1, p1, s1)"
    by (metis prod_cases3)
  obtain o2 p2 s2 where c2: "create_empty_pages E (PAGE_START addr) (stack_min (mem s)) page s = (o2, p2, s2)"
    by (metis prod_cases3)
  have "caches_frame s s1 \<and> length (p_data p1) = 256" "caches_frame s s2 \<and> length (p_data p2) = 256"
    using create_empty_loop_frame [OF c1 [unfolded create_empty_pages_def] assms(2,3)]
      create_empty_loop_frame [OF c2 [unfolded create_empty_pages_def] assms(2,3)]
    by (simp_all add: caches_frame_pager)
  moreover have "caches_frame s s" by (simp add: caches_frame_def)
  ultimately show ?thesis
    using assms c1 c2 by (auto simp: grow_def caches_frame_def split: if_splits bool.splits)
qed

text \<open>The steps of a successful \<open>create_page\<close>, one by one.\<close>

lemma create_page_steps:
  assumes "create_page E c addr s = (Some i, s')"
  obtains n s0 p1 s1 z p2 s2 q s3 ps where
    "evict_page c s = (n, s0)"
    "(if writeable (cache_of c s) \<and> p_addr (get_page_at c n s) \<noteq> 0
      then stream_commit_page E (get_page_at c n s) False s0 = (True, p1, s1)
      else p1 = get_page_at c n s \<and> s1 = s0)"
    "grow E c addr p1 s1 = (True, z, p2, s2)"
    "(if z then q = \<lparr>p_addr = addr, p_data = replicate 256 0, p_iv = 1\<rparr> \<and> s3 = s2
      else stream_request_page E p2 addr (\<not> writeable (cache_of c s)) s2 = (True, q, s3))"
    "reorder_pages ((pages (cache_of c s3))[n := q]) n = (ps, i)"
    "s' = set_cache c (cache_of c s3\<lparr>pages := ps\<rparr>) s3"
proof -
  obtain n s0 where e: "evict_page c s = (n, s0)" by fastforce
  have e0: "get_page_at c n s0 = get_page_at c n s" "cache_of c s0 = cache_of c s"
    using e by (auto simp: evict_page_def get_page_at_def cache_of_def split: if_splits prod.splits)
  let ?p = "get_page_at c n s" and ?w = "writeable (cache_of c s)"
  obtain o1 p1 s1 where c1: "(if ?w \<and> p_addr ?p \<noteq> 0 then stream_commit_page E ?p False s0
      else (True, ?p, s0)) = (o1, p1, s1)" by (metis prod_cases3)
  obtain o2 z p2 s2 where g: "grow E c addr p1 s1 = (o2, z, p2, s2)" by (metis prod_cases4)
  obtain o3 q s3 where r: "(if z then (True, \<lparr>p_addr = addr, p_data = replicate 256 0, p_iv = 1\<rparr>, s2)
      else stream_request_page E p2 addr (\<not> ?w) s2) = (o3, q, s3)" by (metis prod_cases3)
  obtain ps j where re: "reorder_pages ((pages (cache_of c s3))[n := q]) n = (ps, j)" by fastforce
  have sc: "set_cache c k (set_page c n q s3) = set_cache c k s3" for k
    by (simp add: set_page_def set_cache_def)
  have ok: "o1" "o2" "o3" and i: "i = j" "s' = set_cache c (cache_of c s3\<lparr>pages := ps\<rparr>) s3"
    using assms e e0 c1 g r re sc
    by (auto simp: create_page_def Let_def reorder_cache_def set_page_def
        split: if_splits bool.splits)
  show ?thesis
  proof (rule that [of n s0 p1 s1 z p2 s2 q s3 ps])
  qed (use e c1 g r re ok i in \<open>auto split: if_splits\<close>)
qed


text \<open>The steps again, on a well-formed memory, with what they make of the caches.\<close>

lemma create_page_shape:
  assumes "create_page E c addr s = (Some i, s')" "mem_wf s" "buf_ok (dev s)" "lengths_ok E"
    and "PAGE_START addr = addr" "addr \<notin> set (addrs (pages (cache_of c s)))"
  obtains n l p1 s1 z p2 s2 q s3 ps where
    "n < NPAGE c"
    "if c \<noteq> SECTION_CODE \<and> p_addr (get_page_at c n s) \<noteq> 0
      then stream_commit_page E (get_page_at c n s) False (s\<lparr>lfsr_state := l\<rparr>) = (True, p1, s1)
      else p1 = get_page_at c n s \<and> s1 = s\<lparr>lfsr_state := l\<rparr>"
    "caches_frame s s1" "length (p_data p1) = 256"
    "grow E c addr p1 s1 = (True, z, p2, s2)" "caches_frame s1 s2" "length (p_data p2) = 256"
    "if z then q = \<lparr>p_addr = addr, p_data = replicate 256 0, p_iv = 1\<rparr> \<and> s3 = s2
      else stream_request_page E p2 addr (c = SECTION_CODE) s2 = (True, q, s3)"
    "caches_frame s2 s3" "length (p_data q) = 256" "p_addr q = addr"
    "s' = set_cache c (cache_of c s\<lparr>pages := ps\<rparr>) s3"
    "cache_wf c (cache_of c s\<lparr>pages := ps\<rparr>)" "i < NPAGE c" "ps ! i = q"
    "mset ps = add_mset q (mset (pages (cache_of c s)) - {#get_page_at c n s#})"
    "\<And>c'. cache_of c' s' = (if c' = c then cache_of c s\<lparr>pages := ps\<rparr> else cache_of c' s)"
    "sections (mem s') = sections (mem s)" "buf_ok (dev s')"
proof -
  have wf: "cache_wf c (cache_of c s)" using assms(2) by (simp add: mem_wf_def)
  then have w: "writeable (cache_of c s) \<longleftrightarrow> c \<noteq> SECTION_CODE" by (simp add: cache_wf_def)
  have sz: "sizes_ok E" using assms(4) by (simp add: lengths_ok_def)
  from create_page_steps [OF assms(1)] obtain n s0 p1 s1 z p2 s2 q s3 ps where
    e: "evict_page c s = (n, s0)" and
    c1: "if writeable (cache_of c s) \<and> p_addr (get_page_at c n s) \<noteq> 0
      then stream_commit_page E (get_page_at c n s) False s0 = (True, p1, s1)
      else p1 = get_page_at c n s \<and> s1 = s0" and
    g: "grow E c addr p1 s1 = (True, z, p2, s2)" and
    r: "if z then q = \<lparr>p_addr = addr, p_data = replicate 256 0, p_iv = 1\<rparr> \<and> s3 = s2
      else stream_request_page E p2 addr (\<not> writeable (cache_of c s)) s2 = (True, q, s3)" and
    re: "reorder_pages ((pages (cache_of c s3))[n := q]) n = (ps, i)" and
    s': "s' = set_cache c (cache_of c s3\<lparr>pages := ps\<rparr>) s3" .
  from evict_page_shape [OF e wf] obtain l where n: "n < NPAGE c" and s0: "s0 = s\<lparr>lfsr_state := l\<rparr>" by blast
  have f0: "caches_frame s s0" by (simp add: s0 caches_frame_def)
  have l: "length (p_data (get_page_at c n s)) = 256"
    using wf n by (simp add: get_page_at_def cache_wf_def)
  have f1: "caches_frame s0 s1" "length (p_data p1) = 256"
    using c1 commit_page_frame [of E "get_page_at c n s" False s0 True p1 s1] sz l
    by (auto simp: caches_frame_def pager_frame_def split: if_splits)
  note f2 = grow_frame [OF g sz f1(2)]
  have b2: "buf_ok (dev s2)" using f0 f1 f2 assms(3) by (simp add: caches_frame_def)
  have f3: "caches_frame s2 s3 \<and> length (p_data q) = 256 \<and> p_addr q = addr"
  proof (cases z)
    case True
    then show ?thesis using r by (simp add: caches_frame_def)
  next
    case False
    with r have r: "stream_request_page E p2 addr (\<not> writeable (cache_of c s)) s2 = (True, q, s3)" by simp
    show ?thesis
      using request_page_frame [OF r] request_page_length [OF r b2 assms(4)] request_page_checked [OF r b2]
      by (simp add: caches_frame_pager)
  qed
  have f: "caches_frame s s3" using f0 f1 f2 f3 by (auto intro: caches_frame_trans)
  then have k: "cache_of c s3 = cache_of c s" by (rule caches_frame_cache)
  have q: "length (p_data q) = 256" "PAGE_START (p_addr q) = p_addr q"
    "p_addr q \<notin> set (addrs (pages (cache_of c s)))" using f3 assms(5,6) by auto
  note wq = cache_wf_replace [OF wf n q re [unfolded k]]
  have m: "mset ps = add_mset q (mset (pages (cache_of c s)) - {#get_page_at c n s#})"
    using wq(4) by (simp add: get_page_at_def)
  have s'2: "s' = set_cache c (cache_of c s\<lparr>pages := ps\<rparr>) s3" using s' k by simp
  have k': "cache_of c' s' = (if c' = c then cache_of c s\<lparr>pages := ps\<rparr> else cache_of c' s)" for c'
    using caches_frame_cache [OF f] by (simp add: s')
  have fr: "sections (mem s') = sections (mem s)" "buf_ok (dev s')"
    using f assms(3) by (auto simp: s' caches_frame_def)
  show ?thesis
    by (rule that [OF n c1 [unfolded w s0] caches_frame_trans [OF f0 f1(1)] f1(2) g _ _ _ _ _ _ s'2 wq(1,2,3) m k' fr])
      (use f2 f3 r w in auto)
qed

lemma get_page_wf:
  assumes "get_page E addr prot s = (Some (c, n), s')" "mem_wf s" "buf_ok (dev s)" "lengths_ok E"
  shows "mem_wf s' \<and> buf_ok (dev s') \<and> sections (mem s') = sections (mem s) \<and> n < NPAGE c \<and>
    p_addr (get_page_at c n s') = PAGE_START addr \<and> in_section c (PAGE_START addr) s \<and>
    (prot \<noteq> PAGE_PROT_RO \<longrightarrow> c \<noteq> SECTION_CODE)"
proof -
  let ?a = "PAGE_START addr"
  from assms(1) have c: "get_cache ?a prot s = Some c"
    by (auto simp: get_page_def Let_def split: option.splits prod.splits)
  then have sec: "in_section c ?a s" "prot \<noteq> PAGE_PROT_RO \<longrightarrow> c \<noteq> SECTION_CODE"
    by (auto simp: get_cache_def split: if_splits)
  have wf: "cache_wf c (cache_of c s)" using assms(2) by (simp add: mem_wf_def)
  show ?thesis
  proof (cases "find_page c ?a s")
    case (Some m)
    with find_page_Some [OF cache_wf_sorted [OF wf]] have "m < NPAGE c" "p_addr (get_page_at c m s) = ?a"
      using wf by (auto simp: cache_wf_def)
    moreover have "m = n" "s' = s" using assms(1) c Some by (auto simp: get_page_def)
    ultimately show ?thesis using assms(2,3) sec by simp
  next
    case None
    with assms(1) c have cp: "create_page E c ?a s = (Some n, s')"
      by (auto simp: get_page_def split: prod.splits)
    note new = find_page_None [OF cache_wf_sorted [OF wf] None]
    obtain q ps where
      q: "p_addr q = ?a" "cache_wf c (cache_of c s\<lparr>pages := ps\<rparr>)" "n < NPAGE c" "ps ! n = q" and
      k: "\<And>c'. cache_of c' s' = (if c' = c then cache_of c s\<lparr>pages := ps\<rparr> else cache_of c' s)" and
      fr: "sections (mem s') = sections (mem s)" "buf_ok (dev s')"
      by (rule create_page_shape [OF cp assms(2-4) PAGE_START_idem new]) blast
    have "mem_wf s'" using assms(2) q k by (simp add: mem_wf_def)
    then show ?thesis using q k fr sec by (simp add: get_page_at_def)
  qed
qed


section \<open>Fetching code\<close>

text \<open>
  The cached code is the application's: \<open>code\<close> maps an address to the page that was
  authenticated there with the static key.
\<close>

definition code_cached :: "(u32 \<rightharpoonup> u8 list) \<Rightarrow> vm \<Rightarrow> bool" where
  "code_cached code s \<longleftrightarrow>
     (\<forall>p \<in> set (pages (cache_of SECTION_CODE s)). p_addr p \<noteq> 0 \<longrightarrow> code (p_addr p) = Some (p_data p))"

text \<open>The ghost of the read-only pages: counter 0 only.\<close>

definition code_ghost :: "(u32 \<rightharpoonup> u8 list) \<Rightarrow> ghost" where
  "code_ghost code = ((\<lambda>(a, v). if v = 0 then code a else None), [])"

lemma evict_page_frame:
  "evict_page c s = (n, s') \<Longrightarrow> mem s' = mem s \<and> (buf_ok (dev s) \<longrightarrow> buf_ok (dev s')) \<and>
    dev s' = dev s \<and> cache_of c' s' = cache_of c' s"
  by (auto simp: evict_page_def cache_of_def split: if_splits prod.splits)

lemma get_code_page_slow_wf:
  assumes "get_code_page_slow E addr s = (Some i, s')" "mem_wf s" "buf_ok (dev s)" "lengths_ok E"
    and "PAGE_START addr = addr" "addr \<noteq> 0" "code_cached code s"
    and gen: "\<And>t. dev t = dev s \<Longrightarrow> hmac_static_key t = hmac_static_key s \<Longrightarrow>
      dyn_hmac t = dyn_hmac s \<Longrightarrow> dyn_aes t = dyn_aes s \<Longrightarrow> genuine E t (code_ghost code) addr"
  shows "mem_wf s' \<and> buf_ok (dev s') \<and> code_cached code s' \<and> i < NPAGE SECTION_CODE \<and>
    p_addr (get_page_at SECTION_CODE i s') = addr \<and> code addr = Some (p_data (get_page_at SECTION_CODE i s'))"
proof -
  let ?k = "cache_of SECTION_CODE s"
  have wf: "cache_wf SECTION_CODE ?k" using assms(2) by (simp add: mem_wf_def)
  show ?thesis
  proof (cases "find_page SECTION_CODE addr s")
    case (Some m)
    with find_page_Some [OF cache_wf_sorted [OF wf]]
    have m: "m < NPAGE SECTION_CODE" "p_addr (get_page_at SECTION_CODE m s) = addr"
      using wf by (auto simp: cache_wf_def)
    then have "get_page_at SECTION_CODE m s \<in> set (pages ?k)"
      using wf by (simp add: get_page_at_def cache_wf_def)
    moreover have "m = i" "s' = s" using assms(1) Some by (auto simp: get_code_page_slow_def split: if_splits)
    ultimately show ?thesis using assms m by (auto simp: code_cached_def)
  next
    case None
    obtain n s0 where e: "evict_page SECTION_CODE s = (n, s0)" by fastforce
    from evict_page_shape [OF e wf] obtain l where n: "n < NPAGE SECTION_CODE"
      and s0: "s0 = s\<lparr>lfsr_state := l\<rparr>" by blast
    obtain ok q s3 where r: "stream_request_page E (get_page_at SECTION_CODE n s0) addr True s0 = (ok, q, s3)"
      by (metis prod_cases3)
    have k3: "cache_of c s3 = cache_of c s" for c
      using request_page_frame [OF r] by (simp add: s0 pager_frame_def cache_of_def)
    obtain ps j where re: "reorder_pages ((pages ?k)[n := q]) n = (ps, j)" by fastforce
    have sc: "set_cache SECTION_CODE k (set_cache SECTION_CODE k' s3) = set_cache SECTION_CODE k s3" for k k'
      by (simp add: set_cache_def)
    from assms(1) None e r re have ok: "ok" and i: "i = j"
      and s': "s' = set_cache SECTION_CODE (?k\<lparr>pages := ps, current_page := Some i\<rparr>) s3"
      by (auto simp: get_code_page_slow_def Let_def reorder_cache_def set_current_def k3 sc set_page_def
          split: if_splits bool.splits prod.splits)
    have b: "buf_ok (dev s0)" using assms(3) by (simp add: s0)
    have "genuine E s0 (code_ghost code) addr" by (rule gen) (simp_all add: s0)
    with r ok request_read_only [OF b, of E "code_ghost code" addr]
    have q: "code addr = Some (p_data q)" "p_addr q = addr" by (auto simp: code_ghost_def)
    have len: "length (p_data q) = 256" using request_page_length [OF _ b assms(4)] r ok by auto
    note new = find_page_None [OF cache_wf_sorted [OF wf] None]
    from cache_wf_replace [OF wf n len _ _ re [unfolded i [symmetric]]] q assms(5) new
    have w: "cache_wf SECTION_CODE (?k\<lparr>pages := ps\<rparr>)" "i < NPAGE SECTION_CODE" "ps ! i = q"
      "mset ps = add_mset q (mset (pages ?k) - {#pages ?k ! n#})" by auto
    have "cache_wf SECTION_CODE (?k\<lparr>pages := ps, current_page := Some i\<rparr>)"
      using w(1,2) by (simp add: cache_wf_def)
    then have "mem_wf s'" using assms(2) k3 by (simp add: mem_wf_def s')
    moreover have "set ps \<subseteq> insert q (set (pages ?k))"
      using w(4) by (metis set_mset_mset set_mset_add_mset_insert insert_mono diff_subset_eq_self
          set_mset_mono)
    then have "code_cached code s'"
      using assms(7) q by (auto simp: code_cached_def s')
    moreover have "buf_ok (dev s')" using request_page_frame [OF r] b by (simp add: s' pager_frame_def)
    ultimately show ?thesis using w q by (simp add: s' get_page_at_def)
  qed
qed

lemma get_code_page_wf:
  assumes "get_code_page E addr s = (Some i, s')" "mem_wf s" "buf_ok (dev s)" "lengths_ok E"
    and "PAGE_START addr = addr" "addr \<noteq> 0" "code_cached code s"
    and gen: "\<And>t. dev t = dev s \<Longrightarrow> hmac_static_key t = hmac_static_key s \<Longrightarrow>
      dyn_hmac t = dyn_hmac s \<Longrightarrow> dyn_aes t = dyn_aes s \<Longrightarrow> genuine E t (code_ghost code) addr"
  shows "mem_wf s' \<and> buf_ok (dev s') \<and> code_cached code s' \<and> i < NPAGE SECTION_CODE \<and>
    p_addr (get_page_at SECTION_CODE i s') = addr \<and> code addr = Some (p_data (get_page_at SECTION_CODE i s'))"
proof (cases "get_code_page_slow E addr s = (Some i, s')")
  case True
  then show ?thesis by (rule get_code_page_slow_wf [OF _ assms(2-7) gen])
next
  case False
  then have c: "current_page (cache_of SECTION_CODE s) = Some i"
    "p_addr (get_page_at SECTION_CODE i s) = addr" "s' = s"
    using assms(1) by (auto simp: get_code_page_def split: option.splits if_splits)
  have "cache_wf SECTION_CODE (cache_of SECTION_CODE s)" using assms(2) by (simp add: mem_wf_def)
  with c have "i < NPAGE SECTION_CODE" "get_page_at SECTION_CODE i s \<in> set (pages (cache_of SECTION_CODE s))"
    by (auto simp: cache_wf_def get_page_at_def)
  then show ?thesis using assms c by (auto simp: code_cached_def)
qed


section \<open>An example memory\<close>

definition ex_free :: page_s where
  "ex_free = \<lparr>p_addr = 0, p_data = replicate 256 0, p_iv = 0\<rparr>"

definition ex_section :: "section_e \<Rightarrow> section_s" where
  "ex_section c = (case c of SECTION_CODE \<Rightarrow> \<lparr>s_start = 0x2000, s_end = 0x3000\<rparr>
     | SECTION_STACK \<Rightarrow> \<lparr>s_start = 0x4000, s_end = 0x5000\<rparr>
     | SECTION_DATA \<Rightarrow> \<lparr>s_start = 0x100, s_end = 0x1000\<rparr>)"

text \<open>Just initialised: no page is cached, the heap starts at 0x400.\<close>

definition ex_mem_vm :: vm where
  "ex_mem_vm = ex_vm\<lparr>mem := \<lparr>sections = ex_section,
     caches = (\<lambda>c. \<lparr>pages = replicate (NPAGE c) ex_free, writeable = c \<noteq> SECTION_CODE, current_page = None\<rparr>),
     bss_max = 0x400, stack_min = 0x5000\<rparr>\<rparr>"

lemma ex_mem_parts: "mt ex_mem_vm = ex_ctx" "dev ex_mem_vm = dev ex_vm"
  "hmac_static_key ex_mem_vm = hmac_static_key ex_vm" "dyn_hmac ex_mem_vm = dyn_hmac ex_vm"
  "dyn_aes ex_mem_vm = dyn_aes ex_vm" "buf_ok (dev ex_mem_vm)" "sections (mem ex_mem_vm) = ex_section"
  "cache_of c ex_mem_vm =
     \<lparr>pages = replicate (NPAGE c) ex_free, writeable = c \<noteq> SECTION_CODE, current_page = None\<rparr>"
  "bss_max (mem ex_mem_vm) = 0x400" "stack_min (mem ex_mem_vm) = 0x5000"
  by (simp_all add: ex_mem_vm_def ex_vm_parts ex_sizes cache_of_def)

lemma ex_mem_wf: "mem_wf ex_mem_vm"
proof -
  have "sorted (replicate n (0 :: u32))" for n by (induction n) (auto simp: sorted_append)
  moreover have "PAGE_START 0 = 0" by (simp add: PAGE_START_def)
  ultimately show ?thesis
    by (auto simp: mem_wf_def cache_wf_def ex_mem_parts ex_free_def dest!: in_set_replicate [THEN iffD1])
qed

lemma ex_lengths: "lengths_ok (ex_env b v)"
  using ex_sizes(1) by (simp add: lengths_ok_def ex_env_def)

lemma ex_mem_find: "a \<noteq> 0 \<Longrightarrow> find_page c a ex_mem_vm = None"
proof (rule ccontr)
  assume a: "a \<noteq> 0" "find_page c a ex_mem_vm \<noteq> None"
  then obtain n where n: "find_page c a ex_mem_vm = Some n" by blast
  have "sorted (addrs (pages (cache_of c ex_mem_vm)))"
    using ex_mem_wf by (simp add: mem_wf_def cache_wf_def)
  from find_page_Some [OF this n] a show False by (auto simp: get_page_at_def ex_mem_parts ex_free_def)
qed

lemma ex_mem_evict: "evict_page c ex_mem_vm = (0, ex_mem_vm)"
  using NPAGE_pos [of c] by (simp add: evict_page_def get_page_at_def ex_mem_parts ex_free_def)

text \<open>The first page requested is served.\<close>

lemma ex_mem_get_page:
  obtains n s' where "get_page (ex_env 9 5) 0x234 PAGE_PROT_RW ex_mem_vm = (Some (SECTION_DATA, n), s')"
proof -
  have a: "PAGE_START 0x234 = 0x200" by (simp add: PAGE_START_def PAGE_SIZE_def)
  have c: "get_cache 0x200 PAGE_PROT_RW ex_mem_vm = Some SECTION_DATA"
    by (simp add: get_cache_def in_section_def ex_mem_parts ex_section_def)
  have "host_serves (ex_env 9 5) ex_mem_vm 0x200 False"
    unfolding host_serves_def Let_def ex_queries ex_answers ex_vm_parts ex_mem_parts
    by (simp add: apdu_wf_def length_ex_digest ex_verifies page_mac_def ex_env_def)
  from request_page_complete [OF this ex_mem_parts(6)] obtain q s3 where
    r: "stream_request_page (ex_env 9 5) (get_page_at SECTION_DATA 0 ex_mem_vm) 0x200 False ex_mem_vm =
      (True, q, s3)" by blast
  have "p_addr (get_page_at SECTION_DATA 0 ex_mem_vm) = 0"
    by (simp add: get_page_at_def ex_mem_parts ex_free_def)
  then obtain i s' where "create_page (ex_env 9 5) SECTION_DATA 0x200 ex_mem_vm = (Some i, s')"
    using r by (cases "reorder_cache SECTION_DATA 0 (set_page SECTION_DATA 0 q s3)")
      (simp add: create_page_def ex_mem_evict ex_mem_parts grow_def)
  then have "get_page (ex_env 9 5) 0x234 PAGE_PROT_RW ex_mem_vm = (Some (SECTION_DATA, i), s')"
    by (simp add: get_page_def a c ex_mem_find)
  then show ?thesis by (rule that)
qed

section \<open>Properties\<close>

text \<open>
  the binary search is exact: on a well-formed cache it finds the page of the address if
  there is one, and only then reports that there is none.
\<close>

theorem find_page_exact:
  assumes "mem_wf s"
  shows "case find_page c addr s of
      None \<Rightarrow> \<forall>n < NPAGE c. p_addr (get_page_at c n s) \<noteq> addr
    | Some n \<Rightarrow> n < NPAGE c \<and> p_addr (get_page_at c n s) = addr"
proof -
  have wf: "cache_wf c (cache_of c s)" using assms by (simp add: mem_wf_def)
  then have "length (pages (cache_of c s)) = NPAGE c" by (simp add: cache_wf_def)
  then show ?thesis
    using find_page_Some [OF cache_wf_sorted [OF wf], of addr] find_page_None [OF cache_wf_sorted [OF wf], of addr]
    by (auto simp: get_page_at_def split: option.splits)
qed

text \<open>
  \<open>reorder_pages\<close> sorts an array whose only misplaced page is the one given, loses and
  duplicates no page, and returns the new place of that page.
\<close>

theorem reorder_pages_sorts:
  assumes "n < length ps" and "sorted (map p_addr (take n ps @ drop (n + 1) ps))"
  shows "\<exists>ps' i. reorder_pages ps n = (ps', i) \<and> sorted (map p_addr ps') \<and> mset ps' = mset ps \<and>
    i < length ps \<and> ps' ! i = ps ! n"
  using assms by (intro reorder_pages_correct) (simp add: sorted_but_def)

text \<open>
  a page lookup keeps the caches well formed, never evicts into another cache, and
  returns the page of the address; a page of the code is never returned for writing.
\<close>

theorem get_page_invariant:
  assumes "get_page E addr prot s = (Some (c, n), s')"
    and "mem_wf s" and "buf_ok (dev s)" and "lengths_ok E"
  shows "mem_wf s' \<and> sections (mem s') = sections (mem s) \<and> n < NPAGE c \<and>
    p_addr (get_page_at c n s') = PAGE_START addr \<and> in_section c (PAGE_START addr) s \<and>
    (prot \<noteq> PAGE_PROT_RO \<longrightarrow> c \<noteq> SECTION_CODE)"
  using get_page_wf [OF assms] by blast

text \<open>
  the code that is executed is the application's. If the cached code is authentic and the
  host forges no MAC for the page, the page that \<open>get_code_page\<close> returns is the one that was
  authenticated with the static key, on the fast path of the last page, when it is cached, and
  when it has to be requested.
\<close>

theorem get_code_page_authentic:
  assumes "get_code_page E addr s = (Some i, s')"
    and "mem_wf s" and "buf_ok (dev s)" and "lengths_ok E"
    and "PAGE_START addr = addr" and "addr \<noteq> 0" and "code_cached code s"
    and "\<And>t. dev t = dev s \<Longrightarrow> hmac_static_key t = hmac_static_key s \<Longrightarrow>
      dyn_hmac t = dyn_hmac s \<Longrightarrow> dyn_aes t = dyn_aes s \<Longrightarrow> genuine E t (code_ghost code) addr"
  shows "code addr = Some (p_data (get_page_at SECTION_CODE i s')) \<and>
    p_addr (get_page_at SECTION_CODE i s') = addr \<and> code_cached code s' \<and> mem_wf s'"
  using get_code_page_wf [OF assms] by blast

text \<open>
  the loop that commits zero pages ends: with page aligned bounds, more iterations than
  the pages of the range and one test change nothing.
\<close>

theorem create_empty_pages_terminates:
  assumes "PAGE_START from = from" and "PAGE_START to = to"
  shows "create_empty_loop (Suc (unat (to - from) div 256) + k) E from to page s =
    create_empty_pages E from to page s"
  unfolding create_empty_pages_def by (rule create_empty_fuel [OF assms]) simp

theorem find_page_exact_witness:
  "mem_wf ex_mem_vm \<and> find_page SECTION_DATA 0x200 ex_mem_vm = None \<and>
     p_addr (get_page_at SECTION_DATA 9 ex_mem_vm) \<noteq> 0x200"
  using find_page_exact [OF ex_mem_wf, of SECTION_DATA "0x200"] ex_mem_wf
  by (simp add: ex_mem_find)

theorem reorder_pages_sorts_witness:
  "\<exists>ps' i. reorder_pages [ex_free\<lparr>p_addr := 0x100\<rparr>, ex_free\<lparr>p_addr := 0x400\<rparr>, ex_free\<lparr>p_addr := 0x200\<rparr>] 2 =
     (ps', i) \<and> sorted (map p_addr ps')"
  using reorder_pages_sorts [where n = 2 and ps = "[ex_free\<lparr>p_addr := 0x100\<rparr>, ex_free\<lparr>p_addr := 0x400\<rparr>, ex_free\<lparr>p_addr := 0x200\<rparr>]"]
  by auto

theorem get_page_invariant_witness:
  "\<exists>n s'. get_page (ex_env 9 5) 0x234 PAGE_PROT_RW ex_mem_vm = (Some (SECTION_DATA, n), s') \<and>
     mem_wf s' \<and> p_addr (get_page_at SECTION_DATA n s') = 0x200"
proof -
  obtain n s' where g: "get_page (ex_env 9 5) 0x234 PAGE_PROT_RW ex_mem_vm = (Some (SECTION_DATA, n), s')"
    by (rule ex_mem_get_page)
  have "PAGE_START 0x234 = 0x200" by (simp add: PAGE_START_def PAGE_SIZE_def)
  then show ?thesis
    using get_page_invariant [OF g ex_mem_wf ex_mem_parts(6) ex_lengths] g by auto
qed

theorem get_code_page_authentic_witness:
  "\<exists>i s'. get_code_page (ex_env 9 0) 0x2000 ex_mem_vm = (Some i, s') \<and>
     p_data (get_page_at SECTION_CODE i s') = replicate 256 9"
proof -
  let ?code = "[0x2000 \<mapsto> ex_page_bytes 9] :: u32 \<rightharpoonup> u8 list"
  have "host_serves (ex_env 9 0) ex_mem_vm 0x2000 True"
    unfolding host_serves_def Let_def ex_queries ex_answers ex_mem_parts
    by (simp add: apdu_wf_def page_mac_def ex_env_def)
  from request_page_complete [OF this ex_mem_parts(6)] obtain q s3 where
    r: "stream_request_page (ex_env 9 0) (get_page_at SECTION_CODE 0 ex_mem_vm) 0x2000 True ex_mem_vm =
      (True, q, s3)" by blast
  have "in_section SECTION_CODE 0x2000 ex_mem_vm" by (simp add: in_section_def ex_mem_parts ex_section_def)
  then obtain i s' where g: "get_code_page (ex_env 9 0) 0x2000 ex_mem_vm = (Some i, s')"
    using r by (cases "reorder_cache SECTION_CODE 0 (set_page SECTION_CODE 0 q s3)")
      (simp add: get_code_page_def get_code_page_slow_def ex_mem_parts ex_mem_find ex_mem_evict)
  have gen: "genuine (ex_env 9 0) t (code_ghost ?code) 0x2000" for t
    by (simp add: genuine_def ex_answers code_ghost_def ex_page_bytes_def)
  have cc: "code_cached ?code ex_mem_vm"
    by (auto simp: code_cached_def ex_mem_parts ex_free_def dest!: in_set_replicate [THEN iffD1])
  have al: "PAGE_START 0x2000 = 0x2000" by (simp add: PAGE_START_def PAGE_SIZE_def)
  have "?code 0x2000 = Some (p_data (get_page_at SECTION_CODE i s'))"
    using get_code_page_authentic [OF g ex_mem_wf ex_mem_parts(6) ex_lengths al _ cc gen] by simp
  then show ?thesis using g by (auto simp: ex_page_bytes_def)
qed

theorem create_empty_pages_terminates_witness:
  "create_empty_loop 9 (ex_env 1 6) 0x400 0x600 ex_page ex_vm = create_empty_pages (ex_env 1 6) 0x400 0x600 ex_page ex_vm"
  using create_empty_pages_terminates [of "0x400" "0x600" 6 "ex_env 1 6" ex_page ex_vm]
  by (simp add: PAGE_START_def PAGE_SIZE_def del: create_empty_loop.simps)

end
