(* ===== verification/Guest_Memory.thy ===== *)
theory Guest_Memory
  imports Page_Cache
begin

text \<open>
  How the guest reaches its memory and how an application is started (\<open>vm/src/stream.c\<close>):
  fetches, loads and stores through the page caches, the buffers that the system calls work on,
  and \<open>stream_init_app\<close>.
\<close>

section \<open>Accesses within a page\<close>

definition fit_in_page :: "u32 \<Rightarrow> u32 \<Rightarrow> bool" where
  "fit_in_page addr sz \<longleftrightarrow> sz = 0 \<or> PAGE_START addr = PAGE_START (addr + sz - 1)"

definition get_instruction :: "env \<Rightarrow> u32 \<Rightarrow> vm \<Rightarrow> u32 option \<times> vm" where
  "get_instruction E addr s =
    (if \<not> fit_in_page addr 4 then (None, s)
     else case get_code_page E (PAGE_START addr) s of
       (None, s) \<Rightarrow> (None, s)
     | (Some i, s) \<Rightarrow>
         (Some (le_val (slice (p_data (get_page_at SECTION_CODE i s)) (unat (addr - PAGE_START addr)) 4)), s))"

text \<open>The switch on the size of an access: 1, 2, and 4 by default.\<close>

definition access_width :: "nat \<Rightarrow> nat" where
  "access_width n = (if n = 1 then 1 else if n = 2 then 2 else 4)"

definition mem_read :: "env \<Rightarrow> u32 \<Rightarrow> nat \<Rightarrow> vm \<Rightarrow> u32 option \<times> vm" where
  "mem_read E addr n s =
    (if \<not> fit_in_page addr (of_nat n) then (None, s)
     else case get_page E addr PAGE_PROT_RO s of
       (None, s) \<Rightarrow> (None, s)
     | (Some (c, i), s) \<Rightarrow>
         (Some (le_val (slice (p_data (get_page_at c i s)) (unat (addr - PAGE_START addr)) (access_width n))), s))"

text \<open>A pointer into the data of a cached page: the cache, the index of the page, the offset.\<close>

type_synonym page_ptr = "section_e \<times> nat \<times> nat"

definition read_at :: "page_ptr \<Rightarrow> nat \<Rightarrow> vm \<Rightarrow> u8 list" where
  "read_at p n s = (case p of (c, i, off) \<Rightarrow> slice (p_data (get_page_at c i s)) off n)"

definition write_at :: "page_ptr \<Rightarrow> u8 list \<Rightarrow> vm \<Rightarrow> vm" where
  "write_at p bs s = (case p of (c, i, off) \<Rightarrow>
     set_page c i (get_page_at c i s\<lparr>p_data := splice (p_data (get_page_at c i s)) off bs\<rparr>) s)"

definition mem_write :: "env \<Rightarrow> u32 \<Rightarrow> nat \<Rightarrow> u32 \<Rightarrow> vm \<Rightarrow> bool \<times> vm" where
  "mem_write E addr n value s =
    (if \<not> fit_in_page addr (of_nat n) then (False, s)
     else case get_page E addr PAGE_PROT_RW s of
       (None, s) \<Rightarrow> (False, s)
     | (Some (c, i), s) \<Rightarrow>
         let offset = addr - PAGE_START addr in
         if offset > PAGE_SIZE - of_nat n then (False, s)
         else (True, write_at (c, i, unat offset) (le_bytes (access_width n) value) s))"

definition get_buffer :: "env \<Rightarrow> u32 \<Rightarrow> u32 \<Rightarrow> bool \<Rightarrow> vm \<Rightarrow> page_ptr option \<times> vm" where
  "get_buffer E addr sz w s =
    (if sz = 0 \<or> sz > PAGE_SIZE then (None, s)
     else if \<not> fit_in_page addr sz then (None, s)
     else case get_page E addr (if w then PAGE_PROT_RW else PAGE_PROT_RO) s of
       (None, s) \<Rightarrow> (None, s)
     | (Some (c, i), s) \<Rightarrow> (Some (c, i, unat (addr - PAGE_START addr)), s))"

section \<open>Starting an application\<close>

definition init_static_key :: "u8 list \<Rightarrow> vm \<Rightarrow> vm" where
  "init_static_key key s = s\<lparr>hmac_static_key := key\<rparr>"

definition init_dynamic_keys :: "env \<Rightarrow> vm \<Rightarrow> vm" where
  "init_dynamic_keys E s =
    (let (hmac, d) = get_random E 32 (dev s); (encryption_key, d) = get_random E 32 d
     in s\<lparr>dev := d, dyn_hmac := hmac, dyn_aes := encryption_key\<rparr>)"

text \<open>
  \<open>snprintf(app_name, sizeof(app_name), "%s app", name)\<close>, without the final zero: \<open>name\<close> is what
  follows the pointer, up to a zero byte.
\<close>

definition set_app_name :: "u8 list \<Rightarrow> vm \<Rightarrow> vm" where
  "set_app_name name s =
     s\<lparr>app_name := take 36 (takeWhile (\<lambda>c. c \<noteq> 0) name @ [0x20, 0x61, 0x70, 0x70])\<rparr>"

definition stop_loading :: "vm \<Rightarrow> vm" where
  "stop_loading s = s\<lparr>load := snd (sys_app_loading_stop (load s))\<rparr>"

text \<open>Steps 4 and 5 of \<open>stream_init_app\<close>, after the manifest has been verified.\<close>

definition init_app :: "env \<Rightarrow> manifest_s \<Rightarrow> vm \<Rightarrow> bool \<times> vm" where
  "init_app E manifest s =
    (let s = s\<lparr>cpu := rv_cpu_reset, hmac_static_key := replicate 32 0,
               dyn_aes := replicate 32 0, dyn_hmac := replicate 32 0\<rparr>;
         s = init_static_key (derive_hmac_key E (m_app_hash manifest) s) s;
         s = init_dynamic_keys E s;
         s = init_memory_sections (m_sections manifest) s;
         sp = s_end (m_sections manifest SECTION_STACK)
     in if PAGE_START sp \<noteq> sp then (False, s)
        else
          let s = init_memory_addresses (m_bss manifest) sp s;
              s = s\<lparr>cpu := set_reg RV_REG_SP ((sp - 4) AND 0xfffffff0) ((cpu s)\<lparr>pc := m_pc manifest\<rparr>)\<rparr>;
              s = init_caches s;
              s = s\<lparr>mt := init_merkle_tree (m_root_hash manifest) (m_merkle_size manifest)
                          (m_last_entry manifest)\<rparr>;
              s = stop_loading s
          in (True, set_app_name (drop 4 manifest) s))"

definition stream_init_app :: "env \<Rightarrow> u8 list \<Rightarrow> nat \<Rightarrow> vm \<Rightarrow> bool \<times> vm" where
  "stream_init_app E buffer signature_size s =
    (if signature_size > 72 then (False, s)
     else
       let signature = take signature_size buffer;
           s = on_dev (write_buf 0 (cmd_bytes CMD_REQUEST_MANIFEST)) s
       in case exchange E 2 s of
            (None, s) \<Rightarrow> (False, s)
          | (Some apdu, s) \<Rightarrow>
              if unat (a_lc apdu) \<noteq> 3 + MANIFEST_SIZE then (False, s)
              else
                let manifest = slice (a_data apdu) 3 MANIFEST_SIZE
                in if \<not> verify_manifest_device_signature E manifest signature s then (False, s)
                   else init_app E manifest s)"

section \<open>Debug output\<close>

text \<open>The loop over the four bytes, most significant first; two digits each.\<close>

definition hex_digit :: "u32 \<Rightarrow> u8" where
  "hex_digit n = (if n < 10 then 48 + ucast n else 87 + ucast n)"

definition u32hex :: "u32 \<Rightarrow> u8 list" where
  "u32hex n = concat (map (\<lambda>i. [hex_digit (drop_bit (24 - i * 8 + 4) n AND 0xf),
                                hex_digit (drop_bit (24 - i * 8) n AND 0xf)]) [0..<4])"

definition debug_cpu :: "u32 \<Rightarrow> u32 \<Rightarrow> u8 list" where
  "debug_cpu addr instruction = u32hex addr @ [0x20] @ u32hex instruction @ [0xa]"

section \<open>Accesses that fit\<close>

lemma fit_in_page_iff:
  assumes "0 < n" "n \<le> 256"
  shows "fit_in_page addr (of_nat n) \<longleftrightarrow> page_off addr + n \<le> 256"
proof -
  let ?a = "unat addr"
  have a: "?a < 2 ^ 32" using unsigned_less [of addr, where 'a = nat] by simp
  have sz: "unat (of_nat n :: u32) = n" using assms by (simp add: unat_of_nat take_bit_nat_eq_self)
  have nz: "(of_nat n :: u32) \<noteq> 0" using assms sz by (metis less_irrefl unat_0)
  have e: "unat (addr + of_nat n - 1) = (?a + n - 1) mod 2 ^ 32"
  proof -
    obtain m where m: "n = Suc m" using assms by (cases n) auto
    have "addr + of_nat n - 1 = addr + of_nat m" by (simp add: m)
    moreover have "unat (of_nat m :: u32) = m"
      using assms m by (simp add: unat_of_nat take_bit_nat_eq_self)
    ultimately show ?thesis by (simp add: m unat_word_ariths)
  qed
  have "fit_in_page addr (of_nat n) \<longleftrightarrow> ?a div 256 = (?a + n - 1) mod 2 ^ 32 div 256"
    using nz by (simp add: fit_in_page_def word_unat_eq_iff unat_PAGE_START_div e)
  also have "\<dots> \<longleftrightarrow> ?a mod 256 + n \<le> 256"
  proof -
    obtain q r where qr: "?a = 256 * q + r" "r < 256" "q < 2 ^ 24"
      using a by (intro that [of "?a div 256" "?a mod 256"]) auto
    show ?thesis
    proof (cases "r + n \<le> 256")
      case True
      then have "?a + n - 1 < 2 ^ 32" using qr assms by simp
      moreover have "(?a + n - 1) div 256 = q"
        using qr assms True by (intro div_nat_eqI) auto
      ultimately show ?thesis using True qr by simp
    next
      case False
      have "(?a + n - 1) div 256 = q + 1"
        using qr assms False by (intro div_nat_eqI) auto
      moreover have "(?a + n - 1) mod 2 ^ 32 div 256 = (?a + n - 1) div 256 mod 2 ^ 24"
        using mod_mult2_eq [of "?a + n - 1" 256 "2 ^ 24"] by simp
      ultimately show ?thesis using False qr by (auto simp: mod_Suc)
    qed
  qed
  finally show ?thesis by (simp add: page_off_def)
qed

end
