(* ===== verification/Flat_Memory.thy ===== *)
theory Flat_Memory
  imports Guest_Memory
begin

text \<open>
  The paged memory is a flat memory: the caches, the pages that the host stores encrypted and
  the pages of the heap and of the stack that do not exist yet together hold one byte at each
  address of the application. A page lookup, which may evict, commit, create and request pages,
  never changes that memory, and a store changes exactly the bytes stored.
\<close>

section \<open>The hypothesis on the host\<close>

text \<open>
  The part of the state that the protocol with the host depends on.
\<close>

definition linked :: "vm \<Rightarrow> vm \<Rightarrow> bool" where
  "linked s t \<longleftrightarrow> d_sent (dev t) = d_sent (dev s) \<and> mt t = mt s \<and> buf_ok (dev t) \<and>
     hmac_static_key t = hmac_static_key s \<and> dyn_aes t = dyn_aes s \<and> dyn_hmac t = dyn_hmac s"

text \<open>
  From \<open>s\<close> on the host forges no MAC and exhibits no collision in what the device accepts:
  whenever a request or a commit succeeds its answers were safe, and so on from the state it
  leads to, whatever else the device sends in between. What the host answers is otherwise free,
  and it may stop answering.
\<close>

coinductive trusted :: "env \<Rightarrow> (u32 \<rightharpoonup> u8 list) \<Rightarrow> vm \<Rightarrow> ghost \<Rightarrow> bool" for E code where
  trusted_step: "\<lbrakk>
    \<And>t p a q u. linked s t \<Longrightarrow> stream_request_page E p a False t = (True, q, u) \<Longrightarrow>
      request_safe E t g a \<and> trusted E code u g;
    \<And>t p a q u. linked s t \<Longrightarrow> stream_request_page E p a True t = (True, q, u) \<Longrightarrow>
      genuine E t (code_ghost code) a \<and> trusted E code u g;
    \<And>t p ins q u. linked s t \<Longrightarrow> length (p_data p) = 256 \<Longrightarrow>
      stream_commit_page E p ins t = (True, q, u) \<Longrightarrow>
      commit_safe E t g p ins \<and> trusted E code u (ghost_commit p ins g);
    \<And>t tx r u. linked s t \<Longrightarrow> exchange E tx t = (r, u) \<Longrightarrow> trusted E code u g\<rbrakk>
    \<Longrightarrow> trusted E code s g"

lemma linked_refl: "buf_ok (dev s) \<Longrightarrow> linked s s"
  by (simp add: linked_def)

lemma linked_trans: "linked s t \<Longrightarrow> linked t u \<Longrightarrow> linked s u"
  by (simp add: linked_def)

lemma trusted_linked: "trusted E code s g \<Longrightarrow> linked s t \<Longrightarrow> trusted E code t g"
  by (erule trusted.cases, rule trusted_step) (auto dest: linked_trans)

lemma trusted_request:
  assumes "trusted E code s g" "linked s t" "stream_request_page E p a False t = (True, q, u)"
  shows "request_safe E t g a" "trusted E code u g"
  using assms by (auto elim: trusted.cases)

lemma trusted_request_code:
  assumes "trusted E code s g" "linked s t" "stream_request_page E p a True t = (True, q, u)"
  shows "genuine E t (code_ghost code) a" "trusted E code u g"
  using assms by (auto elim: trusted.cases)

lemma trusted_commit:
  assumes "trusted E code s g" "linked s t" "length (p_data p) = 256"
    and "stream_commit_page E p ins t = (True, q, u)"
  shows "commit_safe E t g p ins" "trusted E code u (ghost_commit p ins g)"
  using assms by (auto elim: trusted.cases)

lemma trusted_exchange:
  assumes "trusted E code s g" "linked s t" "exchange E tx t = (r, u)"
  shows "trusted E code u g"
  using assms by (auto elim: trusted.cases)

section \<open>The store under a commit\<close>

text \<open>The pager's half of the state: the store represented, and the host trusted.\<close>

definition link_ok :: "env \<Rightarrow> (u32 \<rightharpoonup> u8 list) \<Rightarrow> vm \<Rightarrow> ghost \<Rightarrow> bool" where
  "link_ok E code s g \<longleftrightarrow> pager_rep E s g \<and> trusted E code s g"

lemma link_ok_linked: "link_ok E code s g \<Longrightarrow> linked s t \<Longrightarrow> link_ok E code t g"
  using trusted_linked [of E code s g t] by (auto simp: link_ok_def pager_rep_def linked_def)

lemma link_ok_buf: "link_ok E code s g \<Longrightarrow> buf_ok (dev s)"
  by (auto simp: link_ok_def pager_rep_def)

lemma link_ok_request:
  assumes "link_ok E code s g" "stream_request_page E p a False s = (True, q, u)"
  shows "link_ok E code u g" "p_addr q = a" "stored g a = Some (p_data q, p_iv q)"
proof -
  have l: "linked s s" using link_ok_buf [OF assms(1)] by (rule linked_refl)
  have t: "trusted E code s g" "pager_rep E s g" using assms(1) by (simp_all add: link_ok_def)
  note r = trusted_request [OF t(1) l assms(2)]
  show "link_ok E code u g" "p_addr q = a" "stored g a = Some (p_data q, p_iv q)"
    using pager.request_law [OF t(2) r(1) assms(2)] r(2) by (auto simp: link_ok_def)
qed

lemma link_ok_commit:
  assumes "link_ok E code s g" "stream_commit_page E p ins s = (True, q, u)"
    and "length (p_data p) = 256" "ins \<longrightarrow> stored g (p_addr p) = None"
  shows "link_ok E code u (ghost_commit p ins g)"
    "stored (ghost_commit p ins g) = (stored g)(p_addr p \<mapsto> (p_data p, p_iv p + 1))"
proof -
  have l: "linked s s" using link_ok_buf [OF assms(1)] by (rule linked_refl)
  have t: "trusted E code s g" "pager_rep E s g" using assms(1) by (simp_all add: link_ok_def)
  note r = trusted_commit [OF t(1) l assms(3,2)]
  show "link_ok E code u (ghost_commit p ins g)"
    "stored (ghost_commit p ins g) = (stored g)(p_addr p \<mapsto> (p_data p, p_iv p + 1))"
    using pager.commit_law [OF t(2) r(1) assms(2,4)] r(2) by (auto simp: link_ok_def)
qed

text \<open>The zero pages of a grown range.\<close>

abbreviation zeros :: "u8 list" where
  "zeros \<equiv> replicate 256 0"

lemma create_empty_stored:
  assumes "create_empty_loop fuel E addr to page s = (True, page', s')"
    and "link_ok E code s g" "sizes_ok E" "PAGE_START addr = addr" "PAGE_START to = to"
    and "\<And>a. PAGE_START a = a \<Longrightarrow> addr \<le> a \<Longrightarrow> a < to \<Longrightarrow> stored g a = None"
  shows "\<exists>g'. link_ok E code s' g' \<and> (\<forall>a. stored g' a =
    (if PAGE_START a = a \<and> addr \<le> a \<and> a < to then Some (zeros, 1) else stored g a))"
  using assms
proof (induction fuel arbitrary: addr page s g)
  case 0
  then show ?case by simp
next
  case (Suc fuel)
  show ?case
  proof (cases "addr < to")
    case False
    then have "s' = s" using Suc.prems(1) by simp
    then show ?thesis using False Suc.prems(2) by (intro exI [of _ g]) auto
  next
    case True
    let ?p = "page\<lparr>p_data := zeros, p_addr := addr, p_iv := 0\<rparr>"
    obtain o1 p1 s1 where c: "stream_commit_page E ?p True s = (o1, p1, s1)" by (metis prod_cases3)
    have o1: "o1" and rest: "create_empty_loop fuel E (addr + PAGE_SIZE) to p1 s1 = (True, page', s')"
      using Suc.prems(1) c True by (auto split: bool.splits)
    let ?g = "ghost_commit ?p True g"
    have g1: "link_ok E code s1 ?g" "stored ?g = (stored g)(addr \<mapsto> (zeros, 1))"
      using link_ok_commit [OF Suc.prems(2), of ?p True p1 s1] c o1 Suc.prems(6) [OF Suc.prems(4) _ True]
      by simp_all
    note n = next_page [OF Suc.prems(4,5) True]
    have "stored ?g a = None" if "PAGE_START a = a" "addr + PAGE_SIZE \<le> a" "a < to" for a
      using Suc.prems(6) [OF that(1) _ that(3)] that n(4) g1(2) by auto
    from Suc.IH [OF rest g1(1) Suc.prems(3) n(2) Suc.prems(5) this] obtain g' where
      g': "link_ok E code s' g'" "\<And>a. stored g' a =
        (if PAGE_START a = a \<and> addr + PAGE_SIZE \<le> a \<and> a < to then Some (zeros, 1) else stored ?g a)"
      by blast
    have "PAGE_START a = a \<and> addr \<le> a \<and> a < to \<longleftrightarrow>
        a = addr \<or> PAGE_START a = a \<and> addr + PAGE_SIZE \<le> a \<and> a < to" for a
      using n Suc.prems(4) True next_page(3) [OF Suc.prems(4), of a] by fastforce
    then show ?thesis using g' g1(2) by (intro exI [of _ g']) auto
  qed
qed

section \<open>The flat memory\<close>

text \<open>The page at an address: the cached one, else the stored one, else zeros.\<close>

definition content :: "ghost \<Rightarrow> u32 \<Rightarrow> u8 list" where
  "content g a = (case stored g a of Some (d, _) \<Rightarrow> d | None \<Rightarrow> zeros)"

definition flat :: "vm \<Rightarrow> ghost \<Rightarrow> section_e \<Rightarrow> u32 \<Rightarrow> u8 list" where
  "flat s g c a =
    (case find (\<lambda>p. p_addr p = a) (pages (cache_of c s)) of
       Some p \<Rightarrow> p_data p
     | None \<Rightarrow> content g a)"

text \<open>
  The layout of an application: the sections do not overlap and do not contain the page at 0,
  the heap starts in the data section and the stack ends in its own.
\<close>

definition layout_ok :: "vm \<Rightarrow> bool" where
  "layout_ok s \<longleftrightarrow>
     (\<forall>a. \<not> (in_section SECTION_DATA a s \<and> in_section SECTION_STACK a s)) \<and>
     (\<forall>c. \<not> in_section c 0 s) \<and>
     s_start (sections (mem s) SECTION_DATA) \<le> bss_max (mem s) \<and>
     stack_min (mem s) \<le> s_end (sections (mem s) SECTION_STACK) \<and>
     s_end (sections (mem s) SECTION_DATA) \<le> 0xffffff00 \<and>
     PAGE_START (bss_max (mem s)) = bss_max (mem s) \<and>
     PAGE_START (stack_min (mem s)) = stack_min (mem s)"

text \<open>
  The pages of the heap above \<open>bss_max\<close> and of the stack below \<open>stack_min\<close> do not exist.
\<close>

definition unborn :: "section_e \<Rightarrow> u32 \<Rightarrow> vm \<Rightarrow> bool" where
  "unborn c a s \<longleftrightarrow> (c = SECTION_DATA \<and> bss_max (mem s) \<le> a \<or> c = SECTION_STACK \<and> a < stack_min (mem s))"

definition mem_rep :: "env \<Rightarrow> (u32 \<rightharpoonup> u8 list) \<Rightarrow> vm \<Rightarrow> ghost \<Rightarrow> bool" where
  "mem_rep E code s g \<longleftrightarrow> link_ok E code s g \<and> mem_wf s \<and> lengths_ok E \<and> layout_ok s \<and>
     code_cached code s \<and>
     (\<forall>c p. c \<noteq> SECTION_CODE \<longrightarrow> p \<in> set (pages (cache_of c s)) \<longrightarrow> p_addr p \<noteq> 0 \<longrightarrow>
        in_section c (p_addr p) s \<and> stored g (p_addr p) \<noteq> None) \<and>
     (\<forall>c a. PAGE_START a = a \<longrightarrow> in_section c a s \<longrightarrow> unborn c a s \<longrightarrow> stored g a = None) \<and>
     (\<forall>a d v. stored g a = Some (d, v) \<longrightarrow> length d = 256)"

section \<open>Looking a page up in a cache\<close>

lemma find_unique:
  assumes "count (mset (addrs ps)) a \<le> 1" "p \<in> set ps" "p_addr p = a"
  shows "find (\<lambda>p. p_addr p = a) ps = Some p"
proof -
  obtain q where q: "find (\<lambda>p. p_addr p = a) ps = Some q"
    using assms(2,3) by (cases "find (\<lambda>p. p_addr p = a) ps") (auto simp: find_None_iff)
  then have "q \<in> set ps" "p_addr q = a" by (auto simp: find_Some_iff)
  moreover have "q = p"
  proof (rule ccontr)
    assume "q \<noteq> p"
    with assms(2) \<open>q \<in> set ps\<close> obtain M where "mset ps = add_mset q (add_mset p M)"
      by (metis insert_noteq_member multi_member_split set_mset_mset)
    then have "mset (addrs ps) = add_mset a (add_mset a (image_mset p_addr M))"
      using assms(3) \<open>p_addr q = a\<close> by simp
    then show False using assms(1) by simp
  qed
  ultimately show ?thesis using q by simp
qed

lemma find_absent: "a \<notin> set (addrs ps) \<longleftrightarrow> find (\<lambda>p. p_addr p = a) ps = None"
  by (auto simp: find_None_iff)

text \<open>The lookup after the page at \<open>n\<close> has been replaced by \<open>q\<close>.\<close>

lemma find_replaced:
  assumes wf: "cache_wf c k" "cache_wf c k'" and n: "n < NPAGE c" and a: "a \<noteq> 0"
    and m: "mset (pages k') = add_mset q (mset (pages k) - {#pages k ! n#})"
  shows "find (\<lambda>p. p_addr p = a) (pages k') =
    (if a = p_addr q then Some q
     else if a = p_addr (pages k ! n) then None
     else find (\<lambda>p. p_addr p = a) (pages k))"
proof -
  let ?o = "pages k ! n"
  have o: "?o \<in> set (pages k)" using wf(1) n by (simp add: cache_wf_def)
  have u: "count (mset (addrs (pages k))) a \<le> 1" "count (mset (addrs (pages k'))) a \<le> 1"
    using wf a by (auto simp: cache_wf_def)
  obtain M where M: "mset (pages k) = add_mset ?o M" using o by (metis multi_member_split set_mset_mset)
  then have m': "mset (pages k') = add_mset q M" using m by simp
  then have sq: "set (pages k') = insert q (set_mset M)" "set (pages k) = insert ?o (set_mset M)"
    using M by (metis set_mset_add_mset_insert set_mset_mset)+
  consider "a = p_addr q" | "a \<noteq> p_addr q" "a = p_addr ?o" | "a \<noteq> p_addr q" "a \<noteq> p_addr ?o" by blast
  then show ?thesis
  proof cases
    case 1
    then show ?thesis using find_unique [OF u(2), of q] sq by simp
  next
    case 2
    have "a \<notin> p_addr ` set_mset M"
    proof
      assume "a \<in> p_addr ` set_mset M"
      then have "a \<in># image_mset p_addr M" by simp
      then have "count (mset (addrs (pages k))) a \<ge> 2" using M 2 by (simp add: Suc_le_eq)
      then show False using u(1) by simp
    qed
    then have "find (\<lambda>p. p_addr p = a) (pages k') = None" using 2(1) unfolding find_None_iff sq by (metis image_eqI insert_iff)
    then show ?thesis using 2 by simp
  next
    case 3
    show ?thesis
    proof (cases "find (\<lambda>p. p_addr p = a) (pages k)")
      case None
      then have "find (\<lambda>p. p_addr p = a) (pages k') = None" using 3 sq by (auto simp: find_None_iff)
      then show ?thesis using 3 None by simp
    next
      case (Some p)
      then have "p \<in> set (pages k)" "p_addr p = a" by (auto simp: find_Some_iff)
      then have "p \<in> set (pages k')" using 3 sq by auto
      then show ?thesis using 3 Some find_unique [OF u(2)] \<open>p_addr p = a\<close> by simp
    qed
  qed
qed

section \<open>Growing the heap and the stack\<close>

lemma aligned_below:
  assumes "PAGE_START a = a" "PAGE_START b = b" "a < b + PAGE_SIZE" "b < b + PAGE_SIZE"
  shows "a \<le> b"
proof (rule ccontr)
  assume "\<not> a \<le> b"
  then have "b + PAGE_SIZE \<le> a" using next_page(3) [OF assms(2,1)] by simp
  then show False using assms(3) by simp
qed

lemma data_next:
  assumes "layout_ok s" "in_section SECTION_DATA a s" "PAGE_START a = a"
  shows "a < a + PAGE_SIZE" "PAGE_START (a + PAGE_SIZE) = a + PAGE_SIZE"
proof -
  have "a < 0xffffff00" using assms by (auto simp: layout_ok_def in_section_def)
  moreover have "PAGE_START 0xffffff00 = 0xffffff00" by (simp add: PAGE_START_def PAGE_SIZE_def)
  ultimately show "a < a + PAGE_SIZE" "PAGE_START (a + PAGE_SIZE) = a + PAGE_SIZE"
    using next_page(2,4) [OF assms(3)] by blast+
qed

text \<open>What growing does to the store: it adds zero pages of the section.\<close>

definition grown :: "section_e \<Rightarrow> u32 \<Rightarrow> vm \<Rightarrow> ghost \<Rightarrow> ghost \<Rightarrow> bool" where
  "grown c addr s g g' \<longleftrightarrow> (\<forall>a. stored g' a = stored g a \<or>
     stored g a = None \<and> stored g' a = Some (zeros, 1) \<and> in_section c a s)"

lemma grow_data:
  assumes "grow E SECTION_DATA addr p1 s = (True, True, p2, s2)" "bss_max (mem s) \<le> addr"
    and "link_ok E code s g" "sizes_ok E" "layout_ok s" "PAGE_START addr = addr"
    and "in_section SECTION_DATA addr s"
    and unborn: "\<And>a. PAGE_START a = a \<Longrightarrow> in_section SECTION_DATA a s \<Longrightarrow> bss_max (mem s) \<le> a \<Longrightarrow> stored g a = None"
  shows "\<exists>g2. link_ok E code s2 g2 \<and> grown SECTION_DATA addr s g g2 \<and> stored g2 addr = Some (zeros, 1) \<and>
    mem s2 = (mem s)\<lparr>bss_max := addr + PAGE_SIZE\<rparr> \<and>
    (\<forall>a. addr + PAGE_SIZE \<le> a \<longrightarrow> stored g2 a = stored g a)"
proof -
  note n = data_next [OF assms(5,7,6)]
  let ?b = "bss_max (mem s)"
  have b: "PAGE_START ?b = ?b" "s_start (sections (mem s) SECTION_DATA) \<le> ?b"
    using assms(5) by (simp_all add: layout_ok_def)
  have "?b < addr + PAGE_SIZE" using assms(2) n(1) by simp
  from assms(1,2) obtain s1 where
    c: "create_empty_loop (Suc (unat (addr + PAGE_SIZE - ?b) div 256)) E ?b (addr + PAGE_SIZE) p1 s = (True, p2, s1)"
    and s2: "s2 = s1\<lparr>mem := (mem s1)\<lparr>bss_max := addr + PAGE_SIZE\<rparr>\<rparr>"
    by (auto simp: grow_def create_empty_pages_def split: prod.splits bool.splits)
  have range: "in_section SECTION_DATA a s" if "PAGE_START a = a" "?b \<le> a" "a < addr + PAGE_SIZE" for a
    using aligned_below [OF that(1) assms(6) that(3) n(1)] that(2) b(2) assms(7)
    by (auto simp: in_section_def)
  obtain g2 where g2: "link_ok E code s1 g2" "\<And>a. stored g2 a =
      (if PAGE_START a = a \<and> ?b \<le> a \<and> a < addr + PAGE_SIZE then Some (zeros, 1) else stored g a)"
    using create_empty_stored [OF c assms(3,4) b(1) n(2)] unborn range by blast
  have "mem s1 = mem s"
  proof -
    obtain n where "create_empty_loop n E ?b (addr + PAGE_SIZE) (p1\<lparr>p_data := zeros\<rparr>) s = (True, p2, s1)"
      using c \<open>?b < addr + PAGE_SIZE\<close> by (auto intro!: that [of "Suc (unat (addr + PAGE_SIZE - ?b) div 256)"])
    from create_empty_loop_frame [OF this assms(4)] show ?thesis by (simp add: pager_frame_def)
  qed
  moreover have "link_ok E code s2 g2"
    by (rule link_ok_linked [OF g2(1)]) (use link_ok_buf [OF g2(1)] in \<open>simp add: linked_def s2\<close>)
  moreover have "grown SECTION_DATA addr s g g2" using g2(2) range unborn by (auto simp: grown_def)
  moreover have "stored g2 addr = Some (zeros, 1)" using g2(2) assms(2,6) n(1) by simp
  ultimately show ?thesis using g2(2) by (intro exI [of _ g2]) (auto simp: s2)
qed

lemma grow_stack:
  assumes "grow E SECTION_STACK addr p1 s = (True, True, p2, s2)" "addr < stack_min (mem s)"
    and "link_ok E code s g" "sizes_ok E" "layout_ok s" "PAGE_START addr = addr"
    and "in_section SECTION_STACK addr s"
    and unborn: "\<And>a. PAGE_START a = a \<Longrightarrow> in_section SECTION_STACK a s \<Longrightarrow> a < stack_min (mem s) \<Longrightarrow> stored g a = None"
  shows "\<exists>g2. link_ok E code s2 g2 \<and> grown SECTION_STACK addr s g g2 \<and> stored g2 addr = Some (zeros, 1) \<and>
    mem s2 = (mem s)\<lparr>stack_min := addr\<rparr> \<and> (\<forall>a. a < addr \<longrightarrow> stored g2 a = stored g a)"
proof -
  let ?b = "stack_min (mem s)"
  have b: "PAGE_START ?b = ?b" "?b \<le> s_end (sections (mem s) SECTION_STACK)"
    using assms(5) by (simp_all add: layout_ok_def)
  from assms(1,2,6) obtain s1 where
    c: "create_empty_loop (Suc (unat (?b - addr) div 256)) E addr ?b p1 s = (True, p2, s1)"
    and s2: "s2 = s1\<lparr>mem := (mem s1)\<lparr>stack_min := addr\<rparr>\<rparr>"
    by (auto simp: grow_def create_empty_pages_def split: prod.splits bool.splits)
  have range: "in_section SECTION_STACK a s" if "addr \<le> a" "a < ?b" for a
    using that b(2) assms(7) by (auto simp: in_section_def)
  obtain g2 where g2: "link_ok E code s1 g2" "\<And>a. stored g2 a =
      (if PAGE_START a = a \<and> addr \<le> a \<and> a < ?b then Some (zeros, 1) else stored g a)"
    using create_empty_stored [OF c assms(3,4,6) b(1)] unborn range by blast
  have "mem s1 = mem s"
  proof -
    obtain n where "create_empty_loop n E addr ?b (p1\<lparr>p_data := zeros\<rparr>) s = (True, p2, s1)"
      using c assms(2) by (auto intro!: that [of "Suc (unat (?b - addr) div 256)"])
    from create_empty_loop_frame [OF this assms(4)] show ?thesis by (simp add: pager_frame_def)
  qed
  moreover have "link_ok E code s2 g2"
    by (rule link_ok_linked [OF g2(1)]) (use link_ok_buf [OF g2(1)] in \<open>simp add: linked_def s2\<close>)
  moreover have "grown SECTION_STACK addr s g g2" using g2(2) range unborn by (auto simp: grown_def)
  moreover have "stored g2 addr = Some (zeros, 1)" using g2(2) assms(2,6) by simp
  ultimately show ?thesis using g2(2) by (intro exI [of _ g2]) (auto simp: s2)
qed

section \<open>Creating a page keeps the flat memory\<close>

lemma mem_rep_sorted: "mem_rep E code s g \<Longrightarrow> cache_wf c (cache_of c s)"
  by (simp add: mem_rep_def mem_wf_def)

lemma mem_rep_cached:
  assumes "mem_rep E code s g" "c \<noteq> SECTION_CODE" "p \<in> set (pages (cache_of c s))" "p_addr p \<noteq> 0"
  shows "in_section c (p_addr p) s" "stored g (p_addr p) \<noteq> None" "flat s g c (p_addr p) = p_data p"
proof -
  show "in_section c (p_addr p) s" "stored g (p_addr p) \<noteq> None"
    using assms unfolding mem_rep_def by blast+
  have "count (mset (addrs (pages (cache_of c s)))) (p_addr p) \<le> 1"
    using mem_rep_sorted [OF assms(1), of c] assms(4) by (simp add: cache_wf_def)
  from find_unique [OF this assms(3) refl] show "flat s g c (p_addr p) = p_data p"
    by (simp add: flat_def)
qed

text \<open>What the commit of the evicted page does to the store.\<close>

lemma evict_commit_flat:
  assumes "mem_rep E code s g" "c \<noteq> SECTION_CODE" "n < NPAGE c"
    and "if p_addr (get_page_at c n s) \<noteq> 0
      then stream_commit_page E (get_page_at c n s) False (s\<lparr>lfsr_state := l\<rparr>) = (True, p1, s1)
      else p1 = get_page_at c n s \<and> s1 = s\<lparr>lfsr_state := l\<rparr>"
  shows "\<exists>g1. link_ok E code s1 g1 \<and> mem s1 = mem s \<and>
    stored g1 = (if p_addr (get_page_at c n s) = 0 then stored g
      else (stored g)(p_addr (get_page_at c n s) \<mapsto>
        (p_data (get_page_at c n s), p_iv (get_page_at c n s) + 1)))"
proof -
  let ?p = "get_page_at c n s"
  have lk: "link_ok E code s g" and sz: "sizes_ok E" using assms(1) by (simp_all add: mem_rep_def lengths_ok_def)
  have l0: "link_ok E code (s\<lparr>lfsr_state := l\<rparr>) g"
    by (rule link_ok_linked [OF lk]) (use link_ok_buf [OF lk] in \<open>simp add: linked_def\<close>)
  have len: "length (p_data ?p) = 256"
    using mem_rep_sorted [OF assms(1), of c] assms(3) by (simp add: get_page_at_def cache_wf_def)
  show ?thesis
  proof (cases "p_addr ?p = 0")
    case True
    then show ?thesis using assms(4) l0 by (intro exI [of _ g]) simp
  next
    case False
    then have c: "stream_commit_page E ?p False (s\<lparr>lfsr_state := l\<rparr>) = (True, p1, s1)"
      using assms(4) by simp
    note k = link_ok_commit [OF l0 c len]
    have "mem s1 = mem s" using commit_page_frame [OF c sz len] by (simp add: pager_frame_def)
    then show ?thesis using k False by (intro exI [of _ "ghost_commit ?p False g"]) simp
  qed
qed

lemma grow_flat:
  assumes "grow E c addr p1 s = (True, z, p2, s2)" "c \<noteq> SECTION_CODE"
    and "link_ok E code s g" "sizes_ok E" "layout_ok s" "PAGE_START addr = addr" "in_section c addr s"
    and unborn: "\<And>c a. PAGE_START a = a \<Longrightarrow> in_section c a s \<Longrightarrow> unborn c a s \<Longrightarrow> stored g a = None"
  shows "\<exists>g2. link_ok E code s2 g2 \<and> grown c addr s g g2 \<and> layout_ok s2 \<and>
    (z \<longrightarrow> stored g2 addr = Some (zeros, 1) \<and> stored g addr = None) \<and> (\<not> z \<longrightarrow> g2 = g) \<and>
    (\<forall>c a. PAGE_START a = a \<longrightarrow> in_section c a s \<longrightarrow> unborn c a s2 \<longrightarrow> stored g2 a = None)"
proof (cases z)
  case False
  then have "s2 = s" using assms(1) by (auto simp: grow_def split: if_splits prod.splits bool.splits)
  then show ?thesis using False assms by (intro exI [of _ g]) (auto simp: grown_def)
next
  case True
  note l = assms(5) [unfolded layout_ok_def]
  have sec: "in_section c' a s2 = in_section c' a s" if "sections (mem s2) = sections (mem s)" for c' a
    using that by (simp add: in_section_def)
  consider (data) "c = SECTION_DATA" "bss_max (mem s) \<le> addr"
    | (stack) "c = SECTION_STACK" "addr < stack_min (mem s)"
    using assms(1) True by (auto simp: grow_def split: if_splits)
  then show ?thesis
  proof cases
    case data
    have u: "stored g a = None" if "PAGE_START a = a" "in_section SECTION_DATA a s" "bss_max (mem s) \<le> a" for a
      using unborn [of a SECTION_DATA] that by (simp add: unborn_def)
    obtain g2 where g2: "link_ok E code s2 g2" "grown SECTION_DATA addr s g g2"
      "stored g2 addr = Some (zeros, 1)" "mem s2 = (mem s)\<lparr>bss_max := addr + PAGE_SIZE\<rparr>"
      "\<forall>a. addr + PAGE_SIZE \<le> a \<longrightarrow> stored g2 a = stored g a"
      using grow_data [OF _ data(2) assms(3-6), of p1 p2 s2] assms(1,7) data(1) True u by auto
    note n = data_next [OF assms(5) _ assms(6)]
    have "layout_ok s2"
      using l n assms(7) data g2(4) by (auto simp: layout_ok_def in_section_def)
    moreover have "stored g2 a = None"
      if "PAGE_START a = a" "in_section c' a s" "unborn c' a s2" for c' a
    proof (cases c')
      case SECTION_DATA
      then have "addr + PAGE_SIZE \<le> a" using that(3) g2(4) by (simp add: unborn_def)
      moreover from this have "bss_max (mem s) \<le> a" using n data assms(7) by auto
      ultimately show ?thesis using g2(5) u that SECTION_DATA by simp
    next
      case SECTION_STACK
      then have "stored g a = None" using unborn that g2(4) by (simp add: unborn_def)
      moreover have "\<not> in_section SECTION_DATA a s" using l SECTION_STACK that by blast
      ultimately show ?thesis using g2(2) [unfolded grown_def, rule_format, of a] by auto
    next
      case SECTION_CODE
      then show ?thesis using that by (simp add: unborn_def)
    qed
    ultimately show ?thesis using g2 data u [OF assms(6)] assms(7) True by (intro exI [of _ g2]) auto
  next
    case stack
    have u: "stored g a = None" if "PAGE_START a = a" "in_section SECTION_STACK a s" "a < stack_min (mem s)" for a
      using unborn [of a SECTION_STACK] that by (simp add: unborn_def)
    obtain g2 where g2: "link_ok E code s2 g2" "grown SECTION_STACK addr s g g2"
      "stored g2 addr = Some (zeros, 1)" "mem s2 = (mem s)\<lparr>stack_min := addr\<rparr>"
      "\<forall>a. a < addr \<longrightarrow> stored g2 a = stored g a"
      using grow_stack [OF _ stack(2) assms(3-6), of p1 p2 s2] assms(1,7) stack(1) True u by auto
    have "layout_ok s2"
      using l assms(6,7) stack g2(4) by (auto simp: layout_ok_def in_section_def)
    moreover have "stored g2 a = None"
      if "PAGE_START a = a" "in_section c' a s" "unborn c' a s2" for c' a
    proof (cases c')
      case SECTION_STACK
      then have "a < addr" using that(3) g2(4) by (simp add: unborn_def)
      then show ?thesis using g2(5) u that SECTION_STACK stack by simp
    next
      case SECTION_DATA
      then have "stored g a = None" using unborn that g2(4) by (simp add: unborn_def)
      moreover have "\<not> in_section SECTION_STACK a s" using l SECTION_DATA that by blast
      ultimately show ?thesis using g2(2) [unfolded grown_def, rule_format, of a] by auto
    next
      case SECTION_CODE
      then show ?thesis using that by (simp add: unborn_def)
    qed
    ultimately show ?thesis using g2 stack u [OF assms(6)] assms(7) True by (intro exI [of _ g2]) auto
  qed
qed

lemma grown_content: "grown c addr s g g' \<Longrightarrow> content g' a = content g a"
  unfolding grown_def content_def by (drule spec [of _ a]) auto

lemma grown_keeps: "grown c addr s g g' \<Longrightarrow> stored g a \<noteq> None \<Longrightarrow> stored g' a = stored g a"
  unfolding grown_def by (drule spec [of _ a]) auto

lemma layout_cong:
  assumes "sections (mem s') = sections (mem s)" "bss_max (mem s') = bss_max (mem s)"
    "stack_min (mem s') = stack_min (mem s)"
  shows "layout_ok s' = layout_ok s" "in_section c a s' = in_section c a s" "unborn c a s' = unborn c a s"
  using assms by (simp_all add: layout_ok_def in_section_def unborn_def)

lemma create_page_flat:
  assumes rep: "mem_rep E code s g" and c: "c \<noteq> SECTION_CODE"
    and cp: "create_page E c addr s = (Some i, s')" and al: "PAGE_START addr = addr"
    and sec: "in_section c addr s" and new: "addr \<notin> set (addrs (pages (cache_of c s)))"
  shows "\<exists>g'. mem_rep E code s' g' \<and> p_data (get_page_at c i s') = flat s g c addr \<and>
    (\<forall>c' a. c' \<noteq> SECTION_CODE \<longrightarrow> PAGE_START a = a \<longrightarrow> in_section c' a s \<longrightarrow> flat s' g' c' a = flat s g c' a)"
proof -
  have wf: "mem_wf s" and len: "lengths_ok E" and sz: "sizes_ok E" and lay: "layout_ok s"
    and lk: "link_ok E code s g" and cc: "code_cached code s"
    using rep by (simp_all add: mem_rep_def lengths_ok_def)
  obtain n l p1 s1 z p2 s2 q s3 ps where n: "n < NPAGE c" and
    c1: "if c \<noteq> SECTION_CODE \<and> p_addr (get_page_at c n s) \<noteq> 0
      then stream_commit_page E (get_page_at c n s) False (s\<lparr>lfsr_state := l\<rparr>) = (True, p1, s1)
      else p1 = get_page_at c n s \<and> s1 = s\<lparr>lfsr_state := l\<rparr>" and
    f1: "caches_frame s s1" and g: "grow E c addr p1 s1 = (True, z, p2, s2)" and
    f2: "caches_frame s1 s2" and
    r: "if z then q = \<lparr>p_addr = addr, p_data = replicate 256 0, p_iv = 1\<rparr> \<and> s3 = s2
      else stream_request_page E p2 addr (c = SECTION_CODE) s2 = (True, q, s3)" and
    f3: "caches_frame s2 s3" and q: "length (p_data q) = 256" "p_addr q = addr" and
    s': "s' = set_cache c (cache_of c s\<lparr>pages := ps\<rparr>) s3" and
    k: "cache_wf c (cache_of c s\<lparr>pages := ps\<rparr>)" "i < NPAGE c" "ps ! i = q"
      "mset ps = add_mset q (mset (pages (cache_of c s)) - {#get_page_at c n s#})" and
    k': "\<And>c'. cache_of c' s' = (if c' = c then cache_of c s\<lparr>pages := ps\<rparr> else cache_of c' s)" and
    fs: "sections (mem s') = sections (mem s)" "buf_ok (dev s')"
    by (rule create_page_shape [OF cp wf link_ok_buf [OF lk] len al new]) (rule that)
  let ?old = "get_page_at c n s"
  have kwf: "cache_wf c (cache_of c s)" by (rule mem_rep_sorted [OF rep])
  have old: "?old \<in> set (pages (cache_of c s))" using kwf n by (simp add: get_page_at_def cache_wf_def)
  obtain g1 where g1: "link_ok E code s1 g1" "mem s1 = mem s"
    "stored g1 = (if p_addr ?old = 0 then stored g else (stored g)(p_addr ?old \<mapsto> (p_data ?old, p_iv ?old + 1)))"
    using evict_commit_flat [OF rep c n, of l p1 s1] c1 c by auto
  have lay1: "layout_ok s1" "\<And>c a. in_section c a s1 = in_section c a s" "\<And>c a. unborn c a s1 = unborn c a s"
    using g1(2) lay layout_cong [of s1 s] by simp_all
  have nz: "a \<noteq> 0" if "in_section c' a s" for c' a using lay that by (auto simp: layout_ok_def)
  have unb: "stored g a = None" if "PAGE_START a = a" "in_section c' a s" "unborn c' a s" for c' a
    using rep that unfolding mem_rep_def by blast
  have unb1: "stored g1 a = None" if "PAGE_START a = a" "in_section c' a s1" "unborn c' a s1" for c' a
    using unb [of a c'] nz [of c' a] that mem_rep_cached(2) [OF rep c old] by (auto simp: g1(3) lay1)
  have sec1: "in_section c addr s1" by (simp add: sec lay1(2))
  have "\<exists>g2. link_ok E code s2 g2 \<and> grown c addr s1 g1 g2 \<and> layout_ok s2 \<and>
    (z \<longrightarrow> stored g2 addr = Some (zeros, 1) \<and> stored g1 addr = None) \<and> (\<not> z \<longrightarrow> g2 = g1) \<and>
    (\<forall>c a. PAGE_START a = a \<longrightarrow> in_section c a s1 \<longrightarrow> unborn c a s2 \<longrightarrow> stored g2 a = None)"
    by (rule grow_flat [OF g c g1(1) sz lay1(1) al sec1]) (rule unb1)
  then obtain g2 where g2: "link_ok E code s2 g2" "grown c addr s1 g1 g2" "layout_ok s2"
    "z \<longrightarrow> stored g2 addr = Some (zeros, 1) \<and> stored g1 addr = None" "\<not> z \<longrightarrow> g2 = g1"
    "\<forall>c a. PAGE_START a = a \<longrightarrow> in_section c a s1 \<longrightarrow> unborn c a s2 \<longrightarrow> stored g2 a = None"
    by (elim exE conjE)
  have new': "addr \<noteq> p_addr ?old" using new old by auto
  have sq: "link_ok E code s3 g2 \<and> mem s3 = mem s2 \<and> (\<exists>v. stored g2 addr = Some (p_data q, v)) \<and>
      p_data q = content g addr"
  proof (cases z)
    case True
    then show ?thesis using r g2(1,4) new' by (auto simp: content_def g1(3) split: if_splits)
  next
    case False
    then have rq: "stream_request_page E p2 addr False s2 = (True, q, s3)" using r c by simp
    note lr = link_ok_request [OF g2(1) rq]
    have "mem s3 = mem s2" using request_page_frame [OF rq] by (simp add: pager_frame_def)
    then show ?thesis using lr g2(5) False new' by (auto simp: content_def g1(3) split: if_splits)
  qed
  have ms: "sections (mem s') = sections (mem s2)" "bss_max (mem s') = bss_max (mem s2)"
    "stack_min (mem s') = stack_min (mem s2)" using sq by (simp_all add: s')
  have set_ps: "set ps \<subseteq> insert q (set (pages (cache_of c s)))"
    using k(4) by (metis set_mset_mset set_mset_add_mset_insert insert_mono diff_subset_eq_self set_mset_mono)
  have st2: "stored g2 a \<noteq> None" if "stored g a \<noteq> None" for a
    using that grown_keeps [OF g2(2), of a] by (auto simp: g1(3) split: if_splits)
  have "mem_rep E code s' g2"
    unfolding mem_rep_def
  proof (intro conjI allI impI)
    show "link_ok E code s' g2"
      by (rule link_ok_linked [of E code s3]) (use sq fs in \<open>simp_all add: linked_def s'\<close>)
    show "mem_wf s'" using wf k(1) k' by (simp add: mem_wf_def)
    show "lengths_ok E" by (rule len)
    show "layout_ok s'" using g2(3) layout_cong [OF ms] by simp
    show "code_cached code s'" using cc k' c by (simp add: code_cached_def)
    show "in_section c' (p_addr p) s'" "stored g2 (p_addr p) \<noteq> None"
      if "c' \<noteq> SECTION_CODE" "p \<in> set (pages (cache_of c' s'))" "p_addr p \<noteq> 0" for c' p
    proof -
      have "c' = c \<and> p = q \<or> p \<in> set (pages (cache_of c' s))" using that k' set_ps by (auto split: if_splits)
      then have "in_section c' (p_addr p) s \<and> stored g2 (p_addr p) \<noteq> None"
        using sec sq q st2 mem_rep_cached(1,2) [OF rep that(1) _ that(3)] by auto
      then show "in_section c' (p_addr p) s'" "stored g2 (p_addr p) \<noteq> None"
        using fs by (simp_all add: in_section_def)
    qed
    show "stored g2 a = None" if "PAGE_START a = a" "in_section c' a s'" "unborn c' a s'" for c' a
      using g2(6) [rule_format, of a c'] that layout_cong(3) [OF ms] fs(1) lay1(2) by (auto simp: in_section_def)
    show "length d = 256" if "stored g2 a = Some (d, v)" for a d v
    proof (cases "stored g1 a")
      case None
      then show ?thesis using g2(2) [unfolded grown_def, rule_format, of a] that by auto
    next
      case (Some x)
      then have "stored g1 a = Some (d, v)" using grown_keeps [OF g2(2), of a] that by simp
      moreover have "length (p_data ?old) = 256" using kwf old by (simp add: cache_wf_def)
      moreover have "\<forall>a d v. stored g a = Some (d, v) \<longrightarrow> length d = 256" using rep by (simp add: mem_rep_def)
      ultimately show ?thesis by (auto simp: g1(3) split: if_splits)
    qed
  qed
  moreover have flat_addr: "flat s g c addr = content g addr"
    using new [unfolded find_absent] by (simp add: flat_def)
  moreover have "flat s' g2 c' a = flat s g c' a"
    if "c' \<noteq> SECTION_CODE" "PAGE_START a = a" "in_section c' a s" for c' a
  proof -
    have a: "a \<noteq> 0" using nz that(3) .
    have con: "content g2 a = content g a" if "a \<noteq> p_addr ?old"
      using that grown_content [OF g2(2), of a] by (simp add: content_def g1(3))
    show ?thesis
    proof (cases "c' = c")
      case True
      have f: "find (\<lambda>p. p_addr p = a) ps = (if a = addr then Some q
          else if a = p_addr ?old then None else find (\<lambda>p. p_addr p = a) (pages (cache_of c s)))"
        using find_replaced [OF kwf k(1) n a] k(4) q(2) by (simp add: get_page_at_def)
      moreover have "a = p_addr ?old \<Longrightarrow> content g2 a = flat s g c a"
        using mem_rep_cached(3) [OF rep c old] grown_content [OF g2(2), of a] a
        by (simp add: content_def g1(3))
      ultimately show ?thesis using True f sq con k' flat_addr
        by (cases "a = addr"; cases "a = p_addr ?old") (simp_all add: flat_def cong: option.case_cong)
    next
      case False
      have "a \<noteq> p_addr ?old"
      proof
        assume "a = p_addr ?old"
        then have "in_section c a s" using mem_rep_cached(1) [OF rep c old] a by simp
        then show False using that False c lay by (cases c; cases c') (auto simp: layout_ok_def)
      qed
      then show ?thesis using False con k' by (simp add: flat_def cong: option.case_cong)
    qed
  qed
  moreover have "p_data (get_page_at c i s') = flat s g c addr"
    using k k' sq flat_addr by (simp add: get_page_at_def)
  ultimately show ?thesis by blast
qed

section \<open>Pages of code\<close>

lemma link_ok_request_code:
  assumes "link_ok E code s g" "stream_request_page E p a True s = (True, q, u)"
  shows "link_ok E code u g" "code a = Some (p_data q)" "p_addr q = a"
    "genuine E s (code_ghost code) a"
proof -
  have l: "linked s s" using link_ok_buf [OF assms(1)] by (rule linked_refl)
  have t: "trusted E code s g" "pager_rep E s g" using assms(1) by (simp_all add: link_ok_def)
  note r = trusted_request_code [OF t(1) l assms(2)]
  show "genuine E s (code_ghost code) a" by (rule r(1))
  from request_read_only [OF link_ok_buf [OF assms(1)] r(1) assms(2)]
  show "code a = Some (p_data q)" "p_addr q = a" by (simp_all add: code_ghost_def)
  have "pager_rep E u g"
    using request_page_frame [OF assms(2)] t(2) by (auto simp: pager_rep_def pager_frame_def)
  then show "link_ok E code u g" using r(2) by (simp add: link_ok_def)
qed

text \<open>A change of the code cache alone.\<close>

lemma mem_rep_code:
  assumes "mem_rep E code s g" "link_ok E code s' g" "mem_wf s'" "code_cached code s'"
    and "\<And>c. c \<noteq> SECTION_CODE \<Longrightarrow> cache_of c s' = cache_of c s"
    and "sections (mem s') = sections (mem s)" "bss_max (mem s') = bss_max (mem s)"
    "stack_min (mem s') = stack_min (mem s)"
  shows "mem_rep E code s' g \<and> (\<forall>c a. c \<noteq> SECTION_CODE \<longrightarrow> flat s' g c a = flat s g c a)"
  using assms layout_cong [OF assms(6-8)] unfolding mem_rep_def flat_def by simp

lemma create_page_code:
  assumes rep: "mem_rep E code s g"
    and cp: "create_page E SECTION_CODE addr s = (Some i, s')" and al: "PAGE_START addr = addr"
    and new: "addr \<notin> set (addrs (pages (cache_of SECTION_CODE s)))"
  shows "mem_rep E code s' g \<and> code addr = Some (p_data (get_page_at SECTION_CODE i s')) \<and>
    (\<forall>c a. c \<noteq> SECTION_CODE \<longrightarrow> flat s' g c a = flat s g c a)"
proof -
  have wf: "mem_wf s" and len: "lengths_ok E" and lk: "link_ok E code s g" and cc: "code_cached code s"
    using rep by (simp_all add: mem_rep_def)
  obtain n l p1 s1 z p2 s2 q s3 ps where n: "n < NPAGE SECTION_CODE" and
    c1: "if SECTION_CODE \<noteq> SECTION_CODE \<and> p_addr (get_page_at SECTION_CODE n s) \<noteq> 0
      then stream_commit_page E (get_page_at SECTION_CODE n s) False (s\<lparr>lfsr_state := l\<rparr>) = (True, p1, s1)
      else p1 = get_page_at SECTION_CODE n s \<and> s1 = s\<lparr>lfsr_state := l\<rparr>" and
    g: "grow E SECTION_CODE addr p1 s1 = (True, z, p2, s2)" and
    r: "if z then q = \<lparr>p_addr = addr, p_data = replicate 256 0, p_iv = 1\<rparr> \<and> s3 = s2
      else stream_request_page E p2 addr (SECTION_CODE = SECTION_CODE) s2 = (True, q, s3)" and
    s': "s' = set_cache SECTION_CODE (cache_of SECTION_CODE s\<lparr>pages := ps\<rparr>) s3" and
    k: "cache_wf SECTION_CODE (cache_of SECTION_CODE s\<lparr>pages := ps\<rparr>)" "ps ! i = q"
      "mset ps = add_mset q (mset (pages (cache_of SECTION_CODE s)) - {#get_page_at SECTION_CODE n s#})" and
    k': "\<And>c'. cache_of c' s' = (if c' = SECTION_CODE then cache_of SECTION_CODE s\<lparr>pages := ps\<rparr> else cache_of c' s)" and
    fs: "sections (mem s') = sections (mem s)" "buf_ok (dev s')"
    by (rule create_page_shape [OF cp wf link_ok_buf [OF lk] len al new]) (rule that)
  have s2: "s2 = s\<lparr>lfsr_state := l\<rparr>" "\<not> z" using c1 g by (simp_all add: grow_def)
  have l0: "link_ok E code s2 g"
    by (rule link_ok_linked [OF lk]) (use link_ok_buf [OF lk] in \<open>simp add: linked_def s2\<close>)
  have rq: "stream_request_page E p2 addr True s2 = (True, q, s3)" using r s2 by simp
  note lr = link_ok_request_code [OF l0 rq]
  have l': "link_ok E code s' g"
    by (rule link_ok_linked [OF lr(1)]) (use fs in \<open>simp add: linked_def s'\<close>)
  have m: "mem s3 = mem s" using request_page_frame [OF rq] by (simp add: pager_frame_def s2)
  have "set ps \<subseteq> insert q (set (pages (cache_of SECTION_CODE s)))"
    using k(3) by (metis set_mset_mset set_mset_add_mset_insert insert_mono diff_subset_eq_self set_mset_mono)
  then have cc': "code_cached code s'" using cc lr(2,3) by (auto simp: code_cached_def k')
  have "mem_wf s'" using wf k(1) k' by (simp add: mem_wf_def)
  then have "mem_rep E code s' g \<and> (\<forall>c a. c \<noteq> SECTION_CODE \<longrightarrow> flat s' g c a = flat s g c a)"
  proof (rule mem_rep_code [OF rep l' _ cc'])
    show "cache_of c s' = cache_of c s" if "c \<noteq> SECTION_CODE" for c using k' that by simp
    show "bss_max (mem s') = bss_max (mem s)" "stack_min (mem s') = stack_min (mem s)"
      by (simp_all add: s' m)
  qed (rule fs(1))
  moreover have "get_page_at SECTION_CODE i s' = q" using k(2) by (simp add: get_page_at_def k')
  ultimately show ?thesis using lr(2) by simp
qed

lemma genuine_cong:
  assumes "dev t = dev s" "hmac_static_key t = hmac_static_key s" "dyn_hmac t = dyn_hmac s"
    "dyn_aes t = dyn_aes s"
  shows "genuine E t g a = genuine E s g a"
  using assms by (simp add: genuine_def answer_ct_def answer_iv_def answer_mac_def page_query_def
      hmac_query_def page_mac_def hmac_key_for_def encrypt_page_def)

lemma get_code_page_slow_request:
  assumes "get_code_page_slow E addr s = (Some i, s')" "find_page SECTION_CODE addr s = None" "mem_wf s"
  obtains l p q s3 k where "stream_request_page E p addr True (s\<lparr>lfsr_state := l\<rparr>) = (True, q, s3)"
    "s' = set_cache SECTION_CODE k s3"
proof -
  obtain n s0 where e: "evict_page SECTION_CODE s = (n, s0)" by fastforce
  from evict_page_shape [OF e] assms(3) obtain l where s0: "s0 = s\<lparr>lfsr_state := l\<rparr>"
    by (auto simp: mem_wf_def)
  obtain ok q s3 where r: "stream_request_page E (get_page_at SECTION_CODE n s0) addr True s0 = (ok, q, s3)"
    by (metis prod_cases3)
  have sc: "set_cache SECTION_CODE k (set_cache SECTION_CODE k' s3) = set_cache SECTION_CODE k s3" for k k'
    by (simp add: set_cache_def)
  from assms(1,2) e r have "ok" and "\<exists>k. s' = set_cache SECTION_CODE k s3"
    by (auto simp: get_code_page_slow_def Let_def reorder_cache_def set_current_def sc set_page_def
        split: if_splits bool.splits prod.splits)
  with r that show ?thesis by (auto simp: s0)
qed

lemma get_code_page_flat:
  assumes "mem_rep E code s g" "get_code_page E addr s = (Some i, s')" "PAGE_START addr = addr" "addr \<noteq> 0"
  shows "mem_rep E code s' g \<and> code addr = Some (p_data (get_page_at SECTION_CODE i s')) \<and>
    length (p_data (get_page_at SECTION_CODE i s')) = 256 \<and>
    (\<forall>c a. c \<noteq> SECTION_CODE \<longrightarrow> flat s' g c a = flat s g c a) \<and> sections (mem s') = sections (mem s)"
proof -
  have wf: "mem_wf s" and len: "lengths_ok E" and lk: "link_ok E code s g" and cc: "code_cached code s"
    using assms(1) by (simp_all add: mem_rep_def)
  have kwf: "cache_wf SECTION_CODE (cache_of SECTION_CODE s)" by (rule mem_rep_sorted [OF assms(1)])
  show ?thesis
  proof (cases "get_code_page_slow E addr s = (Some i, s') \<and> find_page SECTION_CODE addr s = None")
    case False
    then have "s' = s \<and> i < NPAGE SECTION_CODE \<and> p_addr (get_page_at SECTION_CODE i s) = addr"
    proof (cases "get_code_page_slow E addr s = (Some i, s')")
      case True
      then obtain m where "find_page SECTION_CODE addr s = Some m" using False by auto
      with find_page_Some [OF cache_wf_sorted [OF kwf] this] True show ?thesis
        using kwf by (auto simp: get_code_page_slow_def cache_wf_def split: if_splits)
    next
      case False
      then show ?thesis
        using assms(2) kwf by (auto simp: get_code_page_def cache_wf_def split: option.splits if_splits)
    qed
    moreover from this have "get_page_at SECTION_CODE i s \<in> set (pages (cache_of SECTION_CODE s))"
      using kwf by (simp add: get_page_at_def cache_wf_def)
    ultimately show ?thesis using assms cc kwf by (auto simp: code_cached_def cache_wf_def)
  next
    case True
    then obtain l p q s3 k where
      rq: "stream_request_page E p addr True (s\<lparr>lfsr_state := l\<rparr>) = (True, q, s3)"
      and s': "s' = set_cache SECTION_CODE k s3"
      by (elim conjE) (rule get_code_page_slow_request [OF _ _ wf])
    have "link_ok E code (s\<lparr>lfsr_state := l\<rparr>) g"
      by (rule link_ok_linked [OF lk]) (use link_ok_buf [OF lk] in \<open>simp add: linked_def\<close>)
    note lr = link_ok_request_code [OF this rq]
    have gen: "genuine E t (code_ghost code) addr" if "dev t = dev s" "hmac_static_key t = hmac_static_key s"
      "dyn_hmac t = dyn_hmac s" "dyn_aes t = dyn_aes s" for t
      using lr(4) genuine_cong [of t "s\<lparr>lfsr_state := l\<rparr>"] that by simp
    have w: "mem_wf s' \<and> buf_ok (dev s') \<and> code_cached code s' \<and> i < NPAGE SECTION_CODE \<and>
        p_addr (get_page_at SECTION_CODE i s') = addr \<and>
        code addr = Some (p_data (get_page_at SECTION_CODE i s'))"
      by (rule get_code_page_wf [OF assms(2) wf link_ok_buf [OF lk] len assms(3,4) cc]) (rule gen)
    have m: "mem s3 = mem s" using request_page_frame [OF rq] by (simp add: pager_frame_def)
    have "link_ok E code s' g"
      by (rule link_ok_linked [OF lr(1)]) (use w in \<open>simp add: linked_def s'\<close>)
    then have "mem_rep E code s' g \<and> (\<forall>c a. c \<noteq> SECTION_CODE \<longrightarrow> flat s' g c a = flat s g c a)"
    proof (rule mem_rep_code [OF assms(1)])
      show "mem_wf s'" "code_cached code s'" using w by simp_all
      show "cache_of c s' = cache_of c s" if "c \<noteq> SECTION_CODE" for c
        using that by (simp add: s') (simp add: cache_of_def m)
    qed (simp_all add: s' m)
    moreover have "length (p_data (get_page_at SECTION_CODE i s')) = 256"
    proof -
      have "cache_wf SECTION_CODE (cache_of SECTION_CODE s')" "i < NPAGE SECTION_CODE"
        using w by (simp_all add: mem_wf_def)
      then show ?thesis by (simp add: cache_wf_def get_page_at_def)
    qed
    moreover have "sections (mem s') = sections (mem s)" by (simp add: s' m)
    ultimately show ?thesis using w by simp
  qed
qed

section \<open>The bytes of the guest\<close>

text \<open>\<open>n\<close> bytes from an address, and a memory with some bytes replaced.\<close>

definition bytes :: "(u32 \<Rightarrow> u8) \<Rightarrow> u32 \<Rightarrow> nat \<Rightarrow> u8 list" where
  "bytes m a n = map (\<lambda>i. m (a + of_nat i)) [0..<n]"

definition upd :: "(u32 \<Rightarrow> u8) \<Rightarrow> u32 \<Rightarrow> u8 list \<Rightarrow> u32 \<Rightarrow> u8" where
  "upd m a bs x = (if unat (x - a) < length bs then bs ! unat (x - a) else m x)"

definition byte_at :: "(u32 \<rightharpoonup> u8 list) \<Rightarrow> vm \<Rightarrow> ghost \<Rightarrow> u32 \<Rightarrow> u8" where
  "byte_at code s g a =
    (let b = PAGE_START a in
     if in_section SECTION_CODE b s then (case code b of Some d \<Rightarrow> d ! page_off a | None \<Rightarrow> 0)
     else if in_section SECTION_DATA b s then flat s g SECTION_DATA b ! page_off a
     else if in_section SECTION_STACK b s then flat s g SECTION_STACK b ! page_off a
     else 0)"

text \<open>The state represents the memory \<open>m\<close> of the application.\<close>

definition guest_rep :: "env \<Rightarrow> (u32 \<rightharpoonup> u8 list) \<Rightarrow> vm \<Rightarrow> (u32 \<Rightarrow> u8) \<Rightarrow> bool" where
  "guest_rep E code s m \<longleftrightarrow> (\<exists>g. mem_rep E code s g \<and> m = byte_at code s g)"

lemma length_bytes [simp]: "length (bytes m a n) = n"
  by (simp add: bytes_def)

lemma nth_bytes [simp]: "i < n \<Longrightarrow> bytes m a n ! i = m (a + of_nat i)"
  by (simp add: bytes_def)

lemma guest_repI: "mem_rep E code s g \<Longrightarrow> m = byte_at code s g \<Longrightarrow> guest_rep E code s m"
  unfolding guest_rep_def by blast

lemma guest_repE:
  assumes "guest_rep E code s m"
  obtains g where "mem_rep E code s g" "m = byte_at code s g" "link_ok E code s g"
  using assms unfolding guest_rep_def mem_rep_def by blast

text \<open>A page-sized step within a page.\<close>

lemma page_step:
  assumes "page_off a + i < 256"
  shows "PAGE_START (a + of_nat i) = PAGE_START a" "page_off (a + of_nat i) = page_off a + i"
proof -
  have a: "unat a < 2 ^ 32" using unsigned_less [of a, where 'a = nat] by simp
  obtain q r where qr: "unat a = 256 * q + r" "r < 256" "q < 2 ^ 24"
    using a by (intro that [of "unat a div 256" "unat a mod 256"]) auto
  have r: "r = page_off a" using qr by (simp add: page_off_def)
  have "unat (of_nat i :: u32) = i" using assms by (simp add: unat_of_nat take_bit_nat_eq_self)
  then have u: "unat (a + of_nat i) = 256 * q + (r + i)"
    using qr assms r by (simp add: unat_word_ariths)
  have "(256 * q + (r + i)) div 256 = q" using assms r by (intro div_nat_eqI) auto
  then show "PAGE_START (a + of_nat i) = PAGE_START a"
    using qr by (simp add: word_unat_eq_iff unat_PAGE_START_div u)
  have "(r + i) mod 256 = r + i" using assms r by simp
  then show "page_off (a + of_nat i) = page_off a + i"
    unfolding page_off_def [of "a + of_nat i"] u using r by (simp add: mod_simps)
qed

lemma page_start_step: "i < 256 \<Longrightarrow> PAGE_START (PAGE_START a + of_nat i) = PAGE_START a \<and>
    page_off (PAGE_START a + of_nat i) = i"
  using page_step [of "PAGE_START a" i] by (simp add: page_off_def unat_PAGE_START_div)

text \<open>The section that a page is found in, whatever the access.\<close>

lemma get_cache_section:
  assumes "get_cache b prot s = Some c"
  shows "in_section c b s" "prot \<noteq> PAGE_PROT_RO \<Longrightarrow> c \<noteq> SECTION_CODE"
    "PAGE_START a = b \<Longrightarrow> c \<noteq> SECTION_CODE \<Longrightarrow> byte_at code s g a = flat s g c b ! page_off a"
    "PAGE_START a = b \<Longrightarrow> c = SECTION_CODE \<Longrightarrow> code b = Some d \<Longrightarrow> byte_at code s g a = d ! page_off a"
  using assms by (auto simp: get_cache_def byte_at_def Let_def split: if_splits)

lemma get_cache_cong: "sections (mem t) = sections (mem s) \<Longrightarrow> get_cache b prot t = get_cache b prot s"
  unfolding get_cache_def in_section_def by simp

lemma byte_at_cong:
  assumes "sections (mem s') = sections (mem s)"
    and "\<And>c b. c \<noteq> SECTION_CODE \<Longrightarrow> PAGE_START b = b \<Longrightarrow> in_section c b s \<Longrightarrow> flat s' g' c b = flat s g c b"
  shows "byte_at code s' g' a = byte_at code s g a"
proof -
  have "in_section c b s' = in_section c b s" for c b using assms(1) by (simp add: in_section_def)
  then show ?thesis using assms(2) by (simp add: byte_at_def Let_def)
qed

lemma get_page_bytes:
  assumes rep: "guest_rep E code s m" and gp: "get_page E addr prot s = (Some (c, n), s')"
  shows "guest_rep E code s' m \<and> n < NPAGE c \<and> sections (mem s') = sections (mem s) \<and>
    get_cache (PAGE_START addr) prot s = Some c \<and> p_addr (get_page_at c n s') = PAGE_START addr \<and>
    length (p_data (get_page_at c n s')) = 256 \<and>
    (\<forall>i < 256. p_data (get_page_at c n s') ! i = m (PAGE_START addr + of_nat i))"
proof -
  let ?b = "PAGE_START addr"
  obtain g where g: "mem_rep E code s g" and m: "m = byte_at code s g" using rep by (auto simp: guest_rep_def)
  have wf: "mem_wf s" and len: "lengths_ok E" and lk: "link_ok E code s g" and lay: "layout_ok s"
    and cc: "code_cached code s"
    using g by (simp_all add: mem_rep_def)
  have kwf: "cache_wf c (cache_of c s)" by (rule mem_rep_sorted [OF g])
  from gp have c: "get_cache ?b prot s = Some c"
    by (auto simp: get_page_def Let_def split: option.splits prod.splits)
  note sec = get_cache_section [OF c]
  have nz: "?b \<noteq> 0" using sec(1) lay by (auto simp: layout_ok_def)
  note w = get_page_wf [OF gp wf link_ok_buf [OF lk] len]
  have "\<exists>g'. mem_rep E code s' g' \<and>
      (\<forall>c' a. c' \<noteq> SECTION_CODE \<longrightarrow> PAGE_START a = a \<longrightarrow> in_section c' a s \<longrightarrow> flat s' g' c' a = flat s g c' a) \<and>
      (if c = SECTION_CODE then code ?b = Some (p_data (get_page_at c n s'))
       else flat s g c ?b = p_data (get_page_at c n s'))"
  proof (cases "find_page c ?b s")
    case (Some k)
    with gp c have "k = n" "s' = s" by (auto simp: get_page_def)
    with find_page_Some [OF cache_wf_sorted [OF kwf] Some]
    have p: "get_page_at c n s \<in> set (pages (cache_of c s))" "p_addr (get_page_at c n s) = ?b"
      by (auto simp: get_page_at_def)
    show ?thesis
    proof (cases "c = SECTION_CODE")
      case True
      then show ?thesis using g p cc nz \<open>s' = s\<close> by (intro exI [of _ g]) (auto simp: code_cached_def)
    next
      case False
      then show ?thesis using g p nz mem_rep_cached(3) [OF g False p(1)] \<open>s' = s\<close>
        by (intro exI [of _ g]) auto
    qed
  next
    case None
    with gp c have cp: "create_page E c ?b s = (Some n, s')"
      by (auto simp: get_page_def split: prod.splits)
    note new = find_page_None [OF cache_wf_sorted [OF kwf] None]
    show ?thesis
    proof (cases "c = SECTION_CODE")
      case True
      have "create_page E SECTION_CODE ?b s = (Some n, s')" using cp True by simp
      from create_page_code [OF g this PAGE_START_idem] new True show ?thesis
        by (intro exI [of _ g]) auto
    next
      case False
      from create_page_flat [OF g False cp PAGE_START_idem sec(1) new] False show ?thesis by metis
    qed
  qed
  then obtain g' where g': "mem_rep E code s' g'"
    "\<And>c' a. c' \<noteq> SECTION_CODE \<Longrightarrow> PAGE_START a = a \<Longrightarrow> in_section c' a s \<Longrightarrow> flat s' g' c' a = flat s g c' a"
    "if c = SECTION_CODE then code ?b = Some (p_data (get_page_at c n s'))
     else flat s g c ?b = p_data (get_page_at c n s')" by blast
  have "m = byte_at code s' g'"
    unfolding m by (intro ext byte_at_cong [symmetric]) (use w g'(2) in auto)
  then have rep': "guest_rep E code s' m" by (rule guest_repI [OF g'(1)])
  have "p_data (get_page_at c n s') ! i = m (?b + of_nat i)" if "i < 256" for i
    using page_start_step [OF that, of addr] sec(3) [of "?b + of_nat i"]
      sec(4) [of "?b + of_nat i"] g'(3) by (simp add: m split: if_splits)
  moreover have "length (p_data (get_page_at c n s')) = 256"
  proof -
    have "cache_wf c (cache_of c s')" "n < NPAGE c" using w by (simp_all add: mem_wf_def)
    then show ?thesis by (simp add: cache_wf_def get_page_at_def)
  qed
  ultimately show ?thesis using rep' w c by blast
qed

section \<open>Writing bytes\<close>

lemma upd_page:
  assumes "page_off addr + length bs \<le> 256"
  shows "upd m addr bs a = (if PAGE_START a = PAGE_START addr \<and> page_off addr \<le> page_off a \<and>
    page_off a < page_off addr + length bs then bs ! (page_off a - page_off addr) else m a)"
proof (cases "unat (a - addr) < length bs")
  case True
  have "a = addr + of_nat (unat (a - addr))" by simp
  with page_step [of addr "unat (a - addr)"] True assms
  have "PAGE_START a = PAGE_START addr" "page_off a = page_off addr + unat (a - addr)" by auto
  then show ?thesis using True by (simp add: upd_def)
next
  case False
  have "\<not> (PAGE_START a = PAGE_START addr \<and> page_off addr \<le> page_off a \<and> page_off a < page_off addr + length bs)"
  proof
    assume *: "PAGE_START a = PAGE_START addr \<and> page_off addr \<le> page_off a \<and> page_off a < page_off addr + length bs"
    have "unat a = unat (PAGE_START a) + page_off a" for a
      by (simp add: unat_PAGE_START page_off_def)
    then have "unat a = unat addr + (page_off a - page_off addr)" using * by (metis add.assoc le_add_diff_inverse)
    then have "unat (a - addr) = page_off a - page_off addr"
      by (simp add: unat_sub word_le_nat_alt)
    then show False using False * by linarith
  qed
  then show ?thesis using False by (auto simp: upd_def)
qed

lemma find_update: "n < length xs \<Longrightarrow> \<not> P y \<Longrightarrow> \<not> P (xs ! n) \<Longrightarrow> find P (xs[n := y]) = find P xs"
proof (induction xs arbitrary: n)
  case Nil
  then show ?case by simp
next
  case (Cons x xs)
  then show ?case by (cases n) auto
qed

text \<open>A change of the data of a cached page.\<close>

lemma mem_rep_write:
  assumes rep: "mem_rep E code s g" and c: "c \<noteq> SECTION_CODE" and n: "n < NPAGE c"
    and p: "p = get_page_at c n s" "p_addr p \<noteq> 0" and d: "length d = 256"
  shows "mem_rep E code (set_page c n (p\<lparr>p_data := d\<rparr>) s) g"
    "flat (set_page c n (p\<lparr>p_data := d\<rparr>) s) g c' a =
      (if c' = c \<and> a = p_addr p then d else flat s g c' a)"
proof -
  let ?k = "cache_of c s" and ?q = "p\<lparr>p_data := d\<rparr>"
  let ?ps = "(pages ?k)[n := ?q]" and ?s = "set_page c n (p\<lparr>p_data := d\<rparr>) s"
  have wf: "cache_wf c ?k" by (rule mem_rep_sorted [OF rep])
  then have l: "n < length (pages ?k)" using n by (simp add: cache_wf_def)
  have pin: "p \<in> set (pages ?k)" using l p(1) by (simp add: get_page_at_def)
  have ad: "addrs ?ps = addrs (pages ?k)"
    using l p(1) by (simp add: map_update get_page_at_def) (metis list_update_id nth_map)
  have st: "set ?ps \<subseteq> insert ?q (set (pages ?k))" by (rule set_update_subset_insert)
  have "sorted (addrs ?ps) \<and> (\<forall>a. a \<noteq> 0 \<longrightarrow> count (mset (addrs ?ps)) a \<le> 1)"
    unfolding ad using wf by (simp only: cache_wf_def) blast
  moreover have "\<forall>r \<in> set ?ps. length (p_data r) = 256 \<and> PAGE_START (p_addr r) = p_addr r"
  proof
    fix r assume "r \<in> set ?ps"
    then have "r = ?q \<or> r \<in> set (pages ?k)" using st by blast
    then show "length (p_data r) = 256 \<and> PAGE_START (p_addr r) = p_addr r"
      using d pin wf by (auto simp: cache_wf_def)
  qed
  ultimately have wf': "cache_wf c (?k\<lparr>pages := ?ps\<rparr>)"
    using wf by (simp add: cache_wf_def)
  have k': "cache_of c' ?s = (if c' = c then ?k\<lparr>pages := ?ps\<rparr> else cache_of c' s)" for c'
    by (simp add: set_page_def)
  have lay: "sections (mem ?s) = sections (mem s)" "bss_max (mem ?s) = bss_max (mem s)"
    "stack_min (mem ?s) = stack_min (mem s)" by (simp_all add: set_page_def)
  note cong = layout_cong [OF lay]
  have lk: "link_ok E code s g" using rep by (simp add: mem_rep_def)
  show "mem_rep E code ?s g"
    unfolding mem_rep_def cong
  proof (intro conjI allI impI)
    show "link_ok E code ?s g"
      by (rule link_ok_linked [OF lk]) (use link_ok_buf [OF lk] in \<open>simp add: linked_def set_page_def set_cache_def\<close>)
    show "mem_wf ?s" using rep wf' by (auto simp: mem_rep_def mem_wf_def k')
    show "code_cached code ?s" using rep c by (simp add: mem_rep_def code_cached_def k')
    fix c' r assume r: "c' \<noteq> SECTION_CODE" "r \<in> set (pages (cache_of c' ?s))" "p_addr r \<noteq> 0"
    then have "r \<in> set (pages (cache_of c' s)) \<or> c' = c \<and> p_addr r = p_addr p"
      using st by (auto simp: k' split: if_splits)
    then show "in_section c' (p_addr r) s" "stored g (p_addr r) \<noteq> None"
      using mem_rep_cached(1,2) [OF rep r(1)] mem_rep_cached(1,2) [OF rep c pin p(2)] r(3) by auto
  qed (use rep [unfolded mem_rep_def] in \<open>blast+\<close>)
  have "find (\<lambda>r. p_addr r = a) ?ps = (if a = p_addr p then Some ?q else find (\<lambda>r. p_addr r = a) (pages ?k))"
  proof (cases "a = p_addr p")
    case True
    have "?q \<in> set ?ps" using l by (metis length_list_update nth_list_update_eq nth_mem)
    moreover have "count (mset (addrs ?ps)) a \<le> 1"
      unfolding ad using wf True p(2) by (simp add: cache_wf_def)
    ultimately show ?thesis using True by (simp add: find_unique)
  next
    case False
    show ?thesis using False find_update [OF l] p(1) by (simp add: get_page_at_def)
  qed
  then show "flat ?s g c' a = (if c' = c \<and> a = p_addr p then d else flat s g c' a)"
    by (cases "a = p_addr p") (auto simp: flat_def k')
qed

lemma write_at_bytes:
  assumes rep: "guest_rep E code s m" and n: "n < NPAGE c" and c: "c \<noteq> SECTION_CODE"
    and gc: "get_cache (PAGE_START addr) prot s = Some c"
    and p: "p_addr (get_page_at c n s) = PAGE_START addr"
      "\<forall>i < 256. p_data (get_page_at c n s) ! i = m (PAGE_START addr + of_nat i)"
    and fits: "page_off addr + length bs \<le> 256"
  shows "guest_rep E code (write_at (c, n, page_off addr) bs s) (upd m addr bs)"
proof -
  let ?b = "PAGE_START addr" and ?o = "page_off addr" and ?p = "get_page_at c n s"
  let ?d = "splice (p_data ?p) ?o bs"
  obtain g where g: "mem_rep E code s g" and m: "m = byte_at code s g" using rep by (auto simp: guest_rep_def)
  note sec = get_cache_section [OF gc]
  have nz: "p_addr ?p \<noteq> 0" using sec(1) g p(1) by (auto simp: mem_rep_def layout_ok_def)
  have pl: "length (p_data ?p) = 256"
    using mem_rep_sorted [OF g, of c] n by (simp add: cache_wf_def get_page_at_def)
  then have dl: "length ?d = 256" using fits by simp
  note w = mem_rep_write [OF g c n refl nz dl]
  let ?s = "set_page c n (?p\<lparr>p_data := ?d\<rparr>) s"
  have fb: "flat s g c ?b = p_data ?p"
  proof -
    have "?p \<in> set (pages (cache_of c s))"
      using mem_rep_sorted [OF g, of c] n by (simp add: cache_wf_def get_page_at_def)
    from mem_rep_cached(3) [OF g c this nz] p(1) show ?thesis by simp
  qed
  have secs: "in_section c' a ?s = in_section c' a s" for c' a by (simp add: in_section_def set_page_def)
  have "byte_at code ?s g a = upd m addr bs a" for a
  proof (cases "PAGE_START a = ?b")
    case True
    have gc': "get_cache ?b prot ?s = Some c" unfolding get_cache_def secs by (rule gc [unfolded get_cache_def])
    have "byte_at code ?s g a = ?d ! page_off a"
      using get_cache_section(3) [OF gc' True c] w(2) p(1) by simp
    also have "\<dots> = (if page_off a < ?o then p_data ?p ! page_off a
        else if page_off a < ?o + length bs then bs ! (page_off a - ?o) else p_data ?p ! page_off a)"
      using nth_splice [of ?o bs "p_data ?p" "page_off a"] fits pl by simp
    also have "p_data ?p ! page_off a = m a"
      using get_cache_section(3) [OF gc True c] by (simp add: m fb)
    finally show ?thesis using True by (auto simp: upd_page [OF fits])
  next
    case False
    then have "byte_at code ?s g a = byte_at code s g a"
      using w(2) p(1) by (simp add: byte_at_def Let_def secs)
    then show ?thesis using False by (simp add: upd_page [OF fits] m)
  qed
  then have "upd m addr bs = byte_at code ?s g" by (intro ext) simp
  then show ?thesis
    using w(1) by (intro guest_repI [of _ _ _ g]) (simp_all add: write_at_def)
qed

text \<open>The rest of the state may change, and the device may talk to the host in between.\<close>

lemma guest_rep_same_mem:
  assumes "mem_rep E code s g" "mem s' = mem s" "link_ok E code s' g"
  shows "guest_rep E code s' (byte_at code s g)"
proof -
  have k: "cache_of c s' = cache_of c s" for c using assms(2) by (simp add: cache_of_def)
  have lay: "sections (mem s') = sections (mem s)" "bss_max (mem s') = bss_max (mem s)"
    "stack_min (mem s') = stack_min (mem s)" using assms(2) by simp_all
  have "mem_rep E code s' g"
    unfolding mem_rep_def layout_cong [OF lay] mem_wf_def code_cached_def k
    using assms(1) [unfolded mem_rep_def mem_wf_def code_cached_def] assms(3) by blast
  moreover have "byte_at code s g = byte_at code s' g"
    by (rule ext) (simp add: byte_at_def Let_def flat_def k layout_cong(2) [OF lay])
  ultimately show ?thesis by (rule guest_repI)
qed

lemma guest_rep_linked:
  assumes "guest_rep E code s m" "mem s' = mem s" "linked s s'"
  shows "guest_rep E code s' m"
proof (rule guest_repE [OF assms(1)])
  fix g assume g: "mem_rep E code s g" "m = byte_at code s g" "link_ok E code s g"
  show ?thesis unfolding g(2) by (rule guest_rep_same_mem [OF g(1) assms(2) link_ok_linked [OF g(3) assms(3)]])
qed

lemma guest_rep_buf: "guest_rep E code s m \<Longrightarrow> buf_ok (dev s)"
  by (erule guest_repE) (rule link_ok_buf)

lemma guest_rep_exchange:
  assumes "guest_rep E code s m" "exchange E tx s = (r, s')"
  shows "guest_rep E code s' m"
proof (rule guest_repE [OF assms(1)])
  fix g assume g: "mem_rep E code s g" "m = byte_at code s g" "link_ok E code s g"
  have fr: "pager_frame s s'" by (rule pager_frame_exchange [OF assms(2)])
  have b: "buf_ok (dev s')" using fr link_ok_buf [OF g(3)] by (simp add: pager_frame_def)
  have mt: "mt s' = mt s" using exchange_parts(1) [of E tx s] assms(2) by simp
  have "trusted E code s' g"
    using g(3) trusted_exchange [OF _ linked_refl [OF link_ok_buf [OF g(3)]] assms(2)] by (simp add: link_ok_def)
  moreover have "pager_rep E s' g" using g(3) b mt by (auto simp: link_ok_def pager_rep_def)
  ultimately show ?thesis
    unfolding g(2) using fr by (intro guest_rep_same_mem [OF g(1)]) (simp_all add: link_ok_def pager_frame_def)
qed

section \<open>The interface of the guest's memory\<close>

text \<open>
  What the system calls rely on: a buffer that is obtained holds the bytes of the guest at its
  address, and writing it replaces them. \<open>same\<close> is what may happen to the state between the
  two, as long as it still represents the same memory.
\<close>

locale guest_buffers =
  fixes rep :: "'s \<Rightarrow> (u32 \<Rightarrow> u8) \<Rightarrow> bool"
    and get_buf :: "u32 \<Rightarrow> u32 \<Rightarrow> bool \<Rightarrow> 's \<Rightarrow> 'p option \<times> 's"
    and rd :: "'p \<Rightarrow> nat \<Rightarrow> 's \<Rightarrow> u8 list"
    and wr :: "'p \<Rightarrow> u8 list \<Rightarrow> 's \<Rightarrow> 's"
    and same :: "'s \<Rightarrow> 's \<Rightarrow> bool"
  assumes get_law: "rep s m \<Longrightarrow> get_buf a n w s = (Some p, s') \<Longrightarrow>
      rep s' m \<and> rd p (unat n) s' = bytes m a (unat n)"
    and put_law: "rep s m \<Longrightarrow> get_buf a n True s = (Some p, s') \<Longrightarrow> length bs \<le> unat n \<Longrightarrow>
      rep t m \<Longrightarrow> same s' t \<Longrightarrow> rep (wr p bs t) (upd m a bs)"
    and same_refl: "same s s"
begin

lemma store_then_load:
  assumes "rep s m" "get_buf a n True s = (Some p, s1)" "length bs \<le> unat n"
    and "get_buf b k w (wr p bs s1) = (Some q, s2)"
  shows "rep s2 (upd m a bs) \<and> rd q (unat k) s2 = bytes (upd m a bs) b (unat k)"
  using get_law [OF put_law [OF assms(1-3) _ same_refl] assms(4)] get_law [OF assms(1,2)] by blast

lemma copy_step:
  assumes "rep s m" "get_buf src n False s = (Some p, s1)" "get_buf dst n True s1 = (Some q, s2)"
  shows "rep (wr q (rd p (unat n) s1) s2) (upd m dst (bytes m src (unat n)))"
proof -
  have 1: "rep s1 m" "rd p (unat n) s1 = bytes m src (unat n)" using get_law [OF assms(1,2)] by auto
  have "rep s2 m" using get_law [OF 1(1) assms(3)] by blast
  then show ?thesis using put_law [OF 1(1) assms(3) _ _ same_refl] 1(2) by simp
qed

lemma fill_step:
  assumes "rep s m" "get_buf a n True s = (Some p, s1)" "length bs = unat n"
  shows "rep (wr p bs s1) (upd m a bs)"
  using put_law [OF assms(1,2) _ _ same_refl] get_law [OF assms(1,2)] assms(3) by simp

end

lemma page_parts: "PAGE_START addr + of_nat (page_off addr + i) = addr + of_nat i"
proof -
  have "unat (PAGE_START addr + of_nat (page_off addr)) = unat addr"
  proof -
    have "unat (of_nat (page_off addr) :: u32) = page_off addr"
      using page_off_less [of addr] less_trans [OF page_off_less, of "2 ^ 32" addr]
      by (simp add: unat_of_nat take_bit_nat_eq_self_iff)
    moreover have "unat (PAGE_START addr) + page_off addr = unat addr"
      by (simp add: unat_PAGE_START page_off_def)
    moreover have "unat addr < 2 ^ 32" using unsigned_less [of addr, where 'a = nat] by simp
    ultimately show ?thesis by (simp add: unat_word_ariths)
  qed
  then have "PAGE_START addr + of_nat (page_off addr) = addr" by (simp add: word_unat_eq_iff)
  then show ?thesis by (simp add: add.assoc [symmetric])
qed

lemma page_bytes:
  assumes "\<forall>i < 256. d ! i = m (PAGE_START addr + of_nat i)" "length d = 256" "page_off addr + n \<le> 256"
  shows "slice d (page_off addr) n = bytes m addr n"
proof (rule nth_equalityI)
  show "length (slice d (page_off addr) n) = length (bytes m addr n)" using assms(2,3) by simp
  fix i assume "i < length (slice d (page_off addr) n)"
  then have "i < n" using assms(2,3) by simp
  moreover have "d ! (page_off addr + i) = m (PAGE_START addr + of_nat (page_off addr + i))"
    using assms(1,3) \<open>i < n\<close> by simp
  ultimately show "slice d (page_off addr) n ! i = bytes m addr n ! i"
    unfolding page_parts using assms(2,3) by (simp add: nth_slice)
qed

lemma get_buffer_page:
  assumes "get_buffer E addr sz w s = (Some p, s')"
  obtains c n where "p = (c, n, page_off addr)" "page_off addr + unat sz \<le> 256"
    "get_page E addr (if w then PAGE_PROT_RW else PAGE_PROT_RO) s = (Some (c, n), s')"
proof -
  have "sz \<noteq> 0" "sz \<le> PAGE_SIZE" and f: "fit_in_page addr sz"
    using assms by (auto simp: get_buffer_def split: if_splits)
  then have "0 < unat sz" "unat sz \<le> 256" by (auto simp: word_le_nat_alt unat_gt_0)
  with fit_in_page_iff [of "unat sz" addr] f have "page_off addr + unat sz \<le> 256" by simp
  with assms that show ?thesis
    by (auto simp: get_buffer_def unat_sub_PAGE_START split: if_splits prod.splits option.splits)
qed

lemma get_buffer_bytes:
  assumes "guest_rep E code s m" "get_buffer E addr sz w s = (Some p, s')"
  shows "guest_rep E code s' m \<and> read_at p (unat sz) s' = bytes m addr (unat sz)"
proof (rule get_buffer_page [OF assms(2)])
  fix c n assume p: "p = (c, n, page_off addr)" "page_off addr + unat sz \<le> 256"
    "get_page E addr (if w then PAGE_PROT_RW else PAGE_PROT_RO) s = (Some (c, n), s')"
  note g = get_page_bytes [OF assms(1) p(3)]
  show ?thesis using g page_bytes [of _ m addr] p(1,2) by (simp add: read_at_def)
qed

lemma put_buffer_bytes:
  assumes "guest_rep E code s m" "get_buffer E addr sz True s = (Some p, s')" "length bs \<le> unat sz"
    and "guest_rep E code t m" "mem t = mem s'"
  shows "guest_rep E code (write_at p bs t) (upd m addr bs)"
proof (rule get_buffer_page [OF assms(2)])
  fix c n assume p: "p = (c, n, page_off addr)" "page_off addr + unat sz \<le> 256"
    "get_page E addr (if True then PAGE_PROT_RW else PAGE_PROT_RO) s = (Some (c, n), s')"
  have p3: "get_page E addr PAGE_PROT_RW s = (Some (c, n), s')" using p(3) by simp
  note g = get_page_bytes [OF assms(1) p3]
  have c: "c \<noteq> SECTION_CODE" using get_cache_section(2) g by blast
  have k: "get_page_at c n t = get_page_at c n s'" using assms(5) by (simp add: get_page_at_def cache_of_def)
  have "get_cache (PAGE_START addr) PAGE_PROT_RW t = Some c"
    using g get_cache_cong [of t s] assms(5) by simp
  then show ?thesis
    unfolding p(1) using g p(2) assms(3) c k by (intro write_at_bytes [OF assms(4)]) auto
qed

interpretation guest: guest_buffers "guest_rep E code" "get_buffer E" read_at write_at
    "\<lambda>s t. mem t = mem s" for E code
proof
  fix s s' t m a n w p bs
  show "guest_rep E code s' m \<and> read_at p (unat n) s' = bytes m a (unat n)"
    if "guest_rep E code s m" "get_buffer E a n w s = (Some p, s')"
    using get_buffer_bytes [OF that] .
  show "guest_rep E code (write_at p bs t) (upd m a bs)"
    if "guest_rep E code s m" "get_buffer E a n True s = (Some p, s')" "length bs \<le> unat n"
      "guest_rep E code t m" "mem t = mem s'"
    using put_buffer_bytes [OF that] .
qed simp

end
