(* ===== verification/Ecall.thy ===== *)
theory Ecall
  imports Flat_Memory
begin

text \<open>
  The system calls of \<open>vm/src/ecall.c\<close> and \<open>sys_app_loading_start\<close> of \<open>vm/src/loading.c\<close>.
  A guest buffer is worked on in chunks that stay within a page. \<open>eret\<close> points to the register
  that receives the result: a call that has one takes the value of the register and returns the
  new one.
\<close>

section \<open>Results\<close>

text \<open>Storing \<open>eret->success\<close>, a \<open>bool\<close>, changes the low byte of the register only.\<close>

definition eret_success :: "bool \<Rightarrow> u32 \<Rightarrow> u32" where
  "eret_success b r = (r AND 0xffffff00) OR (if b then 1 else 0)"

lemma chunk_less: "sz \<noteq> 0 \<Longrightarrow> unat (sz - BUFFER_MIN_SIZE a sz) < unat sz"
  using BUFFER_MIN_SIZE_pos [of sz a] BUFFER_MIN_SIZE_le [of a sz]
  by (simp add: unat_sub word_le_nat_alt)

section \<open>Copies between the guest and the device\<close>

function copy_guest_buffer :: "env \<Rightarrow> u32 \<Rightarrow> u32 \<Rightarrow> vm \<Rightarrow> u8 list option \<times> vm" where
  "copy_guest_buffer E src sz s =
    (if sz = 0 then (Some [], s)
     else
       let n = BUFFER_MIN_SIZE src sz
       in case get_buffer E src n False s of
            (None, s) \<Rightarrow> (None, s)
          | (Some p, s) \<Rightarrow>
              (case copy_guest_buffer E (src + n) (sz - n) s of
                 (r, s') \<Rightarrow> (map_option (\<lambda>bs. read_at p (unat n) s @ bs) r, s')))"
  by pat_completeness auto
termination by (relation "measure (\<lambda>(E, src, sz, s). unat sz)") (auto simp: chunk_less)

text \<open>\<open>copy_host_buffer\<close>: \<open>bs\<close> holds the \<open>sz\<close> bytes to copy.\<close>

function copy_host_buffer :: "env \<Rightarrow> u32 \<Rightarrow> u8 list \<Rightarrow> u32 \<Rightarrow> vm \<Rightarrow> bool \<times> vm" where
  "copy_host_buffer E dst bs sz s =
    (if sz = 0 then (True, s)
     else
       let n = BUFFER_MIN_SIZE dst sz
       in case get_buffer E dst n True s of
            (None, s) \<Rightarrow> (False, s)
          | (Some p, s) \<Rightarrow>
              copy_host_buffer E (dst + n) (drop (unat n) bs) (sz - n) (write_at p (take (unat n) bs) s))"
  by pat_completeness auto
termination by (relation "measure (\<lambda>(E, dst, bs, sz, s). unat sz)") (auto simp: chunk_less)

text \<open>
  \<open>copy_guest_buffer\<close> into an array of \<open>cap\<close> bytes that may be too small: writing past it is
  undefined.
\<close>

function copy_guest_capped :: "env \<Rightarrow> nat \<Rightarrow> u32 \<Rightarrow> u32 \<Rightarrow> vm \<Rightarrow> (u8 list option \<times> vm) outcome" where
  "copy_guest_capped E cap src sz s =
    (if sz = 0 then Done (Some [], s)
     else
       let n = BUFFER_MIN_SIZE src sz
       in case get_buffer E src n False s of
            (None, s) \<Rightarrow> Done (None, s)
          | (Some p, s) \<Rightarrow>
              if unat n > cap then Undefined
              else then_do (copy_guest_capped E (cap - unat n) (src + n) (sz - n) s)
                     (\<lambda>(r, s'). Done (map_option (\<lambda>bs. read_at p (unat n) s @ bs) r, s')))"
  by pat_completeness auto
termination by (relation "measure (\<lambda>(E, cap, src, sz, s). unat sz)") (auto simp: chunk_less)

text \<open>
  \<open>copy_guest_buffer\<close> into the APDU buffer, at \<open>off\<close>: obtaining the next chunk may exchange
  pages with the host and overwrite what has been copied.
\<close>

function copy_guest_apdu :: "env \<Rightarrow> nat \<Rightarrow> u32 \<Rightarrow> u32 \<Rightarrow> vm \<Rightarrow> bool \<times> vm" where
  "copy_guest_apdu E off src sz s =
    (if sz = 0 then (True, s)
     else
       let n = BUFFER_MIN_SIZE src sz
       in case get_buffer E src n False s of
            (None, s) \<Rightarrow> (False, s)
          | (Some p, s) \<Rightarrow>
              copy_guest_apdu E (off + unat n) (src + n) (sz - n)
                (on_dev (write_buf off (read_at p (unat n) s)) s))"
  by pat_completeness auto
termination by (relation "measure (\<lambda>(E, off, src, sz, s). unat sz)") (auto simp: chunk_less)

declare copy_guest_buffer.simps [simp del] copy_host_buffer.simps [simp del]
  copy_guest_capped.simps [simp del] copy_guest_apdu.simps [simp del]

section \<open>Messages to and from the host\<close>

text \<open>
  The loop of \<open>sys_xrecv\<close>; \<open>got\<close> is \<open>eret->size\<close>. A reply carries its first byte in \<open>p2\<close>;
  \<open>p1\<close> is 1 for the last one and 2 to exit. A reply that is not the last one fills the chunk.
\<close>

function xrecv_loop :: "env \<Rightarrow> u32 \<Rightarrow> u32 \<Rightarrow> u32 \<Rightarrow> u32 \<Rightarrow> vm \<Rightarrow> bool \<times> u32 \<times> vm" where
  "xrecv_loop E addr sz counter got s =
    (if sz = 0 then (True, got, s)
     else
       let n = BUFFER_MIN_SIZE addr sz
       in case get_buffer E addr n True s of
            (None, s) \<Rightarrow> (False, got, s)
          | (Some p, s) \<Rightarrow>
              let s = on_dev (write_buf 0 (le_bytes 4 counter @ le_bytes 2 (ucast n :: u16) @
                        cmd_bytes CMD_RECV_BUFFER)) s
              in case exchange E 8 s of
                   (None, s) \<Rightarrow> (False, got, s)
                 | (Some apdu, s) \<Rightarrow>
                     if a_p1 apdu = 2 then (False, got, s)
                     else
                       let stop = (a_p1 apdu = 1); k = ucast (a_lc apdu) + 1
                       in if k > n \<or> k \<noteq> n \<and> \<not> stop then (False, got, s)
                          else
                            let s = write_at p (a_p2 apdu # take (unat (k - 1)) (a_data apdu)) s
                            in if stop then (True, got + k, s)
                               else if sz - k = 0 then (False, got + k, s)
                               else xrecv_loop E (addr + k) (sz - k) (counter + 1) (got + k) s)"
  by pat_completeness auto
termination by (relation "measure (\<lambda>(E, addr, sz, counter, got, s). unat sz)") (auto dest!: chunk_less)

declare xrecv_loop.simps [simp del]

definition sys_xrecv :: "env \<Rightarrow> u32 \<Rightarrow> u32 \<Rightarrow> vm \<Rightarrow> bool \<times> u32 \<times> vm" where
  "sys_xrecv E p_buf sz s = xrecv_loop E p_buf sz 0 0 s"

text \<open>The loop of \<open>sys_xsend\<close>: the reply to a message is ignored.\<close>

definition send_size :: "u32 \<Rightarrow> u32 \<Rightarrow> u32" where
  "send_size addr sz = min 249 (BUFFER_MIN_SIZE addr sz)"

definition send_message :: "u8 list \<Rightarrow> u32 \<Rightarrow> u8 list" where
  "send_message bs counter =
     bs @ replicate (249 - length bs) 0 @ [of_nat (length bs)] @ le_bytes 4 counter @
       cmd_bytes CMD_SEND_BUFFER"

lemma send_less: "sz \<noteq> 0 \<Longrightarrow> unat (sz - send_size a sz) < unat sz"
  using BUFFER_MIN_SIZE_pos [of sz a] BUFFER_MIN_SIZE_le [of a sz]
  by (auto simp: unat_sub word_le_nat_alt send_size_def min_def)

function xsend_loop :: "env \<Rightarrow> u32 \<Rightarrow> u32 \<Rightarrow> u32 \<Rightarrow> vm \<Rightarrow> bool \<times> vm" where
  "xsend_loop E addr sz counter s =
    (if sz = 0 then (True, s)
     else
       let n = send_size addr sz
       in case get_buffer E addr n False s of
            (None, s) \<Rightarrow> (False, s)
          | (Some p, s) \<Rightarrow>
              let c = (if sz - n = 0 then counter OR 0x80000000 else counter);
                  s = on_dev (write_buf 0 (send_message (read_at p (unat n) s) c)) s
              in case exchange E 256 s of
                   (_, s) \<Rightarrow> xsend_loop E (addr + n) (sz - n) (counter + 1) s)"
  by pat_completeness auto
termination by (relation "measure (\<lambda>(E, addr, sz, counter, s). unat sz)") (auto simp: send_less)

declare xsend_loop.simps [simp del]

definition sys_xsend :: "env \<Rightarrow> u32 \<Rightarrow> u32 \<Rightarrow> vm \<Rightarrow> bool \<times> vm" where
  "sys_xsend E p_buf sz s = xsend_loop E p_buf sz 0 s"

text \<open>The message and its padding are assembled in the APDU buffer itself.\<close>

definition sys_fatal :: "env \<Rightarrow> u32 \<Rightarrow> u32 \<Rightarrow> vm \<Rightarrow> bool \<times> vm" where
  "sys_fatal E p_msg sz s =
    (let sz = (if sz > 253 then 253 else sz)
     in case copy_guest_apdu E 0 p_msg sz s of
          (False, s) \<Rightarrow> (False, s)
        | (True, s) \<Rightarrow>
            (True, on_dev (io_transmit 256)
               (on_dev (write_buf (unat sz) (replicate (254 - unat sz) 0 @ cmd_bytes CMD_FATAL)) s)))"

definition sys_exit :: "u32 \<Rightarrow> vm \<Rightarrow> vm" where
  "sys_exit code s =
     on_dev (io_transmit 6) (on_dev (write_buf 0 (le_bytes 4 code @ cmd_bytes CMD_EXIT)) s)"

section \<open>The display\<close>

definition draw :: "ui_event \<Rightarrow> vm \<Rightarrow> vm" where
  "draw e s = s\<lparr>load := log_ui e (load s)\<rparr>"

definition sys_ux_rectangle :: "u32 \<Rightarrow> u32 \<Rightarrow> u32 \<Rightarrow> u32 \<Rightarrow> u32 \<Rightarrow> vm \<Rightarrow> vm" where
  "sys_ux_rectangle color x y width height s = draw (Draw_rect color x y width height) s"

definition sys_screen_update :: "vm \<Rightarrow> vm" where
  "sys_screen_update s = draw Screen_update s"

definition bitmap_bytes :: "u32 \<Rightarrow> u32" where
  "bitmap_bytes nbits = nbits div 8 + (if nbits mod 8 \<noteq> 0 then 1 else 0)"

text \<open>The bitmap is copied into an array of 512 bytes, whatever its length.\<close>

definition sys_ux_bitmap ::
    "env \<Rightarrow> u32 \<Rightarrow> u32 \<Rightarrow> u32 \<Rightarrow> u32 \<Rightarrow> u32 \<Rightarrow> u32 \<Rightarrow> u32 \<Rightarrow> u32 \<Rightarrow> vm \<Rightarrow> (bool \<times> vm) outcome" where
  "sys_ux_bitmap E x y width height p_colors bit_per_pixel p_bitmap nbits s =
    (case copy_guest_buffer E p_colors 8 s of
       (None, s) \<Rightarrow> Done (False, s)
     | (Some colors, s) \<Rightarrow>
         then_do (copy_guest_capped E 512 p_bitmap (bitmap_bytes nbits) s)
           (\<lambda>(r, s). case r of
              None \<Rightarrow> Done (False, s)
            | Some bitmap \<Rightarrow>
                Done (True, draw (Draw_bitmap x y width height colors bit_per_pixel bitmap nbits) s)))"

text \<open>
  The packed component is 24 bytes, and is kept as its bytes; the fields the code then copies
  one by one are those of the drawn component.
\<close>

definition sys_bagl_draw_with_context ::
    "env \<Rightarrow> u32 \<Rightarrow> u32 \<Rightarrow> u32 \<Rightarrow> u32 \<Rightarrow> vm \<Rightarrow> bool \<times> vm" where
  "sys_bagl_draw_with_context E p_component p_context context_length context_encoding s =
    (let len = (if context_length > 64 then 64 else context_length)
     in case copy_guest_buffer E p_component 24 s of
          (None, s) \<Rightarrow> (False, s)
        | (Some component, s) \<Rightarrow>
            if p_context \<noteq> 0 then
              (case copy_guest_buffer E p_context len s of
                 (None, s) \<Rightarrow> (False, s)
               | (Some ctx, s) \<Rightarrow>
                   (True, draw (Draw_with_context component (Some ctx) len context_encoding) s))
            else (True, draw (Draw_with_context component None len context_encoding) s))"

definition sys_ux_idle :: "vm \<Rightarrow> vm" where
  "sys_ux_idle s = draw App_idle s"

definition sys_app_loading_start :: "env \<Rightarrow> u32 \<Rightarrow> vm \<Rightarrow> bool \<times> vm" where
  "sys_app_loading_start E p_status s =
    (let s = s\<lparr>load := (load s)\<lparr>app_loading := True, app_loading_counter := 0\<rparr>\<rparr>
     in if p_status = 0 then (True, s\<lparr>load := draw_loading [] (load s)\<rparr>)
        else case copy_guest_buffer E p_status 31 s of
               (None, s) \<Rightarrow> (False, s)
             | (Some status, s) \<Rightarrow> (True, s\<lparr>load := draw_loading (status @ [0]) (load s)\<rparr>))"

section \<open>The buttons\<close>

definition BUTTON_EVT_FAST :: u32 where "BUTTON_EVT_FAST = 0x40000000"

definition BUTTON_EVT_RELEASED :: u32 where "BUTTON_EVT_RELEASED = 0x80000000"

definition to_button_mask :: "u32 \<Rightarrow> vm \<Rightarrow> u32 \<times> vm" where
  "to_button_mask new s =
    (let same = (if new = g_button_mask s then g_button_same_mask_counter s + 1
                 else g_button_same_mask_counter s);
         mask = g_button_mask s OR new;
         g_mask = (if new = 0 then 0 else mask);
         g_same = (if new = 0 then 0 else same);
         mask = (if new = 0 then mask OR BUTTON_EVT_RELEASED else mask);
         g_same = (if new \<noteq> g_mask then 0 else g_same);
         mask = (if same \<ge> 8 then
                   (if same mod 3 = 0 then mask OR BUTTON_EVT_FAST else mask) AND NOT BUTTON_EVT_RELEASED
                 else mask);
         s = s\<lparr>g_button_mask := g_mask, g_button_same_mask_counter := g_same\<rparr>
     in if mask AND BUTTON_EVT_RELEASED = 0 then (0, s) else (mask AND 3, s))"

text \<open>
  \<open>io_exchange_asynch_reply\<close> returns the state of the buttons at the next button event; when
  there is none to come, it never returns.
\<close>

fun wait_button :: "u32 list \<Rightarrow> vm \<Rightarrow> (u32 \<times> vm) outcome" where
  "wait_button [] s = Blocked"
| "wait_button (e # es) s =
    (let (mask, s) = to_button_mask e (s\<lparr>button_events := es\<rparr>)
     in if mask = 0 then wait_button es s else Done (mask, s))"

definition sys_wait_button :: "vm \<Rightarrow> (u32 \<times> vm) outcome" where
  "sys_wait_button s = wait_button (button_events s) s"

section \<open>Operations on the guest's memory\<close>

text \<open>\<open>memset\<close>, \<open>memcpy\<close>, \<open>strlen\<close> and \<open>strnlen\<close> run on behalf of the guest.\<close>

function memset_loop :: "env \<Rightarrow> u32 \<Rightarrow> u8 \<Rightarrow> u32 \<Rightarrow> vm \<Rightarrow> bool \<times> vm" where
  "memset_loop E addr c sz s =
    (if sz = 0 then (True, s)
     else
       let n = BUFFER_MIN_SIZE addr sz
       in case get_buffer E addr n True s of
            (None, s) \<Rightarrow> (False, s)
          | (Some p, s) \<Rightarrow>
              memset_loop E (addr + n) c (sz - n) (write_at p (replicate (unat n) c) s))"
  by pat_completeness auto
termination by (relation "measure (\<lambda>(E, addr, c, sz, s). unat sz)") (auto simp: chunk_less)

definition sys_memset :: "env \<Rightarrow> u32 \<Rightarrow> u32 \<Rightarrow> u32 \<Rightarrow> vm \<Rightarrow> bool \<times> u32 \<times> vm" where
  "sys_memset E p_s c sz s = (case memset_loop E p_s (ucast c) sz s of (b, s) \<Rightarrow> (b, p_s, s))"

definition copy_size :: "u32 \<Rightarrow> u32 \<Rightarrow> u32 \<Rightarrow> u32" where
  "copy_size dst src sz = BUFFER_MIN_SIZE src (BUFFER_MIN_SIZE dst sz)"

lemma unat_copy_size:
  "unat (copy_size dst src sz) = min (256 - page_off src) (min (256 - page_off dst) (unat sz))"
  by (simp add: copy_size_def unat_BUFFER_MIN_SIZE)

lemma copy_less: "sz \<noteq> 0 \<Longrightarrow> unat (sz - copy_size d a sz) < unat sz"
  using page_off_less [of a] page_off_less [of d] unat_gt_0 [of sz] unat_copy_size [of d a sz]
  by (subst unat_sub) (auto simp: word_le_nat_alt min_def split: if_splits)

function memcpy_loop :: "env \<Rightarrow> u32 \<Rightarrow> u32 \<Rightarrow> u32 \<Rightarrow> vm \<Rightarrow> bool \<times> vm" where
  "memcpy_loop E dst src sz s =
    (if sz = 0 then (True, s)
     else
       let n = copy_size dst src sz
       in case get_buffer E src n False s of
            (None, s) \<Rightarrow> (False, s)
          | (Some p, s) \<Rightarrow>
              let tmp = read_at p (unat n) s
              in case get_buffer E dst n True s of
                   (None, s) \<Rightarrow> (False, s)
                 | (Some q, s) \<Rightarrow> memcpy_loop E (dst + n) (src + n) (sz - n) (write_at q tmp s))"
  by pat_completeness auto
termination by (relation "measure (\<lambda>(E, dst, src, sz, s). unat sz)") (auto simp: copy_less)

definition sys_memcpy :: "env \<Rightarrow> u32 \<Rightarrow> u32 \<Rightarrow> u32 \<Rightarrow> vm \<Rightarrow> bool \<times> u32 \<times> vm" where
  "sys_memcpy E p_dst p_src sz s = (case memcpy_loop E p_dst p_src sz s of (b, s) \<Rightarrow> (b, p_dst, s))"

definition c_strnlen :: "u8 list \<Rightarrow> nat" where
  "c_strnlen bs = length (takeWhile (\<lambda>c. c \<noteq> 0) bs)"

text \<open>The loop of \<open>sys_strlen\<close> has no bound: \<open>None\<close> if it does not end.\<close>

partial_function (option) strlen_loop :: "env \<Rightarrow> u32 \<Rightarrow> u32 \<Rightarrow> vm \<Rightarrow> (bool \<times> u32 \<times> vm) option" where
  "strlen_loop E addr len s =
    (let n = BUFFER_MAX_SIZE addr; (b, s) = get_buffer E addr n False s
     in case b of
          None \<Rightarrow> Some (False, len, s)
        | Some p \<Rightarrow>
            let k = c_strnlen (read_at p (unat n) s)
            in if k < unat n then Some (True, len + of_nat k, s)
               else strlen_loop E (addr + n) (len + of_nat k) s)"

definition sys_strlen :: "env \<Rightarrow> u32 \<Rightarrow> vm \<Rightarrow> (bool \<times> u32 \<times> vm) option" where
  "sys_strlen E p_s s = strlen_loop E p_s 0 s"

function strnlen_loop :: "env \<Rightarrow> u32 \<Rightarrow> u32 \<Rightarrow> u32 \<Rightarrow> vm \<Rightarrow> bool \<times> u32 \<times> vm" where
  "strnlen_loop E addr maxlen len s =
    (if maxlen = 0 then (True, len, s)
     else
       let n = BUFFER_MIN_SIZE addr maxlen
       in case get_buffer E addr n False s of
            (None, s) \<Rightarrow> (False, len, s)
          | (Some p, s) \<Rightarrow>
              let k = c_strnlen (read_at p (unat n) s)
              in if k < unat n then (True, len + of_nat k, s)
                 else strnlen_loop E (addr + n) (maxlen - n) (len + of_nat k) s)"
  by pat_completeness auto
termination by (relation "measure (\<lambda>(E, addr, maxlen, len, s). unat maxlen)") (auto simp: chunk_less)

definition sys_strnlen :: "env \<Rightarrow> u32 \<Rightarrow> u32 \<Rightarrow> vm \<Rightarrow> bool \<times> u32 \<times> vm" where
  "sys_strnlen E p_s maxlen s = strnlen_loop E p_s maxlen 0 s"

declare memset_loop.simps [simp del] memcpy_loop.simps [simp del] strnlen_loop.simps [simp del]

end
