(* ===== verification/Uint256.thy ===== *)
theory Uint256
  imports Prelude
begin

text \<open>
  The wide integers of \<open>vm/src/uint256.c\<close>: 128 bits as two words of 64, most significant first, and
  256 bits as two of those. Functions that store through \<open>target\<close> return what they store. The
  arithmetic, the division and the conversion to a string are shown to be those of the natural
  numbers.
\<close>

section \<open>The numbers\<close>

record uint128_t =
  upper :: u64
  lower :: u64

record uint256_t =
  upper128 :: uint128_t
  lower128 :: uint128_t

definition u128 :: "u64 \<Rightarrow> u64 \<Rightarrow> uint128_t" where
  "u128 u l = \<lparr>upper = u, lower = l\<rparr>"

definition u256 :: "uint128_t \<Rightarrow> uint128_t \<Rightarrow> uint256_t" where
  "u256 u l = \<lparr>upper128 = u, lower128 = l\<rparr>"

definition zero128 :: "uint128_t \<Rightarrow> bool" where
  "zero128 n \<longleftrightarrow> lower n = 0 \<and> upper n = 0"

definition zero256 :: "uint256_t \<Rightarrow> bool" where
  "zero256 n \<longleftrightarrow> zero128 (lower128 n) \<and> zero128 (upper128 n)"

definition clear128 :: uint128_t where "clear128 = u128 0 0"

definition clear256 :: uint256_t where "clear256 = u256 clear128 clear128"

definition copy128 :: "uint128_t \<Rightarrow> uint128_t" where
  "copy128 n = u128 (upper n) (lower n)"

definition copy256 :: "uint256_t \<Rightarrow> uint256_t" where
  "copy256 n = u256 (copy128 (upper128 n)) (copy128 (lower128 n))"

section \<open>Comparison, addition and subtraction\<close>

definition equal128 :: "uint128_t \<Rightarrow> uint128_t \<Rightarrow> bool" where
  "equal128 a b \<longleftrightarrow> upper a = upper b \<and> lower a = lower b"

definition equal256 :: "uint256_t \<Rightarrow> uint256_t \<Rightarrow> bool" where
  "equal256 a b \<longleftrightarrow> equal128 (upper128 a) (upper128 b) \<and> equal128 (lower128 a) (lower128 b)"

definition gt128 :: "uint128_t \<Rightarrow> uint128_t \<Rightarrow> bool" where
  "gt128 a b = (if upper a = upper b then lower a > lower b else upper a > upper b)"

definition gt256 :: "uint256_t \<Rightarrow> uint256_t \<Rightarrow> bool" where
  "gt256 a b = (if equal128 (upper128 a) (upper128 b) then gt128 (lower128 a) (lower128 b)
                else gt128 (upper128 a) (upper128 b))"

definition gte128 :: "uint128_t \<Rightarrow> uint128_t \<Rightarrow> bool" where
  "gte128 a b \<longleftrightarrow> gt128 a b \<or> equal128 a b"

definition gte256 :: "uint256_t \<Rightarrow> uint256_t \<Rightarrow> bool" where
  "gte256 a b \<longleftrightarrow> gt256 a b \<or> equal256 a b"

definition add128 :: "uint128_t \<Rightarrow> uint128_t \<Rightarrow> uint128_t" where
  "add128 a b = u128 (upper a + upper b + (if lower a + lower b < lower a then 1 else 0)) (lower a + lower b)"

definition add256 :: "uint256_t \<Rightarrow> uint256_t \<Rightarrow> uint256_t" where
  "add256 a b =
    (let t = add128 (upper128 a) (upper128 b); tmp = add128 (lower128 a) (lower128 b);
         t = (if gt128 (lower128 a) tmp then add128 t (u128 0 1) else t)
     in u256 t (add128 (lower128 a) (lower128 b)))"

definition minus128 :: "uint128_t \<Rightarrow> uint128_t \<Rightarrow> uint128_t" where
  "minus128 a b = u128 (upper a - upper b - (if lower a - lower b > lower a then 1 else 0)) (lower a - lower b)"

definition minus256 :: "uint256_t \<Rightarrow> uint256_t \<Rightarrow> uint256_t" where
  "minus256 a b =
    (let t = minus128 (upper128 a) (upper128 b); tmp = minus128 (lower128 a) (lower128 b);
         t = (if gt128 tmp (lower128 a) then minus128 t (u128 0 1) else t)
     in u256 t (minus128 (lower128 a) (lower128 b)))"

definition or128 :: "uint128_t \<Rightarrow> uint128_t \<Rightarrow> uint128_t" where
  "or128 a b = u128 (upper a OR upper b) (lower a OR lower b)"

definition or256 :: "uint256_t \<Rightarrow> uint256_t \<Rightarrow> uint256_t" where
  "or256 a b = u256 (or128 (upper128 a) (upper128 b)) (or128 (lower128 a) (lower128 b))"

section \<open>Shifts\<close>

definition shiftl128 :: "uint128_t \<Rightarrow> u32 \<Rightarrow> uint128_t" where
  "shiftl128 n value =
    (let v = unat value in
     if v \<ge> 128 then clear128
     else if v = 64 then u128 (lower n) 0
     else if v = 0 then copy128 n
     else if v < 64 then
       u128 (push_bit v (upper n) + drop_bit (64 - v) (lower n)) (push_bit v (lower n))
     else u128 (push_bit (v - 64) (lower n)) 0)"

definition shiftr128 :: "uint128_t \<Rightarrow> u32 \<Rightarrow> uint128_t" where
  "shiftr128 n value =
    (let v = unat value in
     if v \<ge> 128 then clear128
     else if v = 64 then u128 0 (upper n)
     else if v = 0 then copy128 n
     else if v < 64 then
       u128 (drop_bit v (upper n)) (push_bit (64 - v) (upper n) + drop_bit v (lower n))
     else u128 0 (drop_bit (v - 64) (upper n)))"

definition shiftl256 :: "uint256_t \<Rightarrow> u32 \<Rightarrow> uint256_t" where
  "shiftl256 n value =
    (let u = upper128 n; l = lower128 n in
     if value \<ge> 256 then clear256
     else if value = 128 then u256 (copy128 l) clear128
     else if value = 0 then copy256 n
     else if value < 128 then
       u256 (add128 (shiftl128 u value) (shiftr128 l (128 - value))) (shiftl128 l value)
     else u256 (shiftl128 l (value - 128)) clear128)"

definition shiftr256 :: "uint256_t \<Rightarrow> u32 \<Rightarrow> uint256_t" where
  "shiftr256 n value =
    (let u = upper128 n; l = lower128 n in
     if value \<ge> 256 then clear256
     else if value = 128 then u256 clear128 (copy128 u)
     else if value = 0 then copy256 n
     else if value < 128 then
       u256 (shiftr128 u value) (add128 (shiftr128 l value) (shiftl128 u (128 - value)))
     else u256 clear128 (shiftr128 u (value - 128)))"

section \<open>The values\<close>

definition val128 :: "uint128_t \<Rightarrow> nat" where
  "val128 n = unat (upper n) * 2 ^ 64 + unat (lower n)"

definition val256 :: "uint256_t \<Rightarrow> nat" where
  "val256 n = val128 (upper128 n) * 2 ^ 128 + val128 (lower128 n)"

lemma u128_sel [simp]: "upper (u128 a b) = a" "lower (u128 a b) = b"
  by (simp_all add: u128_def)

lemma u256_sel [simp]: "upper128 (u256 a b) = a" "lower128 (u256 a b) = b"
  by (simp_all add: u256_def)

lemma copy_id [simp]: "copy128 n = n" "copy256 m = m"
  by (simp_all add: copy128_def copy256_def u128_def u256_def)

lemma u64_lt: "unat (w :: u64) < 2 ^ 64"
  using unsigned_less [of w, where 'a = nat] by simp

lemma val128_lt: "val128 n < 2 ^ 128"
  using u64_lt [of "upper n"] u64_lt [of "lower n"] by (simp add: val128_def)

lemma val256_lt: "val256 n < 2 ^ 256"
  using val128_lt [of "upper128 n"] val128_lt [of "lower128 n"] by (simp add: val256_def)

lemma val_clear [simp]: "val128 clear128 = 0" "val256 clear256 = 0"
  by (simp_all add: val128_def val256_def clear128_def clear256_def)

lemma val128_eq_iff: "val128 a = val128 b \<longleftrightarrow> a = b"
proof
  assume e: "val128 a = val128 b"
  note lt = u64_lt [of "lower a"] u64_lt [of "lower b"]
  have "unat (upper a) = unat (upper b)"
    using arg_cong [OF e, of "\<lambda>x. x div 2 ^ 64"] lt by (simp add: val128_def)
  moreover from this e have "unat (lower a) = unat (lower b)" by (simp add: val128_def)
  ultimately show "a = b" by (simp add: word_unat_eq_iff)
qed simp

lemma zero128_val: "zero128 n \<longleftrightarrow> val128 n = 0"
  by (auto simp: zero128_def val128_def unat_eq_0)

lemma zero256_val: "zero256 n \<longleftrightarrow> val256 n = 0"
  by (auto simp: zero256_def val256_def zero128_val)

lemma gt128_val: "gt128 a b \<longleftrightarrow> val128 b < val128 a"
  using u64_lt [of "lower a"] u64_lt [of "lower b"]
  by (auto simp: gt128_def val128_def word_less_nat_alt word_unat_eq_iff)

lemma equal128_val: "equal128 a b \<longleftrightarrow> val128 a = val128 b"
  by (auto simp: val128_eq_iff equal128_def intro: uint128_t.equality)

lemma gt256_val: "gt256 a b \<longleftrightarrow> val256 b < val256 a"
  using val128_lt [of "lower128 a"] val128_lt [of "lower128 b"]
  by (auto simp: gt256_def val256_def gt128_val equal128_val)

lemma equal256_val: "equal256 a b \<longleftrightarrow> val256 a = val256 b"
proof
  assume e: "val256 a = val256 b"
  note lt = val128_lt [of "lower128 a"] val128_lt [of "lower128 b"]
  have "val128 (upper128 a) = val128 (upper128 b)"
    using arg_cong [OF e, of "\<lambda>x. x div 2 ^ 128"] lt by (simp add: val256_def)
  then show "equal256 a b" using e by (simp add: val256_def equal256_def equal128_val)
qed (simp add: equal256_def equal128_val val256_def)

lemma gte_val: "gte128 a b \<longleftrightarrow> val128 b \<le> val128 a" "gte256 c d \<longleftrightarrow> val256 d \<le> val256 c"
  by (auto simp: gte128_def gte256_def gt128_val gt256_val equal128_val equal256_val)

text \<open>Joining two halves modulo the square.\<close>

lemma mod_join:
  fixes x y N :: nat
  assumes "y < N"
  shows "x mod N * N + y = (x * N + y) mod (N * N)"
proof -
  have "(x * N + y) div N = x" "(x * N + y) mod N = y" using assms by auto
  then show ?thesis by (simp add: mod_mult2_eq mult.commute)
qed

lemma squares: "(2 :: nat) ^ 128 = 2 ^ 64 * 2 ^ 64" "(2 :: nat) ^ 256 = 2 ^ 128 * 2 ^ 128"
  by (simp_all flip: power_add)

lemma val128_add: "val128 (add128 a b) = (val128 a + val128 b) mod 2 ^ 128"
proof -
  obtain u l u' l' where n: "unat (upper a) = u" "unat (lower a) = l" "unat (upper b) = u'" "unat (lower b) = l'"
    and lt: "u < 2 ^ 64" "l < 2 ^ 64" "u' < 2 ^ 64" "l' < 2 ^ 64" using u64_lt by blast
  have s: "unat (lower a + lower b) = (if l + l' < 2 ^ 64 then l + l' else l + l' - 2 ^ 64)"
    using lt by (simp add: unat_plus_if' n)
  have c: "lower a + lower b < lower a \<longleftrightarrow> 2 ^ 64 \<le> l + l'"
    using lt by (auto simp: word_less_nat_alt s n)
  define k :: nat where "k = (if 2 ^ 64 \<le> l + l' then 1 else 0)"
  have "unat (upper (add128 a b)) = (u + u' + k) mod 2 ^ 64"
    by (simp add: add128_def c k_def unat_word_ariths n mod_simps)
  moreover have "unat (lower (add128 a b)) = l + l' - k * 2 ^ 64"
    using s by (simp add: add128_def k_def)
  moreover have "(u + u' + k) mod 2 ^ 64 * 2 ^ 64 + (l + l' - k * 2 ^ 64) =
      ((u + u' + k) * 2 ^ 64 + (l + l' - k * 2 ^ 64)) mod 2 ^ 128"
    unfolding squares by (rule mod_join) (use lt in \<open>auto simp: k_def\<close>)
  moreover have "(u + u' + k) * 2 ^ 64 + (l + l' - k * 2 ^ 64) = val128 a + val128 b"
    by (simp add: k_def val128_def n)
  ultimately show ?thesis by (simp add: val128_def)
qed


lemma val_mod [simp]: "val128 n mod 2 ^ 128 = val128 n" "val256 m mod 2 ^ 256 = val256 m"
  by (rule mod_less, rule val128_lt, rule mod_less, rule val256_lt)

text \<open>A carry of the lower halves.\<close>

lemma carry_mod:
  fixes x y N :: nat
  assumes "x < N" "y < N"
  shows "(x + y) mod N < x \<longleftrightarrow> N \<le> x + y" "x + y = (x + y) mod N + (if N \<le> x + y then N else 0)"
  using assms by (auto simp: mod_if)

lemma val256_add: "val256 (add256 a b) = (val256 a + val256 b) mod 2 ^ 256"
proof -
  let ?N = "2 ^ 128 :: nat"
  obtain u l u' l' where n: "val128 (upper128 a) = u" "val128 (lower128 a) = l"
      "val128 (upper128 b) = u'" "val128 (lower128 b) = l'"
    and lt: "l < ?N" "l' < ?N" using val128_lt by blast
  define k :: nat where "k = (if ?N \<le> l + l' then 1 else 0)"
  have c: "gt128 (lower128 a) (add128 (lower128 a) (lower128 b)) \<longleftrightarrow> ?N \<le> l + l'"
    using carry_mod(1) [OF lt] by (simp add: gt128_val val128_add n)
  have one: "val128 (u128 0 1) = 1" by (simp add: val128_def)
  have "val128 (upper128 (add256 a b)) = (u + u' + k) mod ?N"
    by (simp add: add256_def Let_def c k_def val128_add n one mod_simps)
  moreover have "val128 (lower128 (add256 a b)) = (l + l') mod ?N"
    by (simp add: add256_def Let_def val128_add n)
  moreover have "(u + u' + k) mod ?N * ?N + (l + l') mod ?N = ((u + u' + k) * ?N + (l + l') mod ?N) mod 2 ^ 256"
    unfolding squares(2) by (rule mod_join) simp
  moreover have "(u + u' + k) * ?N + (l + l') mod ?N = val256 a + val256 b"
  proof -
    have e: "(l + l') mod ?N + k * ?N = l + l'"
      using carry_mod(2) [OF lt] by (cases "?N \<le> l + l'") (simp_all add: k_def)
    have "(u + u' + k) * ?N + (l + l') mod ?N = (u + u') * ?N + ((l + l') mod ?N + k * ?N)"
      by (simp only: distrib_right ac_simps)
    then show ?thesis unfolding e by (simp only: val256_def n distrib_right ac_simps)
  qed
  ultimately show ?thesis unfolding val256_def by metis
qed

lemma add_minus128: "add128 (minus128 a b) b = a"
  by (intro uint128_t.equality) (auto simp: add128_def minus128_def)

lemma minus_less:
  fixes d x y N :: nat
  assumes "(d + y) mod N = x" "d < N" "y \<le> x" "x < N"
  shows "d = x - y"
proof (cases "d + y < N")
  case True
  then show ?thesis using assms by simp
next
  case False
  then have "(d + y) mod N = d + y - N" using assms by (auto simp: mod_if)
  then show ?thesis using assms False by linarith
qed

lemma val128_minus: "val128 b \<le> val128 a \<Longrightarrow> val128 (minus128 a b) = val128 a - val128 b"
  using val128_add [of "minus128 a b" b] add_minus128 [of a b]
  by (intro minus_less [OF _ val128_lt _ val128_lt]) simp_all

lemma add128_cong: "val128 a + val128 b = val128 c + val128 d \<Longrightarrow> add128 a b = add128 c d"
  by (simp flip: val128_eq_iff add: val128_add)

lemma add128_swap: "add128 (add128 a b) c = add128 (add128 a c) b"
  by (simp flip: val128_eq_iff add: val128_add mod_simps) (simp add: ac_simps)

lemma add_minus256: "add256 (minus256 a b) b = a"
proof -
  have "add128 (add128 (minus128 (minus128 u v) w) v) w = u" for u v w
    using add128_swap [of "minus128 (minus128 u v) w" v w] by (simp add: add_minus128)
  then show ?thesis
    by (intro uint256_t.equality) (auto simp: add256_def minus256_def Let_def add_minus128)
qed

lemma val256_minus: "val256 b \<le> val256 a \<Longrightarrow> val256 (minus256 a b) = val256 a - val256 b"
  using val256_add [of "minus256 a b" b] add_minus256 [of a b]
  by (intro minus_less [OF _ val256_lt _ val256_lt]) simp_all

section \<open>Shifts on bits\<close>

text \<open>A word made of two halves, and its shifts in terms of the halves.\<close>

definition join :: "'a::len word \<Rightarrow> 'a word \<Rightarrow> 'b::len word" where
  "join h l = push_bit LENGTH('a) (ucast h) OR ucast l"

lemma bit_join:
  fixes h l :: "'a::len word"
  assumes "LENGTH('b) = LENGTH('a) + LENGTH('a)"
  shows "bit (join h l :: 'b::len word) i \<longleftrightarrow>
    (if i < LENGTH('a) then bit l i else bit h (i - LENGTH('a)))"
  using assms bit_imp_le_length [of l i] bit_imp_le_length [of h "i - LENGTH('a)"]
  by (auto simp: join_def bit_or_iff bit_push_bit_iff bit_word_ucast_iff)

lemma bit_plus_disjoint:
  fixes x y :: "'a::len word"
  assumes "\<And>i. \<not> (bit x i \<and> bit y i)"
  shows "bit (x + y) i \<longleftrightarrow> bit x i \<or> bit y i"
proof -
  have "x + y = x OR y" by (rule disjunctive_add) (use assms in blast)
  then show ?thesis by (simp add: bit_or_iff)
qed

lemma join_shiftl:
  fixes h l :: "'a::len word"
  assumes len: "LENGTH('b) = LENGTH('a) + LENGTH('a)" and v: "0 < v" "v < LENGTH('a)"
  shows "join (push_bit v h + drop_bit (LENGTH('a) - v) l) (push_bit v l) =
    (push_bit v (join h l) :: 'b::len word)"
proof (rule bit_word_eqI)
  let ?K = "LENGTH('a)"
  fix i assume i: "i < LENGTH('b)"
  have no: "\<not> (bit (push_bit v h) j \<and> bit (drop_bit (?K - v) l) j)" for j
    using v by (auto simp: bit_push_bit_iff bit_drop_bit_eq dest: bit_imp_le_length)
  consider "i < v" | "v \<le> i" "i < ?K" | "?K \<le> i" "i < ?K + v" | "?K + v \<le> i" by linarith
  then show "bit (join (push_bit v h + drop_bit (?K - v) l) (push_bit v l) :: 'b word) i =
      bit (push_bit v (join h l) :: 'b word) i"
  proof cases
    case 3
    then have "?K - v + (i - ?K) = i - v" "i - v < ?K" using v by auto
    then show ?thesis using 3 i v len
      by (auto simp: bit_join [OF len] bit_plus_disjoint [OF no] bit_push_bit_iff bit_drop_bit_eq)
  next
    case 4
    then have "i - ?K - v = i - v - ?K" "?K \<le> ?K - v + (i - ?K)" using v by auto
    then show ?thesis using 4 i v len bit_imp_le_length [of l "?K - v + (i - ?K)"]
      by (auto simp: bit_join [OF len] bit_plus_disjoint [OF no] bit_push_bit_iff bit_drop_bit_eq)
  qed (use i v len in \<open>auto simp: bit_join [OF len] bit_plus_disjoint [OF no] bit_push_bit_iff bit_drop_bit_eq\<close>)
qed

lemma join_shiftr:
  fixes h l :: "'a::len word"
  assumes len: "LENGTH('b) = LENGTH('a) + LENGTH('a)" and v: "0 < v" "v < LENGTH('a)"
  shows "join (drop_bit v h) (push_bit (LENGTH('a) - v) h + drop_bit v l) =
    (drop_bit v (join h l) :: 'b::len word)"
proof (rule bit_word_eqI)
  let ?K = "LENGTH('a)"
  fix i assume i: "i < LENGTH('b)"
  have no: "\<not> (bit (push_bit (?K - v) h) j \<and> bit (drop_bit v l) j)" for j
    using v by (auto simp: bit_push_bit_iff bit_drop_bit_eq dest: bit_imp_le_length)
  consider "v + i < ?K" | "?K \<le> v + i" "i < ?K" | "?K \<le> i" by linarith
  then show "bit (join (drop_bit v h) (push_bit (?K - v) h + drop_bit v l) :: 'b word) i =
      bit (drop_bit v (join h l) :: 'b word) i"
  proof cases
    case 1
    then show ?thesis using i v len
      by (auto simp: bit_join [OF len] bit_plus_disjoint [OF no] bit_push_bit_iff bit_drop_bit_eq)
  next
    case 2
    then have "i - (?K - v) = v + i - ?K" "?K - v \<le> i" using v by auto
    then show ?thesis using 2 i v len bit_imp_le_length [of l "v + i"]
      by (auto simp: bit_join [OF len] bit_plus_disjoint [OF no] bit_push_bit_iff bit_drop_bit_eq)
  next
    case 3
    then have "v + (i - ?K) = v + i - ?K" by simp
    then show ?thesis using 3 i v len
      by (auto simp: bit_join [OF len] bit_drop_bit_eq)
  qed
qed

lemma join_shift_half:
  fixes h l :: "'a::len word"
  assumes len: "LENGTH('b) = LENGTH('a) + LENGTH('a)"
  shows "join (push_bit v l) 0 = (push_bit (LENGTH('a) + v) (join h l) :: 'b::len word)"
    "join 0 (drop_bit v h) = (drop_bit (LENGTH('a) + v) (join h l) :: 'b::len word)"
    "join (0 :: 'a word) 0 = (0 :: 'b word)"
proof -
  have "bit (join (push_bit v l) 0 :: 'b word) i = bit (push_bit (LENGTH('a) + v) (join h l) :: 'b word) i"
    if "i < LENGTH('b)" for i
  proof (cases "LENGTH('a) + v \<le> i")
    case True
    then have "i - LENGTH('a) - v = i - (LENGTH('a) + v)" "i - (LENGTH('a) + v) < LENGTH('a)"
      using that len by auto
    then show ?thesis using True that len by (auto simp: bit_join [OF len] bit_push_bit_iff)
  next
    case False
    then show ?thesis by (auto simp: bit_join [OF len] bit_push_bit_iff)
  qed
  then show "join (push_bit v l) 0 = (push_bit (LENGTH('a) + v) (join h l) :: 'b word)"
    by (rule bit_word_eqI)
  have "bit (join 0 (drop_bit v h) :: 'b word) i = bit (drop_bit (LENGTH('a) + v) (join h l) :: 'b word) i"
    if "i < LENGTH('b)" for i
  proof -
    have "LENGTH('a) + v + i - LENGTH('a) = v + i" by simp
    then show ?thesis
      using bit_imp_le_length [of h "v + i"] by (auto simp: bit_join [OF len] bit_drop_bit_eq)
  qed
  then show "join 0 (drop_bit v h) = (drop_bit (LENGTH('a) + v) (join h l) :: 'b word)"
    by (rule bit_word_eqI)
  show "join (0 :: 'a word) 0 = (0 :: 'b word)" by (rule bit_word_eqI) (simp add: bit_join [OF len])
qed

lemma push_bit_all: "LENGTH('a) \<le> k \<Longrightarrow> push_bit k (w :: 'a::len word) = 0"
  by (rule bit_word_eqI) (auto simp: bit_push_bit_iff)

lemma drop_bit_all: "LENGTH('a) \<le> k \<Longrightarrow> drop_bit k (w :: 'a::len word) = 0"
  by (rule bit_word_eqI) (auto simp: bit_drop_bit_eq dest: bit_imp_le_length)

lemma unat_push_bit: "unat (push_bit k w :: 'a::len word) = unat w * 2 ^ k mod 2 ^ LENGTH('a)"
  unfolding unsigned_push_bit_eq by (simp add: push_bit_eq_mult take_bit_eq_mod)

lemma unat_drop_bit: "unat (drop_bit k w :: 'a::len word) = unat w div 2 ^ k"
proof -
  have "unat (drop_bit k w) = drop_bit k (unat w)"
    by (rule bit_eqI) (auto simp: bit_unsigned_iff bit_drop_bit_eq possible_bit_def dest: bit_imp_le_length)
  then show ?thesis by (simp add: drop_bit_eq_div)
qed

lemma unat_join:
  fixes h l :: "'a::len word"
  assumes len: "LENGTH('b) = LENGTH('a) + LENGTH('a)"
  shows "unat (join h l :: 'b::len word) = unat h * 2 ^ LENGTH('a) + unat l"
proof -
  have lt: "unat h < 2 ^ LENGTH('a)" "unat l < 2 ^ LENGTH('a)" by (rule unsigned_less)+
  have u: "unat (ucast w :: 'b word) = unat w" if "unat w < 2 ^ LENGTH('a)" for w :: "'a word"
    using that len less_le_trans [OF that, of "2 ^ LENGTH('b)"]
    by (simp add: unsigned_ucast_eq take_bit_nat_eq_self)
  have "Suc (unat h) * 2 ^ LENGTH('a) \<le> 2 ^ LENGTH('a) * 2 ^ LENGTH('a)"
    using lt(1) by (intro mult_le_mono) (simp_all add: Suc_le_eq)
  then have bound: "unat h * 2 ^ LENGTH('a) + unat l < 2 ^ LENGTH('b)"
    using lt(2) unfolding len power_add mult_Suc by linarith
  have "(join h l :: 'b word) = push_bit LENGTH('a) (ucast h) + ucast l"
    unfolding join_def
    by (rule disjunctive_add [symmetric])
      (auto simp: bit_push_bit_iff bit_word_ucast_iff dest: bit_imp_le_length)
  also have "unat \<dots> = unat h * 2 ^ LENGTH('a) + unat l"
    using bound u [OF lt(1)] u [OF lt(2)]
    by (simp add: unat_word_ariths unat_push_bit mod_simps)
  finally show ?thesis .
qed


text \<open>The numbers as words of 128 and 256 bits.\<close>

definition w128 :: "uint128_t \<Rightarrow> 128 word" where
  "w128 n = join (upper n) (lower n)"

definition w256 :: "uint256_t \<Rightarrow> 256 word" where
  "w256 n = join (w128 (upper128 n)) (w128 (lower128 n))"

lemma unat_w128: "unat (w128 n) = val128 n"
  unfolding w128_def val128_def by (subst unat_join) simp_all

lemma unat_w256: "unat (w256 n) = val256 n"
  unfolding w256_def val256_def by (subst unat_join) (simp_all add: unat_w128)

lemma w128_add: "w128 (add128 a b) = w128 a + w128 b"
  unfolding word_unat_eq_iff unat_word_ariths unat_w128 val128_add by simp

lemma w128_shiftl: "w128 (shiftl128 n v) = push_bit (unat v) (w128 n)"
proof -
  have len: "LENGTH(128) = LENGTH(64) + LENGTH(64)" by simp
  consider "128 \<le> unat v" | "unat v = 64" | "unat v = 0" | "0 < unat v" "unat v < 64"
    | "64 < unat v" "unat v < 128" by linarith
  then show ?thesis
  proof cases
    case 4
    then show ?thesis
      using join_shiftl [where 'b = 128, OF len, of "unat v" "upper n" "lower n"]
      by (simp add: shiftl128_def Let_def w128_def)
  qed (use join_shift_half(1) [where 'b = 128, OF len, of "unat v - 64" "lower n" "upper n"]
      join_shift_half(3) [where 'b = 128, OF len] push_bit_all [where 'a = 128, of "unat v" "w128 n"]
      in \<open>auto simp: shiftl128_def Let_def w128_def clear128_def\<close>)
qed

lemma w128_shiftr: "w128 (shiftr128 n v) = drop_bit (unat v) (w128 n)"
proof -
  have len: "LENGTH(128) = LENGTH(64) + LENGTH(64)" by simp
  consider "128 \<le> unat v" | "unat v = 64" | "unat v = 0" | "0 < unat v" "unat v < 64"
    | "64 < unat v" "unat v < 128" by linarith
  then show ?thesis
  proof cases
    case 4
    then show ?thesis
      using join_shiftr [where 'b = 128, OF len, of "unat v" "upper n" "lower n"]
      by (simp add: shiftr128_def Let_def w128_def)
  qed (use join_shift_half(2) [where 'b = 128, OF len, of "unat v - 64" "upper n" "lower n"]
      join_shift_half(3) [where 'b = 128, OF len] drop_bit_all [where 'a = 128, of "unat v" "w128 n"]
      in \<open>auto simp: shiftr128_def Let_def w128_def clear128_def\<close>)
qed

lemma w128_clear: "w128 clear128 = 0"
  by (simp add: clear128_def w128_def join_def)

lemma u32_values: "v = 128 \<longleftrightarrow> unat (v :: u32) = 128" "v = 0 \<longleftrightarrow> unat v = 0"
  "v < 128 \<longleftrightarrow> unat v < 128" "v \<ge> 256 \<longleftrightarrow> 256 \<le> unat v"
  "unat v < 128 \<Longrightarrow> unat (128 - v) = 128 - unat v" "128 \<le> unat v \<Longrightarrow> unat (v - 128) = unat v - 128"
  by (auto simp: word_unat_eq_iff word_less_nat_alt word_le_nat_alt unat_sub)

lemma w256_shiftl: "w256 (shiftl256 n v) = push_bit (unat v) (w256 n)"
proof -
  have len: "LENGTH(256) = LENGTH(128) + LENGTH(128)" by simp
  let ?u = "w128 (upper128 n)" and ?l = "w128 (lower128 n)"
  consider "256 \<le> unat v" | "unat v = 128" | "unat v = 0" | "0 < unat v" "unat v < 128"
    | "128 < unat v" "unat v < 256" by linarith
  then show ?thesis
  proof cases
    case 4
    then show ?thesis
      using join_shiftl [where 'b = 256, OF len, of "unat v" ?u ?l]
      by (simp add: shiftl256_def Let_def w256_def u32_values w128_add w128_shiftl w128_shiftr)
  qed (use join_shift_half(1) [where 'b = 256, OF len, of "unat v - 128" ?l ?u]
      join_shift_half(3) [where 'b = 256, OF len] push_bit_all [where 'a = 256, of "unat v" "w256 n"]
      in \<open>auto simp: shiftl256_def Let_def w256_def clear256_def u32_values w128_shiftl w128_clear\<close>)
qed

lemma w256_shiftr: "w256 (shiftr256 n v) = drop_bit (unat v) (w256 n)"
proof -
  have len: "LENGTH(256) = LENGTH(128) + LENGTH(128)" by simp
  let ?u = "w128 (upper128 n)" and ?l = "w128 (lower128 n)"
  consider "256 \<le> unat v" | "unat v = 128" | "unat v = 0" | "0 < unat v" "unat v < 128"
    | "128 < unat v" "unat v < 256" by linarith
  then show ?thesis
  proof cases
    case 4
    then show ?thesis
      using join_shiftr [where 'b = 256, OF len, of "unat v" ?u ?l]
      unfolding add.commute [of "push_bit (LENGTH(128) - unat v) ?u"]
      by (simp add: shiftr256_def Let_def w256_def u32_values w128_add w128_shiftl w128_shiftr)
  qed (use join_shift_half(2) [where 'b = 256, OF len, of "unat v - 128" ?u ?l]
      join_shift_half(3) [where 'b = 256, OF len] drop_bit_all [where 'a = 256, of "unat v" "w256 n"]
      in \<open>auto simp: shiftr256_def Let_def w256_def clear256_def u32_values w128_shiftr w128_clear\<close>)
qed

lemma val_shift:
  "val128 (shiftl128 n v) = val128 n * 2 ^ unat v mod 2 ^ 128" "val128 (shiftr128 n v) = val128 n div 2 ^ unat v"
  "val256 (shiftl256 m v) = val256 m * 2 ^ unat v mod 2 ^ 256" "val256 (shiftr256 m v) = val256 m div 2 ^ unat v"
  by (simp_all flip: unat_w128 unat_w256
      add: w128_shiftl w128_shiftr w256_shiftl w256_shiftr unat_push_bit unat_drop_bit)


section \<open>Bit lengths\<close>

function bits64_loop :: "u64 \<Rightarrow> u32 \<Rightarrow> u32" where
  "bits64_loop w result = (if w = 0 then result else bits64_loop (drop_bit 1 w) (result + 1))"
  by pat_completeness auto
termination
  by (relation "measure (\<lambda>(w, r). unat w)") (auto simp: unat_drop_bit unat_gt_0)

definition bits128 :: "uint128_t \<Rightarrow> u32" where
  "bits128 n = (if upper n \<noteq> 0 then bits64_loop (upper n) 64 else bits64_loop (lower n) 0)"

function bits128_loop :: "uint128_t \<Rightarrow> u32 \<Rightarrow> u32" where
  "bits128_loop n result = (if zero128 n then result else bits128_loop (shiftr128 n 1) (result + 1))"
  by pat_completeness auto
termination
  by (relation "measure (\<lambda>(n, r). val128 n)") (auto simp: val_shift zero128_val)

definition bits256 :: "uint256_t \<Rightarrow> u32" where
  "bits256 n = (if \<not> zero128 (upper128 n) then bits128_loop (copy128 (upper128 n)) 128
                else bits128_loop (copy128 (lower128 n)) 0)"

declare bits64_loop.simps [simp del] bits128_loop.simps [simp del]

fun bit_len :: "nat \<Rightarrow> nat" where
  "bit_len n = (if n = 0 then 0 else Suc (bit_len (n div 2)))"

declare bit_len.simps [simp del]

lemma bit_len_bounds: "n < 2 ^ bit_len n" "n \<noteq> 0 \<Longrightarrow> 2 ^ (bit_len n - 1) \<le> n"
proof (induction n rule: bit_len.induct)
  case (1 n)
  {
    case 1
    show ?case using \<open>n \<noteq> 0 \<Longrightarrow> n div 2 < 2 ^ bit_len (n div 2)\<close> bit_len.simps [of n] by auto
  next
    case 2
    show ?case
    proof (cases "n div 2 = 0")
      case True
      then show ?thesis using 2 bit_len.simps [of n] bit_len.simps [of 0] by simp
    next
      case False
      then have "2 ^ (bit_len (n div 2) - 1) \<le> n div 2" using 1(2) 2 by simp
      moreover have "bit_len (n div 2) \<noteq> 0" using False bit_len.simps [of "n div 2"] by simp
      ultimately show ?thesis
        using 2 bit_len.simps [of n] by (cases "bit_len (n div 2)") auto
    qed
  }
qed

lemma bit_len_unique:
  assumes "2 ^ k \<le> n" "n < 2 ^ Suc k"
  shows "bit_len n = Suc k"
proof -
  have n: "n \<noteq> 0" using assms(1) by (metis not_less_zero power_eq_0_iff le_zero_eq zero_neq_numeral)
  have "(2 :: nat) ^ k < 2 ^ bit_len n" by (rule le_less_trans [OF assms(1) bit_len_bounds(1)])
  moreover have "(2 :: nat) ^ (bit_len n - 1) < 2 ^ Suc k"
    by (rule le_less_trans [OF bit_len_bounds(2) [OF n] assms(2)])
  ultimately have "k < bit_len n" "bit_len n - 1 < Suc k"
    by (simp_all only: power_strict_increasing_iff one_less_numeral_iff semiring_norm)
  then show ?thesis by simp
qed

lemma bits64_loop_val: "unat w < 2 ^ 64 \<Longrightarrow> bits64_loop w r = r + of_nat (bit_len (unat w))"
proof (induction w r rule: bits64_loop.induct)
  case (1 w r)
  have "unat w div 2 < 2 ^ 64" using 1(2) by simp
  then show ?case
    using 1(1) by (simp add: bits64_loop.simps [of w] bit_len.simps [of "unat w"] unat_drop_bit unat_eq_0)
qed

lemma bits128_loop_val: "bits128_loop n r = r + of_nat (bit_len (val128 n))"
proof (induction n r rule: bits128_loop.induct)
  case (1 n r)
  then show ?case
    by (simp add: bits128_loop.simps [of n] bit_len.simps [of "val128 n"] zero128_val val_shift)
qed

text \<open>The length of a number made of two halves.\<close>

lemma bit_len_join:
  assumes "h \<noteq> 0" "l < 2 ^ m"
  shows "bit_len (h * 2 ^ m + l) = m + bit_len h"
proof -
  obtain k where k: "bit_len h = Suc k" using assms(1) bit_len.simps [of h] by auto
  have b: "2 ^ k \<le> h" "h < 2 ^ Suc k" using bit_len_bounds [of h] assms(1) k by auto
  have "2 ^ k * 2 ^ m \<le> h * 2 ^ m" using b(1) by (rule mult_le_mono1)
  then have "2 ^ (m + k) \<le> h * 2 ^ m + l" unfolding power_add mult.commute [of "2 ^ m" "2 ^ k"] by linarith
  moreover have "h * 2 ^ m + l < 2 ^ Suc (m + k)"
  proof -
    have "Suc h * 2 ^ m \<le> 2 ^ Suc k * 2 ^ m" using b(2) by (intro mult_le_mono1) simp
    moreover have "2 ^ Suc (m + k) = 2 ^ Suc k * (2 :: nat) ^ m" by (simp add: power_add)
    ultimately show ?thesis using assms(2) unfolding mult_Suc by linarith
  qed
  ultimately show ?thesis using bit_len_unique [of "m + k"] k by simp
qed

lemma bits128_val: "bits128 n = of_nat (bit_len (val128 n))"
  using bit_len_join [of "unat (upper n)" "unat (lower n)" 64] u64_lt [of "lower n"] u64_lt [of "upper n"]
  by (auto simp: bits128_def bits64_loop_val val128_def unat_eq_0)

lemma bits256_val: "bits256 n = of_nat (bit_len (val256 n))"
  using bit_len_join [of "val128 (upper128 n)" "val128 (lower128 n)" 128] val128_lt [of "lower128 n"]
  by (auto simp: bits256_def bits128_loop_val val256_def zero128_val)

lemma bit_len_le: "n < 2 ^ k \<Longrightarrow> bit_len n \<le> k"
proof (cases "n = 0")
  case True
  then show ?thesis by (simp add: bit_len.simps)
next
  case False
  assume "n < 2 ^ k"
  with bit_len_bounds(2) [OF False] have "(2 :: nat) ^ (bit_len n - 1) < 2 ^ k" by linarith
  then have "bit_len n - 1 < k" by simp
  then show ?thesis by simp
qed

lemma unat_bits:
  "unat (bits128 n) = bit_len (val128 n)" "unat (bits256 m) = bit_len (val256 m)"
  using bit_len_le [OF val128_lt [of n]] bit_len_le [OF val256_lt [of m]]
  by (simp_all add: bits128_val bits256_val unat_of_nat take_bit_nat_eq_self)

section \<open>Disjunction of disjoint numbers\<close>

lemma bit_join_or: "LENGTH('b) = LENGTH('a) + LENGTH('a) \<Longrightarrow>
    (join (h OR h') (l OR l') :: 'b::len word) = join h l OR join (h' :: 'a::len word) l'"
  by (rule bit_word_eqI) (auto simp: bit_join bit_or_iff)

lemma w_or: "w128 (or128 a b) = w128 a OR w128 b" "w256 (or256 c d) = w256 c OR w256 d"
proof -
  show 1: "w128 (or128 a b) = w128 a OR w128 b" for a b
    by (simp add: or128_def w128_def bit_join_or)
  show "w256 (or256 c d) = w256 c OR w256 d"
    by (simp add: or256_def w256_def 1 bit_join_or)
qed

lemma or_new_bit:
  assumes "2 ^ Suc k dvd (x :: nat)"
  shows "x OR 2 ^ k = x + 2 ^ k"
proof (rule disjunctive_add [symmetric])
  fix i
  obtain y where "x = 2 ^ Suc k * y" using assms by blast
  then have x: "x = push_bit (Suc k) y" by (simp add: push_bit_eq_mult mult.commute)
  have "bit x i \<Longrightarrow> Suc k \<le> i" unfolding x bit_push_bit_iff by blast
  then show "\<not> bit x i \<or> \<not> bit (2 ^ k :: nat) i" by (auto simp: bit_exp_iff)
qed

lemma val_or:
  "2 ^ Suc k dvd val128 a \<Longrightarrow> val128 b = 2 ^ k \<Longrightarrow> val128 (or128 a b) = val128 a + val128 b"
  "2 ^ Suc k dvd val256 c \<Longrightarrow> val256 d = 2 ^ k \<Longrightarrow> val256 (or256 c d) = val256 c + val256 d"
  by (simp_all flip: unat_w128 unat_w256 add: w_or unsigned_or_eq or_new_bit)

end
