(* ===== verification/Wide_Division.thy ===== *)
theory Wide_Division
  imports Uint256
begin

text \<open>
  Division, multiplication and conversion to a string (\<open>vm/src/uint256.c\<close>). The two widths run the
  same algorithm, so what is proved of it is proved once, in a locale over the operations of a
  width, and holds of both. A division by zero does not end: \<open>None\<close>.
\<close>

section \<open>Division\<close>

partial_function (option) divmod128_loop ::
    "uint128_t \<Rightarrow> uint128_t \<Rightarrow> uint128_t \<Rightarrow> uint128_t \<Rightarrow> uint128_t \<Rightarrow> (uint128_t \<times> uint128_t) option" where
  "divmod128_loop r copyd adder resDiv resMod =
    (if gte128 resMod r then
       (if gte128 resMod copyd
        then divmod128_loop r (shiftr128 copyd 1) (shiftr128 adder 1) (or128 resDiv adder) (minus128 resMod copyd)
        else divmod128_loop r (shiftr128 copyd 1) (shiftr128 adder 1) resDiv resMod)
     else Some (resDiv, resMod))"

definition divmod128 :: "uint128_t \<Rightarrow> uint128_t \<Rightarrow> (uint128_t \<times> uint128_t) option" where
  "divmod128 l r =
    (let diffBits = bits128 l - bits128 r
     in if gt128 r l then Some (clear128, copy128 l)
        else
          let copyd = shiftl128 r diffBits; adder = shiftl128 (u128 0 1) diffBits
          in if gt128 copyd l
             then divmod128_loop r (shiftr128 copyd 1) (shiftr128 adder 1) clear128 (copy128 l)
             else divmod128_loop r copyd adder clear128 (copy128 l))"

partial_function (option) divmod256_loop ::
    "uint256_t \<Rightarrow> uint256_t \<Rightarrow> uint256_t \<Rightarrow> uint256_t \<Rightarrow> uint256_t \<Rightarrow> (uint256_t \<times> uint256_t) option" where
  "divmod256_loop r copyd adder resDiv resMod =
    (if gte256 resMod r then
       (if gte256 resMod copyd
        then divmod256_loop r (shiftr256 copyd 1) (shiftr256 adder 1) (or256 resDiv adder) (minus256 resMod copyd)
        else divmod256_loop r (shiftr256 copyd 1) (shiftr256 adder 1) resDiv resMod)
     else Some (resDiv, resMod))"

definition divmod256 :: "uint256_t \<Rightarrow> uint256_t \<Rightarrow> (uint256_t \<times> uint256_t) option" where
  "divmod256 l r =
    (let diffBits = bits256 l - bits256 r
     in if gt256 r l then Some (clear256, copy256 l)
        else
          let copyd = shiftl256 r diffBits; adder = shiftl256 (u256 clear128 (u128 0 1)) diffBits
          in if gt256 copyd l
             then divmod256_loop r (shiftr256 copyd 1) (shiftr256 adder 1) clear256 (copy256 l)
             else divmod256_loop r copyd adder clear256 (copy256 l))"

section \<open>Conversion to a string\<close>

definition HEXDIGITS :: "u8 list" where
  "HEXDIGITS = [48, 49, 50, 51, 52, 53, 54, 55, 56, 57, 97, 98, 99, 100, 101, 102]"

function reverse_loop :: "u8 list \<Rightarrow> u32 \<Rightarrow> u32 \<Rightarrow> u8 list" where
  "reverse_loop str i j =
    (if i < j then
       reverse_loop (str[unat i := str ! unat j, unat j := str ! unat i]) (i + 1) (j - 1)
     else str)"
  by pat_completeness auto
termination
proof (relation "measure (\<lambda>(str, i, j). unat j - unat i)", goal_cases)
  case (2 str i j)
  then have "j \<noteq> 0" "i \<noteq> 0xffffffff"
    using unsigned_less [of j, where 'a = nat] by (auto simp: word_less_nat_alt)
  then have "unat (j - 1) = unat j - 1" "unat (i + 1) = Suc (unat i)"
    by (simp_all add: unat_minus_one unat_succ)
  then show ?case using 2 by (simp add: word_less_nat_alt)
qed simp

declare reverse_loop.simps [simp del]

definition reverseString :: "u8 list \<Rightarrow> u32 \<Rightarrow> u8 list" where
  "reverseString str n = reverse_loop str 0 (n - 1)"

text \<open>
  The loops write into \<open>out\<close>, an array whose length is its capacity; \<open>outLength\<close> is what the caller
  says. A write past the end of the array is undefined.
\<close>

partial_function (option) tostring128_loop ::
    "uint128_t \<Rightarrow> uint128_t \<Rightarrow> u8 list \<Rightarrow> u32 \<Rightarrow> u32 \<Rightarrow> (bool \<times> u8 list) outcome option" where
  "tostring128_loop base rDiv out offset outLength =
    (if offset > outLength - 1 then Some (Done (False, out))
     else case divmod128 rDiv base of
       None \<Rightarrow> None
     | Some dm \<Rightarrow>
         let out' = out[unat offset := HEXDIGITS ! unat (ucast (lower (snd dm)) :: u8)]
         in if length out \<le> unat offset then Some Undefined
            else if zero128 (fst dm) then
              (if length out \<le> unat (offset + 1) then Some Undefined
               else Some (Done (True, reverseString (out'[unat (offset + 1) := 0]) (offset + 1))))
            else tostring128_loop base (fst dm) out' (offset + 1) outLength)"

definition tostring128 ::
    "uint128_t \<Rightarrow> u32 \<Rightarrow> u8 list \<Rightarrow> u32 \<Rightarrow> (bool \<times> u8 list) outcome option" where
  "tostring128 number baseParam out outLength =
    (if baseParam < 2 \<or> baseParam > 16 then Some (Done (False, out))
     else tostring128_loop (u128 0 (ucast baseParam)) (copy128 number) out 0 outLength)"

partial_function (option) tostring256_loop ::
    "uint256_t \<Rightarrow> uint256_t \<Rightarrow> u8 list \<Rightarrow> u32 \<Rightarrow> u32 \<Rightarrow> (bool \<times> u8 list) outcome option" where
  "tostring256_loop base rDiv out offset outLength =
    (if offset > outLength - 1 then Some (Done (False, out))
     else case divmod256 rDiv base of
       None \<Rightarrow> None
     | Some dm \<Rightarrow>
         let out' = out[unat offset := HEXDIGITS ! unat (ucast (lower (lower128 (snd dm))) :: u8)]
         in if length out \<le> unat offset then Some Undefined
            else if zero256 (fst dm) then
              (if length out \<le> unat (offset + 1) then Some Undefined
               else Some (Done (True, reverseString (out'[unat (offset + 1) := 0]) (offset + 1))))
            else tostring256_loop base (fst dm) out' (offset + 1) outLength)"

definition tostring256_implem ::
    "uint256_t \<Rightarrow> u32 \<Rightarrow> u8 list \<Rightarrow> u32 \<Rightarrow> (bool \<times> u8 list) outcome option" where
  "tostring256_implem number baseParam out outLength =
    (if baseParam < 2 \<or> baseParam > 16 then Some (Done (False, out))
     else tostring256_loop (u256 clear128 (u128 0 (ucast baseParam))) (copy256 number) out 0 outLength)"

section \<open>Reversal in place\<close>

lemma reverse_loop_nth:
  assumes "unat j < length str" "p < length str"
  shows "length (reverse_loop str i j) = length str \<and>
    reverse_loop str i j ! p = (if unat i \<le> p \<and> p \<le> unat j then str ! (unat i + unat j - p) else str ! p)"
  using assms
proof (induction str i j rule: reverse_loop.induct)
  case (1 str i j)
  show ?case
  proof (cases "i < j")
    case True
    then have lt: "unat i < unat j" by (simp add: word_less_nat_alt)
    then have "j \<noteq> 0" "i \<noteq> 0xffffffff"
      using unsigned_less [of j, where 'a = nat] True by (auto simp: word_less_nat_alt)
    then have u: "unat (j - 1) = unat j - 1" "unat (i + 1) = Suc (unat i)"
      by (simp_all add: unat_minus_one unat_succ)
    let ?s = "str[unat i := str ! unat j, unat j := str ! unat i]"
    have IH: "length (reverse_loop ?s (i + 1) (j - 1)) = length ?s \<and>
      reverse_loop ?s (i + 1) (j - 1) ! p =
        (if Suc (unat i) \<le> p \<and> p \<le> unat j - 1 then ?s ! (Suc (unat i) + (unat j - 1) - p) else ?s ! p)"
      using 1(1) [OF True] 1(2,3) by (simp add: u)
    have e: "reverse_loop str i j = reverse_loop ?s (i + 1) (j - 1)"
      using True by (simp add: reverse_loop.simps [of str])
    consider "p < unat i" | "p = unat i" | "unat i < p" "p < unat j" | "p = unat j" | "unat j < p" by linarith
    then show ?thesis
      unfolding e using IH lt 1(2,3) by cases (auto simp: nth_list_update)
  next
    case False
    then have "unat j \<le> unat i" by (simp add: word_less_nat_alt not_less)
    then have "unat i \<le> p \<and> p \<le> unat j \<Longrightarrow> unat i + unat j - p = p" by linarith
    then show ?thesis using False by (auto simp: reverse_loop.simps [of str])
  qed
qed

lemma reverseString_rev:
  assumes "unat n = Suc k" "Suc k \<le> length str"
  shows "reverseString str n = rev (take (Suc k) str) @ drop (Suc k) str"
proof -
  have "n \<noteq> 0" using assms(1) by auto
  then have u: "unat (n - 1) = k" using assms(1) by (simp add: unat_minus_one)
  show ?thesis
  proof (rule nth_equalityI)
    have "unat (n - 1) < length str" "0 < length str" using assms(2) u by auto
    from reverse_loop_nth [OF this] have l: "length (reverse_loop str 0 (n - 1)) = length str" by blast
    then show "length (reverseString str n) = length (rev (take (Suc k) str) @ drop (Suc k) str)"
      using assms(2) by (simp add: reverseString_def)
    fix p assume "p < length (reverseString str n)"
    then have p: "p < length str" using l by (simp add: reverseString_def)
    then show "reverseString str n ! p = (rev (take (Suc k) str) @ drop (Suc k) str) ! p"
      using reverse_loop_nth [of "n - 1" str p 0] assms(2) u
      by (auto simp: reverseString_def nth_append rev_nth min_def)
  qed
qed

lemma bit_len_mono: "m \<le> n \<Longrightarrow> bit_len m \<le> bit_len n"
  using bit_len_bounds(1) [of n] by (intro bit_len_le) linarith

section \<open>The interface of a width\<close>

locale wide_int =
  fixes val :: "'a \<Rightarrow> nat"
    and N :: nat
    and zero :: 'a and one :: 'a
    and shl :: "'a \<Rightarrow> u32 \<Rightarrow> 'a" and shr :: "'a \<Rightarrow> u32 \<Rightarrow> 'a"
    and bitlen :: "'a \<Rightarrow> u32"
    and gt :: "'a \<Rightarrow> 'a \<Rightarrow> bool" and gte :: "'a \<Rightarrow> 'a \<Rightarrow> bool"
    and sub :: "'a \<Rightarrow> 'a \<Rightarrow> 'a" and disj :: "'a \<Rightarrow> 'a \<Rightarrow> 'a"
    and loop :: "'a \<Rightarrow> 'a \<Rightarrow> 'a \<Rightarrow> 'a \<Rightarrow> 'a \<Rightarrow> ('a \<times> 'a) option"
    and divmod :: "'a \<Rightarrow> 'a \<Rightarrow> ('a \<times> 'a) option"
  assumes val_lt: "val x < 2 ^ N"
    and val_zero: "val zero = 0" and val_one: "val one = 1"
    and val_shl: "val (shl x n) = val x * 2 ^ unat n mod 2 ^ N"
    and val_shr: "val (shr x n) = val x div 2 ^ unat n"
    and val_bits: "unat (bitlen x) = bit_len (val x)"
    and gt_val: "gt x y \<longleftrightarrow> val y < val x"
    and gte_val: "gte x y \<longleftrightarrow> val y \<le> val x"
    and val_sub: "val y \<le> val x \<Longrightarrow> val (sub x y) = val x - val y"
    and val_disj: "2 ^ Suc k dvd val x \<Longrightarrow> val y = 2 ^ k \<Longrightarrow> val (disj x y) = val x + val y"
    and loop_eq: "loop r c a d m =
      (if gte m r then (if gte m c then loop r (shr c 1) (shr a 1) (disj d a) (sub m c)
                        else loop r (shr c 1) (shr a 1) d m)
       else Some (d, m))"
    and divmod_eq: "divmod l r =
      (if gt r l then Some (zero, l)
       else let n = bitlen l - bitlen r; c = shl r n; a = shl one n
            in if gt c l then loop r (shr c 1) (shr a 1) zero l else loop r c a zero l)"
begin

text \<open>
  The invariant of the loop: the divisor and 1 are shifted by the same amount \<open>k\<close>, the quotient so
  far has no bit up to \<open>k\<close>, and the rest is less than twice the shifted divisor.
\<close>

lemma loop_divides:
  assumes "val r \<noteq> 0" "val c = val r * 2 ^ k" "val a = 2 ^ k" "val m < 2 * val c"
    and "2 ^ Suc k dvd val d" "val d * val r + val m = n"
  shows "\<exists>q t. loop r c a d m = Some (q, t) \<and> val q = n div val r \<and> val t = n mod val r"
  using assms(2-6)
proof (induction k arbitrary: c a d m)
  case 0
  have stop: "\<exists>q t. loop r c' a' d' m' = Some (q, t) \<and> val q = n div val r \<and> val t = n mod val r"
    if "val m' < val r" "val d' * val r + val m' = n" for c' a' d' m'
  proof -
    have "n div val r = val d'" "n mod val r = val m'" using that by auto
    then show ?thesis using that by (subst loop_eq) (simp add: gte_val)
  qed
  show ?case
  proof (cases "gte m r")
    case True
    then have c: "val c \<le> val m" using 0 by (simp add: gte_val)
    have "val (disj d a) = val d + 1" using val_disj [of 0 d a] 0 by simp
    moreover have "val (sub m c) = val m - val c" using c by (rule val_sub)
    ultimately have "val (sub m c) < val r" "val (disj d a) * val r + val (sub m c) = n"
      using 0 c by (simp_all add: algebra_simps)
    from stop [OF this, of "shr c 1" "shr a 1"] show ?thesis
      using True c by (subst loop_eq) (simp add: gte_val)
  next
    case False
    then show ?thesis using stop [of m d] 0 by (simp add: gte_val)
  qed
next
  case (Suc k)
  have sh: "val (shr c 1) = val r * 2 ^ k" "val (shr a 1) = 2 ^ k" using Suc.prems by (simp_all add: val_shr)
  show ?case
  proof (cases "gte m r")
    case True
    show ?thesis
    proof (cases "gte m c")
      case c: True
      then have le: "val c \<le> val m" by (simp add: gte_val)
      have d: "val (disj d a) = val d + 2 ^ Suc k" using val_disj [OF Suc.prems(4,2)] Suc.prems(2) by simp
      have s: "val (sub m c) = val m - val c" using le by (rule val_sub)
      have "2 ^ Suc k dvd val (disj d a)"
        using dvd_trans [OF le_imp_power_dvd Suc.prems(4), of "Suc k"] by (simp add: d)
      moreover have "val (disj d a) * val r + val (sub m c) = n"
        using Suc.prems(1,5) le by (simp add: d s algebra_simps)
      moreover have "val (sub m c) < 2 * val (shr c 1)" using Suc.prems(1,3) le by (simp add: s sh)
      ultimately show ?thesis
        using Suc.IH [OF sh] True c by (subst loop_eq) simp
    next
      case c: False
      have "2 ^ Suc k dvd val d"
        using dvd_trans [OF le_imp_power_dvd Suc.prems(4), of "Suc k"] by simp
      moreover have "val m < 2 * val (shr c 1)" using c Suc.prems(1) by (simp add: gte_val sh)
      ultimately show ?thesis
        using Suc.IH [OF sh] True c Suc.prems(5) by (subst loop_eq) simp
    qed
  next
    case False
    then have "n div val r = val d" "n mod val r = val m" using Suc.prems(5) by (auto simp: gte_val)
    then show ?thesis using False by (subst loop_eq) simp
  qed
qed

lemma divmod_divides:
  assumes "val r \<noteq> 0"
  shows "\<exists>q t. divmod l r = Some (q, t) \<and> val q = val l div val r \<and> val t = val l mod val r"
proof (cases "gt r l")
  case True
  then show ?thesis by (simp add: divmod_eq gt_val val_zero)
next
  case False
  then have le: "val r \<le> val l" by (simp add: gt_val)
  then have nz: "val l \<noteq> 0" using assms by simp
  let ?L = "bit_len (val l)" and ?R = "bit_len (val r)"
  define n where "n = bitlen l - bitlen r"
  define c where "c = shl r n"
  define a where "a = shl one n"
  have "?R \<le> ?L" using le nz assms bit_len_mono by blast
  then have n: "unat n = ?L - ?R" by (simp add: n_def unat_sub word_le_nat_alt val_bits)
  have R: "?R \<noteq> 0" using assms bit_len.simps [of "val r"] by simp
  have up: "val r * 2 ^ (?L - ?R) < 2 ^ ?L"
  proof -
    have "val r * 2 ^ (?L - ?R) < 2 ^ ?R * 2 ^ (?L - ?R)"
      using bit_len_bounds(1) [of "val r"] by (intro mult_strict_right_mono) auto
    then show ?thesis using \<open>?R \<le> ?L\<close> by (simp flip: power_add)
  qed
  moreover have le2: "(2 :: nat) ^ ?L \<le> 2 ^ N"
    using bit_len_le [OF val_lt [of l]] by (intro power_increasing) auto
  ultimately have lt: "val r * 2 ^ (?L - ?R) < 2 ^ N" by (rule less_le_trans)
  then have c: "val c = val r * 2 ^ unat n" unfolding c_def val_shl n by (rule mod_less)
  have "1 \<le> val r" using assms by simp
  then have "2 ^ (?L - ?R) \<le> val r * 2 ^ (?L - ?R)" by simp
  then have "2 ^ (?L - ?R) < (2 :: nat) ^ N" using lt by (rule le_less_trans)
  then have a: "val a = 2 ^ unat n" unfolding a_def val_shl n val_one mult_1 by (rule mod_less)
  have twice: "val l < 2 * val c"
  proof -
    have "2 ^ (?R - 1) * 2 ^ (?L - ?R) \<le> val c"
      using bit_len_bounds(2) [OF assms] unfolding c n by (rule mult_le_mono1)
    moreover have "2 * (2 ^ (?R - 1) * 2 ^ (?L - ?R)) = (2 :: nat) ^ ?L"
      using R \<open>?R \<le> ?L\<close> by (cases "?R") (simp_all flip: power_add power_Suc)
    ultimately show ?thesis using bit_len_bounds(1) [of "val l"] by linarith
  qed
  have dm: "divmod l r = (if gt c l then loop r (shr c 1) (shr a 1) zero l else loop r c a zero l)"
    using False by (simp add: divmod_eq [of l r] c_def a_def n_def Let_def)
  have z: "2 ^ Suc k dvd val zero" "val zero * val r + val l = val l" for k by (simp_all add: val_zero)
  show ?thesis
  proof (cases "gt c l")
    case True
    obtain k where k: "unat n = Suc k" using True c le by (cases "unat n") (auto simp: gt_val)
    have "val (shr c 1) = val r * 2 ^ k" "val (shr a 1) = 2 ^ k" by (simp_all add: val_shr c a k)
    moreover from this have "val l < 2 * val (shr c 1)" using True c k by (simp add: gt_val)
    ultimately show ?thesis using loop_divides [OF assms _ _ _ z] True unfolding dm by simp
  next
    case False
    then show ?thesis using loop_divides [OF assms c a twice z] unfolding dm by simp
  qed
qed

end

text \<open>The two widths provide the interface.\<close>

lemma unfold_divmod128: "divmod128 l r =
  (if gt128 r l then Some (clear128, l)
   else let n = bits128 l - bits128 r; c = shiftl128 r n; a = shiftl128 (u128 0 1) n
        in if gt128 c l then divmod128_loop r (shiftr128 c 1) (shiftr128 a 1) clear128 l
           else divmod128_loop r c a clear128 l)"
  by (simp add: divmod128_def Let_def)

lemma unfold_divmod256: "divmod256 l r =
  (if gt256 r l then Some (clear256, l)
   else let n = bits256 l - bits256 r; c = shiftl256 r n; a = shiftl256 (u256 clear128 (u128 0 1)) n
        in if gt256 c l then divmod256_loop r (shiftr256 c 1) (shiftr256 a 1) clear256 l
           else divmod256_loop r c a clear256 l)"
  by (simp add: divmod256_def Let_def)

interpretation wide128: wide_int val128 128 clear128 "u128 0 1" shiftl128 shiftr128 bits128
    gt128 gte128 minus128 or128 divmod128_loop divmod128
proof
  show "val128 (u128 0 1) = 1" by (simp add: val128_def)
qed (rule val128_lt val_clear val_shift unat_bits gt128_val gte_val val128_minus val_or
      divmod128_loop.simps unfold_divmod128 | assumption)+

interpretation wide256: wide_int val256 256 clear256 "u256 clear128 (u128 0 1)" shiftl256 shiftr256 bits256
    gt256 gte256 minus256 or256 divmod256_loop divmod256
proof
  show "val256 (u256 clear128 (u128 0 1)) = 1" by (simp add: val256_def val128_def clear128_def)
qed (rule val256_lt val_clear val_shift unat_bits gt256_val gte_val val256_minus val_or
      divmod256_loop.simps unfold_divmod256 | assumption)+


section \<open>Digits\<close>

text \<open>The digits of a number, least significant first.\<close>

function rdigits :: "nat \<Rightarrow> nat \<Rightarrow> nat list" where
  "rdigits b n = n mod b # (if b < 2 \<or> n div b = 0 then [] else rdigits b (n div b))"
  by pat_completeness auto
termination
proof (relation "measure snd", goal_cases)
  case (2 b n)
  then have "1 < b" "0 < n" by (auto intro: ccontr)
  then show ?case by simp
qed simp

declare rdigits.simps [simp del]

definition digits_value :: "nat \<Rightarrow> nat list \<Rightarrow> nat" where
  "digits_value b ds = foldl (\<lambda>v d. v * b + d) 0 ds"

lemma div_zero_mod: "n div b = 0 \<Longrightarrow> n mod b = (n :: nat)"
  using div_mult_mod_eq [of n b] by simp

lemma digits_value_rdigits: "2 \<le> b \<Longrightarrow> digits_value b (rev (rdigits b n)) = n"
proof (induction b n rule: rdigits.induct)
  case (1 b n)
  then show ?case
    by (subst rdigits.simps) (auto simp: digits_value_def div_zero_mod)
qed

lemma rdigits_less: "2 \<le> b \<Longrightarrow> d \<in> set (rdigits b n) \<Longrightarrow> d < b"
proof (induction b n rule: rdigits.induct)
  case (1 b n)
  then show ?case using rdigits.simps [of b n] by (auto split: if_splits)
qed

lemma rdigits_last: "2 \<le> b \<Longrightarrow> n \<noteq> 0 \<Longrightarrow> last (rdigits b n) \<noteq> 0"
proof (induction b n rule: rdigits.induct)
  case (1 b n)
  have ne: "rdigits b (n div b) \<noteq> []" by (subst rdigits.simps) simp
  show ?case
  proof (cases "n div b = 0")
    case True
    then have "n mod b = n" by (rule div_zero_mod)
    then show ?thesis using 1(3) True by (subst rdigits.simps) simp
  next
    case False
    then show ?thesis using 1 ne by (subst rdigits.simps) simp
  qed
qed

lemma rdigits_small: "n < 2 ^ k \<Longrightarrow> 2 \<le> b \<Longrightarrow> 0 < k \<Longrightarrow> length (rdigits b n) \<le> k"
proof (induction b n arbitrary: k rule: rdigits.induct)
  case (1 b n)
  show ?case
  proof (cases "n div b = 0")
    case True
    then show ?thesis using 1(4) by (subst rdigits.simps) simp
  next
    case False
    then have "n \<noteq> 0" by (metis div_0)
    have "n div b < 2 ^ (k - 1)"
    proof -
      have "n div b \<le> n div 2" using 1(3) by (intro div_le_mono2) auto
      moreover have "(2 :: nat) ^ k = 2 * 2 ^ (k - 1)" using 1(4) by (cases k) auto
      ultimately show ?thesis using 1(2) by linarith
    qed
    moreover from this have "0 < k - 1" using False by (cases "k - 1") auto
    ultimately have "length (rdigits b (n div b)) \<le> k - 1" using 1(1) 1(3) False by simp
    then show ?thesis using 1(4) False by (subst rdigits.simps) auto
  qed
qed

definition hex_char :: "nat \<Rightarrow> u8" where
  "hex_char d = HEXDIGITS ! d"

section \<open>Printing\<close>

locale wide_printer = wide_int +
  fixes low :: "'a \<Rightarrow> u8" and is_zero :: "'a \<Rightarrow> bool"
    and print :: "'a \<Rightarrow> 'a \<Rightarrow> u8 list \<Rightarrow> u32 \<Rightarrow> u32 \<Rightarrow> (bool \<times> u8 list) outcome option"
  assumes val_low: "unat (low x) = val x mod 256"
    and is_zero_val: "is_zero x \<longleftrightarrow> val x = 0"
    and print_eq: "print base n out offset len =
      (if offset > len - 1 then Some (Done (False, out))
       else case divmod n base of
         None \<Rightarrow> None
       | Some dm \<Rightarrow>
           let out' = out[unat offset := HEXDIGITS ! unat (low (snd dm))]
           in if length out \<le> unat offset then Some Undefined
              else if is_zero (fst dm) then
                (if length out \<le> unat (offset + 1) then Some Undefined
                 else Some (Done (True, reverseString (out'[unat (offset + 1) := 0]) (offset + 1))))
              else print base (fst dm) out' (offset + 1) len)"
begin

text \<open>One digit.\<close>

lemma print_step:
  assumes b: "2 \<le> val base" "val base \<le> 16" and len: "len \<noteq> 0" "unat offset < unat len"
  obtains q t where "val q = val n div val base" "unat (low t) = val n mod val base"
    "unat (offset + 1) = Suc (unat offset)"
    "print base n out offset len =
      (let out' = out[unat offset := hex_char (val n mod val base)]
       in if length out \<le> unat offset then Some Undefined
          else if val q = 0 then
            (if length out \<le> Suc (unat offset) then Some Undefined
             else Some (Done (True, reverseString (out'[Suc (unat offset) := 0]) (offset + 1))))
          else print base q out' (offset + 1) len)"
proof -
  from divmod_divides [of base n] b obtain q t where
    d: "divmod n base = Some (q, t)" "val q = val n div val base" "val t = val n mod val base" by auto
  have "val n mod val base < val base" using b by (intro mod_less_divisor) simp
  then have "val t < 256" using d(3) b by linarith
  then have l: "unat (low t) = val n mod val base" using d(3) by (simp add: val_low)
  have "offset \<noteq> 0xffffffff" using len(2) unsigned_less [of len, where 'a = nat] by auto
  then have o: "unat (offset + 1) = Suc (unat offset)" by (rule unat_succ)
  have c: "\<not> offset > len - 1" using len by (simp add: word_less_nat_alt unat_minus_one not_less)
  show ?thesis
    by (rule that [OF d(2) l o], subst print_eq) (simp add: is_zero_val o hex_char_def Let_def c d(1) l)
qed

lemma print_digits:
  assumes b: "2 \<le> val base" "val base \<le> 16"
    and room: "unat offset + length (rdigits (val base) (val n)) \<le> unat len"
      "unat offset + length (rdigits (val base) (val n)) < length out"
  shows "\<exists>k. unat k = unat offset + length (rdigits (val base) (val n)) \<and>
    print base n out offset len =
      Some (Done (True, reverseString
        (splice out (unat offset) (map hex_char (rdigits (val base) (val n)) @ [0])) k))"
  using room
proof (induction "val n" arbitrary: n offset out rule: less_induct)
  case less
  let ?b = "val base" and ?o = "unat offset"
  have pos: "0 < length (rdigits ?b (val n))" by (subst rdigits.simps) simp
  then have "?o < unat len" using less(2) by linarith
  then have "len \<noteq> 0" "?o < unat len" by auto
  from print_step [OF b this] obtain q t where
    q: "val q = val n div ?b" "unat (offset + 1) = Suc ?o"
    and p: "print base n out offset len =
      (let out' = out[?o := hex_char (val n mod ?b)]
       in if length out \<le> ?o then Some Undefined
          else if val q = 0 then
            (if length out \<le> Suc ?o then Some Undefined
             else Some (Done (True, reverseString (out'[Suc ?o := 0]) (offset + 1))))
          else print base q out' (offset + 1) len)" by metis
  show ?case
  proof (cases "val q = 0")
    case True
    then have r: "rdigits ?b (val n) = [val n mod ?b]" using q(1) by (subst rdigits.simps) simp
    have "splice out ?o [x, 0] = out[?o := x, Suc ?o := 0]" if "Suc ?o < length out" for x :: u8
      using that by (intro nth_equalityI) (auto simp: nth_splice nth_list_update nth_Cons' less_Suc_eq)
    then show ?thesis using True less(3) p q(2) by (intro exI [of _ "offset + 1"]) (simp add: r)
  next
    case False
    then have r: "rdigits ?b (val n) = (val n mod ?b) # rdigits ?b (val q)"
      using q(1) b by (subst rdigits.simps) simp
    have lt: "val q < val n" using False b q(1) by (intro le_neq_trans) (auto simp: div_le_dividend div_eq_dividend_iff)
    let ?out = "out[?o := hex_char (val n mod ?b)]"
    have room: "unat (offset + 1) + length (rdigits ?b (val q)) \<le> unat len"
      "unat (offset + 1) + length (rdigits ?b (val q)) < length ?out"
      using less(2,3) q(2) r by auto
    from less(1) [OF lt room] obtain k where
      k: "unat k = Suc ?o + length (rdigits ?b (val q))"
        "print base q ?out (offset + 1) len = Some (Done (True, reverseString
          (splice ?out (Suc ?o) (map hex_char (rdigits ?b (val q)) @ [0])) k))" unfolding q(2) by blast
    have "splice ?out (Suc ?o) ys = splice out ?o (hex_char (val n mod ?b) # ys)"
      if "?o + length ys < length out" for ys
      using that by (intro nth_equalityI) (auto simp: nth_splice nth_list_update nth_Cons' less_Suc_eq)
    from this [of "map hex_char (rdigits ?b (val q)) @ [0]"] show ?thesis
      using p False less(3) k by (intro exI [of _ k]) (simp add: r)
  qed
qed

text \<open>A number with more digits than \<open>len\<close> is refused.\<close>

lemma print_refused:
  assumes b: "2 \<le> val base" "val base \<le> 16" and len: "len \<noteq> 0" "unat len \<le> length out"
    and long: "unat len < unat offset + length (rdigits (val base) (val n))" "unat offset \<le> unat len"
  shows "\<exists>out'. print base n out offset len = Some (Done (False, out'))"
  using len(2) long
proof (induction "val n" arbitrary: n offset out rule: less_induct)
  case less
  let ?b = "val base" and ?o = "unat offset"
  show ?case
  proof (cases "?o < unat len")
    case False
    then have "offset > len - 1" using len(1) less(4) unat_gt_0 [of len]
      by (simp add: word_less_nat_alt unat_minus_one)
    then show ?thesis by (subst print_eq) simp
  next
    case True
    from print_step [OF b len(1) True] obtain q t where
      q: "val q = val n div ?b" "unat (offset + 1) = Suc ?o"
      and p: "print base n out offset len =
        (let out' = out[?o := hex_char (val n mod ?b)]
         in if length out \<le> ?o then Some Undefined
            else if val q = 0 then
              (if length out \<le> Suc ?o then Some Undefined
               else Some (Done (True, reverseString (out'[Suc ?o := 0]) (offset + 1))))
            else print base q out' (offset + 1) len)" by metis
    have nz: "val q \<noteq> 0"
    proof
      assume "val q = 0"
      then have "rdigits ?b (val n) = [val n mod ?b]" using q(1) by (subst rdigits.simps) simp
      then show False using less(3) True by simp
    qed
    then have r: "rdigits ?b (val n) = (val n mod ?b) # rdigits ?b (val q)"
      using q(1) b by (subst rdigits.simps) simp
    have lt: "val q < val n" using nz b q(1) by (intro le_neq_trans) (auto simp: div_le_dividend div_eq_dividend_iff)
    show ?thesis
      using less(1) [OF lt, of "out[?o := hex_char (val n mod ?b)]" "offset + 1"] less(2,3) True q(2) r p nz
      by (simp add: Let_def)
  qed
qed

text \<open>A number whose digits fill the array leaves no room for the final zero.\<close>

lemma print_overflow:
  assumes b: "2 \<le> val base" "val base \<le> 16" and len: "unat len = length out"
    and full: "unat offset + length (rdigits (val base) (val n)) = length out"
  shows "print base n out offset len = Some Undefined"
  using len full
proof (induction "val n" arbitrary: n offset out rule: less_induct)
  case less
  let ?b = "val base" and ?o = "unat offset"
  have "0 < length (rdigits ?b (val n))" by (subst rdigits.simps) simp
  then have "?o < unat len" using less(2,3) by linarith
  then have "len \<noteq> 0" "?o < unat len" by auto
  from print_step [OF b this] obtain q t where
    q: "val q = val n div ?b" "unat (offset + 1) = Suc ?o"
    and p: "print base n out offset len =
      (let out' = out[?o := hex_char (val n mod ?b)]
       in if length out \<le> ?o then Some Undefined
          else if val q = 0 then
            (if length out \<le> Suc ?o then Some Undefined
             else Some (Done (True, reverseString (out'[Suc ?o := 0]) (offset + 1))))
          else print base q out' (offset + 1) len)" by metis
  show ?case
  proof (cases "val q = 0")
    case True
    then have "rdigits ?b (val n) = [val n mod ?b]" using q(1) by (subst rdigits.simps) simp
    then show ?thesis using p True less(3) by simp
  next
    case False
    then have r: "rdigits ?b (val n) = (val n mod ?b) # rdigits ?b (val q)"
      using q(1) b by (subst rdigits.simps) simp
    have lt: "val q < val n" using False b q(1) by (intro le_neq_trans) (auto simp: div_le_dividend div_eq_dividend_iff)
    show ?thesis
      using less(1) [OF lt, of "out[?o := hex_char (val n mod ?b)]" "offset + 1"] less(2,3) q(2) r p False
      by (simp add: Let_def)
  qed
qed

end

lemma val128_low: "val128 x mod 256 = unat (lower x) mod 256"
proof -
  have "val128 x = unat (lower x) + 256 * (2 ^ 56 * unat (upper x))" by (simp add: val128_def)
  then show ?thesis by (metis mod_mult_self2)
qed

lemma val256_low: "val256 x mod 256 = unat (lower (lower128 x)) mod 256"
proof -
  have "val256 x = val128 (lower128 x) + 256 * (2 ^ 120 * val128 (upper128 x))" by (simp add: val256_def)
  then have "val256 x mod 256 = val128 (lower128 x) mod 256" by (metis mod_mult_self2)
  then show ?thesis by (simp add: val128_low)
qed

interpretation printer128: wide_printer val128 128 clear128 "u128 0 1" shiftl128 shiftr128 bits128
    gt128 gte128 minus128 or128 divmod128_loop divmod128
    "\<lambda>n. ucast (lower n)" zero128 tostring128_loop
proof
  fix x
  show "unat (ucast (lower x) :: u8) = val128 x mod 256"
    by (simp add: val128_low unsigned_ucast_eq take_bit_eq_mod)
  show "zero128 x \<longleftrightarrow> val128 x = 0" by (rule zero128_val)
qed (rule tostring128_loop.simps)

interpretation printer256: wide_printer val256 256 clear256 "u256 clear128 (u128 0 1)" shiftl256 shiftr256 bits256
    gt256 gte256 minus256 or256 divmod256_loop divmod256
    "\<lambda>n. ucast (lower (lower128 n))" zero256 tostring256_loop
proof
  fix x
  show "unat (ucast (lower (lower128 x)) :: u8) = val256 x mod 256"
    by (simp add: val256_low unsigned_ucast_eq take_bit_eq_mod)
  show "zero256 x \<longleftrightarrow> val256 x = 0" by (rule zero256_val)
qed (rule tostring256_loop.simps)


section \<open>Properties\<close>

lemma val_base: "val256 (u256 clear128 (u128 0 (ucast (b :: u32)))) = unat b"
  "val128 (u128 0 (ucast b)) = unat b"
  using unsigned_less [of b, where 'a = nat]
  by (simp_all add: val256_def val128_def clear128_def unsigned_ucast_eq take_bit_nat_eq_self)

text \<open>What is printed for a number in a base: its digits, most significant first.\<close>

definition printed :: "nat \<Rightarrow> nat \<Rightarrow> u8 list" where
  "printed b n = map hex_char (rev (rdigits b n))"

text \<open>
  C34: \<open>divmod256\<close> ends for every divisor but 0 and gives quotient and remainder.
\<close>

theorem divmod256_correct:
  assumes "\<not> zero256 r"
  shows "\<exists>q t. divmod256 l r = Some (q, t) \<and> val256 q = val256 l div val256 r \<and> val256 t = val256 l mod val256 r"
  using wide256.divmod_divides [of r l] assms by (simp add: zero256_val)

text \<open>
  C35: the operations of the wide integers are those of the integers modulo 2 to the 256, and the
  comparisons those of their values.
\<close>

theorem uint256_arith:
  "val256 (add256 a b) = (val256 a + val256 b) mod 2 ^ 256 \<and>
   (val256 (minus256 a b) + val256 b) mod 2 ^ 256 = val256 a \<and>
   val256 (shiftl256 a n) = val256 a * 2 ^ unat n mod 2 ^ 256 \<and>
   val256 (shiftr256 a n) = val256 a div 2 ^ unat n \<and>
   (gt256 a b \<longleftrightarrow> val256 b < val256 a) \<and> (equal256 a b \<longleftrightarrow> val256 a = val256 b) \<and>
   unat (bits256 a) = bit_len (val256 a)"
  using val256_add [of "minus256 a b" b]
  by (simp add: val256_add val_shift gt256_val equal256_val unat_bits add_minus256)

lemma tostring256_digits:
  assumes "2 \<le> base" "base \<le> 16" and "length (printed (unat base) (val256 number)) \<le> unat len"
    and "length (printed (unat base) (val256 number)) < length out"
  shows "tostring256_implem number base out len =
      Some (Done (True, splice out 0 (printed (unat base) (val256 number) @ [0]))) \<and>
    digits_value (unat base) (rev (rdigits (unat base) (val256 number))) = val256 number"
proof
  let ?ds = "rdigits (unat base) (val256 number)"
  have b: "2 \<le> unat base" "unat base \<le> 16" using assms(1,2) by (simp_all add: word_le_nat_alt)
  then show "digits_value (unat base) (rev ?ds) = val256 number" by (intro digits_value_rdigits)
  obtain k where k: "unat k = length ?ds"
    "tostring256_loop (u256 clear128 (u128 0 (ucast base))) number out 0 len =
      Some (Done (True, reverseString (splice out 0 (map hex_char ?ds @ [0])) k))"
    using printer256.print_digits [of "u256 clear128 (u128 0 (ucast base))" 0 number len out] b assms(3,4)
    by (auto simp: val_base printed_def)
  have "0 < length ?ds" by (subst rdigits.simps) simp
  then obtain j where j: "length ?ds = Suc j" by (cases "length ?ds") auto
  have "reverseString (splice out 0 (map hex_char ?ds @ [0])) k = splice out 0 (printed (unat base) (val256 number) @ [0])"
    using reverseString_rev [of k j "splice out 0 (map hex_char ?ds @ [0])"] k(1) j assms(4)
    by (simp add: splice_def printed_def rev_map)
  then show "tostring256_implem number base out len =
      Some (Done (True, splice out 0 (printed (unat base) (val256 number) @ [0])))"
    using k(2) assms(1,2) by (simp add: tostring256_implem_def not_less)
qed

text \<open>
  when the digits and a final zero fit, \<open>tostring256_implem\<close> ends and writes the digits of the
  number, which evaluate to it, at the start of the array, the zero behind them and nothing else.
\<close>

theorem tostring256_prints:
  assumes "2 \<le> base" "base \<le> 16" and "length (printed (unat base) (val256 number)) \<le> unat len"
    and "length (printed (unat base) (val256 number)) < length out"
  shows "tostring256_implem number base out len =
      Some (Done (True, splice out 0 (printed (unat base) (val256 number) @ [0]))) \<and>
    digits_value (unat base) (rev (rdigits (unat base) (val256 number))) = val256 number"
  using tostring256_digits [OF assms] .

text \<open>
  a number with more digits than the length given is refused; one whose digits fill the array
  is printed with its final zero behind the end of the array.
\<close>

theorem tostring256_limits:
  assumes "2 \<le> base" "base \<le> 16" and "unat len = length out" and "len \<noteq> 0"
    and "length out \<le> length (printed (unat base) (val256 number))"
  shows "if length out = length (printed (unat base) (val256 number))
    then tostring256_implem number base out len = Some Undefined
    else \<exists>out'. tostring256_implem number base out len = Some (Done (False, out'))"
proof -
  have b: "2 \<le> unat base" "unat base \<le> 16" using assms(1,2) by (simp_all add: word_le_nat_alt)
  have "\<not> base < 2" "\<not> base > 16" using assms(1,2) by auto
  then have "tostring256_implem number base out len =
      tostring256_loop (u256 clear128 (u128 0 (ucast base))) number out 0 len"
    by (simp add: tostring256_implem_def)
  then show ?thesis
    using printer256.print_overflow [of "u256 clear128 (u128 0 (ucast base))" len out 0 number]
      printer256.print_refused [of "u256 clear128 (u128 0 (ucast base))" len out 0 number] b assms(3-5)
    by (auto simp: val_base printed_def)
qed

theorem divmod256_correct_witness:
  "\<exists>q t. divmod256 (u256 (u128 0 5) (u128 0 3)) (u256 clear128 (u128 1 0)) = Some (q, t) \<and>
     val256 q = 5 * 2 ^ 64 \<and> val256 t = 3"
  using divmod256_correct [of "u256 clear128 (u128 1 0)" "u256 (u128 0 5) (u128 0 3)"]
  by (simp add: zero256_def zero128_def val256_def val128_def clear128_def)

lemma printed_25: "printed 10 25 = [50, 53]"
  by (simp add: printed_def rdigits.simps hex_char_def HEXDIGITS_def)

theorem tostring256_prints_witness:
  "tostring256_implem (u256 clear128 (u128 0 25)) 10 [1, 2, 3, 4] 4 = Some (Done (True, [50, 53, 0, 4]))"
proof -
  have v: "val256 (u256 clear128 (u128 0 25)) = 25" by (simp add: val256_def val128_def clear128_def)
  have p: "printed (unat (10 :: u32)) (val256 (u256 clear128 (u128 0 25))) = [50, 53]"
    unfolding v using printed_25 by simp
  show ?thesis
    using tostring256_prints [of 10 "u256 clear128 (u128 0 25)" 4 "[1, 2, 3, 4]"] unfolding p
    by (simp add: splice_def)
qed

theorem tostring256_limits_witness:
  "tostring256_implem (u256 clear128 (u128 0 25)) 10 [1, 2] 2 = Some Undefined"
proof -
  have v: "val256 (u256 clear128 (u128 0 25)) = 25" by (simp add: val256_def val128_def clear128_def)
  have p: "printed (unat (10 :: u32)) (val256 (u256 clear128 (u128 0 25))) = [50, 53]"
    unfolding v using printed_25 by simp
  show ?thesis
    using tostring256_limits [of 10 2 "[1, 2]" "u256 clear128 (u128 0 25)"] unfolding p by simp
qed

end
