(* ===== verification/Ecall_Crypto.thy ===== *)
theory Ecall_Crypto
  imports Ecall Wide_Division
begin

text \<open>
  The cryptographic system calls (\<open>vm/src/ecall_bolos.c\<close> and \<open>vm/src/ecall_hash.c\<close>): they copy
  their arguments from the guest, call the cryptographic library of the operating system, and copy
  the results back. The library is a parameter.
\<close>

section \<open>The library of the operating system\<close>

text \<open>A hash context of the library: what the code saves in the guest and restores.\<close>

record hash_ctx =
  h_counter :: u32
  h_blen :: u32
  h_block :: "u8 list"
  h_acc :: "u8 list"

text \<open>
  \<open>cx_lib\<close> holds what these calls use of the library; a function returns \<open>None\<close> where the library
  reports an error. Keys are the bytes of the library's structures, which the guest stores.
  \<^item> \<open>derive_node curve path\<close>: private key and chain code;
  \<^item> \<open>generate_pair i curve key\<close>: the structures of the public and the private key; \<open>key\<close> is the
    private key to keep, if any, and \<open>i\<close> the number of the call of the random generator;
  \<^item> \<open>ecdsa_sign i key mode hash_id hash\<close>: signature, of at most 100 bytes, and \<open>info\<close>;
  \<^item> \<open>math_mult\<close>, \<open>math_multm\<close>: a product of twice the length, a residue of the length;
  \<^item> \<open>hash_init\<close>, \<open>hash_update\<close>, \<open>hash_final\<close>, and the block size of the initialised Keccak context;
  \<^item> \<open>residue n\<close>: the \<open>n\<close> bytes that an uninitialised array holds.
\<close>

record cx_lib =
  sizeof_pubkey :: u32
  sizeof_privkey :: u32
  privkey_len :: "u8 list \<Rightarrow> u32"
  privkey_cap :: u32
  derive_node :: "u32 \<Rightarrow> u8 list \<Rightarrow> (u8 list \<times> u8 list) option"
  generate_pair :: "nat \<Rightarrow> u32 \<Rightarrow> u8 list option \<Rightarrow> (u8 list \<times> u8 list) option"
  ecdsa_sign :: "nat \<Rightarrow> u8 list \<Rightarrow> u32 \<Rightarrow> u32 \<Rightarrow> u8 list \<Rightarrow> (u8 list \<times> u32) option"
  ecdsa_verify :: "u8 list \<Rightarrow> u8 list \<Rightarrow> u8 list \<Rightarrow> bool"
  math_mult :: "u8 list \<Rightarrow> u8 list \<Rightarrow> u8 list option"
  math_multm :: "u8 list \<Rightarrow> u8 list \<Rightarrow> u8 list \<Rightarrow> u8 list option"
  hash_init :: "u32 \<Rightarrow> hash_ctx"
  hash_update :: "u32 \<Rightarrow> hash_ctx \<Rightarrow> u8 list \<Rightarrow> hash_ctx option"
  hash_final :: "u32 \<Rightarrow> hash_ctx \<Rightarrow> u8 list option"
  keccak_block_size :: u32
  residue :: "nat \<Rightarrow> u8 list"

text \<open>
  What a call returns: whether the VM goes on, the new value of the register that holds the result,
  and the state.
\<close>

type_synonym eret_result = "(bool \<times> u32 \<times> vm) outcome"

definition give_up :: "u32 \<Rightarrow> vm \<Rightarrow> eret_result" where
  "give_up r s = Done (False, r, s)"

definition reply :: "bool \<Rightarrow> u32 \<Rightarrow> vm \<Rightarrow> eret_result" where
  "reply b r s = Done (True, eret_success b r, s)"

definition count_draw :: "vm \<Rightarrow> vm" where
  "count_draw s = on_dev (\<lambda>d. d\<lparr>d_draws := Suc (d_draws d)\<rparr>) s"

section \<open>Keys\<close>

definition CX_CURVE_256K1 :: u32 where "CX_CURVE_256K1 = 0x21"

definition CX_CURVE_SECP256R1 :: u32 where "CX_CURVE_SECP256R1 = 0x22"

text \<open>Copies of results that are optional: a null pointer asks for nothing.\<close>

definition copy_host_unless_null :: "env \<Rightarrow> u32 \<Rightarrow> u8 list \<Rightarrow> u32 \<Rightarrow> vm \<Rightarrow> bool \<times> vm" where
  "copy_host_unless_null E p bs n s = (if p \<noteq> 0 then copy_host_buffer E p bs n s else (True, s))"

definition sys_derive_node_bip32 ::
    "env \<Rightarrow> cx_lib \<Rightarrow> u32 \<Rightarrow> u32 \<Rightarrow> u32 \<Rightarrow> u32 \<Rightarrow> u32 \<Rightarrow> u32 \<Rightarrow> vm \<Rightarrow> eret_result" where
  "sys_derive_node_bip32 E X r curve p_path path_count p_private_key p_chain s =
    (if path_count > 10 then reply False r s
     else if curve \<noteq> CX_CURVE_256K1 \<and> curve \<noteq> CX_CURVE_SECP256R1 then Exited
     else case copy_guest_buffer E p_path (path_count * 4) s of
       (None, s) \<Rightarrow> give_up r s
     | (Some path, s) \<Rightarrow>
         (case copy_guest_buffer E p_private_key 32 s of
            (None, s) \<Rightarrow> give_up r s
          | (Some _, s) \<Rightarrow>
              (case derive_node X curve path of
                 None \<Rightarrow> reply False r s
               | Some (private_key, chain) \<Rightarrow>
                   (case copy_host_unless_null E p_private_key private_key 32 s of
                      (False, s) \<Rightarrow> give_up r s
                    | (True, s) \<Rightarrow>
                        (case copy_host_unless_null E p_chain chain 32 s of
                           (False, s) \<Rightarrow> give_up r s
                         | (True, s) \<Rightarrow> reply True r s)))))"

text \<open>The part of \<open>_sys_cx_ecfp_generate_pair\<close> after the private key to keep has been checked.\<close>

definition finish_pair ::
    "env \<Rightarrow> cx_lib \<Rightarrow> u32 \<Rightarrow> u32 \<Rightarrow> u32 \<Rightarrow> u32 \<Rightarrow> u8 list option \<Rightarrow> vm \<Rightarrow> eret_result" where
  "finish_pair E X r curve p_pubkey p_privkey key s =
    (case generate_pair X (d_draws (dev s)) curve key of
       None \<Rightarrow> reply False r (count_draw s)
     | Some (pubkey, privkey) \<Rightarrow>
         (case copy_host_buffer E p_pubkey pubkey (sizeof_pubkey X) (count_draw s) of
            (False, s) \<Rightarrow> give_up r s
          | (True, s) \<Rightarrow>
              if key = None then
                (case copy_host_buffer E p_privkey privkey (sizeof_privkey X) s of
                   (False, s) \<Rightarrow> give_up r s
                 | (True, s) \<Rightarrow> reply True r s)
              else reply True r s))"

definition sys_cx_ecfp_generate_pair ::
    "env \<Rightarrow> cx_lib \<Rightarrow> u32 \<Rightarrow> u32 \<Rightarrow> u32 \<Rightarrow> u32 \<Rightarrow> bool \<Rightarrow> vm \<Rightarrow> eret_result" where
  "sys_cx_ecfp_generate_pair E X r curve p_pubkey p_privkey keep_privkey s =
    (if keep_privkey then
       (case copy_guest_buffer E p_privkey (sizeof_privkey X) s of
          (None, s) \<Rightarrow> give_up r s
        | (Some privkey, s) \<Rightarrow>
            if privkey_len X privkey > privkey_cap X then reply False r s
            else finish_pair E X r curve p_pubkey p_privkey (Some privkey) s)
     else finish_pair E X r curve p_pubkey p_privkey None s)"

section \<open>Signatures\<close>

text \<open>The sizes of the digests of \<open>CX_RIPEMD160\<close>, \<open>CX_SHA224\<close>, \<open>CX_SHA256\<close>, \<open>CX_SHA384\<close>, \<open>CX_SHA512\<close>.\<close>

definition hash_size :: "u32 \<Rightarrow> u32 option" where
  "hash_size hash_id = map_of [(1, 20), (2, 28), (3, 32), (4, 48), (5, 64)] hash_id"

definition sys_ecdsa_sign ::
    "env \<Rightarrow> cx_lib \<Rightarrow> u32 \<Rightarrow> u32 \<Rightarrow> u32 \<Rightarrow> u32 \<Rightarrow> u32 \<Rightarrow> u32 \<Rightarrow> u32 \<Rightarrow> vm \<Rightarrow> eret_result" where
  "sys_ecdsa_sign E X p_key mode hash_id p_hash p_sig sig_len p_parity s =
    (case hash_size hash_id of
       None \<Rightarrow> Done (True, 0, s)
     | Some hash_len \<Rightarrow>
         (case copy_guest_buffer E p_key (sizeof_privkey X) s of
            (None, s) \<Rightarrow> give_up 0 s
          | (Some key, s) \<Rightarrow>
         (case copy_guest_buffer E p_hash hash_len s of
            (None, s) \<Rightarrow> give_up 0 s
          | (Some hash, s) \<Rightarrow>
         (case ecdsa_sign X (d_draws (dev s)) key mode hash_id hash of
            None \<Rightarrow> Done (True, 0, count_draw s)
          | Some (sig, info) \<Rightarrow>
              let s = count_draw s; sig_size = of_nat (length sig)
              in if sig_size > sig_len then Done (True, 0, s)
                 else case copy_host_buffer E p_sig sig sig_size s of
                   (False, s) \<Rightarrow> give_up 0 s
                 | (True, s) \<Rightarrow>
                     (case copy_host_unless_null E p_parity (le_bytes 4 info) 4 s of
                        (False, s) \<Rightarrow> give_up 0 s
                      | (True, s) \<Rightarrow> Done (True, sig_size, s))))))"

definition sys_ecdsa_verify ::
    "env \<Rightarrow> cx_lib \<Rightarrow> u32 \<Rightarrow> u32 \<Rightarrow> u32 \<Rightarrow> u32 \<Rightarrow> u32 \<Rightarrow> vm \<Rightarrow> eret_result" where
  "sys_ecdsa_verify E X r p_key p_hash p_sig sig_len s =
    (case copy_guest_buffer E p_key (sizeof_pubkey X) s of
       (None, s) \<Rightarrow> give_up r s
     | (Some key, s) \<Rightarrow>
         (case copy_guest_buffer E p_hash 32 s of
            (None, s) \<Rightarrow> give_up r s
          | (Some hash, s) \<Rightarrow>
              if sig_len > 100 then reply False r s
              else case copy_guest_buffer E p_sig sig_len s of
                (None, s) \<Rightarrow> give_up r s
              | (Some sig, s) \<Rightarrow> reply (ecdsa_verify X key hash sig) r s))"

section \<open>Random bytes and arithmetic\<close>

function random_loop :: "env \<Rightarrow> u32 \<Rightarrow> u32 \<Rightarrow> vm \<Rightarrow> bool \<times> vm" where
  "random_loop E addr sz s =
    (if sz = 0 then (True, s)
     else
       let n = BUFFER_MIN_SIZE addr sz
       in case get_buffer E addr n True s of
            (None, s) \<Rightarrow> (False, s)
          | (Some p, s) \<Rightarrow>
              (case get_random E (unat n) (dev s) of
                 (bs, d) \<Rightarrow> random_loop E (addr + n) (sz - n) (write_at p bs (s\<lparr>dev := d\<rparr>))))"
  by pat_completeness auto
termination by (relation "measure (\<lambda>(E, addr, sz, s). unat sz)") (auto simp: chunk_less)

declare random_loop.simps [simp del]

definition sys_get_random_bytes :: "env \<Rightarrow> u32 \<Rightarrow> u32 \<Rightarrow> vm \<Rightarrow> bool \<times> vm" where
  "sys_get_random_bytes E p_buffer sz s = random_loop E p_buffer sz s"

text \<open>The multiplication: the result and what follows it in the array \<open>r\<close> of 64 bytes.\<close>

definition multm_copy :: "env \<Rightarrow> cx_lib \<Rightarrow> u32 \<Rightarrow> u32 \<Rightarrow> u32 \<Rightarrow> u8 list option \<Rightarrow> vm \<Rightarrow> eret_result" where
  "multm_copy E X r p_r len product s =
    (case product of
       None \<Rightarrow> reply False r s
     | Some bs \<Rightarrow>
         (case copy_host_buffer E p_r (take (unat (len * 2)) (bs @ residue X (64 - length bs))) (len * 2) s of
            (False, s) \<Rightarrow> give_up r s
          | (True, s) \<Rightarrow> reply True r s))"

definition sys_multm ::
    "env \<Rightarrow> cx_lib \<Rightarrow> u32 \<Rightarrow> u32 \<Rightarrow> u32 \<Rightarrow> u32 \<Rightarrow> u32 \<Rightarrow> u32 \<Rightarrow> vm \<Rightarrow> eret_result" where
  "sys_multm E X r p_r p_a p_b p_m len s =
    (if len > 32 then reply False r s
     else case copy_guest_buffer E p_a len s of
       (None, s) \<Rightarrow> give_up r s
     | (Some a, s) \<Rightarrow>
         (case copy_guest_buffer E p_b len s of
            (None, s) \<Rightarrow> give_up r s
          | (Some b, s) \<Rightarrow>
              if p_m = 0 then multm_copy E X r p_r len (math_mult X a b) s
              else case copy_guest_buffer E p_m len s of
                (None, s) \<Rightarrow> give_up r s
              | (Some m, s) \<Rightarrow> multm_copy E X r p_r len (math_multm X a b m) s))"

text \<open>A number as the guest stores it: two halves, most significant first, of two words each.\<close>

definition read_u256 :: "u8 list \<Rightarrow> uint256_t" where
  "read_u256 bs = u256 (u128 (le_val (slice bs 0 8)) (le_val (slice bs 8 8)))
                       (u128 (le_val (slice bs 16 8)) (le_val (slice bs 24 8)))"

definition sys_tostring256 ::
    "env \<Rightarrow> cx_lib \<Rightarrow> u32 \<Rightarrow> u32 \<Rightarrow> u32 \<Rightarrow> u32 \<Rightarrow> u32 \<Rightarrow> vm \<Rightarrow> eret_result" where
  "sys_tostring256 E X r p_number base p_out len s =
    (let len = (if len > 100 then 100 else len)
     in case copy_guest_buffer E p_number 32 s of
          (None, s) \<Rightarrow> give_up r s
        | (Some bs, s) \<Rightarrow>
            (case tostring256_implem (read_u256 bs) base (residue X 100) len of
               None \<Rightarrow> Blocked
             | Some printing \<Rightarrow>
                 then_do printing (\<lambda>(ok, buf).
                   if \<not> ok then reply False r s
                   else case copy_host_buffer E p_out (take (unat len) buf) len s of
                     (False, s) \<Rightarrow> give_up r s
                   | (True, s) \<Rightarrow> reply True r s)))"

section \<open>Hashes\<close>

definition HASH_ID_RIPEMD160 :: u32 where "HASH_ID_RIPEMD160 = 0"

definition HASH_ID_SHA3_256 :: u32 where "HASH_ID_SHA3_256 = 1"

definition HASH_ID_SHA256 :: u32 where "HASH_ID_SHA256 = 2"

text \<open>
  The layout of a context in the guest: \<open>initialized\<close>, 3 bytes of padding, \<open>counter\<close>, \<open>blen\<close>,
  \<open>block\<close>, padding to 8 bytes for SHA3, \<open>acc\<close>. \<open>ctx_layout\<close> gives the sizes of the block, of the
  padding behind it and of the accumulator.
\<close>

definition ctx_layout :: "u32 \<Rightarrow> (nat \<times> nat \<times> nat) option" where
  "ctx_layout hash_id =
    (if hash_id = HASH_ID_RIPEMD160 then Some (64, 0, 20)
     else if hash_id = HASH_ID_SHA3_256 then Some (200, 4, 200)
     else if hash_id = HASH_ID_SHA256 then Some (64, 0, 32)
     else None)"

definition ctx_max_blen :: "cx_lib \<Rightarrow> u32 \<Rightarrow> u32" where
  "ctx_max_blen X hash_id = (if hash_id = HASH_ID_SHA3_256 then keccak_block_size X else 64)"

text \<open>\<open>restore_ctx_from_guest\<close>: \<open>None\<close> where it sets \<open>eret->success\<close> to false.\<close>

definition restore_ctx :: "cx_lib \<Rightarrow> u32 \<Rightarrow> nat \<times> nat \<times> nat \<Rightarrow> u8 list \<Rightarrow> hash_ctx option" where
  "restore_ctx X hash_id lay g =
    (case lay of (block, pad, acc) \<Rightarrow>
       if g ! 0 = 0 then Some (hash_init X hash_id)
       else if le_val (slice g 8 4) > ctx_max_blen X hash_id then None
       else Some \<lparr>h_counter = le_val (slice g 4 4), h_blen = le_val (slice g 8 4),
                  h_block = slice g 12 block, h_acc = slice g (12 + block + pad) acc\<rparr>)"

definition restore_ctx_from_guest ::
    "env \<Rightarrow> cx_lib \<Rightarrow> u32 \<Rightarrow> u32 \<Rightarrow> vm \<Rightarrow> hash_ctx option option \<times> vm" where
  "restore_ctx_from_guest E X hash_id p_ctx s =
    (case ctx_layout hash_id of
       None \<Rightarrow> (Some None, s)
     | Some (block, pad, acc) \<Rightarrow>
         (case copy_guest_buffer E p_ctx (of_nat (12 + block + pad + acc)) s of
            (None, s) \<Rightarrow> (None, s)
          | (Some g, s) \<Rightarrow> (Some (restore_ctx X hash_id (block, pad, acc) g), s)))"

definition save_ctx :: "cx_lib \<Rightarrow> nat \<Rightarrow> hash_ctx \<Rightarrow> u8 list" where
  "save_ctx X pad c = [1] @ residue X 3 @ le_bytes 4 (h_counter c) @ le_bytes 4 (h_blen c) @ h_block c @
     residue X pad @ h_acc c"

definition save_ctx_from_host :: "env \<Rightarrow> cx_lib \<Rightarrow> u32 \<Rightarrow> u32 \<Rightarrow> u32 \<Rightarrow> hash_ctx \<Rightarrow> vm \<Rightarrow> eret_result" where
  "save_ctx_from_host E X r hash_id p_ctx c s =
    (case ctx_layout hash_id of
       None \<Rightarrow> reply False r s
     | Some (block, pad, acc) \<Rightarrow>
         (case copy_host_buffer E p_ctx (save_ctx X pad c) (of_nat (12 + block + pad + acc)) s of
            (False, s) \<Rightarrow> give_up (eret_success True r) s
          | (True, s) \<Rightarrow> reply True r s))"

text \<open>The loop of \<open>sys_hash_update\<close> over the chunks of the buffer.\<close>

function hash_loop :: "env \<Rightarrow> cx_lib \<Rightarrow> u32 \<Rightarrow> u32 \<Rightarrow> u32 \<Rightarrow> hash_ctx \<Rightarrow> vm \<Rightarrow> (hash_ctx option \<times> vm) outcome" where
  "hash_loop E X hash_id addr sz c s =
    (if sz = 0 then Done (Some c, s)
     else
       let n = BUFFER_MIN_SIZE addr sz
       in case get_buffer E addr n False s of
            (None, s) \<Rightarrow> Done (None, s)
          | (Some p, s) \<Rightarrow>
              (case hash_update X hash_id c (read_at p (unat n) s) of
                 None \<Rightarrow> Exited
               | Some c \<Rightarrow> hash_loop E X hash_id (addr + n) (sz - n) c s))"
  by pat_completeness auto
termination by (relation "measure (\<lambda>(E, X, i, addr, sz, c, s). unat sz)") (auto simp: chunk_less)

declare hash_loop.simps [simp del]

definition sys_hash_update ::
    "env \<Rightarrow> cx_lib \<Rightarrow> u32 \<Rightarrow> u32 \<Rightarrow> u32 \<Rightarrow> u32 \<Rightarrow> u32 \<Rightarrow> vm \<Rightarrow> eret_result" where
  "sys_hash_update E X r hash_id p_ctx p_buffer sz s =
    (case restore_ctx_from_guest E X hash_id p_ctx s of
       (None, s) \<Rightarrow> give_up (eret_success True r) s
     | (Some None, s) \<Rightarrow> reply False r s
     | (Some (Some c), s) \<Rightarrow>
         then_do (hash_loop E X hash_id p_buffer sz c s)
           (\<lambda>(c, s). case c of
              None \<Rightarrow> give_up (eret_success True r) s
            | Some c \<Rightarrow> save_ctx_from_host E X (eret_success True r) hash_id p_ctx c s))"

definition sys_hash_final ::
    "env \<Rightarrow> cx_lib \<Rightarrow> u32 \<Rightarrow> u32 \<Rightarrow> u32 \<Rightarrow> u32 \<Rightarrow> vm \<Rightarrow> eret_result" where
  "sys_hash_final E X r hash_id p_ctx p_out s =
    (case restore_ctx_from_guest E X hash_id p_ctx s of
       (None, s) \<Rightarrow> give_up (eret_success True r) s
     | (Some None, s) \<Rightarrow> reply False r s
     | (Some (Some c), s) \<Rightarrow>
         let hash_len = (if hash_id = HASH_ID_RIPEMD160 then 20 else 32)
         in case hash_final X hash_id c of
              None \<Rightarrow> Exited
            | Some digest \<Rightarrow>
                (case copy_host_buffer E p_out digest hash_len s of
                   (False, s) \<Rightarrow> give_up (eret_success True r) s
                 | (True, s) \<Rightarrow> reply True r s))"

end
