(* ===== verification/Flat_Properties.thy ===== *)
theory Flat_Properties
  imports Flat_Memory
begin

text \<open>
  Fetches, loads and stores are those of the flat memory, with an example of a memory and of a
  host that satisfy the hypotheses.
\<close>

section \<open>Loads, stores and fetches\<close>

lemma access_fits:
  assumes "fit_in_page addr (of_nat n)" "n \<in> {1, 2, 4}"
  shows "page_off addr + n \<le> 256" "access_width n = n"
  using fit_in_page_iff [of n addr] assms by (auto simp: access_width_def)

lemma mem_read_bytes:
  assumes "guest_rep E code s m" "mem_read E addr n s = (Some v, s')" "n \<in> {1, 2, 4}"
  shows "guest_rep E code s' m \<and> v = le_val (bytes m addr n)"
proof -
  have f: "fit_in_page addr (of_nat n)" using assms(2) by (auto simp: mem_read_def split: if_splits)
  note a = access_fits [OF f assms(3)]
  from assms(2) f obtain c i where g: "get_page E addr PAGE_PROT_RO s = (Some (c, i), s')"
    and v: "v = le_val (slice (p_data (get_page_at c i s')) (page_off addr) n)"
    by (auto simp: mem_read_def a(2) unat_sub_PAGE_START split: prod.splits option.splits)
  show ?thesis using get_page_bytes [OF assms(1) g] page_bytes [of "p_data (get_page_at c i s')" m addr n, OF _ _ a(1)] v
    by simp
qed

lemma mem_write_bytes:
  assumes "guest_rep E code s m" "mem_write E addr n v s = (True, s')" "n \<in> {1, 2, 4}"
  shows "guest_rep E code s' (upd m addr (le_bytes n v)) \<and> \<not> in_section SECTION_CODE (PAGE_START addr) s'"
proof -
  have f: "fit_in_page addr (of_nat n)" using assms(2) by (auto simp: mem_write_def split: if_splits)
  note a = access_fits [OF f assms(3)]
  from assms(2) f obtain c i s1 where g: "get_page E addr PAGE_PROT_RW s = (Some (c, i), s1)"
    and s': "s' = write_at (c, i, page_off addr) (le_bytes n v) s1"
    by (auto simp: mem_write_def a(2) unat_sub_PAGE_START Let_def split: prod.splits option.splits if_splits)
  note p = get_page_bytes [OF assms(1) g]
  have c: "c \<noteq> SECTION_CODE" using get_cache_section(2) p by blast
  have gc: "get_cache (PAGE_START addr) PAGE_PROT_RW s1 = Some c"
    using p get_cache_cong [of s1 s] by simp
  have "guest_rep E code s' (upd m addr (le_bytes n v))"
    unfolding s' using p c a(1) gc by (intro write_at_bytes) auto
  moreover have "\<not> in_section SECTION_CODE (PAGE_START addr) s'"
    using gc by (auto simp: s' get_cache_def in_section_def write_at_def set_page_def split: if_splits)
  ultimately show ?thesis by blast
qed

lemma get_instruction_bytes:
  assumes "guest_rep E code s m" "get_instruction E addr s = (Some inst, s')" "PAGE_START addr \<noteq> 0"
  shows "guest_rep E code s' m \<and>
    (\<exists>d. code (PAGE_START addr) = Some d \<and> inst = le_val (slice d (page_off addr) 4))"
proof (rule guest_repE [OF assms(1)])
  fix g assume g: "mem_rep E code s g" "m = byte_at code s g" "link_ok E code s g"
  from assms(2) obtain i where p: "get_code_page E (PAGE_START addr) s = (Some i, s')"
    and v: "inst = le_val (slice (p_data (get_page_at SECTION_CODE i s')) (page_off addr) 4)"
    by (auto simp: get_instruction_def unat_sub_PAGE_START split: prod.splits option.splits if_splits)
  note w = get_code_page_flat [OF g(1) p PAGE_START_idem assms(3)]
  have "m = byte_at code s' g" unfolding g(2) using w by (intro ext byte_at_cong [symmetric]) auto
  then show ?thesis using w v by (auto intro: guest_repI)
qed

section \<open>An example\<close>

text \<open>
  A host that serves the page at 0x200 once, answers \<open>xrecv\<close> with two bytes, and nothing else, and
  a device whose caches are empty. The page is the one of the tree of the previous examples.
\<close>

definition once_host :: "u8 list list \<Rightarrow> u8 list" where
  "once_host t =
    (let m = le_bytes 4 (0x200 :: u32) @ cmd_bytes CMD_REQUEST_PAGE in
     if length (hd t) = 8 then [0, 0, 1, 0x41, 1, 0x42]
     else case t of
       [m1] \<Rightarrow> if m1 = m then ex_host 9 5 t else []
     | [m2, m1] \<Rightarrow> if m1 = m \<and> drop 4 m2 = cmd_bytes CMD_REQUEST_HMAC then ex_host 9 5 t else []
     | [m3, m2, m1] \<Rightarrow> if m1 = m \<and> drop 4 m3 = cmd_bytes CMD_REQUEST_PROOF then ex_host 9 5 t else []
     | _ \<Rightarrow> [])"

definition once_env :: env where
  "once_env = (ex_env 9 5)\<lparr>host := once_host\<rparr>"

lemma once_queries:
  assumes "d_sent (dev s) = []"
  shows "host once_env (page_query s 0x200) = host (ex_env 9 5) (page_query s 0x200)"
    "host once_env (hmac_query once_env s 0x200) = host (ex_env 9 5) (hmac_query (ex_env 9 5) s 0x200)"
    "host once_env (proof_query once_env s 0x200) = host (ex_env 9 5) (proof_query (ex_env 9 5) s 0x200)"
proof -
  have l: "length (take 4 (host (ex_env 9 5) (page_query s 0x200))) = 4"
    "length (take 4 (host (ex_env 9 5) (hmac_query (ex_env 9 5) s 0x200))) = 4"
    unfolding ex_queries by simp_all
  show 1: "host once_env (page_query s 0x200) = host (ex_env 9 5) (page_query s 0x200)"
    using assms by (simp add: once_env_def once_host_def page_query_def Let_def ex_env_def)
  have h: "hmac_query once_env s 0x200 = hmac_query (ex_env 9 5) s 0x200"
    by (simp add: hmac_query_def 1)
  show 2: "host once_env (hmac_query once_env s 0x200) = host (ex_env 9 5) (hmac_query (ex_env 9 5) s 0x200)"
    unfolding h using assms l(1)
    by (simp add: once_env_def once_host_def hmac_query_def page_query_def Let_def ex_env_def)
  have h3: "proof_query once_env s 0x200 = proof_query (ex_env 9 5) s 0x200"
    using 2 h by (simp add: proof_query_def)
  show "host once_env (proof_query once_env s 0x200) = host (ex_env 9 5) (proof_query (ex_env 9 5) s 0x200)"
    unfolding h3 using assms l(2)
    by (simp add: once_env_def once_host_def proof_query_def hmac_query_def page_query_def Let_def ex_env_def)
qed

text \<open>What a success tells of the host: it answered, and the transcript grew.\<close>

lemma exchange_sent: "exchange E tx s = (r, s') \<Longrightarrow> d_sent (dev s') = query tx s"
  using io_exchange_sent [of E tx "dev s"] by (auto simp: exchange_def query_def split: prod.splits)

lemma request_answered:
  assumes "stream_request_page E p a ro s = (True, q, u)" "buf_ok (dev s)"
  shows "host E (page_query s a) \<noteq> []"
proof -
  let ?s = "on_dev (write_buf 0 (le_bytes 4 a @ cmd_bytes CMD_REQUEST_PAGE)) (update_ui s)"
  have q: "query 6 ?s = page_query s a" "buf_ok (dev ?s)"
    using query_write_0 [of "update_ui s" "le_bytes 4 a @ cmd_bytes CMD_REQUEST_PAGE" 6] assms(2)
    by (simp_all add: page_query_def)
  obtain r s1 where x: "exchange E 6 ?s = (r, s1)" by fastforce
  with assms(1) obtain ap where "r = Some ap"
    by (auto simp: stream_request_page_def Let_def split: option.splits)
  with exchange_Some(1) [of E 6 ?s ap s1] x q show ?thesis by auto
qed

lemma request_sent:
  assumes "stream_request_page E p a ro s = (ok, q, u)"
  shows "d_sent (dev u) \<noteq> []"
proof -
  have rc: "d_sent (dev s') \<noteq> []" if "request_cmd E c s = (r, s')" for c s r s'
    using that exchange_sent by (auto simp: request_cmd_def query_def)
  have rp: "d_sent (dev s') \<noteq> []" if "request_proof E e s = (ok, s')" for e s ok s'
    using that rc [of CMD_REQUEST_PROOF s] by (auto simp: request_proof_def split: prod.splits option.splits)
  have rh: "d_sent (dev s') \<noteq> []" if "request_hmac E p ro s = (ok, q, s')" for p ro s ok q s'
    using that rc [of CMD_REQUEST_HMAC s] rp
    by (auto simp: request_hmac_def Let_def split: prod.splits option.splits if_splits)
  show ?thesis
    using assms exchange_sent rh
    by (auto simp: stream_request_page_def Let_def query_def split: prod.splits option.splits if_splits)
qed

lemma commit_answered:
  assumes "stream_commit_page E p ins s = (True, q, u)" "buf_ok (dev s)" "sizes_ok E" "length (p_data p) = 256"
  shows "\<exists>ct. length ct = 256 \<and> host E ((ct @ cmd_bytes CMD_COMMIT_PAGE) # d_sent (dev s)) \<noteq> []"
proof -
  let ?ui = "update_ui s" and ?p = "p\<lparr>p_iv := p_iv p + 1\<rparr>"
  let ?enc = "encrypt_page E (p_data p) (p_addr p) (p_iv p + 1) ?ui"
  let ?s = "on_dev (write_buf 0 (?enc @ cmd_bytes CMD_COMMIT_PAGE)) ?ui"
  have l: "length ?enc = 256" using assms(3,4) by (simp add: sizes_ok_def encrypt_page_def)
  have q: "query 258 ?s = (?enc @ cmd_bytes CMD_COMMIT_PAGE) # d_sent (dev s)" "buf_ok (dev ?s)"
    using query_write_0 [of ?ui "?enc @ cmd_bytes CMD_COMMIT_PAGE" 258] assms(2) l by simp_all
  obtain r s1 where x: "exchange E 258 ?s = (r, s1)" by fastforce
  with assms(1) obtain ap where "r = Some ap"
    by (auto simp: stream_commit_page_def Let_def split: option.splits if_splits)
  with exchange_Some(1) [of E 258 ?s ap s1] x q l show ?thesis by (intro exI [of _ ?enc]) auto
qed

text \<open>The host of the example answers no other request and no commit.\<close>

lemma once_request:
  assumes "stream_request_page once_env p a ro s = (True, q, u)" "buf_ok (dev s)"
  shows "d_sent (dev s) = [] \<and> a = 0x200"
proof -
  have c: "cmd_bytes CMD_REQUEST_PAGE \<noteq> cmd_bytes CMD_REQUEST_HMAC"
    "cmd_bytes CMD_REQUEST_PAGE \<noteq> cmd_bytes CMD_REQUEST_PROOF"
    by (simp_all add: cmd_bytes_def le_bytes_2)
  have "once_host (page_query s a) \<noteq> []"
    using request_answered [OF assms] by (simp add: once_env_def)
  then show ?thesis
    using c by (auto simp: once_host_def page_query_def Let_def split: list.splits if_splits)
qed

lemma once_sizes: "sizes_ok once_env" "lengths_ok once_env" "decrypts once_env"
  using ex_sizes(1,2) [of 9 5] ex_lengths [of 9 5]
  by (simp_all add: once_env_def sizes_ok_def lengths_ok_def decrypts_def)

lemma once_commit:
  assumes "stream_commit_page once_env p ins s = (True, q, u)" "buf_ok (dev s)" "length (p_data p) = 256"
  shows False
proof -
  obtain ct where ct: "length ct = 256" "once_host ((ct @ cmd_bytes CMD_COMMIT_PAGE) # d_sent (dev s)) \<noteq> []"
    using commit_answered [OF assms(1,2) once_sizes(1) assms(3)] by (auto simp: once_env_def)
  have c: "ct @ cmd_bytes CMD_COMMIT_PAGE \<noteq> le_bytes 4 (0x200 :: u32) @ cmd_bytes CMD_REQUEST_PAGE"
  proof
    assume "ct @ cmd_bytes CMD_COMMIT_PAGE = le_bytes 4 (0x200 :: u32) @ cmd_bytes CMD_REQUEST_PAGE"
    from arg_cong [OF this, of length] ct(1) show False by simp
  qed
  have "drop 4 (ct @ cmd_bytes CMD_COMMIT_PAGE) \<noteq> cmd_bytes k" for k
  proof
    assume "drop 4 (ct @ cmd_bytes CMD_COMMIT_PAGE) = cmd_bytes k"
    from arg_cong [OF this, of length] ct(1) show False by simp
  qed
  then show False
    using ct c by (auto simp: once_host_def Let_def split: list.splits if_splits)
qed

lemma once_safe:
  assumes "d_sent (dev t) = []" "mt t = ex_ctx"
  shows "request_safe once_env t ex_ghost 0x200" "answer_iv once_env t 0x200 = 5"
proof -
  note q = once_queries [OF assms(1)]
  have a: "answer_ct once_env t 0x200 = ex_page_bytes 9" "answer_iv once_env t 0x200 = 5"
    "answer_proof once_env t 0x200 = ex_proof"
    using ex_answers(1,2,4) [of 9 5 t "0x200"]
    by (simp_all add: answer_ct_def answer_iv_def answer_proof_def q)
  show "answer_iv once_env t 0x200 = 5" by (rule a(2))
  have "genuine once_env t ex_ghost 0x200"
    by (simp add: genuine_def a ex_ghost_def ex_hist_def encrypt_page_def)
      (simp add: ex_page_bytes_def once_env_def ex_env_def)
  moreover have "sha256 once_env = pad_sha" by (simp add: once_env_def ex_env_def)
  ultimately show "request_safe once_env t ex_ghost 0x200"
    using once_sizes(3) ex_fair by (simp add: request_safe_def a ex_ghost_def)
qed

lemma once_trusted:
  assumes "d_sent (dev s) = []" "mt s = ex_ctx"
  shows "trusted once_env code s ex_ghost"
proof -
  define X where "X s g \<longleftrightarrow> d_sent (dev s) \<noteq> [] \<or> d_sent (dev s) = [] \<and> mt s = ex_ctx \<and> g = ex_ghost"
    for s :: vm and g :: ghost
  have "X s ex_ghost" using assms by (simp add: X_def)
  then show ?thesis
  proof (rule trusted.coinduct [where X = X])
    fix s g assume X: "X s g"
    have buf: "buf_ok (dev t)" "d_sent (dev t) = d_sent (dev s)" "mt t = mt s" if "linked s t" for t
      using that by (simp_all add: linked_def)
    have "request_safe once_env t g a \<and> X u g"
      if "linked s t" "stream_request_page once_env p a False t = (True, q, u)" for t p a q u
    proof -
      have a: "d_sent (dev t) = []" "a = 0x200" using once_request [OF that(2)] buf [OF that(1)] by auto
      then have "mt t = ex_ctx" "g = ex_ghost" using buf [OF that(1)] X by (auto simp: X_def)
      then show ?thesis using once_safe a request_sent [OF that(2)] by (simp add: X_def)
    qed
    moreover have "genuine once_env t (code_ghost code) a \<and> X u g"
      if "linked s t" "stream_request_page once_env p a True t = (True, q, u)" for t p a q u
    proof -
      have a: "d_sent (dev t) = []" "a = 0x200" using once_request [OF that(2)] buf [OF that(1)] by auto
      then have "mt t = ex_ctx" using buf [OF that(1)] X by (auto simp: X_def)
      then have "answer_iv once_env t 0x200 = 5" using once_safe(2) a by simp
      then show ?thesis using request_page_checked [OF that(2)] buf [OF that(1)] a by simp
    qed
    moreover have "False" if "linked s t" "length (p_data p) = 256"
      "stream_commit_page once_env p ins t = (True, q, u)" for t p ins q u
      using once_commit [OF that(3) _ that(2)] buf [OF that(1)] by simp
    moreover have "X u g" if "linked s t" "exchange once_env tx t = (r, u)" for t tx r u
      using exchange_sent [OF that(2)] by (simp add: X_def query_def)
    ultimately show "\<exists>s' g'. s = s' \<and> g = g' \<and>
        (\<forall>t p a q u. linked s' t \<longrightarrow> stream_request_page once_env p a False t = (True, q, u) \<longrightarrow>
          request_safe once_env t g' a \<and> (X u g' \<or> trusted once_env code u g')) \<and>
        (\<forall>t p a q u. linked s' t \<longrightarrow> stream_request_page once_env p a True t = (True, q, u) \<longrightarrow>
          genuine once_env t (code_ghost code) a \<and> (X u g' \<or> trusted once_env code u g')) \<and>
        (\<forall>t p ins q u. linked s' t \<longrightarrow> length (p_data p) = 256 \<longrightarrow>
          stream_commit_page once_env p ins t = (True, q, u) \<longrightarrow> commit_safe once_env t g' p ins \<and>
          (X u (ghost_commit p ins g') \<or> trusted once_env code u (ghost_commit p ins g'))) \<and>
        (\<forall>t tx r u. linked s' t \<longrightarrow> exchange once_env tx t = (r, u) \<longrightarrow> X u g' \<or> trusted once_env code u g')"
      by (intro exI [of _ s] exI [of _ g] conjI refl allI impI) blast+
  qed
qed

definition ex_mem :: "u32 \<Rightarrow> u8" where
  "ex_mem = byte_at (\<lambda>_. None) ex_mem_vm ex_ghost"

lemma ex_mem_rep: "mem_rep once_env code ex_mem_vm ex_ghost"
proof -
  have sha: "sha256 once_env = pad_sha" "sha256 (ex_env 9 5) = pad_sha"
    by (simp_all add: once_env_def ex_env_def)
  have sent: "d_sent (dev ex_mem_vm) = []" by (simp add: ex_mem_parts(2) ex_vm_def)
  have "pager_rep once_env ex_mem_vm ex_ghost"
    using ex_pager_rep [of 9 5] by (simp add: pager_rep_def sha ex_mem_parts ex_vm_parts)
  then have "link_ok once_env code ex_mem_vm ex_ghost"
    using once_trusted [OF sent ex_mem_parts(1)] by (simp add: link_ok_def)
  moreover have "layout_ok ex_mem_vm"
  proof -
    have "in_section c a ex_mem_vm \<longleftrightarrow> s_start (ex_section c) \<le> a \<and> a < s_end (ex_section c)" for c a
      by (simp add: in_section_def ex_mem_parts)
    moreover have "\<not> (s_start (ex_section c) \<le> 0 \<and> 0 < s_end (ex_section c))" for c
      by (cases c) (simp_all add: ex_section_def)
    moreover have "\<not> (a < 0x1000 \<and> 0x4000 \<le> a)" for a :: u32
      using le_less_trans [of "0x4000" a "0x1000"] by auto
    ultimately show ?thesis
      by (auto simp: layout_ok_def ex_mem_parts ex_section_def PAGE_START_def PAGE_SIZE_def)
  qed
  moreover have "code_cached code ex_mem_vm"
    by (auto simp: code_cached_def ex_mem_parts ex_free_def dest!: in_set_replicate [THEN iffD1])
  moreover have "p_addr p = 0" if "p \<in> set (pages (cache_of c ex_mem_vm))" for p c
    using that by (auto simp: ex_mem_parts ex_free_def dest!: in_set_replicate [THEN iffD1])
  moreover have st: "stored ex_ghost a = (if a = 0x200 then Some (ex_page_bytes 9, 5)
      else if a = 0x100 then Some (ex_page_bytes 9, 3) else None)" for a
    by (simp add: stored_def ex_ghost_def ex_hist_def counters_def ex_entries_def)
  moreover have "stored ex_ghost a = None" if "in_section c a ex_mem_vm" "unborn c a ex_mem_vm" for c a
    using that by (auto simp: st in_section_def unborn_def ex_mem_parts ex_section_def)
  ultimately show ?thesis
    using ex_mem_wf once_sizes(2) by (auto simp: mem_rep_def ex_page_bytes_def)
qed

lemma ex_guest_rep: "guest_rep once_env (\<lambda>_. None) ex_mem_vm ex_mem"
  by (rule guest_repI [OF ex_mem_rep ex_mem_def])

lemma ex_mem_byte: "PAGE_START a = 0x200 \<Longrightarrow> ex_mem a = 9"
proof -
  assume a: "PAGE_START a = 0x200"
  have "find (\<lambda>p. p_addr p = 0x200) (replicate n ex_free) = None" for n
    by (simp add: find_None_iff ex_free_def)
  then have "flat ex_mem_vm ex_ghost SECTION_DATA 0x200 = ex_page_bytes 9"
    by (simp add: flat_def ex_mem_parts content_def stored_def ex_ghost_def ex_hist_def counters_def ex_entries_def)
  then show ?thesis
    by (simp add: ex_mem_def byte_at_def Let_def a in_section_def ex_mem_parts ex_section_def ex_page_bytes_def)
qed

text \<open>The first page that the guest reads or writes is served.\<close>

lemma once_get_page:
  obtains n s' where "get_page once_env 0x234 prot ex_mem_vm = (Some (SECTION_DATA, n), s')"
proof -
  have a: "PAGE_START 0x234 = 0x200" by (simp add: PAGE_START_def PAGE_SIZE_def)
  have c: "get_cache 0x200 prot ex_mem_vm = Some SECTION_DATA"
    by (simp add: get_cache_def in_section_def ex_mem_parts ex_section_def)
  have sent: "d_sent (dev ex_mem_vm) = []" by (simp add: ex_mem_parts(2) ex_vm_def)
  have sha: "sha256 once_env = pad_sha" by (simp add: once_env_def ex_env_def)
  note q = once_queries [OF sent]
  have ans: "answer_iv once_env ex_mem_vm 0x200 = 5" "answer_proof once_env ex_mem_vm 0x200 = ex_proof"
    "answer_mac once_env ex_mem_vm 0x200 = replicate 32 7"
    using ex_answers(2-4) [of 9 5 ex_mem_vm "0x200"]
    by (simp_all add: answer_mac_def answer_iv_def answer_proof_def q)
  have "host_serves once_env ex_mem_vm 0x200 False"
    unfolding host_serves_def Let_def q ans sha ex_queries ex_mem_parts
    by (simp add: apdu_wf_def length_ex_digest ex_verifies page_mac_def once_env_def ex_env_def)
  from request_page_complete [OF this ex_mem_parts(6)] obtain p s3 where
    r: "stream_request_page once_env (get_page_at SECTION_DATA 0 ex_mem_vm) 0x200 False ex_mem_vm =
      (True, p, s3)" by blast
  have "p_addr (get_page_at SECTION_DATA 0 ex_mem_vm) = 0"
    by (simp add: get_page_at_def ex_mem_parts ex_free_def)
  then obtain i s' where "create_page once_env SECTION_DATA 0x200 ex_mem_vm = (Some i, s')"
    using r by (cases "reorder_cache SECTION_DATA 0 (set_page SECTION_DATA 0 p s3)")
      (simp add: create_page_def ex_mem_evict ex_mem_parts grow_def)
  then have "get_page once_env 0x234 prot ex_mem_vm = (Some (SECTION_DATA, i), s')"
    by (simp add: get_page_def a c ex_mem_find)
  then show ?thesis by (rule that)
qed

lemma ex_fits: "fit_in_page 0x234 4" "PAGE_START 0x234 = 0x200" "page_off 0x234 = 0x34"
  by (simp_all add: fit_in_page_def PAGE_START_def PAGE_SIZE_def page_off_def)

lemma ex_load:
  obtains v s' where "mem_read once_env 0x234 4 ex_mem_vm = (Some v, s')"
proof (rule once_get_page [of PAGE_PROT_RO])
  fix n s' assume g: "get_page once_env 0x234 PAGE_PROT_RO ex_mem_vm = (Some (SECTION_DATA, n), s')"
  show ?thesis using that by (simp add: mem_read_def ex_fits(1) g)
qed

lemma ex_store:
  obtains s' where "mem_write once_env 0x234 4 v ex_mem_vm = (True, s')"
proof (rule once_get_page [of PAGE_PROT_RW])
  fix n s' assume g: "get_page once_env 0x234 PAGE_PROT_RW ex_mem_vm = (Some (SECTION_DATA, n), s')"
  show ?thesis using that by (simp add: mem_write_def ex_fits(1) g Let_def) (simp add: ex_fits(2) PAGE_SIZE_def)
qed

lemma ex_bytes: "bytes ex_mem 0x234 4 = [9, 9, 9, 9]"
proof -
  have "ex_mem (0x234 + of_nat i) = 9" if "i < 4" for i
    using page_step(1) [of "0x234" i] that by (intro ex_mem_byte) (simp add: ex_fits)
  then have "bytes ex_mem 0x234 4 = replicate 4 9" by (intro nth_equalityI) auto
  then show ?thesis by (simp add: numeral_eq_Suc)
qed

text \<open>A state in which a page of code is cached; it is the page used last.\<close>

definition ex_code_bytes :: "u8 list" where
  "ex_code_bytes = [0x03, 0x25, 0x40, 0x23, 0x23, 0x2c, 0xa0, 0x22, 0x93, 0x02, 0xf3, 0xff] @ replicate 244 0"

definition ex_code :: "u32 \<rightharpoonup> u8 list" where
  "ex_code = [0x2000 \<mapsto> ex_code_bytes]"

definition ex_code_page :: page_s where
  "ex_code_page = \<lparr>p_addr = 0x2000, p_data = ex_code_bytes, p_iv = 0\<rparr>"

definition ex_code_vm :: vm where
  "ex_code_vm = set_cache SECTION_CODE \<lparr>pages = replicate 64 ex_free @ [ex_code_page],
     writeable = False, current_page = Some 64\<rparr> ex_mem_vm"

lemma ex_code_parts: "cache_of SECTION_CODE ex_code_vm = \<lparr>pages = replicate 64 ex_free @ [ex_code_page],
    writeable = False, current_page = Some 64\<rparr>"
  "c \<noteq> SECTION_CODE \<Longrightarrow> cache_of c ex_code_vm = cache_of c ex_mem_vm"
  "get_page_at SECTION_CODE 64 ex_code_vm = ex_code_page" "sections (mem ex_code_vm) = ex_section"
  "buf_ok (dev ex_code_vm)"
  by (simp_all add: ex_code_vm_def get_page_at_def nth_append ex_mem_parts ex_sizes)

lemma ex_code_rep: "mem_rep once_env ex_code ex_code_vm ex_ghost"
proof -
  have 0: "sorted (replicate n (0 :: u32))" for n by (induction n) (auto simp: sorted_append)
  have al: "PAGE_START 0 = 0" "PAGE_START 0x2000 = 0x2000" by (simp_all add: PAGE_START_def PAGE_SIZE_def)
  have cnt: "count (mset (addrs (replicate 64 ex_free @ [ex_code_page]))) a \<le> 1" if "a \<noteq> 0" for a
  proof -
    have "a \<notin># mset (addrs (replicate 64 ex_free))" using that by (auto simp: ex_free_def)
    then show ?thesis by (simp add: not_in_iff)
  qed
  have "cache_wf SECTION_CODE (cache_of SECTION_CODE ex_code_vm)"
    unfolding ex_code_parts cache_wf_def cache_s.select_convs
    using 0 al cnt by (auto simp: sorted_append ex_free_def ex_code_page_def ex_code_bytes_def)
  then have wf: "mem_wf ex_code_vm"
    using ex_mem_wf ex_code_parts(2) by (auto simp: mem_wf_def) (metis)
  have cc: "code_cached ex_code ex_code_vm"
    by (auto simp: code_cached_def ex_code_parts ex_free_def ex_code_page_def ex_code_def)
  have lk: "link_ok once_env ex_code ex_code_vm ex_ghost"
  proof (rule link_ok_linked)
    show "link_ok once_env ex_code ex_mem_vm ex_ghost" using ex_mem_rep by (simp add: mem_rep_def)
    show "linked ex_mem_vm ex_code_vm" using ex_mem_parts(6) by (simp add: linked_def ex_code_vm_def)
  qed
  show ?thesis
    using mem_rep_code [OF ex_mem_rep lk wf cc ex_code_parts(2)] by (simp add: ex_code_vm_def)
qed

section \<open>Properties\<close>

text \<open>
  C5: the paging is invisible. A page lookup, with the evictions, commits, zero pages and
  requests it makes, leaves every byte of the flat memory as it was, and the page it returns
  holds the bytes of its address.
\<close>

theorem get_page_flat:
  assumes "guest_rep E code s m" and "get_page E addr prot s = (Some (c, n), s')"
  shows "guest_rep E code s' m \<and>
    (\<forall>i < 256. p_data (get_page_at c n s') ! i = m (PAGE_START addr + of_nat i))"
  using get_page_bytes [OF assms] by blast

text \<open>
  a load returns the bytes of the flat memory, little-endian, and changes nothing.
\<close>

theorem mem_read_flat:
  assumes "guest_rep E code s m" and "mem_read E addr n s = (Some v, s')" and "n \<in> {1, 2, 4}"
  shows "guest_rep E code s' m \<and> v = le_val (bytes m addr n)"
  using assms by (rule mem_read_bytes)

text \<open>
  a store replaces exactly its bytes of the flat memory, and never bytes of the code.
\<close>

theorem mem_write_flat:
  assumes "guest_rep E code s m" and "mem_write E addr n v s = (True, s')" and "n \<in> {1, 2, 4}"
  shows "guest_rep E code s' (upd m addr (le_bytes n v)) \<and> \<not> in_section SECTION_CODE (PAGE_START addr) s'"
  using assms by (rule mem_write_bytes)

text \<open>
  a fetch returns an instruction of the authenticated code of the application and changes
  no byte of the memory.
\<close>

theorem get_instruction_authentic:
  assumes "guest_rep E code s m" and "get_instruction E addr s = (Some inst, s')"
    and "PAGE_START addr \<noteq> 0"
  shows "guest_rep E code s' m \<and>
    (\<exists>d. code (PAGE_START addr) = Some d \<and> inst = le_val (slice d (page_off addr) 4))"
  using assms by (rule get_instruction_bytes)

theorem get_page_flat_witness:
  "\<exists>n s'. get_page once_env 0x234 PAGE_PROT_RW ex_mem_vm = (Some (SECTION_DATA, n), s') \<and>
     guest_rep once_env (\<lambda>_. None) s' ex_mem \<and> p_data (get_page_at SECTION_DATA n s') ! 0x34 = 9"
proof (rule once_get_page [of PAGE_PROT_RW])
  fix n s' assume g: "get_page once_env 0x234 PAGE_PROT_RW ex_mem_vm = (Some (SECTION_DATA, n), s')"
  have "PAGE_START (0x200 + of_nat 0x34) = 0x200" using page_start_step [of "0x34" "0x200"]
    by (simp add: PAGE_START_def PAGE_SIZE_def)
  then have "ex_mem (0x200 + of_nat 0x34) = 9" by (rule ex_mem_byte)
  with get_page_flat [OF ex_guest_rep g] ex_fits(2)
  have "guest_rep once_env (\<lambda>_. None) s' ex_mem \<and> p_data (get_page_at SECTION_DATA n s') ! 0x34 = 9"
    by (metis (no_types, lifting) numeral_less_iff semiring_norm(76-81))
  then show ?thesis using g by blast
qed

theorem mem_read_flat_witness:
  "\<exists>s'. mem_read once_env 0x234 4 ex_mem_vm = (Some 0x09090909, s')"
proof (rule ex_load)
  fix v s' assume r: "mem_read once_env 0x234 4 ex_mem_vm = (Some v, s')"
  have "v = le_val (bytes ex_mem 0x234 4)" using mem_read_flat [OF ex_guest_rep r] by simp
  also have "\<dots> = 0x09090909" by (simp add: ex_bytes)
  finally show ?thesis using r by blast
qed

theorem mem_write_flat_witness:
  "\<exists>s'. mem_write once_env 0x234 4 0xAABBCCDD ex_mem_vm = (True, s') \<and>
     guest_rep once_env (\<lambda>_. None) s' (upd ex_mem 0x234 [0xDD, 0xCC, 0xBB, 0xAA])"
proof (rule ex_store [of "0xAABBCCDD"])
  fix s' assume w: "mem_write once_env 0x234 4 0xAABBCCDD ex_mem_vm = (True, s')"
  have "le_bytes 4 (0xAABBCCDD :: u32) = [0xDD, 0xCC, 0xBB, 0xAA]" by (simp add: le_bytes_4)
  then show ?thesis using mem_write_flat [OF ex_guest_rep w] w by auto
qed

theorem get_instruction_authentic_witness:
  "\<exists>s'. get_instruction once_env 0x2004 ex_code_vm = (Some 0x22A02C23, s')"
proof -
  have a: "PAGE_START 0x2004 = 0x2000" "fit_in_page 0x2004 4" "page_off 0x2004 = 4"
    by (simp_all add: fit_in_page_def PAGE_START_def PAGE_SIZE_def page_off_def)
  have "get_code_page once_env 0x2000 ex_code_vm = (Some 64, ex_code_vm)"
    by (simp add: get_code_page_def ex_code_parts) (simp add: ex_code_page_def)
  then obtain i s' where g: "get_instruction once_env 0x2004 ex_code_vm = (Some i, s')"
    by (simp add: get_instruction_def a)
  have "i = le_val (slice ex_code_bytes 4 4)"
    using get_instruction_authentic [OF guest_repI [OF ex_code_rep refl] g] by (simp add: a ex_code_def)
  also have "\<dots> = 0x22A02C23" by (simp add: ex_code_bytes_def slice_def)
  finally show ?thesis using g by blast
qed

end
