(* ===== verification/Ecall_Memory.thy ===== *)
theory Ecall_Memory
  imports Ecall Flat_Properties
begin

text \<open>
  The system calls that work on buffers of the guest, against their reference on the flat
  memory: whatever the chunks, the evictions and the requests, \<open>memset\<close>, \<open>memcpy\<close>, \<open>strlen\<close>,
  \<open>strnlen\<close>, the copies from and to the guest and \<open>xrecv\<close> have the effect of the C functions on
  one array of bytes. The loops rest on the laws of the interface \<open>guest_buffers\<close>.
\<close>

section \<open>Consecutive chunks\<close>

lemma bytes_append: "bytes m a (k + l) = bytes m a k @ bytes m (a + of_nat k) l"
  by (rule nth_equalityI) (auto simp: nth_append of_nat_diff)

lemma unat_add_less:
  assumes "unat (y :: u32) = k + j" "k + j < 2 ^ 32"
  shows "unat (y - of_nat k) = j"
proof -
  have "y = of_nat (k + j)"
    using arg_cong [OF assms(1), of "of_nat :: nat \<Rightarrow> u32"] by simp
  then have "y - of_nat k = of_nat j" by simp
  then show ?thesis using assms(2) by (simp add: unat_of_nat take_bit_nat_eq_self)
qed

lemma upd_append:
  assumes "length xs + length ys \<le> 2 ^ 32"
  shows "upd (upd m a xs) (a + of_nat (length xs)) ys = upd m a (xs @ ys)"
proof
  fix x :: u32
  define y where "y = x - a"
  have y: "x - (a + of_nat (length xs)) = y - of_nat (length xs)" by (simp add: y_def)
  have lt: "unat y < 2 ^ 32" using unsigned_less [of y, where 'a = nat] by simp
  show "upd (upd m a xs) (a + of_nat (length xs)) ys x = upd m a (xs @ ys) x"
  proof (cases "unat y < length xs")
    case True
    let ?k = "length xs"
    have "length ys \<le> unat (y - of_nat ?k)"
    proof (rule ccontr)
      assume c: "\<not> length ys \<le> unat (y - of_nat ?k)"
      have "y = (y - of_nat ?k) + of_nat ?k" by simp
      then have "unat y = unat ((y - of_nat ?k) + of_nat ?k)" by (rule arg_cong)
      also have "\<dots> = (unat (y - of_nat ?k) + ?k) mod 2 ^ 32"
        unfolding unat_word_ariths(1) by (simp add: unat_of_nat take_bit_eq_mod mod_simps)
      finally have e: "unat y = (unat (y - of_nat ?k) + ?k) mod 2 ^ 32" .
      have "unat (y - of_nat ?k) + ?k < 2 ^ 32" using c assms by simp
      then have "unat y = unat (y - of_nat ?k) + ?k" using e by simp
      then show False using True by simp
    qed
    then have "\<not> unat (x - (a + of_nat ?k)) < length ys" unfolding y by simp
    then show ?thesis using True by (simp add: upd_def nth_append y_def)
  next
    case False
    then have "unat y = length xs + (unat y - length xs)" by simp
    from unat_add_less [OF this] lt False have "unat (y - of_nat (length xs)) = unat y - length xs" by simp
    then have "unat (x - (a + of_nat (length xs))) = unat y - length xs" by (simp add: y)
    then show ?thesis using False by (auto simp: upd_def nth_append simp flip: y_def)
  qed
qed

lemma upd_empty [simp]: "upd m a [] = m"
  by (simp add: upd_def fun_eq_iff)

text \<open>A chunk and the rest of a buffer.\<close>

lemma rest_size: "unat n \<le> unat sz \<Longrightarrow> unat n + unat (sz - n) = unat (sz :: u32)"
  by (simp add: unat_sub word_le_nat_alt)

lemma u32_length: "unat (n :: u32) \<le> 2 ^ 32"
  using unsigned_less [of n, where 'a = nat] by simp

lemma upd_chunk:
  assumes "unat n \<le> unat sz" "length xs = unat n" "length ys = unat (sz - n)"
  shows "upd (upd m a xs) (a + n) ys = upd m a (xs @ ys)"
  using upd_append [of xs ys m a] assms rest_size [OF assms(1)] u32_length [of sz] by simp

lemma bytes_chunk:
  "unat n \<le> unat sz \<Longrightarrow> bytes m a (unat sz) = bytes m a (unat n) @ bytes m (a + n) (unat (sz - n))"
  using bytes_append [of m a "unat n" "unat (sz - n)"] rest_size by simp

section \<open>Copies between the guest and the device\<close>

lemma copy_guest_buffer_bytes:
  assumes "guest_rep E code s m" "copy_guest_buffer E src sz s = (Some bs, s')"
  shows "guest_rep E code s' m \<and> bs = bytes m src (unat sz)"
  using assms
proof (induction E src sz s arbitrary: bs s' rule: copy_guest_buffer.induct)
  case (1 E src sz s)
  show ?case
  proof (cases "sz = 0")
    case True
    then show ?thesis using 1(2,3) by (auto simp: copy_guest_buffer.simps [of E src 0] bytes_def)
  next
    case False
    let ?n = "BUFFER_MIN_SIZE src sz"
    obtain p s1 bs1 where b: "get_buffer E src ?n False s = (Some p, s1)"
      "copy_guest_buffer E (src + ?n) (sz - ?n) s1 = (Some bs1, s')" "bs = read_at p (unat ?n) s1 @ bs1"
      using 1(3) False by (auto simp: copy_guest_buffer.simps [of E src sz] Let_def split: option.splits prod.splits)
    note g = guest.get_law [OF 1(2) b(1)]
    from 1(1) [OF False refl b(1) [symmetric] refl] b g show ?thesis
      using bytes_chunk [OF BUFFER_MIN_SIZE_le, of m src sz src] by auto
  qed
qed


lemma copy_host_buffer_bytes:
  assumes "guest_rep E code s m" "copy_host_buffer E dst bs sz s = (True, s')" "length bs = unat sz"
  shows "guest_rep E code s' (upd m dst bs)"
  using assms
proof (induction E dst bs sz s arbitrary: m rule: copy_host_buffer.induct)
  case (1 E dst bs sz s)
  show ?case
  proof (cases "sz = 0")
    case True
    then show ?thesis using 1(2-4) by (auto simp: copy_host_buffer.simps [of E dst bs 0])
  next
    case False
    let ?n = "BUFFER_MIN_SIZE dst sz"
    let ?c = "take (unat ?n) bs" and ?d = "drop (unat ?n) bs"
    obtain p s1 where b: "get_buffer E dst ?n True s = (Some p, s1)"
      "copy_host_buffer E (dst + ?n) ?d (sz - ?n) (write_at p ?c s1) = (True, s')"
      using 1(3) False by (auto simp: copy_host_buffer.simps [of E dst bs sz] Let_def split: option.splits prod.splits)
    have le: "unat ?n \<le> unat sz" by (rule BUFFER_MIN_SIZE_le)
    have l: "length ?c = unat ?n" "length ?d = unat (sz - ?n)"
      using le 1(4) rest_size [OF le] by auto
    have g: "guest_rep E code (write_at p ?c s1) (upd m dst ?c)"
      by (rule guest.fill_step [OF 1(2) b(1) l(1)])
    from 1(1) [OF False refl b(1) [symmetric] refl g b(2) l(2)] show ?thesis
      using upd_chunk [OF le l] by simp
  qed
qed

section \<open>memset and memcpy\<close>

lemma memset_loop_bytes:
  assumes "guest_rep E code s m" "memset_loop E addr c sz s = (True, s')"
  shows "guest_rep E code s' (upd m addr (replicate (unat sz) c))"
  using assms
proof (induction E addr c sz s arbitrary: m rule: memset_loop.induct)
  case (1 E addr c sz s)
  show ?case
  proof (cases "sz = 0")
    case True
    then show ?thesis using 1(2,3) by (auto simp: memset_loop.simps [of E addr c 0])
  next
    case False
    let ?n = "BUFFER_MIN_SIZE addr sz"
    let ?c = "replicate (unat ?n) c"
    obtain p s1 where b: "get_buffer E addr ?n True s = (Some p, s1)"
      "memset_loop E (addr + ?n) c (sz - ?n) (write_at p ?c s1) = (True, s')"
      using 1(3) False by (auto simp: memset_loop.simps [of E addr c sz] Let_def split: option.splits prod.splits)
    have le: "unat ?n \<le> unat sz" by (rule BUFFER_MIN_SIZE_le)
    have g: "guest_rep E code (write_at p ?c s1) (upd m addr ?c)"
      by (rule guest.fill_step [OF 1(2) b(1)]) simp
    have "guest_rep E code s' (upd (upd m addr ?c) (addr + ?n) (replicate (unat (sz - ?n)) c))"
      by (rule 1(1) [OF False refl b(1) [symmetric] refl g b(2)])
    moreover have "?c @ replicate (unat (sz - ?n)) c = replicate (unat sz) c"
      using rest_size [OF le] by (simp flip: replicate_add)
    ultimately show ?thesis using upd_chunk [OF le, of ?c "replicate (unat (sz - ?n)) c" m addr] by simp
  qed
qed

text \<open>The two ranges of a copy do not overlap.\<close>

definition disjoint_ranges :: "u32 \<Rightarrow> u32 \<Rightarrow> nat \<Rightarrow> bool" where
  "disjoint_ranges a b n \<longleftrightarrow> (\<forall>i < n. \<forall>j < n. a + of_nat i \<noteq> b + of_nat j)"

lemma bytes_upd_other:
  assumes "\<And>i j. i < n \<Longrightarrow> j < length bs \<Longrightarrow> b + of_nat i \<noteq> a + of_nat j"
  shows "bytes (upd m a bs) b n = bytes m b n"
proof (rule nth_equalityI)
  fix i assume "i < length (bytes (upd m a bs) b n)"
  then have i: "i < n" by simp
  have "\<not> unat (b + of_nat i - a) < length bs"
  proof
    assume "unat (b + of_nat i - a) < length bs"
    from assms [OF i this] show False by simp
  qed
  then show "bytes (upd m a bs) b n ! i = bytes m b n ! i" using i by (simp add: upd_def)
qed simp

lemma unat_copy_le: "unat (copy_size dst src sz) \<le> unat sz"
  by (simp add: unat_copy_size)

lemma disjoint_rest:
  assumes "disjoint_ranges a b (unat sz)" "unat n \<le> unat sz"
  shows "disjoint_ranges (a + n) (b + n) (unat (sz - n))"
proof -
  have "a + n + of_nat i \<noteq> b + n + of_nat j" if "i < unat (sz - n)" "j < unat (sz - n)" for i j
    using assms(1) that rest_size [OF assms(2)]
    by (auto simp: disjoint_ranges_def algebra_simps)
  then show ?thesis by (simp add: disjoint_ranges_def)
qed

lemma memcpy_loop_bytes:
  assumes "guest_rep E code s m" "memcpy_loop E dst src sz s = (True, s')"
    and "disjoint_ranges dst src (unat sz)"
  shows "guest_rep E code s' (upd m dst (bytes m src (unat sz)))"
  using assms
proof (induction E dst src sz s arbitrary: m rule: memcpy_loop.induct)
  case (1 E dst src sz s)
  show ?case
  proof (cases "sz = 0")
    case True
    then show ?thesis using 1(2,3) by (auto simp: memcpy_loop.simps [of E dst src 0] bytes_def)
  next
    case False
    let ?n = "copy_size dst src sz"
    let ?c = "bytes m src (unat ?n)" and ?r = "bytes m (src + ?n) (unat (sz - ?n))"
    obtain p s1 q s2 where b: "get_buffer E src ?n False s = (Some p, s1)"
      "get_buffer E dst ?n True s1 = (Some q, s2)"
      "memcpy_loop E (dst + ?n) (src + ?n) (sz - ?n) (write_at q (read_at p (unat ?n) s1) s2) = (True, s')"
      using 1(3) False by (auto simp: memcpy_loop.simps [of E dst src sz] Let_def split: option.splits prod.splits)
    have le: "unat ?n \<le> unat sz" by (rule unat_copy_le)
    have g: "guest_rep E code (write_at q (read_at p (unat ?n) s1) s2) (upd m dst ?c)"
      by (rule guest.copy_step [OF 1(2) b(1,2)])
    have d: "disjoint_ranges (dst + ?n) (src + ?n) (unat (sz - ?n))"
      by (rule disjoint_rest [OF 1(4) le])
    have "bytes (upd m dst ?c) (src + ?n) (unat (sz - ?n)) = ?r"
    proof (rule bytes_upd_other)
      fix i j assume "i < unat (sz - ?n)" "j < length ?c"
      then have "unat ?n + i < unat sz" "j < unat sz" using rest_size [OF le] by auto
      then have "dst + of_nat j \<noteq> src + of_nat (unat ?n + i)"
        using 1(4) unfolding disjoint_ranges_def by blast
      then show "src + ?n + of_nat i \<noteq> dst + of_nat j" by (simp add: algebra_simps)
    qed
    with 1(1) [OF False refl b(1) [symmetric] refl refl b(2) [symmetric] refl g b(3) d]
    have "guest_rep E code s' (upd (upd m dst ?c) (dst + ?n) ?r)" by simp
    moreover have "?c @ ?r = bytes m src (unat sz)" by (rule bytes_chunk [OF le, symmetric])
    ultimately show ?thesis using upd_chunk [OF le, of ?c ?r m dst] by simp
  qed
qed


section \<open>strlen and strnlen\<close>

lemma c_strnlen_append:
  "c_strnlen (xs @ ys) = (if c_strnlen xs < length xs then c_strnlen xs else length xs + c_strnlen ys)"
  by (auto simp: c_strnlen_def takeWhile_append length_takeWhile_less)

lemma c_strnlen_le: "c_strnlen bs \<le> length bs"
  by (simp add: c_strnlen_def length_takeWhile_le)

lemma c_strnlen_nth: "i < c_strnlen bs \<Longrightarrow> bs ! i \<noteq> 0"
proof -
  assume i: "i < c_strnlen bs"
  then have "takeWhile (\<lambda>c. c \<noteq> 0) bs ! i \<in> set (takeWhile (\<lambda>c. c \<noteq> 0) bs)"
    by (intro nth_mem) (simp add: c_strnlen_def)
  then show ?thesis using i takeWhile_nth [of i "\<lambda>c. c \<noteq> 0" bs] set_takeWhileD
    by (fastforce simp: c_strnlen_def)
qed

lemma c_strnlen_zero: "c_strnlen bs < length bs \<Longrightarrow> bs ! c_strnlen bs = 0"
  using nth_length_takeWhile [of "\<lambda>c. c \<noteq> 0" bs] by (simp add: c_strnlen_def)

lemma strnlen_loop_bytes:
  assumes "guest_rep E code s m" "strnlen_loop E addr maxlen len s = (True, k, s')"
  shows "guest_rep E code s' m \<and> k = len + of_nat (c_strnlen (bytes m addr (unat maxlen)))"
  using assms
proof (induction E addr maxlen len s rule: strnlen_loop.induct)
  case (1 E addr maxlen len s)
  show ?case
  proof (cases "maxlen = 0")
    case True
    then show ?thesis using 1(2,3)
      by (auto simp: strnlen_loop.simps [of E addr 0] bytes_def c_strnlen_def)
  next
    case False
    let ?n = "BUFFER_MIN_SIZE addr maxlen"
    let ?c = "bytes m addr (unat ?n)"
    obtain p s1 where b: "get_buffer E addr ?n False s = (Some p, s1)"
      using 1(3) False by (auto simp: strnlen_loop.simps [of E addr maxlen] Let_def split: option.splits prod.splits)
    note g = guest.get_law [OF 1(2) b]
    have all: "bytes m addr (unat maxlen) = ?c @ bytes m (addr + ?n) (unat (maxlen - ?n))"
      by (rule bytes_chunk [OF BUFFER_MIN_SIZE_le])
    show ?thesis
    proof (cases "c_strnlen ?c < unat ?n")
      case True
      then show ?thesis using 1(3) False b g
        by (auto simp: strnlen_loop.simps [of E addr maxlen] Let_def all c_strnlen_append)
    next
      case stop: False
      have eq: "c_strnlen ?c = unat ?n" using stop c_strnlen_le [of ?c] by simp
      have r: "strnlen_loop E (addr + ?n) (maxlen - ?n) (len + of_nat (c_strnlen ?c)) s1 = (True, k, s')"
        using 1(3) False b g stop by (simp add: strnlen_loop.simps [of E addr maxlen] Let_def)
      have r': "strnlen_loop E (addr + ?n) (maxlen - ?n)
          (len + of_nat (c_strnlen (read_at p (unat ?n) s1))) s1 = (True, k, s')"
        using r g by simp
      from 1(1) [OF False refl b [symmetric] refl refl _ _ r'] g stop
      show ?thesis by (simp add: all c_strnlen_append eq)
    qed
  qed
qed

text \<open>No page is mapped at 0.\<close>

lemma get_buffer_not_zero:
  assumes "guest_rep E code s m" "get_buffer E addr n w s = (Some p, s')"
  shows "PAGE_START addr \<noteq> 0"
proof (rule get_buffer_page [OF assms(2)])
  fix c k assume g: "get_page E addr (if w then PAGE_PROT_RW else PAGE_PROT_RO) s = (Some (c, k), s')"
  from get_page_bytes [OF assms(1) g] get_cache_section(1) have "in_section c (PAGE_START addr) s" by blast
  then show ?thesis using assms(1) by (auto simp: guest_rep_def mem_rep_def layout_ok_def)
qed

text \<open>The start of the next page is beyond the page, unless it wraps around to 0.\<close>

lemma next_page_start:
  "addr + BUFFER_MAX_SIZE addr = 0 \<or> unat addr < unat (addr + BUFFER_MAX_SIZE addr)"
proof -
  have "unat addr + unat (BUFFER_MAX_SIZE addr) = 256 * (unat addr div 256) + 256"
    unfolding unat_BUFFER_MAX_SIZE page_off_def
    using mult_div_mod_eq [of 256 "unat addr"] mod_less_divisor [of 256 "unat addr"] by linarith
  moreover have "unat addr div 256 < 2 ^ 24"
    using unsigned_less [of addr, where 'a = nat] by simp
  ultimately have "unat addr + unat (BUFFER_MAX_SIZE addr) \<le> 2 ^ 32" by simp
  moreover have "0 < unat (BUFFER_MAX_SIZE addr)" by (simp add: unat_BUFFER_MAX_SIZE)
  ultimately show ?thesis
    by (auto simp: unat_word_ariths word_unat_eq_iff le_less)
qed

text \<open>\<open>k\<close> is the length of the string at \<open>a\<close>.\<close>

definition is_strlen :: "(u32 \<Rightarrow> u8) \<Rightarrow> u32 \<Rightarrow> nat \<Rightarrow> bool" where
  "is_strlen m a k \<longleftrightarrow> (\<forall>i < k. m (a + of_nat i) \<noteq> 0) \<and> m (a + of_nat k) = 0"

lemma is_strlen_chunk:
  assumes "\<not> c_strnlen (bytes m a n) < n" "is_strlen m (a + of_nat n) k"
  shows "is_strlen m a (n + k)"
proof -
  have "m (a + of_nat i) \<noteq> 0" if "i < n" for i
    using c_strnlen_nth [of i "bytes m a n"] that assms(1) c_strnlen_le [of "bytes m a n"] by simp
  moreover have "m (a + of_nat i) \<noteq> 0" if "n \<le> i" "i < n + k" for i
  proof -
    have e: "a + of_nat i = a + of_nat n + of_nat (i - n)" using that by (simp add: of_nat_diff)
    have "i - n < k" using that by simp
    then show ?thesis unfolding e using assms(2) unfolding is_strlen_def by blast
  qed
  ultimately have "\<forall>i < n + k. m (a + of_nat i) \<noteq> 0" by (metis not_less)
  then show ?thesis using assms(2) by (simp add: is_strlen_def add.assoc)
qed

lemma is_strlen_here:
  assumes "c_strnlen (bytes m a n) < n"
  shows "is_strlen m a (c_strnlen (bytes m a n))"
  using c_strnlen_nth [of _ "bytes m a n"] c_strnlen_zero [of "bytes m a n"] assms
  by (auto simp: is_strlen_def)

lemma strlen_loop_bytes:
  assumes "guest_rep E code s m"
  shows "\<exists>b n s'. strlen_loop E addr len s = Some (b, n, s') \<and>
    (b \<longrightarrow> guest_rep E code s' m \<and> (\<exists>k. n = len + of_nat k \<and> is_strlen m addr k))"
  using assms
proof (induction "2 ^ 32 - unat addr" arbitrary: addr len s rule: less_induct)
  case less
  let ?n = "BUFFER_MAX_SIZE addr"
  obtain b s1 where gb: "get_buffer E addr ?n False s = (b, s1)" by fastforce
  show ?case
  proof (cases b)
    case None
    then show ?thesis using gb by (subst strlen_loop.simps) auto
  next
    case (Some p)
    note g = guest.get_law [OF less.prems gb [unfolded Some]]
    let ?c = "c_strnlen (bytes m addr (unat ?n))"
    show ?thesis
    proof (cases "?c < unat ?n")
      case True
      then show ?thesis using gb g Some is_strlen_here [OF True] by (subst strlen_loop.simps) auto
    next
      case False
      let ?a = "addr + ?n"
      have eq: "?c = unat ?n" using False c_strnlen_le [of "bytes m addr (unat ?n)"] by simp
      have step: "strlen_loop E addr len s = strlen_loop E ?a (len + ?n) s1"
        using gb g Some False eq by (subst strlen_loop.simps) (simp add: Let_def)
      show ?thesis
      proof (cases "?a = 0")
        case True
        obtain b' s2 where "get_buffer E 0 (BUFFER_MAX_SIZE 0) False s1 = (b', s2)" by fastforce
        moreover from this have "b' = None"
          using get_buffer_not_zero [of E code s1 m 0] g by (cases b') (auto simp: PAGE_START_def)
        ultimately show ?thesis unfolding step True by (subst strlen_loop.simps) auto
      next
        case nz: False
        then have "2 ^ 32 - unat ?a < 2 ^ 32 - unat addr"
          using next_page_start [of addr] unsigned_less [of ?a, where 'a = nat] by auto
        from less.hyps [OF this, of s1 "len + ?n"] g obtain b' n' s2 where
          r: "strlen_loop E ?a (len + ?n) s1 = Some (b', n', s2)"
            "b' \<longrightarrow> guest_rep E code s2 m \<and> (\<exists>k. n' = len + ?n + of_nat k \<and> is_strlen m ?a k)" by blast
        have "\<exists>k. n' = len + of_nat k \<and> is_strlen m addr k" if b: b'
        proof -
          obtain k where k: "n' = len + ?n + of_nat k" "is_strlen m ?a k" using r(2) b by blast
          from is_strlen_chunk [OF False, of k] k(2) have "is_strlen m addr (unat ?n + k)" by simp
          then show ?thesis using k(1) by (intro exI [of _ "unat ?n + k"]) (simp add: add.assoc)
        qed
        then show ?thesis unfolding step using r by auto
      qed
    qed
  qed
qed


section \<open>xrecv\<close>

lemma guest_rep_write_buf:
  assumes "guest_rep E code s m" "off + length bs \<le> 260"
  shows "guest_rep E code (on_dev (write_buf off bs) s) m"
proof (rule guest_rep_linked [OF assms(1)])
  have "off + length bs \<le> length (d_buf (dev s))" "buf_ok (dev s)"
    using guest_rep_buf [OF assms(1)] assms(2) by (auto simp: buf_ok_def)
  then have "buf_ok (write_buf off bs (dev s))" by simp
  then show "linked s (on_dev (write_buf off bs) s)" by (simp add: linked_def write_buf_def)
qed simp

lemma xrecv_loop_bytes:
  assumes "guest_rep E code s m" "xrecv_loop E addr sz counter got s = (True, n, s')"
  shows "\<exists>bs. n = got + of_nat (length bs) \<and> length bs \<le> unat sz \<and> guest_rep E code s' (upd m addr bs)"
  using assms
proof (induction E addr sz counter got s arbitrary: m rule: xrecv_loop.induct)
  case (1 E addr sz counter got s)
  show ?case
  proof (cases "sz = 0")
    case True
    then show ?thesis using 1(2,3) by (intro exI [of _ "[]"]) (simp add: xrecv_loop.simps [of E addr 0])
  next
    case False
    let ?n = "BUFFER_MIN_SIZE addr sz"
    obtain p s1 where b: "get_buffer E addr ?n True s = (Some p, s1)"
      using 1(3) False by (auto simp: xrecv_loop.simps [of E addr sz] Let_def split: option.splits prod.splits)
    let ?s1 = "on_dev (write_buf 0 (le_bytes 4 counter @ le_bytes 2 (ucast ?n :: u16) @ cmd_bytes CMD_RECV_BUFFER)) s1"
    obtain apdu s2 where x: "exchange E 8 ?s1 = (Some apdu, s2)"
      using 1(3) False b by (auto simp: xrecv_loop.simps [of E addr sz] Let_def split: option.splits prod.splits)
    let ?k = "ucast (a_lc apdu) + 1 :: u32"
    let ?c = "a_p2 apdu # take (unat (?k - 1)) (a_data apdu)"
    have p1: "a_p1 apdu \<noteq> 2" and k: "\<not> (?k > ?n \<or> ?k \<noteq> ?n \<and> a_p1 apdu \<noteq> 1)"
      using 1(3) False b x by (auto simp: xrecv_loop.simps [of E addr sz] Let_def split: if_splits)
    have "guest_rep E code s1 m" using guest.get_law [OF 1(2) b] by blast
    then have "guest_rep E code ?s1 m" by (rule guest_rep_write_buf) simp
    from guest_rep_exchange [OF this x] have g2: "guest_rep E code s2 m" .
    have lc: "unat (a_lc apdu) < 256" using unsigned_less [of "a_lc apdu", where 'a = nat] by simp
    then have u: "unat (ucast (a_lc apdu) :: u32) = unat (a_lc apdu)"
      by (simp add: unsigned_ucast_eq take_bit_nat_eq_self)
    then have kl: "unat ?k = Suc (unat (a_lc apdu))"
      using lc by (subst unat_word_ariths) simp
    have "buf_ok (dev ?s1)"
      using \<open>guest_rep E code ?s1 m\<close> by (rule guest_rep_buf)
    then have cl: "length ?c = unat ?k"
      using exchange_Some(8) [OF x] lc kl u by simp
    have le: "unat ?k \<le> unat ?n" "unat ?k \<le> unat sz"
      using k BUFFER_MIN_SIZE_le [of addr sz] by (auto simp: word_le_nat_alt not_less)
    have mem: "mem s2 = mem s1" using exchange_parts(2) [of E 8 ?s1] x by simp
    have g3: "guest_rep E code (write_at p ?c s2) (upd m addr ?c)"
      using guest.put_law [OF 1(2) b _ g2 mem, of ?c] cl le(1) by simp
    show ?thesis
    proof (cases "a_p1 apdu = 1")
      case True
      then have "n = got + ?k" "s' = write_at p ?c s2"
        using 1(3) False b x k by (auto simp: xrecv_loop.simps [of E addr sz] Let_def)
      then show ?thesis using g3 cl le(2) by (intro exI [of _ ?c]) simp
    next
      case more: False
      then have r: "sz - ?k \<noteq> 0" "xrecv_loop E (addr + ?k) (sz - ?k) (counter + 1) (got + ?k) (write_at p ?c s2) =
          (True, n, s')"
        using 1(3) False b x k p1 by (auto simp: xrecv_loop.simps [of E addr sz] Let_def split: if_splits)
      from 1(1) [OF False refl b [symmetric] refl refl x [symmetric] refl p1 refl refl k refl more r(1) g3 r(2)]
      obtain bs where bs: "n = got + ?k + of_nat (length bs)" "length bs \<le> unat (sz - ?k)"
        "guest_rep E code s' (upd (upd m addr ?c) (addr + ?k) bs)" by blast
      have kc: "?k = of_nat (length ?c)" unfolding cl by simp
      have "n = got + of_nat (length (?c @ bs))"
        unfolding length_append of_nat_add kc [symmetric] using bs(1) by (simp add: add.assoc)
      moreover have "length (?c @ bs) \<le> unat sz" using bs(2) cl rest_size [OF le(2)] by simp
      moreover have "upd (upd m addr ?c) (addr + ?k) bs = upd m addr (?c @ bs)"
      proof -
        have "length ?c + length bs \<le> 2 ^ 32"
          unfolding cl using bs(2) rest_size [OF le(2)] u32_length [of sz] by linarith
        then show ?thesis using upd_append [of ?c bs m addr] unfolding kc [symmetric] by blast
      qed
      ultimately show ?thesis using bs(3) by metis
    qed
  qed
qed


section \<open>The page that was used last is at hand\<close>

lemma get_buffer_again:
  assumes "guest_rep E code s m" "get_buffer E a n w s = (Some p, s1)"
    and "PAGE_START b = PAGE_START a" "k \<noteq> 0" "k \<le> PAGE_SIZE" "fit_in_page b k"
    and "in_section SECTION_DATA (PAGE_START a) s" "\<not> in_section SECTION_CODE (PAGE_START a) s"
  obtains q where "get_buffer E b k w' s1 = (Some q, s1)"
proof (rule get_buffer_page [OF assms(2)])
  let ?p = "if w then PAGE_PROT_RW else PAGE_PROT_RO" and ?p' = "if w' then PAGE_PROT_RW else PAGE_PROT_RO"
  fix c i assume g: "get_page E a ?p s = (Some (c, i), s1)"
  note f = get_page_bytes [OF assms(1) g]
  have c: "c = SECTION_DATA" using f assms(7,8) by (auto simp: get_cache_def split: if_splits)
  then have gc: "get_cache (PAGE_START b) ?p' s1 = Some SECTION_DATA"
    using get_cache_cong [of s1 s "PAGE_START a" ?p'] f assms(3,7,8) by (auto simp: get_cache_def)
  obtain gh where r: "mem_rep E code s1 gh" using f by (auto simp: guest_rep_def)
  have "find_page c (PAGE_START b) s1 \<noteq> None"
  proof
    assume n: "find_page c (PAGE_START b) s1 = None"
    have k: "cache_wf c (cache_of c s1)" by (rule mem_rep_sorted [OF r])
    then have "get_page_at c i s1 \<in> set (pages (cache_of c s1))"
      using f by (simp add: cache_wf_def get_page_at_def)
    from imageI [OF this, of p_addr] show False
      using find_page_None [OF cache_wf_sorted [OF k] n] f assms(3) by simp
  qed
  then obtain j where "get_page E b ?p' s1 = (Some (SECTION_DATA, j), s1)"
    using gc c by (auto simp: get_page_def)
  then show ?thesis using assms(4-6) by (intro that) (auto simp: get_buffer_def)
qed


section \<open>Examples\<close>

lemma ex_in_data: "in_section SECTION_DATA (PAGE_START 0x234) ex_mem_vm"
  "\<not> in_section SECTION_CODE (PAGE_START 0x234) ex_mem_vm"
  by (simp_all add: ex_fits in_section_def ex_mem_parts ex_section_def)

lemma ex_buffer:
  obtains p s1 where "get_buffer once_env 0x234 4 w ex_mem_vm = (Some p, s1)"
proof (rule once_get_page [of "if w then PAGE_PROT_RW else PAGE_PROT_RO"])
  fix n s1 assume g: "get_page once_env 0x234 (if w then PAGE_PROT_RW else PAGE_PROT_RO) ex_mem_vm =
    (Some (SECTION_DATA, n), s1)"
  show ?thesis using that by (simp add: get_buffer_def ex_fits(1) g PAGE_SIZE_def)
qed

lemma ex_chunks: "BUFFER_MIN_SIZE 0x234 4 = 4" "copy_size 0x240 0x234 4 = 4"
  by (simp_all add: word_unat_eq_iff unat_BUFFER_MIN_SIZE unat_copy_size page_off_def)

lemma ex_memset: obtains s' where "sys_memset once_env 0x234 5 4 ex_mem_vm = (True, 0x234, s')"
proof (rule ex_buffer [of True])
  fix p s1 assume b: "get_buffer once_env 0x234 4 True ex_mem_vm = (Some p, s1)"
  show ?thesis
    using that by (simp add: sys_memset_def memset_loop.simps [of _ "0x234"] ex_chunks b)
      (simp add: memset_loop.simps)
qed

lemma ex_memcpy: obtains s' where "sys_memcpy once_env 0x240 0x234 4 ex_mem_vm = (True, 0x240, s')"
proof (rule ex_buffer [of False])
  fix p s1 assume b: "get_buffer once_env 0x234 4 False ex_mem_vm = (Some p, s1)"
  have f: "PAGE_START 0x240 = PAGE_START 0x234" "fit_in_page 0x240 4"
    by (simp_all add: fit_in_page_def PAGE_START_def PAGE_SIZE_def)
  have "\<exists>q. get_buffer once_env 0x240 4 True s1 = (Some q, s1)"
    by (rule get_buffer_again [OF ex_guest_rep b _ _ _ _ ex_in_data, where k = 4 and w' = True])
      (use f in \<open>auto simp: PAGE_SIZE_def\<close>)
  then obtain q where q: "get_buffer once_env 0x240 4 True s1 = (Some q, s1)" by blast
  show ?thesis
    using that by (simp add: sys_memcpy_def memcpy_loop.simps [of _ "0x240"] ex_chunks b q)
      (simp add: memcpy_loop.simps)
qed

lemma ex_xrecv: obtains s' where "sys_xrecv once_env 0x234 4 ex_mem_vm = (True, 2, s')"
proof (rule ex_buffer [of True])
  fix p s1 assume b: "get_buffer once_env 0x234 4 True ex_mem_vm = (Some p, s1)"
  let ?bs = "le_bytes 4 (0 :: u32) @ le_bytes 2 (4 :: u16) @ cmd_bytes CMD_RECV_BUFFER"
  let ?s = "on_dev (write_buf 0 ?bs) s1" and ?r = "[0, 0, 1, 0x41, 1, 0x42] :: u8 list"
  have g: "guest_rep once_env (\<lambda>_. None) s1 ex_mem" using guest.get_law [OF ex_guest_rep b] by blast
  have q: "query 8 ?s = ?bs # d_sent (dev s1)" "buf_ok (dev ?s)"
    using query_write_0 [OF guest_rep_buf [OF g], of ?bs 8] by simp_all
  have h: "host once_env (query 8 ?s) = ?r" by (simp add: q once_env_def once_host_def)
  then obtain a s2 where x: "exchange once_env 8 ?s = (Some a, s2)" and lc: "a_lc a = 1"
    using exchange_answers [of once_env 8 ?s] q(2) by (auto simp: apdu_wf_def)
  from x obtain sz d where io: "io_exchange once_env 8 (dev ?s) = (sz, d)" "parse_apdu sz d = Some a"
    by (auto simp: exchange_def split: prod.splits)
  from parse_reply [OF io refl] h q(2) have "a_p1 a = 1"
    by (simp add: query_def buf_ok_def)
  then show ?thesis
    using that x lc by (simp add: sys_xrecv_def xrecv_loop.simps [of _ "0x234"] ex_chunks b Let_def)
qed


section \<open>Properties\<close>

text \<open>
  \<open>memset\<close> fills exactly the range it is given, however many pages it spans.
\<close>

theorem sys_memset_flat:
  assumes "guest_rep E code s m" and "sys_memset E p_s c sz s = (True, r, s')"
  shows "guest_rep E code s' (upd m p_s (replicate (unat sz) (ucast c))) \<and> r = p_s"
  using memset_loop_bytes [OF assms(1), of p_s "ucast c" sz s'] assms(2)
  by (auto simp: sys_memset_def split: prod.splits)

text \<open>
  C14: \<open>memcpy\<close> copies the range, as one copy would, when source and destination do not overlap:
  obtaining the page of the destination may evict the page of the source, and nothing is lost.
\<close>

theorem sys_memcpy_flat:
  assumes "guest_rep E code s m" and "sys_memcpy E p_dst p_src sz s = (True, r, s')"
    and "disjoint_ranges p_dst p_src (unat sz)"
  shows "guest_rep E code s' (upd m p_dst (bytes m p_src (unat sz))) \<and> r = p_dst"
  using memcpy_loop_bytes [OF assms(1) _ assms(3), where s' = s'] assms(2)
  by (auto simp: sys_memcpy_def split: prod.splits)

text \<open>
  C15: \<open>strlen\<close> always returns, because no page is mapped at 0, and a success gives the number of
  bytes before the first zero.
\<close>

theorem sys_strlen_flat:
  assumes "guest_rep E code s m"
  shows "\<exists>b n s'. sys_strlen E p_s s = Some (b, n, s') \<and>
    (b \<longrightarrow> guest_rep E code s' m \<and> (\<exists>k. n = of_nat k \<and> is_strlen m p_s k))"
  using strlen_loop_bytes [OF assms, of p_s 0] by (simp add: sys_strlen_def)

text \<open>
  C16: \<open>xrecv\<close> writes at the start of the buffer as many bytes as it reports, never more than the
  buffer holds, and nothing else, whatever the host sends.
\<close>

theorem sys_xrecv_bounds:
  assumes "guest_rep E code s m" and "sys_xrecv E p_buf sz s = (True, n, s')"
  shows "\<exists>bs. n = of_nat (length bs) \<and> length bs \<le> unat sz \<and> guest_rep E code s' (upd m p_buf bs)"
  using xrecv_loop_bytes [OF assms(1), of p_buf sz 0 0 n s'] assms(2) by (simp add: sys_xrecv_def)

theorem sys_memset_flat_witness:
  "\<exists>s'. sys_memset once_env 0x234 5 4 ex_mem_vm = (True, 0x234, s') \<and>
     guest_rep once_env (\<lambda>_. None) s' (upd ex_mem 0x234 [5, 5, 5, 5])"
proof (rule ex_memset)
  fix s' assume r: "sys_memset once_env 0x234 5 4 ex_mem_vm = (True, 0x234, s')"
  have "replicate (unat (4 :: u32)) (ucast (5 :: u32)) = ([5, 5, 5, 5] :: u8 list)" by code_simp
  then show ?thesis using sys_memset_flat [OF ex_guest_rep r] r by auto
qed

theorem sys_memcpy_flat_witness:
  "\<exists>s'. sys_memcpy once_env 0x240 0x234 4 ex_mem_vm = (True, 0x240, s') \<and>
     guest_rep once_env (\<lambda>_. None) s' (upd ex_mem 0x240 [9, 9, 9, 9])"
proof (rule ex_memcpy)
  fix s' assume r: "sys_memcpy once_env 0x240 0x234 4 ex_mem_vm = (True, 0x240, s')"
  have "disjoint_ranges 0x240 0x234 (unat (4 :: u32))"
  proof -
    have "unat (4 :: u32) = Suc (Suc (Suc (Suc 0)))" by simp
    moreover have "disjoint_ranges 0x240 0x234 (Suc (Suc (Suc (Suc 0))))"
      by (auto simp: disjoint_ranges_def less_Suc_eq)
    ultimately show ?thesis by (rule ssubst)
  qed
  from sys_memcpy_flat [OF ex_guest_rep r this] show ?thesis using r by (auto simp: ex_bytes)
qed

theorem sys_strlen_flat_witness:
  "\<exists>b n s'. sys_strlen once_env 0x234 ex_mem_vm = Some (b, n, s')"
  using sys_strlen_flat [OF ex_guest_rep, of "0x234"] by blast

theorem sys_xrecv_bounds_witness:
  "\<exists>s' bs. sys_xrecv once_env 0x234 4 ex_mem_vm = (True, 2, s') \<and> 2 = (of_nat (length bs) :: u32) \<and>
     guest_rep once_env (\<lambda>_. None) s' (upd ex_mem 0x234 bs)"
proof (rule ex_xrecv)
  fix s' assume r: "sys_xrecv once_env 0x234 4 ex_mem_vm = (True, 2, s')"
  show ?thesis using sys_xrecv_bounds [OF ex_guest_rep r] r by blast
qed

end
