(* ===== verification/Vm_Run.thy ===== *)
theory Vm_Run
  imports Ecall_Crypto Ecall_Memory
begin

text \<open>
  The dispatcher of the system calls (\<open>vm/src/ecall_dispatcher.c\<close>) and the loop that runs an
  application (\<open>stream_run_app\<close> of \<open>vm/src/stream.c\<close>): the CPU of \<open>Rv_Execute\<close> linked to the paged
  memory and to the system calls.
\<close>

section \<open>The numbers of the system calls\<close>

datatype ecall_nr =
    ECALL_FATAL | ECALL_XSEND | ECALL_XRECV | ECALL_EXIT | ECALL_UX_RECTANGLE | ECALL_SCREEN_UPDATE
  | ECALL_BAGL_DRAW_BITMAP | ECALL_WAIT_BUTTON | ECALL_BAGL_DRAW | ECALL_LOADING_START
  | ECALL_LOADING_STOP | ECALL_UX_IDLE | ECALL_MEMSET | ECALL_MEMCPY | ECALL_STRLEN | ECALL_STRNLEN
  | ECALL_DERIVE_NODE_BIP32 | ECALL_CX_ECFP_GENERATE_PAIR | ECALL_ECDSA_SIGN | ECALL_ECDSA_VERIFY
  | ECALL_MULTM | ECALL_TOSTRING256 | ECALL_HASH_UPDATE | ECALL_HASH_FINAL | ECALL_GET_RANDOM_BYTES
  | ECALL_UNKNOWN

definition ecall_table :: "(u32 \<times> ecall_nr) list" where
  "ecall_table =
    [(1, ECALL_FATAL), (2, ECALL_XSEND), (3, ECALL_XRECV), (4, ECALL_EXIT), (5, ECALL_UX_RECTANGLE),
     (6, ECALL_SCREEN_UPDATE), (7, ECALL_BAGL_DRAW_BITMAP), (8, ECALL_WAIT_BUTTON), (9, ECALL_BAGL_DRAW),
     (10, ECALL_LOADING_START), (11, ECALL_LOADING_STOP), (12, ECALL_UX_IDLE), (13, ECALL_MEMSET),
     (14, ECALL_MEMCPY), (15, ECALL_STRLEN), (16, ECALL_STRNLEN), (100, ECALL_DERIVE_NODE_BIP32),
     (101, ECALL_CX_ECFP_GENERATE_PAIR), (102, ECALL_ECDSA_SIGN), (103, ECALL_ECDSA_VERIFY),
     (104, ECALL_MULTM), (105, ECALL_TOSTRING256), (106, ECALL_HASH_UPDATE), (107, ECALL_HASH_FINAL),
     (108, ECALL_GET_RANDOM_BYTES)]"

definition ecall_of :: "u32 \<Rightarrow> ecall_nr" where
  "ecall_of nr = (case map_of ecall_table nr of Some e \<Rightarrow> e | None \<Rightarrow> ECALL_UNKNOWN)"

section \<open>The dispatcher\<close>

type_synonym ecall_result = "(bool \<times> rv_cpu \<times> vm) outcome"

text \<open>A call without a result, and a call whose result is stored in \<open>A0\<close>.\<close>

definition no_eret :: "rv_cpu \<Rightarrow> bool \<times> vm \<Rightarrow> ecall_result" where
  "no_eret c res = Done (fst res, c, snd res)"

definition in_a0 :: "rv_cpu \<Rightarrow> bool \<times> u32 \<times> vm \<Rightarrow> ecall_result" where
  "in_a0 c res = (case res of (b, r, s) \<Rightarrow> Done (b, set_reg RV_REG_A0 r c, s))"

definition ecall :: "env \<Rightarrow> cx_lib \<Rightarrow> rv_cpu \<Rightarrow> vm \<Rightarrow> ecall_result" where
  "ecall E X c s =
    (let a = (\<lambda>i. regs c ! (RV_REG_A0 + i)) in
     case ecall_of (regs c ! RV_REG_T0) of
       ECALL_FATAL \<Rightarrow> Done (False, c, snd (sys_fatal E (a 0) (a 1) s))
     | ECALL_XSEND \<Rightarrow> no_eret c (sys_xsend E (a 0) (a 1) s)
     | ECALL_XRECV \<Rightarrow> in_a0 c (sys_xrecv E (a 0) (a 1) s)
     | ECALL_EXIT \<Rightarrow> Done (False, c, sys_exit (a 0) s)
     | ECALL_UX_RECTANGLE \<Rightarrow> Done (True, c, sys_ux_rectangle (a 0) (a 1) (a 2) (a 3) (a 4) s)
     | ECALL_SCREEN_UPDATE \<Rightarrow> Done (True, c, sys_screen_update s)
     | ECALL_BAGL_DRAW_BITMAP \<Rightarrow>
         then_do (sys_ux_bitmap E (a 0) (a 1) (a 2) (a 3) (a 4) (a 5) (a 6) (a 7) s) (no_eret c)
     | ECALL_WAIT_BUTTON \<Rightarrow> then_do (sys_wait_button s) (\<lambda>(m, s). in_a0 c (True, m, s))
     | ECALL_BAGL_DRAW \<Rightarrow> Done (True, c, snd (sys_bagl_draw_with_context E (a 0) (a 1) (a 2) (a 3) s))
     | ECALL_LOADING_START \<Rightarrow> no_eret c (sys_app_loading_start E (a 0) s)
     | ECALL_LOADING_STOP \<Rightarrow>
         (case sys_app_loading_stop (load s) of
            (b, l) \<Rightarrow> in_a0 c (True, if b then 1 else 0, s\<lparr>load := l\<rparr>))
     | ECALL_UX_IDLE \<Rightarrow> Done (True, c, sys_ux_idle s)
     | ECALL_MEMSET \<Rightarrow> in_a0 c (sys_memset E (a 0) (a 1) (a 2) s)
     | ECALL_MEMCPY \<Rightarrow> in_a0 c (sys_memcpy E (a 0) (a 1) (a 2) s)
     | ECALL_STRLEN \<Rightarrow> (case sys_strlen E (a 0) s of None \<Rightarrow> Blocked | Some res \<Rightarrow> in_a0 c res)
     | ECALL_STRNLEN \<Rightarrow> in_a0 c (sys_strnlen E (a 0) (a 1) s)
     | ECALL_DERIVE_NODE_BIP32 \<Rightarrow>
         then_do (sys_derive_node_bip32 E X (a 0) (a 0) (a 1) (a 2) (a 3) (a 4) s) (in_a0 c)
     | ECALL_CX_ECFP_GENERATE_PAIR \<Rightarrow>
         then_do (sys_cx_ecfp_generate_pair E X (a 0) (a 0) (a 1) (a 2) (a 3 \<noteq> 0) s) (in_a0 c)
     | ECALL_ECDSA_SIGN \<Rightarrow>
         then_do (sys_ecdsa_sign E X (a 0) (a 1) (a 2) (a 3) (a 4) (a 5) (a 6) s) (in_a0 c)
     | ECALL_ECDSA_VERIFY \<Rightarrow>
         then_do (sys_ecdsa_verify E X (a 0) (a 0) (a 1) (a 2) (a 3) s) (in_a0 c)
     | ECALL_GET_RANDOM_BYTES \<Rightarrow> no_eret c (sys_get_random_bytes E (a 0) (a 1) s)
     | ECALL_MULTM \<Rightarrow> then_do (sys_multm E X (a 0) (a 0) (a 1) (a 2) (a 3) (a 4) s) (in_a0 c)
     | ECALL_TOSTRING256 \<Rightarrow>
         then_do (sys_tostring256 E X (a 0) (a 0) (a 1) (a 2) (a 3) s) (in_a0 c)
     | ECALL_HASH_UPDATE \<Rightarrow>
         then_do (sys_hash_update E X (a 0) (a 0) (a 1) (a 2) (a 3) s) (in_a0 c)
     | ECALL_HASH_FINAL \<Rightarrow>
         then_do (sys_hash_final E X (a 0) (a 0) (a 1) (a 2) s) (in_a0 c)
     | ECALL_UNKNOWN \<Rightarrow> Done (False, c, sys_exit 0xdeaddead s))"

section \<open>Running an application\<close>

definition vm_bus :: "env \<Rightarrow> cx_lib \<Rightarrow> vm bus" where
  "vm_bus E X = \<lparr>bus_read = mem_read E, bus_write = mem_write E, bus_ecall = ecall E X\<rparr>"

text \<open>
  One turn of the loop of \<open>stream_run_app\<close>: whether the application stops, and the state. The CPU
  is taken before the fetch, which does not access it.
\<close>

definition run_step :: "env \<Rightarrow> cx_lib \<Rightarrow> vm \<Rightarrow> (bool \<times> vm) outcome" where
  "run_step E X s =
    (case get_instruction E (pc (cpu s)) s of
       (None, s1) \<Rightarrow> Exited
     | (Some instruction, s1) \<Rightarrow>
         then_do (rv_cpu_execute (vm_bus E X) instruction (cpu s) s1)
           (\<lambda>(ok, c, s). Done (\<not> ok,
              s\<lparr>cpu := c, load := app_loading_inc_counter (d_ms (dev s)) (load s)\<rparr>)))"

text \<open>The loop: \<open>None\<close> when the application never stops.\<close>

partial_function (option) stream_run_app :: "env \<Rightarrow> cx_lib \<Rightarrow> vm \<Rightarrow> vm outcome option" where
  "stream_run_app E X s =
    (case run_step E X s of
       Exited \<Rightarrow> Some Exited
     | Undefined \<Rightarrow> Some Undefined
     | Blocked \<Rightarrow> Some Blocked
     | Done res \<Rightarrow> if fst res then Some (Done (snd res)) else stream_run_app E X (snd res))"

end
