(* ===== verification/Vm_Refinement.thy ===== *)
theory Vm_Refinement
  imports Vm_Run
begin

text \<open>
  The running application against a machine with a flat memory and the authenticated code: every
  instruction executed by the paged VM is one of the code and has the effect it has on the flat
  memory, and a system call that lets the application go on leaves the paged memory the
  representation of some flat memory.
\<close>

section \<open>What does not touch the memory\<close>

lemma guest_rep_same:
  assumes "guest_rep E code s m" "mem t = mem s" "mt t = mt s" "d_sent (dev t) = d_sent (dev s)"
    "d_buf (dev t) = d_buf (dev s)"
    "hmac_static_key t = hmac_static_key s" "dyn_aes t = dyn_aes s" "dyn_hmac t = dyn_hmac s"
  shows "guest_rep E code t m"
  using assms guest_rep_buf [OF assms(1)] guest_rep_linked [of E code s m t]
  by (simp add: linked_def buf_ok_def)

lemma guest_rep_draw: "guest_rep E code s m \<Longrightarrow> guest_rep E code (draw e s) m"
  by (erule guest_rep_same) (simp_all add: draw_def)

lemma guest_rep_load: "guest_rep E code s m \<Longrightarrow> guest_rep E code (s\<lparr>load := l\<rparr>) m"
  by (erule guest_rep_same) simp_all

lemma guest_rep_cpu: "guest_rep E code s m \<Longrightarrow> guest_rep E code (s\<lparr>cpu := c\<rparr>) m"
  by (erule guest_rep_same) simp_all

lemma guest_rep_count: "guest_rep E code s m \<Longrightarrow> guest_rep E code (count_draw s) m"
  by (erule guest_rep_same) (simp_all add: count_draw_def on_dev_def)

lemmas guest_rep_frames = guest_rep_draw guest_rep_load guest_rep_cpu guest_rep_count

section \<open>The loops of the system calls\<close>

lemma copy_guest_capped_bytes:
  assumes "guest_rep E code s m" "copy_guest_capped E cap src sz s = Done (Some bs, s')"
  shows "guest_rep E code s' m \<and> bs = bytes m src (unat sz)"
  using assms
proof (induction E cap src sz s arbitrary: bs s' rule: copy_guest_capped.induct)
  case (1 E cap src sz s)
  show ?case
  proof (cases "sz = 0")
    case True
    then show ?thesis using 1(2,3) by (auto simp: copy_guest_capped.simps [of E cap src 0] bytes_def)
  next
    case False
    let ?n = "BUFFER_MIN_SIZE src sz"
    obtain p s1 bs1 where b: "get_buffer E src ?n False s = (Some p, s1)" "\<not> cap < unat ?n"
      "copy_guest_capped E (cap - unat ?n) (src + ?n) (sz - ?n) s1 = Done (Some bs1, s')"
      "bs = read_at p (unat ?n) s1 @ bs1"
      using 1(3) False by (auto simp: copy_guest_capped.simps [of E cap src sz] Let_def then_do_Done
          split: option.splits prod.splits if_splits)
    note g = guest.get_law [OF 1(2) b(1)]
    from 1(1) [OF False refl b(1) [symmetric] refl b(2)] b g show ?thesis
      using bytes_chunk [OF BUFFER_MIN_SIZE_le, of m src sz src] by auto
  qed
qed

lemma xsend_loop_rep:
  assumes "guest_rep E code s m" "xsend_loop E addr sz counter s = (True, s')"
  shows "guest_rep E code s' m"
  using assms
proof (induction E addr sz counter s rule: xsend_loop.induct)
  case (1 E addr sz counter s)
  show ?case
  proof (cases "sz = 0")
    case True
    then show ?thesis using 1(2,3) by (auto simp: xsend_loop.simps [of E addr 0])
  next
    case False
    let ?n = "send_size addr sz"
    obtain p s1 where b: "get_buffer E addr ?n False s = (Some p, s1)"
      using 1(3) False by (auto simp: xsend_loop.simps [of E addr sz] Let_def split: option.splits prod.splits)
    note g = guest.get_law [OF 1(2) b]
    let ?c = "if sz - ?n = 0 then counter OR 0x80000000 else counter"
    let ?s = "on_dev (write_buf 0 (send_message (read_at p (unat ?n) s1) ?c)) s1"
    obtain r s2 where x: "exchange E 256 ?s = (r, s2)" by fastforce
    have "unat ?n \<le> 249" by (simp add: send_size_def min_def word_le_nat_alt)
    then have "length (send_message (read_at p (unat ?n) s1) ?c) \<le> 260"
      using g by (simp add: send_message_def)
    then have "guest_rep E code ?s m" using g by (intro guest_rep_write_buf) auto
    then have g2: "guest_rep E code s2 m" using x by (rule guest_rep_exchange)
    have r: "xsend_loop E (addr + ?n) (sz - ?n) (counter + 1) s2 = (True, s')"
      using 1(3) False b x by (simp add: xsend_loop.simps [of E addr sz] Let_def)
    from 1(1) [OF False refl b [symmetric] refl refl refl x [symmetric] g2 r] show ?thesis .
  qed
qed

lemma random_loop_rep:
  assumes "guest_rep E code s m" "random_loop E addr sz s = (True, s')"
    and "\<And>i n. length (random_bytes E i n) = n"
  shows "\<exists>bs. length bs = unat sz \<and> guest_rep E code s' (upd m addr bs)"
  using assms
proof (induction E addr sz s arbitrary: m rule: random_loop.induct)
  case (1 E addr sz s)
  show ?case
  proof (cases "sz = 0")
    case True
    then show ?thesis using 1(2,3) by (intro exI [of _ "[]"]) (auto simp: random_loop.simps [of E addr 0])
  next
    case False
    let ?n = "BUFFER_MIN_SIZE addr sz"
    obtain p s1 where b: "get_buffer E addr ?n True s = (Some p, s1)"
      using 1(3) False by (auto simp: random_loop.simps [of E addr sz] Let_def split: option.splits prod.splits)
    obtain bs d where r: "get_random E (unat ?n) (dev s1) = (bs, d)" by fastforce
    have d: "d_sent d = d_sent (dev s1)" "d_buf d = d_buf (dev s1)" "length bs = unat ?n"
      using r 1(4) by (auto simp: get_random_def)
    have g1: "guest_rep E code s1 m" using guest.get_law [OF 1(2) b] by blast
    have g: "guest_rep E code (s1\<lparr>dev := d\<rparr>) m" by (rule guest_rep_same [OF g1]) (simp_all add: d)
    have g2: "guest_rep E code (write_at p bs (s1\<lparr>dev := d\<rparr>)) (upd m addr bs)"
      using guest.put_law [OF 1(2) b _ g, of bs] d by simp
    have l: "random_loop E (addr + ?n) (sz - ?n) (write_at p bs (s1\<lparr>dev := d\<rparr>)) = (True, s')"
      using 1(3) False b r by (simp add: random_loop.simps [of E addr sz] Let_def)
    from 1(1) [OF False refl b [symmetric] refl r [symmetric] g2 l 1(4)] obtain cs where
      cs: "length cs = unat (sz - ?n)" "guest_rep E code s' (upd (upd m addr bs) (addr + ?n) cs)" by blast
    have le: "unat ?n \<le> unat sz" by (rule BUFFER_MIN_SIZE_le)
    show ?thesis
      using cs d(3) rest_size [OF le] upd_chunk [OF le d(3) cs(1), of m addr]
      by (intro exI [of _ "bs @ cs"]) simp
  qed
qed

text \<open>
  Hashing a buffer chunk by chunk absorbs the bytes of the buffer, if the library's update does not
  depend on how its input is cut.
\<close>

definition streaming :: "cx_lib \<Rightarrow> bool" where
  "streaming X \<longleftrightarrow> (\<forall>i c xs ys. hash_update X i c (xs @ ys) =
     (case hash_update X i c xs of None \<Rightarrow> None | Some c' \<Rightarrow> hash_update X i c' ys)) \<and>
     (\<forall>i c. hash_update X i c [] = Some c)"

lemma hash_loop_rep:
  assumes "guest_rep E code s m" "hash_loop E X i addr sz c s = Done (Some c', s')"
  shows "guest_rep E code s' m \<and> (streaming X \<longrightarrow> hash_update X i c (bytes m addr (unat sz)) = Some c')"
  using assms
proof (induction E X i addr sz c s rule: hash_loop.induct)
  case (1 E X i addr sz c s)
  show ?case
  proof (cases "sz = 0")
    case True
    then show ?thesis using 1(2,3) by (auto simp: hash_loop.simps [of E X i addr 0] bytes_def streaming_def)
  next
    case False
    let ?n = "BUFFER_MIN_SIZE addr sz"
    obtain p s1 where b: "get_buffer E addr ?n False s = (Some p, s1)"
      using 1(3) False by (auto simp: hash_loop.simps [of E X i addr sz] Let_def split: option.splits prod.splits)
    note g = guest.get_law [OF 1(2) b]
    obtain c1 where u: "hash_update X i c (read_at p (unat ?n) s1) = Some c1"
      using 1(3) False b by (auto simp: hash_loop.simps [of E X i addr sz] Let_def split: option.splits)
    have r: "hash_loop E X i (addr + ?n) (sz - ?n) c1 s1 = Done (Some c', s')"
      using 1(3) False b u by (simp add: hash_loop.simps [of E X i addr sz] Let_def)
    have "bytes m addr (unat sz) = bytes m addr (unat ?n) @ bytes m (addr + ?n) (unat (sz - ?n))"
      by (rule bytes_chunk [OF BUFFER_MIN_SIZE_le])
    then show ?thesis
      using 1(1) [OF False refl b [symmetric] refl u _ r] g u by (auto simp: streaming_def)
  qed
qed

section \<open>The copies, as facts about the memory\<close>

definition rep_some :: "env \<Rightarrow> (u32 \<rightharpoonup> u8 list) \<Rightarrow> vm \<Rightarrow> bool" where
  "rep_some E code s \<longleftrightarrow> (\<exists>m. guest_rep E code s m)"

lemma rep_someI: "guest_rep E code s m \<Longrightarrow> rep_some E code s"
  unfolding rep_some_def by blast

lemma rep_frames:
  "rep_some E code s \<Longrightarrow> rep_some E code (draw e s)"
  "rep_some E code s \<Longrightarrow> rep_some E code (s\<lparr>load := l\<rparr>)"
  "rep_some E code s \<Longrightarrow> rep_some E code (s\<lparr>cpu := c\<rparr>)"
  "rep_some E code s \<Longrightarrow> rep_some E code (count_draw s)"
  unfolding rep_some_def using guest_rep_frames by blast+

text \<open>A copy to the guest of the number of bytes it says.\<close>

lemma rep_copy_host:
  assumes "copy_host_buffer E p bs n s = (True, s')" "rep_some E code s" "length bs = unat n"
  shows "rep_some E code s'"
  using assms copy_host_buffer_bytes unfolding rep_some_def by blast

lemma rep_copy_guest:
  assumes "copy_guest_buffer E p n s = (Some bs, s')" "rep_some E code s"
  shows "rep_some E code s'" "length bs = unat n"
proof -
  obtain m where "guest_rep E code s m" using assms(2) unfolding rep_some_def by blast
  from copy_guest_buffer_bytes [OF this assms(1)] show "rep_some E code s'" "length bs = unat n"
    unfolding rep_some_def by auto
qed


section \<open>The system calls\<close>

text \<open>The sizes that the library's results have by its interface.\<close>

definition ctx_sized :: "u32 \<Rightarrow> hash_ctx \<Rightarrow> bool" where
  "ctx_sized i c \<longleftrightarrow> (case ctx_layout i of
     None \<Rightarrow> True | Some (block, pad, acc) \<Rightarrow> length (h_block c) = block \<and> length (h_acc c) = acc)"

definition cx_sized :: "env \<Rightarrow> cx_lib \<Rightarrow> bool" where
  "cx_sized E X \<longleftrightarrow>
     (\<forall>c p a b. derive_node X c p = Some (a, b) \<longrightarrow> length a = 32 \<and> length b = 32) \<and>
     (\<forall>i c k a b. generate_pair X i c k = Some (a, b) \<longrightarrow>
        length a = unat (sizeof_pubkey X) \<and> length b = unat (sizeof_privkey X)) \<and>
     (\<forall>i k m h d sig info. ecdsa_sign X i k m h d = Some (sig, info) \<longrightarrow> length sig \<le> 100) \<and>
     (\<forall>a b r. math_mult X a b = Some r \<longrightarrow> length r \<le> 64) \<and>
     (\<forall>a b m r. math_multm X a b m = Some r \<longrightarrow> length r \<le> 64) \<and>
     (\<forall>i. ctx_sized i (hash_init X i)) \<and>
     (\<forall>i c xs c'. hash_update X i c xs = Some c' \<longrightarrow> ctx_sized i c') \<and>
     (\<forall>i c d. hash_final X i c = Some d \<longrightarrow> length d = (if i = HASH_ID_RIPEMD160 then 20 else 32)) \<and>
     (\<forall>n. length (residue X n) = n) \<and>
     (\<forall>i n. length (random_bytes E i n) = n)"

lemma rep_copy_unless_null:
  assumes "copy_host_unless_null E p bs n s = (True, s')" "rep_some E code s" "length bs = unat n"
  shows "rep_some E code s'"
  using assms rep_copy_host by (auto simp: copy_host_unless_null_def split: if_splits)

text \<open>
  A call that lets the application go on leaves a represented memory: rules for the ways the code
  composes its steps.
\<close>

definition keeps :: "env \<Rightarrow> (u32 \<rightharpoonup> u8 list) \<Rightarrow> (bool \<times> 'a \<times> vm) outcome \<Rightarrow> bool" where
  "keeps E code res \<longleftrightarrow> (\<forall>r s. res = Done (True, r, s) \<longrightarrow> rep_some E code s)"

named_theorems keeps_rules "composition of system calls"

lemma keeps_results [keeps_rules]:
  "keeps E code (give_up r s)" "keeps E code Exited" "keeps E code Blocked" "keeps E code Undefined"
  "keeps E code (Done (False, x, s))"
  "rep_some E code s \<Longrightarrow> keeps E code (reply b r s)"
  "rep_some E code s \<Longrightarrow> keeps E code (Done (b, x, s))"
  by (simp_all add: keeps_def give_up_def reply_def)

lemma keeps_if [keeps_rules]:
  "(c \<Longrightarrow> keeps E code x) \<Longrightarrow> (\<not> c \<Longrightarrow> keeps E code y) \<Longrightarrow> keeps E code (if c then x else y)"
  by simp

lemma keeps_copy_guest [keeps_rules]:
  assumes "rep_some E code s"
    and "\<And>bs s'. rep_some E code s' \<Longrightarrow> length bs = unat n \<Longrightarrow> keeps E code (f bs s')"
  shows "keeps E code (case copy_guest_buffer E p n s of (None, s) \<Rightarrow> give_up r s | (Some bs, s) \<Rightarrow> f bs s)"
  using assms rep_copy_guest by (auto simp: keeps_results split: prod.splits option.splits)

lemma keeps_copy_host [keeps_rules]:
  assumes "rep_some E code s" "length bs = unat n" "\<And>s'. rep_some E code s' \<Longrightarrow> keeps E code (f s')"
  shows "keeps E code (case copy_host_buffer E p bs n s of (False, s) \<Rightarrow> give_up r s | (True, s) \<Rightarrow> f s)"
  using assms rep_copy_host by (auto simp: keeps_results split: prod.splits bool.splits)

lemma keeps_copy_unless_null [keeps_rules]:
  assumes "rep_some E code s" "length bs = unat n" "\<And>s'. rep_some E code s' \<Longrightarrow> keeps E code (f s')"
  shows "keeps E code (case copy_host_unless_null E p bs n s of (False, s) \<Rightarrow> give_up r s | (True, s) \<Rightarrow> f s)"
  using assms rep_copy_unless_null by (auto simp: keeps_results split: prod.splits bool.splits)

lemma keeps_option [keeps_rules]:
  "(x = None \<Longrightarrow> keeps E code a) \<Longrightarrow> (\<And>y. x = Some y \<Longrightarrow> keeps E code (f y)) \<Longrightarrow>
    keeps E code (case x of None \<Rightarrow> a | Some y \<Rightarrow> f y)"
  by (cases x) auto

lemma keeps_pair [keeps_rules]:
  "(\<And>a b. x = (a, b) \<Longrightarrow> keeps E code (f a b)) \<Longrightarrow> keeps E code (case x of (a, b) \<Rightarrow> f a b)"
  by (cases x) auto

lemma keeps_then [keeps_rules]:
  "(\<And>y. x = Done y \<Longrightarrow> keeps E code (f y)) \<Longrightarrow> keeps E code (then_do x f)"
  by (cases x) (auto simp: keeps_def)

lemma keeps_a0: "keeps E code x \<Longrightarrow> keeps E code (then_do x (in_a0 c))"
  by (cases x) (auto simp: keeps_def in_a0_def split: prod.splits)

lemma sized_signature:
  assumes "cx_sized E X" "ecdsa_sign X i k md h d = Some (sig, info)"
  shows "length sig = unat (of_nat (length sig) :: u32)"
proof -
  have "\<forall>i k m h d sig info. ecdsa_sign X i k m h d = Some (sig, info) \<longrightarrow> length sig \<le> 100"
    using assms(1) unfolding cx_sized_def by (elim conjE)
  from this [rule_format, OF assms(2)] have "length sig \<le> 100" .
  then show ?thesis by (simp add: unat_of_nat take_bit_nat_eq_self)
qed

lemma sized: assumes "cx_sized E X"
  shows "derive_node X c p = Some (a, b) \<Longrightarrow> length a = unat (32 :: u32) \<and> length b = unat (32 :: u32)"
    "generate_pair X n c k = Some (a, b) \<Longrightarrow> length a = unat (sizeof_pubkey X)"
    "generate_pair X n c k = Some (a, b) \<Longrightarrow> length b = unat (sizeof_privkey X)"
    "math_mult X x y = Some z \<Longrightarrow> length z \<le> 64" "math_multm X x y m = Some z \<Longrightarrow> length z \<le> 64"
    "length (residue X n) = n" "ctx_sized i (hash_init X i)"
    "hash_update X i h xs = Some h' \<Longrightarrow> ctx_sized i h'"
    "hash_final X i h = Some z \<Longrightarrow> length z = unat (if i = HASH_ID_RIPEMD160 then 20 else 32 :: u32)"
  using assms by (auto simp: cx_sized_def)

lemma keeps_derive:
  assumes "rep_some E code s" "cx_sized E X"
  shows "keeps E code (sys_derive_node_bip32 E X r curve p n k ch s)"
  unfolding sys_derive_node_bip32_def
  using assms sized(1) [OF assms(2)] by (intro keeps_rules) auto

lemma keeps_pair_call:
  assumes "rep_some E code s" "cx_sized E X"
  shows "keeps E code (sys_cx_ecfp_generate_pair E X r curve p k keep s)"
proof -
  have fin: "keeps E code (finish_pair E X r curve p k key s)" if "rep_some E code s" for key s
    unfolding finish_pair_def
    using that sized(2,3) [OF assms(2)] by (intro keeps_rules) (auto intro: rep_frames)
  show ?thesis
    unfolding sys_cx_ecfp_generate_pair_def using assms by (intro keeps_rules fin) auto
qed

lemma keeps_sign:
  assumes "rep_some E code s" "cx_sized E X"
  shows "keeps E code (sys_ecdsa_sign E X p_key mode hash_id p_hash p_sig sig_len p_parity s)"
  unfolding sys_ecdsa_sign_def Let_def
  using assms sized_signature [OF assms(2)] by (intro keeps_rules) (auto intro: rep_frames)

lemma keeps_verify:
  assumes "rep_some E code s"
  shows "keeps E code (sys_ecdsa_verify E X r p_key p_hash p_sig sig_len s)"
  unfolding sys_ecdsa_verify_def using assms by (intro keeps_rules) auto

lemma keeps_multm:
  assumes "rep_some E code s" "cx_sized E X"
  shows "keeps E code (sys_multm E X r p_r p_a p_b p_m len s)"
proof (cases "len > 32")
  case True
  then show ?thesis using assms(1) by (simp add: sys_multm_def keeps_results)
next
  case False
  then have "unat len \<le> 32" by (simp add: word_le_nat_alt not_less)
  then have n: "unat (len * 2) = 2 * unat len" by (simp add: unat_word_ariths)
  have copy: "keeps E code (multm_copy E X r p_r len q s)"
    if "rep_some E code s" "\<And>bs. q = Some bs \<Longrightarrow> length bs \<le> 64" for q s
    unfolding multm_copy_def
    using that \<open>unat len \<le> 32\<close> sized(6) [OF assms(2)] by (intro keeps_rules) (auto simp: n)
  show ?thesis
    unfolding sys_multm_def
    using assms sized(4,5) [OF assms(2)] by (intro keeps_rules copy) auto
qed


lemma length_tostring256:
  assumes "tostring256_implem n base out len = Some (Done (ok, buf))"
  shows "length buf = length out"
proof -
  have rev: "length (reverse_loop str i j) = length str" for str i j
    by (induction str i j rule: reverse_loop.induct) (subst reverse_loop.simps, simp)
  have loop: "\<forall>ok buf. y = Done (ok, buf) \<longrightarrow> length buf = length out" if "tostring256_loop base n out offset len = Some y"
    for base n out offset len y
    using that
  proof (rule tostring256_loop.raw_induct [rotated])
    fix loop base n out offset len y
    assume 1: "\<And>base n out offset len y. loop base n out offset len = Some y \<Longrightarrow>
        \<forall>ok buf. y = Done (ok, buf) \<longrightarrow> length buf = length out"
      "(if offset > len - 1 then Some (Done (False, out))
        else case divmod256 n base of
          None \<Rightarrow> None
        | Some dm \<Rightarrow>
            let out' = out[unat offset := HEXDIGITS ! unat (ucast (lower (lower128 (snd dm))) :: u8)]
            in if length out \<le> unat offset then Some Undefined
               else if zero256 (fst dm) then
                 (if length out \<le> unat (offset + 1) then Some Undefined
                  else Some (Done (True, reverseString (out'[unat (offset + 1) := 0]) (offset + 1))))
               else loop base (fst dm) out' (offset + 1) len) = Some y"
    show "\<forall>ok buf. y = Done (ok, buf) \<longrightarrow> length buf = length out"
    proof (cases "divmod256 n base")
      case None
      then show ?thesis using 1(2) by (auto split: if_splits)
    next
      case (Some dm)
      let ?out = "out[unat offset := HEXDIGITS ! unat (ucast (lower (lower128 (snd dm))) :: u8)]"
      show ?thesis
      proof (cases "offset > len - 1 \<or> length out \<le> unat offset \<or> zero256 (fst dm)")
        case True
        then show ?thesis using 1(2) Some by (auto simp: Let_def reverseString_def rev split: if_splits)
      next
        case False
        then have "loop base (fst dm) ?out (offset + 1) len = Some y"
          using 1(2) Some by (simp add: Let_def)
        from 1(1) [OF this] show ?thesis by simp
      qed
    qed
  qed
  from assms have "buf = out \<or>
      tostring256_loop (u256 clear128 (u128 0 (ucast base))) n out 0 len = Some (Done (ok, buf))"
    by (simp add: tostring256_implem_def split: if_splits)
  then show ?thesis using loop by blast
qed


lemma keeps_tostring:
  assumes "rep_some E code s" "cx_sized E X"
  shows "keeps E code (sys_tostring256 E X r p_number base p_out len s)"
proof -
  let ?len = "if len > 100 then 100 else len"
  have len: "unat ?len \<le> 100" by (simp add: word_le_nat_alt not_less)
  have fin: "length (take (unat ?len) buf) = unat ?len"
    if "tostring256_implem n base (residue X 100) ?len = Some (Done (ok, buf))" for n ok buf
    using length_tostring256 [OF that] sized(6) [OF assms(2)] len by simp
  show ?thesis
    unfolding sys_tostring256_def Let_def
    using assms(1) fin by (intro keeps_rules) (auto simp del: length_take)
qed

lemma restore_refused:
  assumes "restore_ctx_from_guest E X i p s = (Some None, s')" "rep_some E code s"
  shows "rep_some E code s'"
proof (cases "ctx_layout i")
  case None
  then show ?thesis using assms by (simp add: restore_ctx_from_guest_def)
next
  case (Some l)
  obtain block pad acc where "l = (block, pad, acc)" by (metis prod_cases3)
  with Some assms(1) obtain g where "copy_guest_buffer E p (of_nat (12 + block + pad + acc)) s = (Some g, s')"
    by (auto simp: restore_ctx_from_guest_def split: prod.splits option.splits)
  then show ?thesis using assms(2) by (rule rep_copy_guest(1))
qed

lemma restore_sized:
  assumes "restore_ctx_from_guest E X i p s = (Some (Some c), s')" "rep_some E code s" "cx_sized E X"
  shows "rep_some E code s'" "ctx_sized i c"
proof -
  from assms(1) obtain block pad acc where l: "ctx_layout i = Some (block, pad, acc)"
    by (auto simp: restore_ctx_from_guest_def split: option.splits)
  with assms(1) obtain g where g: "copy_guest_buffer E p (of_nat (12 + block + pad + acc)) s = (Some g, s')"
    "restore_ctx X i (block, pad, acc) g = Some c"
    by (auto simp: restore_ctx_from_guest_def split: prod.splits option.splits)
  show "rep_some E code s'" by (rule rep_copy_guest(1) [OF g(1) assms(2)])
  have "length g = unat (of_nat (12 + block + pad + acc) :: u32)" by (rule rep_copy_guest(2) [OF g(1) assms(2)])
  also have "\<dots> = 12 + block + pad + acc"
    using l(1) by (auto simp: ctx_layout_def split: if_splits)
  finally have "length g = 12 + block + pad + acc" .
  then show "ctx_sized i c"
    using g(2) l(1) sized(7) [OF assms(3), of i]
    by (auto simp: restore_ctx_def ctx_sized_def split: if_splits)
qed

lemma keeps_save:
  assumes "rep_some E code s" "ctx_sized i c" "cx_sized E X"
  shows "keeps E code (save_ctx_from_host E X r i p c s)"
  unfolding save_ctx_from_host_def
  using assms sized(6) [OF assms(3)]
  by (intro keeps_rules) (auto simp: save_ctx_def ctx_sized_def ctx_layout_def split: if_splits)

lemma hash_loop_sized:
  assumes "hash_loop E X i addr sz c s = Done (Some c', s')" "ctx_sized i c" "cx_sized E X"
  shows "ctx_sized i c'"
  using assms
proof (induction E X i addr sz c s rule: hash_loop.induct)
  case (1 E X i addr sz c s)
  show ?case
  proof (cases "sz = 0")
    case True
    then show ?thesis using 1(2,3) by (auto simp: hash_loop.simps [of E X i addr 0])
  next
    case False
    let ?n = "BUFFER_MIN_SIZE addr sz"
    obtain p s1 where b: "get_buffer E addr ?n False s = (Some p, s1)"
      using 1(2) False by (auto simp: hash_loop.simps [of E X i addr sz] Let_def split: option.splits prod.splits)
    obtain c1 where u: "hash_update X i c (read_at p (unat ?n) s1) = Some c1"
      using 1(2) False b by (auto simp: hash_loop.simps [of E X i addr sz] Let_def split: option.splits)
    have r: "hash_loop E X i (addr + ?n) (sz - ?n) c1 s1 = Done (Some c', s')"
      using 1(2) False b u by (simp add: hash_loop.simps [of E X i addr sz] Let_def)
    show ?thesis by (rule 1(1) [OF False refl b [symmetric] refl u r sized(8) [OF 1(4) u] 1(4)])
  qed
qed

text \<open>The three outcomes of restoring a context.\<close>

lemma keeps_restore:
  assumes "rep_some E code s" "cx_sized E X"
    and "\<And>c s'. rep_some E code s' \<Longrightarrow> ctx_sized i c \<Longrightarrow> keeps E code (f c s')"
  shows "keeps E code (case restore_ctx_from_guest E X i p s of
      (None, s) \<Rightarrow> give_up r' s
    | (Some None, s) \<Rightarrow> reply False r s
    | (Some (Some c), s) \<Rightarrow> f c s)"
proof -
  obtain o1 s1 where p: "restore_ctx_from_guest E X i p s = (o1, s1)" by fastforce
  consider "o1 = None" | "o1 = Some None" | c where "o1 = Some (Some c)" by (metis option.exhaust)
  then show ?thesis
  proof cases
    case 2
    then show ?thesis using p restore_refused [OF _ assms(1)] by (simp add: keeps_results)
  next
    case (3 c)
    then show ?thesis using p assms(3) restore_sized [OF _ assms(1,2)] by simp
  qed (use p in \<open>simp add: keeps_results\<close>)
qed

lemma keeps_hash_update:
  assumes "rep_some E code s" "cx_sized E X"
  shows "keeps E code (sys_hash_update E X r i p_ctx p_buffer sz s)"
  unfolding sys_hash_update_def
proof (rule keeps_restore [OF assms])
  fix c s1 assume rs: "rep_some E code s1" "ctx_sized i c"
  have "keeps E code (save_ctx_from_host E X r' i p_ctx c' s2)"
    if "hash_loop E X i p_buffer sz c s1 = Done (Some c', s2)" for c' s2 r'
  proof (rule keeps_save [OF _ _ assms(2)])
    obtain m where "guest_rep E code s1 m" using rs(1) unfolding rep_some_def by blast
    from hash_loop_rep [OF this that] show "rep_some E code s2" unfolding rep_some_def by blast
    show "ctx_sized i c'" by (rule hash_loop_sized [OF that rs(2) assms(2)])
  qed
  then show "keeps E code (then_do (hash_loop E X i p_buffer sz c s1)
      (\<lambda>(c, s). case c of None \<Rightarrow> give_up (eret_success True r) s
         | Some c \<Rightarrow> save_ctx_from_host E X (eret_success True r) i p_ctx c s))"
    by (intro keeps_rules) auto
qed

lemma keeps_hash_final:
  assumes "rep_some E code s" "cx_sized E X"
  shows "keeps E code (sys_hash_final E X r i p_ctx p_out s)"
  unfolding sys_hash_final_def Let_def
proof (rule keeps_restore [OF assms])
  fix c s1 assume "rep_some E code s1"
  then show "keeps E code (case hash_final X i c of None \<Rightarrow> Exited
      | Some digest \<Rightarrow>
          (case copy_host_buffer E p_out digest (if i = HASH_ID_RIPEMD160 then 20 else 32) s1 of
             (False, s) \<Rightarrow> give_up (eret_success True r) s
           | (True, s) \<Rightarrow> reply True r s))"
    using sized(9) [OF assms(2)] by (intro keeps_rules) auto
qed


section \<open>The dispatcher\<close>

lemma memcpy_loop_rep:
  assumes "guest_rep E code s m" "memcpy_loop E dst src sz s = (True, s')"
  shows "rep_some E code s'"
  using assms
proof (induction E dst src sz s arbitrary: m rule: memcpy_loop.induct)
  case (1 E dst src sz s)
  show ?case
  proof (cases "sz = 0")
    case True
    then show ?thesis using 1(2,3) by (auto simp: memcpy_loop.simps [of E dst src 0] rep_some_def)
  next
    case False
    let ?n = "copy_size dst src sz"
    obtain p s1 q s2 where b: "get_buffer E src ?n False s = (Some p, s1)"
      "get_buffer E dst ?n True s1 = (Some q, s2)"
      "memcpy_loop E (dst + ?n) (src + ?n) (sz - ?n) (write_at q (read_at p (unat ?n) s1) s2) = (True, s')"
      using 1(3) False by (auto simp: memcpy_loop.simps [of E dst src sz] Let_def split: option.splits prod.splits)
    note g = guest.copy_step [OF 1(2) b(1,2)]
    from 1(1) [OF False refl b(1) [symmetric] refl refl b(2) [symmetric] refl g b(3)] show ?thesis .
  qed
qed

lemma rep_calls:
  assumes "rep_some E code s"
  shows "sys_xsend E p n s = (True, s') \<Longrightarrow> rep_some E code s'"
    "sys_xrecv E p n s = (True, r, s') \<Longrightarrow> rep_some E code s'"
    "sys_memset E p x n s = (True, r, s') \<Longrightarrow> rep_some E code s'"
    "sys_memcpy E p q n s = (True, r, s') \<Longrightarrow> rep_some E code s'"
    "sys_strlen E p s = Some (True, r, s') \<Longrightarrow> rep_some E code s'"
    "sys_strnlen E p n s = (True, r, s') \<Longrightarrow> rep_some E code s'"
proof -
  obtain m where m: "guest_rep E code s m" using assms unfolding rep_some_def by blast
  show "sys_xsend E p n s = (True, s') \<Longrightarrow> rep_some E code s'"
    unfolding sys_xsend_def by (rule rep_someI, rule xsend_loop_rep [OF m])
  show "sys_xrecv E p n s = (True, r, s') \<Longrightarrow> rep_some E code s'"
    unfolding sys_xrecv_def using xrecv_loop_bytes [OF m] rep_someI by blast
  show "sys_memset E p x n s = (True, r, s') \<Longrightarrow> rep_some E code s'"
    by (cases "memset_loop E p (ucast x) n s")
      (auto simp: sys_memset_def dest!: memset_loop_bytes [OF m] intro: rep_someI)
  show "sys_memcpy E p q n s = (True, r, s') \<Longrightarrow> rep_some E code s'"
    using memcpy_loop_rep [OF m] by (auto simp: sys_memcpy_def split: prod.splits)
  show "sys_strlen E p s = Some (True, r, s') \<Longrightarrow> rep_some E code s'"
    unfolding sys_strlen_def using strlen_loop_bytes [OF m, of p 0] rep_someI by fastforce
  show "sys_strnlen E p n s = (True, r, s') \<Longrightarrow> rep_some E code s'"
    unfolding sys_strnlen_def using strnlen_loop_bytes [OF m] rep_someI by blast
qed

lemma rep_random:
  assumes "rep_some E code s" "sys_get_random_bytes E p n s = (True, s')" "cx_sized E X"
  shows "rep_some E code s'"
proof -
  obtain m where "guest_rep E code s m" using assms(1) unfolding rep_some_def by blast
  moreover have "length (random_bytes E i k) = k" for i k using assms(3) by (simp add: cx_sized_def)
  ultimately show ?thesis
    using random_loop_rep assms(2) rep_someI unfolding sys_get_random_bytes_def by blast
qed

lemma rep_loading_start:
  assumes "rep_some E code s" "sys_app_loading_start E p s = (True, s')"
  shows "rep_some E code s'"
  using assms rep_frames(2) rep_copy_guest(1)
  by (auto simp: sys_app_loading_start_def Let_def split: if_splits prod.splits option.splits)

lemma rep_wait_button:
  "rep_some E code s \<Longrightarrow> wait_button es s = Done (b, s') \<Longrightarrow> rep_some E code s'"
proof (induction es arbitrary: s)
  case (Cons e es)
  have "rep_some E code (snd (to_button_mask e (s\<lparr>button_events := es\<rparr>)))"
    using Cons.prems(1) unfolding rep_some_def
    by (auto simp: to_button_mask_def Let_def intro!: exI elim!: guest_rep_same)
  then show ?case using Cons by (auto split: prod.splits if_splits)
qed simp

lemma keeps_bitmap:
  assumes "rep_some E code s"
  shows "keeps E code (then_do (sys_ux_bitmap E x y w h p1 d p2 nb s) (no_eret c))"
proof -
  have "rep_some E code s'" if "sys_ux_bitmap E x y w h p1 d p2 nb s = Done (True, s')" for s'
  proof -
    from that obtain cs s1 where 1: "copy_guest_buffer E p1 8 s = (Some cs, s1)"
      by (auto simp: sys_ux_bitmap_def split: prod.splits option.splits)
    from that 1 obtain bs s2 where 2: "copy_guest_capped E 512 p2 (bitmap_bytes nb) s1 = Done (Some bs, s2)"
      "s' = draw (Draw_bitmap x y w h cs d bs nb) s2"
      by (auto simp: sys_ux_bitmap_def then_do_Done split: prod.splits option.splits)
    have "rep_some E code s1" by (rule rep_copy_guest(1) [OF 1 assms])
    then have "rep_some E code s2" using copy_guest_capped_bytes 2(1) unfolding rep_some_def by blast
    then show ?thesis unfolding 2(2) by (rule rep_frames)
  qed
  then show ?thesis by (auto simp: keeps_def no_eret_def then_do_Done)
qed

lemma keeps_no_eret: "(\<And>s. x = (True, s) \<Longrightarrow> rep_some E code s) \<Longrightarrow> keeps E code (no_eret c x)"
  by (cases x) (simp add: keeps_def no_eret_def)

lemma keeps_in_a0: "(\<And>r s. x = (True, r, s) \<Longrightarrow> rep_some E code s) \<Longrightarrow> keeps E code (in_a0 c x)"
  by (cases x) (auto simp: keeps_def in_a0_def)

text \<open>
  The drawing call, whose failure the dispatcher ignores: it may leave a page with the address and
  the data of a request that failed.
\<close>

definition draw_call :: "env \<Rightarrow> rv_cpu \<Rightarrow> vm \<Rightarrow> bool \<times> vm" where
  "draw_call E c s =
    (let a = (\<lambda>i. regs c ! (RV_REG_A0 + i))
     in sys_bagl_draw_with_context E (a 0) (a 1) (a 2) (a 3) s)"

lemma rep_draw_call: "rep_some E code s \<Longrightarrow> fst (draw_call E c s) \<Longrightarrow> rep_some E code (snd (draw_call E c s))"
  unfolding draw_call_def sys_bagl_draw_with_context_def Let_def
  by (auto split: prod.splits option.splits intro!: rep_frames dest: rep_copy_guest(1))

lemma ecall_keeps:
  assumes "rep_some E code s" "cx_sized E X"
    and "ecall_of (regs c ! RV_REG_T0) = ECALL_BAGL_DRAW \<Longrightarrow> fst (draw_call E c s)"
  shows "keeps E code (ecall E X c s)"
proof -
  note calls = rep_calls [OF assms(1)]
  note lib = assms(1,2)
  show ?thesis
  proof (cases "ecall_of (regs c ! RV_REG_T0)")
    case ECALL_BAGL_DRAW
    then show ?thesis
      using rep_draw_call [OF assms(1) assms(3)] by (simp add: ecall_def Let_def draw_call_def keeps_def)
  next
    case ECALL_STRLEN
    then show ?thesis using calls(5) by (auto simp: ecall_def Let_def intro!: keeps_rules keeps_in_a0)
  next
    case ECALL_WAIT_BUTTON
    then show ?thesis
      using rep_wait_button [OF assms(1)]
      by (auto simp: ecall_def Let_def sys_wait_button_def intro!: keeps_rules keeps_in_a0)
  next
    case ECALL_LOADING_STOP
    then show ?thesis
      using rep_frames(2) [OF assms(1)]
      by (auto simp: ecall_def Let_def intro!: keeps_rules keeps_in_a0)
  qed (use assms in \<open>auto simp: ecall_def Let_def sys_ux_rectangle_def sys_screen_update_def sys_ux_idle_def
      intro!: keeps_no_eret keeps_in_a0 keeps_a0 keeps_results rep_frames keeps_bitmap keeps_derive
        keeps_pair_call keeps_sign keeps_verify keeps_multm keeps_tostring keeps_hash_update keeps_hash_final
      intro: calls rep_random rep_loading_start\<close>)
qed


section \<open>The machine with a flat memory\<close>

definition flat_bus :: "(u32 \<Rightarrow> u8) bus" where
  "flat_bus = \<lparr>bus_read = (\<lambda>a n m. (Some (le_val (bytes m a n)), m)),
     bus_write = (\<lambda>a n v m. (True, upd m a (le_bytes n v))),
     bus_ecall = (\<lambda>c m. Done (True, c, m))\<rparr>"

text \<open>The instruction that the authenticated code holds at an address.\<close>

definition code_word :: "(u32 \<rightharpoonup> u8 list) \<Rightarrow> u32 \<Rightarrow> u32 option" where
  "code_word code a =
     (case code (PAGE_START a) of None \<Rightarrow> None | Some d \<Rightarrow> Some (le_val (slice d (page_off a) 4)))"

lemma load_sizes: "load_kind op = Some (n, ext) \<Longrightarrow> n \<in> {1, 2, 4}"
  "store_size op = Some n \<Longrightarrow> n \<in> {1, 2, 4}"
  by (auto simp: load_kind_def store_size_def split: rv_op.splits)

text \<open>One instruction on the paged memory, when it succeeds, is the instruction on the flat memory.\<close>

lemma execute_flat:
  assumes rep: "guest_rep E code s m" and ex: "rv_cpu_execute (vm_bus E X) w c s = Done (True, c', s')"
    and ne: "rv_cpu_decode w \<noteq> RV_OP_ECALL"
  shows "\<exists>m'. rv_cpu_execute flat_bus w c m = Done (True, c', m') \<and> guest_rep E code s' m'"
proof -
  let ?op = "rv_cpu_decode w" and ?a = "regs c ! f_rs1 w" and ?b = "regs c ! f_rs2 w"
  consider (alu) v where "alu_value ?op w c = Some v"
    | (muldiv) v where "alu_value ?op w c = None" "muldiv_value ?op ?a ?b = Some v"
    | (branch) v where "alu_value ?op w c = None" "muldiv_value ?op ?a ?b = None" "branch_inc ?op w c = Some v"
    | (loads) n ext where "alu_value ?op w c = None" "muldiv_value ?op ?a ?b = None" "branch_inc ?op w c = None"
        "load_kind ?op = Some (n, ext)"
    | (stores) n where "alu_value ?op w c = None" "muldiv_value ?op ?a ?b = None" "branch_inc ?op w c = None"
        "load_kind ?op = None" "store_size ?op = Some n"
    | (other) "alu_value ?op w c = None" "muldiv_value ?op ?a ?b = None" "branch_inc ?op w c = None"
        "load_kind ?op = None" "store_size ?op = None"
    by (metis option.exhaust prod.exhaust)
  then show ?thesis
  proof cases
    case loads
    then obtain v where r: "mem_read E (?a + imm_i w) n s = (Some v, s')" "c' = finish (set_reg (f_rd w) (ext v) c) (pc c) 4"
      using ex by (auto simp: rv_cpu_execute_def vm_bus_def Let_def split: prod.splits option.splits)
    from mem_read_bytes [OF rep r(1) load_sizes(1) [OF loads(4)]] show ?thesis
      using loads r(2) by (simp add: rv_cpu_execute_def flat_bus_def Let_def)
  next
    case stores
    then have r: "mem_write E (?a + imm_s w) n ?b s = (True, s')" "c' = finish c (pc c) 4"
      using ex by (auto simp: rv_cpu_execute_def vm_bus_def Let_def split: prod.splits)
    from mem_write_bytes [OF rep r(1) load_sizes(2) [OF stores(5)]] show ?thesis
      using stores r(2) by (simp add: rv_cpu_execute_def flat_bus_def Let_def)
  next
    case other
    then show ?thesis
      using ex ne rep by (cases ?op) (auto simp: rv_cpu_execute_def Let_def split: if_splits)
  qed (use ex rep in \<open>auto simp: rv_cpu_execute_def Let_def\<close>)
qed

text \<open>The effect of one turn of the loop.\<close>

lemma run_step_Done:
  assumes "run_step E X s = Done (stop, s')"
  obtains w s1 c s2 where "get_instruction E (pc (cpu s)) s = (Some w, s1)"
    "rv_cpu_execute (vm_bus E X) w (cpu s) s1 = Done (\<not> stop, c, s2)"
    "s' = s2\<lparr>cpu := c, load := app_loading_inc_counter (d_ms (dev s2)) (load s2)\<rparr>"
proof -
  obtain w s1 where g: "get_instruction E (pc (cpu s)) s = (Some w, s1)"
    using assms by (cases "get_instruction E (pc (cpu s)) s"; cases "fst (get_instruction E (pc (cpu s)) s)")
      (auto simp: run_step_def)
  then have "then_do (rv_cpu_execute (vm_bus E X) w (cpu s) s1) (\<lambda>(ok, c, s). Done (\<not> ok,
      s\<lparr>cpu := c, load := app_loading_inc_counter (d_ms (dev s)) (load s)\<rparr>)) = Done (stop, s')"
    using assms by (simp add: run_step_def)
  then obtain ok c s2 where "rv_cpu_execute (vm_bus E X) w (cpu s) s1 = Done (ok, c, s2)" "stop = (\<not> ok)"
    "s' = s2\<lparr>cpu := c, load := app_loading_inc_counter (d_ms (dev s2)) (load s2)\<rparr>"
    unfolding then_do_Done by auto
  with g show ?thesis by (intro that) auto
qed

text \<open>The system calls write at most register \<open>A0\<close>, so that the register file keeps its size.\<close>

lemma in_a0_regs: "in_a0 c res = Done (ok, c', s') \<Longrightarrow> length (regs c') = length (regs c)"
  by (auto simp: in_a0_def set_reg_def split: prod.splits)

lemma no_eret_regs: "no_eret c res = Done (ok, c', s') \<Longrightarrow> length (regs c') = length (regs c)"
  by (simp add: no_eret_def)

lemma ecall_regs: "ecall E X c s = Done (ok, c', s') \<Longrightarrow> length (regs c') = length (regs c)"
  by (cases "ecall_of (regs c ! RV_REG_T0)")
    (auto simp: ecall_def Let_def then_do_Done split: prod.splits option.splits
      dest: in_a0_regs no_eret_regs)

lemma run_step_flat_lemma:
  assumes "guest_rep E code s m" "run_step E X s = Done (False, s')" "PAGE_START (pc (cpu s)) \<noteq> 0"
  shows "\<exists>w. code_word code (pc (cpu s)) = Some w \<and>
    (rv_cpu_decode w \<noteq> RV_OP_ECALL \<longrightarrow>
      (\<exists>m'. rv_cpu_execute flat_bus w (cpu s) m = Done (True, cpu s', m') \<and> guest_rep E code s' m'))"
proof -
  obtain w s1 c s2 where 1: "get_instruction E (pc (cpu s)) s = (Some w, s1)"
    "rv_cpu_execute (vm_bus E X) w (cpu s) s1 = Done (True, c, s2)"
    "s' = s2\<lparr>cpu := c, load := app_loading_inc_counter (d_ms (dev s2)) (load s2)\<rparr>"
    using run_step_Done [OF assms(2)] by (metis (full_types))
  note g = get_instruction_bytes [OF assms(1) 1(1) assms(3)]
  have "code_word code (pc (cpu s)) = Some w" using g by (auto simp: code_word_def)
  moreover have "\<exists>m'. rv_cpu_execute flat_bus w (cpu s) m = Done (True, cpu s', m') \<and> guest_rep E code s' m'"
    if "rv_cpu_decode w \<noteq> RV_OP_ECALL"
  proof -
    from execute_flat [OF _ 1(2) that] g obtain m' where
      m': "rv_cpu_execute flat_bus w (cpu s) m = Done (True, c, m')" "guest_rep E code s2 m'" by blast
    have "guest_rep E code s' m'" unfolding 1(3) by (rule guest_rep_same [OF m'(2)]) simp_all
    then show ?thesis using m'(1) 1(3) by auto
  qed
  ultimately show ?thesis by blast
qed

text \<open>The fetch keeps the memory, also from the page at 0, which no section contains.\<close>

lemma get_instruction_keeps:
  assumes "rep_some E code s" "get_instruction E addr s = (Some w, s')"
  shows "rep_some E code s'"
proof (cases "PAGE_START addr = 0")
  case True
  obtain m where "guest_rep E code s m" using assms(1) unfolding rep_some_def by blast
  then have "\<not> in_section SECTION_CODE 0 s" by (auto simp: guest_rep_def mem_rep_def layout_ok_def)
  then have "get_code_page_slow E 0 s = (None, s)" by (simp add: get_code_page_slow_def)
  then have "s' = s"
    using assms(2) True by (auto simp: get_instruction_def get_code_page_def split: option.splits if_splits prod.splits)
  then show ?thesis using assms(1) by simp
next
  case False
  then show ?thesis using assms get_instruction_bytes unfolding rep_some_def by blast
qed

text \<open>A turn whose instruction is a drawing call that fails.\<close>

definition drawing_fails :: "env \<Rightarrow> vm \<Rightarrow> bool" where
  "drawing_fails E t =
    (case get_instruction E (pc (cpu t)) t of
       (None, s) \<Rightarrow> False
     | (Some w, s) \<Rightarrow> rv_cpu_decode w = RV_OP_ECALL \<and>
         ecall_of (regs (cpu t) ! RV_REG_T0) = ECALL_BAGL_DRAW \<and> \<not> fst (draw_call E (cpu t) s))"

lemma run_step_keeps:
  assumes "rep_some E code s" "run_step E X s = Done (False, s')"
    and "cx_sized E X" "\<not> drawing_fails E s"
  shows "rep_some E code s'"
proof -
  obtain w s1 c s2 where 1: "get_instruction E (pc (cpu s)) s = (Some w, s1)"
    "rv_cpu_execute (vm_bus E X) w (cpu s) s1 = Done (True, c, s2)"
    "s' = s2\<lparr>cpu := c, load := app_loading_inc_counter (d_ms (dev s2)) (load s2)\<rparr>"
    using run_step_Done [OF assms(2)] by (metis (full_types))
  note g = get_instruction_keeps [OF assms(1) 1(1)]
  have "rep_some E code s2"
  proof (cases "rv_cpu_decode w = RV_OP_ECALL")
    case True
    then obtain c' where "ecall E X (cpu s) s1 = Done (True, c', s2)"
      using 1(2) by (auto simp: rv_cpu_execute_def exec_tables vm_bus_def then_do_Done)
    moreover have "fst (draw_call E (cpu s) s1)" if "ecall_of (regs (cpu s) ! RV_REG_T0) = ECALL_BAGL_DRAW"
      using assms(4) that True 1(1) by (simp add: drawing_fails_def)
    ultimately show ?thesis
      using ecall_keeps [OF g assms(3), of "cpu s"] by (simp add: keeps_def)
  next
    case False
    from execute_flat [OF _ 1(2) False] g show ?thesis unfolding rep_some_def by blast
  qed
  then show ?thesis unfolding 1(3) by (intro rep_frames) 
qed


section \<open>Runs\<close>

text \<open>
  The states that a running application goes through: every turn lets it go on, and is not a drawing
  call that fails.
\<close>

inductive turns :: "env \<Rightarrow> cx_lib \<Rightarrow> vm \<Rightarrow> vm \<Rightarrow> bool" for E X where
  turns_start: "turns E X s s"
| turns_turn: "turns E X s t \<Longrightarrow> run_step E X t = Done (False, u) \<Longrightarrow> \<not> drawing_fails E t \<Longrightarrow> turns E X s u"

section \<open>Examples\<close>

definition ex_run_vm :: vm where
  "ex_run_vm = ex_code_vm\<lparr>cpu := rv_cpu_reset\<lparr>pc := 0x2008\<rparr>\<rparr>"

definition ex_lib :: cx_lib where
  "ex_lib = \<lparr>sizeof_pubkey = 4, sizeof_privkey = 4, privkey_len = (\<lambda>k. 0), privkey_cap = 32,
     derive_node = (\<lambda>c p. Some (replicate 32 1, replicate 32 2)),
     generate_pair = (\<lambda>i c k. Some (replicate 4 1, replicate 4 2)),
     ecdsa_sign = (\<lambda>i k m h d. Some (take 72 d, 0)), ecdsa_verify = (\<lambda>k h s. True),
     math_mult = (\<lambda>a b. None), math_multm = (\<lambda>a b m. None),
     hash_init = (\<lambda>i. case ctx_layout i of Some (b, p, a) \<Rightarrow>
         \<lparr>h_counter = 0, h_blen = 0, h_block = replicate b 0, h_acc = replicate a 0\<rparr>
       | None \<Rightarrow> \<lparr>h_counter = 0, h_blen = 0, h_block = [], h_acc = []\<rparr>),
     hash_update = (\<lambda>i c xs. case ctx_layout i of Some (b, p, a) \<Rightarrow>
         Some (c\<lparr>h_block := replicate b 0, h_acc := replicate a 0\<rparr>)
       | None \<Rightarrow> Some c),
     hash_final = (\<lambda>i c. Some (replicate (if i = HASH_ID_RIPEMD160 then 20 else 32) 0)),
     keccak_block_size = 136, residue = (\<lambda>n. replicate n 0)\<rparr>"

lemma ex_lib_sized: "cx_sized once_env ex_lib"
  by (auto simp: cx_sized_def ex_lib_def ctx_sized_def once_env_def ex_env_def split: option.splits)

lemma ex_run_rep: "guest_rep once_env ex_code ex_run_vm (byte_at ex_code ex_code_vm ex_ghost)"
  unfolding ex_run_vm_def by (rule guest_rep_cpu, rule guest_repI [OF ex_code_rep refl])

lemma ex_run_fetch: "get_instruction once_env 0x2008 ex_run_vm = (Some 0xfff30293, ex_run_vm)"
proof -
  have a: "PAGE_START 0x2008 = 0x2000" "fit_in_page 0x2008 4" "unat (0x2008 - 0x2000 :: u32) = 8"
    by (simp_all add: fit_in_page_def PAGE_START_def PAGE_SIZE_def)
  have k: "cache_of SECTION_CODE ex_run_vm = cache_of SECTION_CODE ex_code_vm"
    "get_page_at SECTION_CODE 64 ex_run_vm = ex_code_page"
    using ex_code_parts(3) by (simp_all add: ex_run_vm_def cache_of_def get_page_at_def)
  have "get_code_page once_env 0x2000 ex_run_vm = (Some 64, ex_run_vm)"
    by (simp add: get_code_page_def k ex_code_parts(1)) (simp add: ex_code_page_def)
  then show ?thesis
    by (simp add: get_instruction_def a k) (simp add: ex_code_page_def ex_code_bytes_def slice_def)
qed

lemma ex_run_step: "run_step once_env X ex_run_vm =
    Done (False, ex_run_vm\<lparr>cpu := (set_reg 5 0xffffffff rv_cpu_reset)\<lparr>pc := 0x200c\<rparr>,
      load := app_loading_inc_counter (d_ms (dev ex_run_vm)) (load ex_run_vm)\<rparr>)"
proof -
  have d: "rv_cpu_decode 0xfff30293 = RV_OP_ADDI" by code_simp
  have f: "f_rd 0xfff30293 = 5" "f_rs1 0xfff30293 = 6" "imm_i 0xfff30293 = 0xffffffff" by code_simp+
  have z: "(replicate 32 0)[5 := a, 0 := 0] = (replicate 32 (0::32 word))[5 := a]" for a
    by (rule nth_equalityI) (auto simp: nth_list_update)
  have "rv_cpu_execute B 0xfff30293 (rv_cpu_reset\<lparr>pc := 0x2008\<rparr>) s =
      Done (True, (set_reg 5 0xffffffff rv_cpu_reset)\<lparr>pc := 0x200c\<rparr>, s)" for B and s :: vm
    by (simp add: rv_cpu_execute_def alu_value_def Let_def d f rv_cpu_reset_def finish_def set_reg_def z)
  moreover have "cpu ex_run_vm = rv_cpu_reset\<lparr>pc := 0x2008\<rparr>" by (simp add: ex_run_vm_def)
  ultimately show ?thesis using ex_run_fetch by (simp add: run_step_def)
qed

lemma ex_code_word: "code_word ex_code 0x2008 = Some 0xfff30293"
proof -
  have "PAGE_START 0x2008 = 0x2000" "page_off 0x2008 = 8"
    by (simp_all add: PAGE_START_def PAGE_SIZE_def page_off_def)
  then show ?thesis by (simp add: code_word_def ex_code_def) (simp add: ex_code_bytes_def slice_def)
qed

section \<open>Properties\<close>

text \<open>
  C1: the VM refines a machine with a flat memory. When a turn of \<open>stream_run_app\<close> lets the
  application go on, the instruction it executed is the word of the authenticated code at the program
  counter, and unless it is a system call its effect on registers and memory is its effect on the
  flat memory.
\<close>

theorem run_step_flat:
  assumes "guest_rep E code s m" and "run_step E X s = Done (False, s')" and "PAGE_START (pc (cpu s)) \<noteq> 0"
  shows "\<exists>w. code_word code (pc (cpu s)) = Some w \<and>
    (rv_cpu_decode w \<noteq> RV_OP_ECALL \<longrightarrow>
      (\<exists>m'. rv_cpu_execute flat_bus w (cpu s) m = Done (True, cpu s', m') \<and> guest_rep E code s' m'))"
  using assms by (rule run_step_flat_lemma)

text \<open>
  C6: every state a run goes through represents a flat memory: no sequence of instructions and
  system calls loses or duplicates a page, as long as no drawing call fails, whose failure the
  dispatcher ignores. The functions of the cryptographic library return results of the sizes that
  their interface says (\<open>cx_sized\<close>).
\<close>

theorem turns_represent:
  assumes "turns E X s t" and "guest_rep E code s m" and "cx_sized E X"
  shows "\<exists>m'. guest_rep E code t m'"
  using assms
proof (induction rule: turns.induct)
  case (turns_start s)
  then show ?case by blast
next
  case (turns_turn s t u)
  then have "rep_some E code t" by (simp add: rep_some_def)
  from run_step_keeps [OF this turns_turn(2) _ turns_turn(3)] turns_turn show ?case by (simp add: rep_some_def)
qed

text \<open>
  C40: register \<open>x0\<close> is zero and the register file has its 32 registers after every turn of the loop of
  \<open>stream_run_app\<close>, whatever the word fetched, the system call it may be, and whether the application
  goes on.
\<close>

theorem run_step_x0:
  assumes "run_step E X s = Done (stop, s')" and "length (regs (cpu s)) = 32"
  shows "cpu_ok (cpu s')"
proof -
  obtain w s1 c s2 where step: "rv_cpu_execute (vm_bus E X) w (cpu s) s1 = Done (\<not> stop, c, s2)"
    and s': "s' = s2\<lparr>cpu := c, load := app_loading_inc_counter (d_ms (dev s2)) (load s2)\<rparr>"
    by (rule run_step_Done [OF assms(1)])
  have "bus_ecall (vm_bus E X) = ecall E X" by (simp add: vm_bus_def)
  then have "cpu_ok c" using execute_cpu_ok [OF step assms(2)] ecall_regs by metis
  then show ?thesis by (simp add: s')
qed

theorem run_step_flat_witness:
  "\<exists>m'. rv_cpu_execute flat_bus 0xfff30293 (rv_cpu_reset\<lparr>pc := 0x2008\<rparr>) (byte_at ex_code ex_code_vm ex_ghost) =
     Done (True, (set_reg 5 0xffffffff rv_cpu_reset)\<lparr>pc := 0x200c\<rparr>, m')"
proof -
  have c: "cpu ex_run_vm = rv_cpu_reset\<lparr>pc := 0x2008\<rparr>" by (simp add: ex_run_vm_def)
  have "PAGE_START 0x2008 \<noteq> 0" by (simp add: PAGE_START_def PAGE_SIZE_def)
  moreover have "rv_cpu_decode 0xfff30293 \<noteq> RV_OP_ECALL" by code_simp
  ultimately show ?thesis
    using run_step_flat [OF ex_run_rep ex_run_step [of ex_lib]] by (simp add: c ex_code_word) blast
qed

theorem run_step_x0_witness:
  "\<exists>s'. run_step once_env ex_lib ex_run_vm = Done (False, s') \<and> cpu_ok (cpu s')"
  using run_step_x0 [OF ex_run_step [of ex_lib]] ex_run_step [of ex_lib]
  by (simp add: ex_run_vm_def rv_cpu_reset_def)

theorem turns_represent_witness:
  "\<exists>t m'. turns once_env ex_lib ex_run_vm t \<and> pc (cpu t) = 0x200c \<and> guest_rep once_env ex_code t m'"
proof -
  have "pc (cpu ex_run_vm) = 0x2008" by (simp add: ex_run_vm_def)
  moreover have "rv_cpu_decode 0xfff30293 \<noteq> RV_OP_ECALL" by code_simp
  ultimately have "\<not> drawing_fails once_env ex_run_vm"
    by (simp add: drawing_fails_def ex_run_fetch)
  then have t: "turns once_env ex_lib ex_run_vm (ex_run_vm\<lparr>cpu := (set_reg 5 0xffffffff rv_cpu_reset)\<lparr>pc := 0x200c\<rparr>,
      load := app_loading_inc_counter (d_ms (dev ex_run_vm)) (load ex_run_vm)\<rparr>)"
    using turns_turn [OF turns_start ex_run_step] by blast
  from turns_represent [OF t ex_run_rep ex_lib_sized] t show ?thesis by fastforce
qed

end
