(* ===== verification/Wide_Multiplication.thy ===== *)
theory Wide_Multiplication
  imports Uint256
begin

text \<open>
  The multiplication of 128-bit numbers (\<open>mul128\<close> of \<open>vm/src/uint256.c\<close>): the school method on four
  limbs of 32 bits, whose carries are summed in words of 64 bits.
\<close>

definition limbs :: "uint128_t \<Rightarrow> u64 list" where
  "limbs n = [drop_bit 32 (upper n), upper n AND 0xffffffff, drop_bit 32 (lower n), lower n AND 0xffffffff]"

definition lo32 :: "u64 \<Rightarrow> u64" where "lo32 w = w AND 0xffffffff"

definition hi32 :: "u64 \<Rightarrow> u64" where "hi32 w = drop_bit 32 w"

text \<open>\<open>products i y\<close> is \<open>products[i][y]\<close>, the product of \<open>top[3 - i]\<close> and \<open>bottom[y]\<close>.\<close>

definition mul128 :: "uint128_t \<Rightarrow> uint128_t \<Rightarrow> uint128_t" where
  "mul128 a b =
    (let products = (\<lambda>i y. limbs a ! (3 - i) * limbs b ! y);
         fourth32 = lo32 (products 0 3);
         third32 = lo32 (products 0 2) + hi32 (products 0 3);
         second32 = lo32 (products 0 1) + hi32 (products 0 2);
         first32 = lo32 (products 0 0) + hi32 (products 0 1);
         third32 = third32 + lo32 (products 1 3);
         second32 = second32 + (lo32 (products 1 2) + hi32 (products 1 3));
         first32 = first32 + (lo32 (products 1 1) + hi32 (products 1 2));
         second32 = second32 + lo32 (products 2 3);
         first32 = first32 + (lo32 (products 2 2) + hi32 (products 2 3));
         first32 = first32 + lo32 (products 3 3);
         target = add128 (u128 (push_bit 32 first32) 0) (u128 (hi32 third32) (push_bit 32 third32));
         tmp2 = add128 (u128 second32 0) target
     in add128 (u128 0 fourth32) tmp2)"

section \<open>The limbs\<close>

lemma unat_lo32: "unat (lo32 w) = unat w mod 2 ^ 32"
proof -
  have "lo32 w = take_bit 32 w" by (simp add: lo32_def take_bit_eq_mask mask_eq_exp_minus_1)
  then have "unat (lo32 w) = unat (take_bit 32 w)" by (rule arg_cong)
  also have "\<dots> = take_bit 32 (unat w)" by (rule unsigned_take_bit_eq)
  also have "\<dots> = unat w mod 2 ^ 32" by (rule take_bit_eq_mod)
  finally show ?thesis .
qed

lemma unat_hi32: "unat (hi32 w) = unat w div 2 ^ 32"
  by (simp only: hi32_def unat_drop_bit)

lemma hi32_lt: "unat (hi32 w) < 2 ^ 32"
  using u64_lt [of w] by (simp add: unat_hi32)

lemma limbs_eq: "limbs n = [hi32 (upper n), lo32 (upper n), hi32 (lower n), lo32 (lower n)]"
  by (simp add: limbs_def lo32_def hi32_def)

lemma val128_limbs: "val128 n =
    unat (hi32 (upper n)) * 2 ^ 96 + unat (lo32 (upper n)) * 2 ^ 64 +
    unat (hi32 (lower n)) * 2 ^ 32 + unat (lo32 (lower n))"
proof -
  have "unat w = unat (hi32 w) * 2 ^ 32 + unat (lo32 w)" for w
    by (simp only: unat_hi32 unat_lo32 div_mult_mod_eq)
  from this [of "upper n"] this [of "lower n"] show ?thesis by (simp add: val128_def)
qed

text \<open>The product of two limbs does not overflow.\<close>

lemma unat_limb_mult:
  assumes "unat x < 2 ^ 32" "unat y < 2 ^ 32"
  shows "unat (x * y :: u64) = unat x * unat y"
proof -
  have "unat x * unat y < 2 ^ 32 * 2 ^ 32" using assms by (intro mult_strict_mono) auto
  then show ?thesis by (simp add: unat_word_ariths)
qed

text \<open>The school method, exactly, in a base \<open>X\<close>.\<close>

lemma school:
  fixes X :: nat
  assumes "\<And>i j. a i * b j = h i j * X + l i j"
  shows "(a 0 * X ^ 3 + a 1 * X ^ 2 + a 2 * X + a 3) * (b 0 * X ^ 3 + b 1 * X ^ 2 + b 2 * X + b 3) =
    l 3 3 + (l 3 2 + h 3 3 + l 2 3) * X +
    (l 3 1 + h 3 2 + (l 2 2 + h 2 3) + l 1 3) * X ^ 2 +
    (l 3 0 + h 3 1 + (l 2 1 + h 2 2) + (l 1 2 + h 1 3) + l (0 :: nat) (3 :: nat)) * X ^ 3 +
    X ^ 4 * (h 3 0 + h 2 1 + h 1 2 + h 0 3 + a 2 * b 0 + a 1 * b 1 + a 0 * b 2 +
      X * (a 1 * b 0 + a 0 * b 1) + X ^ 2 * (a 0 * b 0))"
proof -
  have "(a 0 * X ^ 3 + a 1 * X ^ 2 + a 2 * X + a 3) * (b 0 * X ^ 3 + b 1 * X ^ 2 + b 2 * X + b 3) =
    a 3 * b 3 + (a 3 * b 2 + a 2 * b 3) * X + (a 3 * b 1 + a 2 * b 2 + a 1 * b 3) * X ^ 2 +
    (a 3 * b 0 + a 2 * b 1 + a 1 * b 2 + a 0 * b 3) * X ^ 3 +
    X ^ 4 * (a 2 * b 0 + a 1 * b 1 + a 0 * b 2 + X * (a 1 * b 0 + a 0 * b 1) + X ^ 2 * (a 0 * b 0))"
    by (simp add: algebra_simps numeral_eq_Suc)
  also have "\<dots> = l 3 3 + (l 3 2 + h 3 3 + l 2 3) * X +
    (l 3 1 + h 3 2 + (l 2 2 + h 2 3) + l 1 3) * X ^ 2 +
    (l 3 0 + h 3 1 + (l 2 1 + h 2 2) + (l 1 2 + h 1 3) + l 0 3) * X ^ 3 +
    X ^ 4 * (h 3 0 + h 2 1 + h 1 2 + h 0 3 + a 2 * b 0 + a 1 * b 1 + a 0 * b 2 +
      X * (a 1 * b 0 + a 0 * b 1) + X ^ 2 * (a 0 * b 0))"
    by (simp add: assms) (simp add: algebra_simps numeral_eq_Suc)
  finally show ?thesis .
qed

section \<open>The result\<close>

lemma val128_u128: "val128 (u128 x y) = unat x * 2 ^ 64 + unat y"
  by (simp add: val128_def)

lemma unat_push_32: "unat (push_bit 32 w :: u64) = unat w mod 2 ^ 32 * 2 ^ 32"
proof -
  have "unat w * 2 ^ 32 mod 2 ^ 64 = unat w mod 2 ^ 32 * 2 ^ 32"
    using mod_mult_mult2 [of "unat w" "2 ^ 32" "2 ^ 32"] by simp
  then show ?thesis by (simp add: unat_push_bit)
qed

text \<open>The sum that the three additions compute.\<close>

lemma mul128_sum:
  "val128 (add128 (u128 0 f4) (add128 (u128 f2 0) (add128 (u128 (push_bit 32 f1) 0) (u128 (hi32 f3) (push_bit 32 f3))))) =
    (unat f4 + unat f3 * 2 ^ 32 + unat f2 * 2 ^ 64 + unat f1 * 2 ^ 96) mod 2 ^ 128"
proof -
  have 3: "unat (hi32 f3) * 2 ^ 64 + unat f3 mod 2 ^ 32 * 2 ^ 32 = unat f3 * 2 ^ 32"
  proof -
    define q r where "q = unat f3 div 2 ^ 32" and "r = unat f3 mod 2 ^ 32"
    have "unat f3 = q * 2 ^ 32 + r" by (simp add: q_def r_def)
    then have "q * 2 ^ 64 + r * 2 ^ 32 = unat f3 * 2 ^ 32" by simp
    then show ?thesis by (simp add: unat_hi32 q_def r_def)
  qed
  have 1: "unat f1 mod 2 ^ 32 * 2 ^ 32 * 2 ^ 64 = unat f1 * 2 ^ 96 mod 2 ^ 128"
    using mod_mult_mult2 [of "unat f1" "2 ^ 96" "2 ^ 32"] by simp
  have v: "val128 (u128 (push_bit 32 f1) 0) = unat f1 * 2 ^ 96 mod 2 ^ 128"
    "val128 (u128 (hi32 f3) (push_bit 32 f3)) = unat f3 * 2 ^ 32"
    "val128 (u128 f2 0) = unat f2 * 2 ^ 64" "val128 (u128 0 f4) = unat f4"
    by (simp_all only: val128_u128 unat_push_32 1 3 unsigned_0 add_0_right add_0_left mult_0)
  show ?thesis
    by (simp only: val128_add v mod_add_left_eq mod_add_right_eq) (simp only: add_ac)
qed

lemma mul_limbs:
  assumes "i < 4" "j < 4"
  shows "unat (limbs a ! i * limbs b ! j) = unat (limbs a ! i) * unat (limbs b ! j)"
proof (rule unat_limb_mult)
  have "unat (limbs n ! i) < 2 ^ 32" if "i < 4" for n i
    using that hi32_lt [of "upper n"] hi32_lt [of "lower n"] by (auto simp: limbs_eq unat_lo32 nth_Cons' less_Suc_eq)
  then show "unat (limbs a ! i) < 2 ^ 32" "unat (limbs b ! j) < 2 ^ 32" using assms by blast+
qed

section \<open>Property\<close>

text \<open>
  \<open>mul128\<close> is the multiplication modulo 2 to the 128: no carry of the school method is lost.
\<close>

theorem mul128_correct: "val128 (mul128 x y) = val128 x * val128 y mod 2 ^ 128"
proof -
  define p where "p i j = limbs x ! i * limbs y ! j" for i j
  define a where "a i = unat (limbs x ! i)" for i
  define b where "b i = unat (limbs y ! i)" for i
  define h where "h i j = (if i < 4 \<and> j < 4 then unat (hi32 (p i j)) else a i * b j div 2 ^ 32)" for i j
  define l where "l i j = (if i < 4 \<and> j < 4 then unat (lo32 (p i j)) else a i * b j mod 2 ^ 32)" for i j
  let ?X = "2 ^ 32 :: nat"
  have ab: "a i * b j = h i j * ?X + l i j" for i j
    using mul_limbs [of i j x y] by (simp add: h_def l_def a_def b_def p_def unat_hi32 unat_lo32)
  have small: "unat (lo32 (p i j)) \<le> 2 ^ 32" "unat (hi32 (p i j)) \<le> 2 ^ 32" for i j
    using hi32_lt [of "p i j"] by (simp_all add: unat_lo32)
  have u: "unat (of_nat n :: u64) = n" if "n < 2 ^ 64" for n
    using that by (simp add: unat_of_nat take_bit_nat_eq_self)
  have hl: "h i j \<le> 2 ^ 32" "l i j \<le> 2 ^ 32" if "i < 4" "j < 4" for i j
    using that small by (simp_all add: h_def l_def)
  have w: "hi32 (p i j) = of_nat (h i j)" "lo32 (p i j) = of_nat (l i j)" if "i < 4" "j < 4" for i j
    using that by (simp_all add: h_def l_def)
  let ?f3 = "lo32 (p 3 2) + hi32 (p 3 3) + lo32 (p 2 3)"
  let ?f2 = "lo32 (p 3 1) + hi32 (p 3 2) + (lo32 (p 2 2) + hi32 (p 2 3)) + lo32 (p 1 3)"
  let ?f1 = "lo32 (p 3 0) + hi32 (p 3 1) + (lo32 (p 2 1) + hi32 (p 2 2)) + (lo32 (p 1 2) + hi32 (p 1 3)) + lo32 (p 0 3)"
  let ?n3 = "l 3 2 + h 3 3 + l 2 3" and ?n2 = "l 3 1 + h 3 2 + (l 2 2 + h 2 3) + l 1 3"
  let ?n1 = "l 3 0 + h 3 1 + (l 2 1 + h 2 2) + (l 1 2 + h 1 3) + l 0 3"
  have n: "?n3 < 2 ^ 64" "?n2 < 2 ^ 64" "?n1 < 2 ^ 64"
    using hl(2) [of 3 2] hl(1) [of 3 3] hl(2) [of 2 3] hl(2) [of 3 1] hl(1) [of 3 2] hl(2) [of 2 2] hl(1) [of 2 3]
      hl(2) [of 1 3] hl(2) [of 3 0] hl(1) [of 3 1] hl(2) [of 2 1] hl(1) [of 2 2] hl(2) [of 1 2] hl(1) [of 1 3] hl(2) [of 0 3]
    by simp_all
  have "?f3 = of_nat ?n3" "?f2 = of_nat ?n2" "?f1 = of_nat ?n1" by (simp_all add: w)
  then have f: "unat ?f3 = ?n3" "unat ?f2 = ?n2" "unat ?f1 = ?n1" using u n by metis+
  have "mul128 x y = add128 (u128 0 (lo32 (p 3 3)))
      (add128 (u128 ?f2 0) (add128 (u128 (push_bit 32 ?f1) 0) (u128 (hi32 ?f3) (push_bit 32 ?f3))))"
    by (simp add: mul128_def Let_def p_def)
  then have "val128 (mul128 x y) =
      (unat (lo32 (p 3 3)) + unat ?f3 * 2 ^ 32 + unat ?f2 * 2 ^ 64 + unat ?f1 * 2 ^ 96) mod 2 ^ 128"
    by (simp only: mul128_sum)
  also have "\<dots> = (l 3 3 + (l 3 2 + h 3 3 + l 2 3) * ?X +
    (l 3 1 + h 3 2 + (l 2 2 + h 2 3) + l 1 3) * ?X ^ 2 +
    (l 3 0 + h 3 1 + (l 2 1 + h 2 2) + (l 1 2 + h 1 3) + l 0 3) * ?X ^ 3) mod 2 ^ 128"
    unfolding f by (simp add: l_def)
  also have "\<dots> = ((a 0 * ?X ^ 3 + a 1 * ?X ^ 2 + a 2 * ?X + a 3) * (b 0 * ?X ^ 3 + b 1 * ?X ^ 2 + b 2 * ?X + b 3)) mod 2 ^ 128"
  proof -
    have "?X ^ 4 = 2 ^ 128" by simp
    then show ?thesis unfolding school [of a b h ?X l, OF ab] by (metis mod_mult_self2)
  qed
  also have "a 0 * ?X ^ 3 + a 1 * ?X ^ 2 + a 2 * ?X + a 3 = val128 x"
    by (simp add: val128_limbs a_def limbs_eq)
  also have "b 0 * ?X ^ 3 + b 1 * ?X ^ 2 + b 2 * ?X + b 3 = val128 y"
    by (simp add: val128_limbs b_def limbs_eq)
  finally show ?thesis .
qed

end
