(* ===== verification/App_Signature.thy ===== *)
theory App_Signature
  imports Guest_Memory
begin

text \<open>
  The signature of an application on the device (\<open>vm/src/app_signature.c\<close>): the device receives
  every page of the application, checks the hash and the HSM signature of the manifest, computes
  the HMACs that \<open>stream_request_page\<close> will ask for, and sends them encrypted with a key that it
  releases at the end. A SHA-256 context is the list of the bytes it was given, the digest of a
  context their \<open>sha256\<close>.
\<close>

section \<open>The pages of a section\<close>

definition generate_hmac :: "env \<Rightarrow> u32 \<Rightarrow> u8 list \<Rightarrow> u8 list \<Rightarrow> u8 list" where
  "generate_hmac E addr page hmac_key =
     hmac_sha256 E hmac_key (page @ entry_bytes \<lparr>e_addr = addr, e_iv = 0\<rparr>)"

text \<open>The encrypted HMAC and the next initialisation vector, its second block.\<close>

definition encrypt_hmac :: "env \<Rightarrow> u8 list \<Rightarrow> u8 list \<Rightarrow> u8 list \<Rightarrow> u8 list \<times> u8 list" where
  "encrypt_hmac E aes_key iv mac =
    (let mac = aes_cbc_encrypt E aes_key iv mac in (mac, slice mac 16 16))"

text \<open>One turn of the loop of \<open>compute_section_hmacs\<close>: the hash context and the vector after it.\<close>

definition section_page ::
    "env \<Rightarrow> u8 list \<Rightarrow> u8 list \<Rightarrow> u32 \<Rightarrow> u8 list \<times> u8 list \<Rightarrow> vm \<Rightarrow> (u8 list \<times> u8 list) option \<times> vm" where
  "section_page E aes_key hmac_key addr ctx s =
    (case exchange E 2 (on_dev (write_buf 0 (cmd_bytes CMD_REQUEST_APP_PAGE)) s) of
       (None, s) \<Rightarrow> (None, s)
     | (Some apdu, s) \<Rightarrow>
         let page = a_p2 apdu # a_data apdu;
             (mac, iv) = encrypt_hmac E aes_key (snd ctx) (generate_hmac E addr page hmac_key);
             s = on_dev (write_buf 0 (mac @ cmd_bytes CMD_REQUEST_APP_HMAC)) s
         in case exchange E 34 s of
              (None, s) \<Rightarrow> (None, s)
            | (Some _, s) \<Rightarrow> (Some (fst ctx @ page, iv), s))"

text \<open>\<open>None\<close> when the loop does not end, which takes a section that ends in the last page.\<close>

partial_function (option) compute_section_hmacs ::
    "env \<Rightarrow> u8 list \<Rightarrow> u8 list \<Rightarrow> u32 \<Rightarrow> u32 \<Rightarrow> u8 list \<times> u8 list \<Rightarrow> vm \<Rightarrow>
       ((u8 list \<times> u8 list) option \<times> vm) option" where
  "compute_section_hmacs E aes_key hmac_key addr end_addr ctx s =
    (if addr < end_addr then
       case section_page E aes_key hmac_key addr ctx s of
         (None, s) \<Rightarrow> Some (None, s)
       | (Some ctx, s) \<Rightarrow> compute_section_hmacs E aes_key hmac_key (addr + PAGE_SIZE) end_addr ctx s
     else Some (Some ctx, s))"

section \<open>Signing an application\<close>

text \<open>
  \<open>struct cmd_response_app_s\<close>: the manifest, 72 bytes for the signature and its length. The length
  is the host's: verifying a signature that is longer than what is left of the APDU buffer reads
  past it.
\<close>

definition response_size :: nat where
  "response_size = MANIFEST_SIZE + 72 + 1"

text \<open>
  \<open>response\<close> is the buffer from the pointer on. The size of the reply is \<open>None\<close> on failure;
  \<open>struct cmd_request_signature_s\<close> has 105 bytes.
\<close>

definition handle_sign_app :: "env \<Rightarrow> u8 list \<Rightarrow> vm \<Rightarrow> (nat option \<times> vm) outcome" where
  "handle_sign_app E response s =
    (let manifest = take MANIFEST_SIZE response;
         signature_size = unat (response ! (MANIFEST_SIZE + 72));
         code = m_sections manifest SECTION_CODE; data = m_sections manifest SECTION_DATA
     in if length response < MANIFEST_SIZE + signature_size then Undefined
        else if \<not> verify_manifest_hsm_signature E manifest (slice response MANIFEST_SIZE signature_size)
        then Done (None, s)
        else
          let hmac_key = derive_hmac_key E (m_app_hash manifest) s;
              ctx = le_bytes 4 (s_start code) @ le_bytes 4 (s_end code) @
                    le_bytes 4 (s_start data) @ le_bytes 4 (m_bss manifest);
              (aes_key, d) = get_random E 32 (dev s);
              s = s\<lparr>dev := d\<rparr>
          in case compute_section_hmacs E aes_key hmac_key (s_start code) (s_end code) (ctx, replicate 16 0) s of
               None \<Rightarrow> Blocked
             | Some (None, s) \<Rightarrow> Done (None, s)
             | Some (Some ctx, s) \<Rightarrow>
                 (case compute_section_hmacs E aes_key hmac_key (s_start data) (m_bss manifest) ctx s of
                    None \<Rightarrow> Blocked
                  | Some (None, s) \<Rightarrow> Done (None, s)
                  | Some (Some ctx, s) \<Rightarrow>
                      if m_app_hash manifest \<noteq> sha256 E (fst ctx) then Done (None, s)
                      else case sign_manifest E manifest s of
                             None \<Rightarrow> Done (None, s)
                           | Some sg \<Rightarrow>
                               let s = on_dev (write_buf 32 sg) s;
                                   s = on_dev (write_buf 104 [of_nat (length sg)]) s
                               in Done (Some 105, on_dev (write_buf 0 aes_key) s)))"

section \<open>General commands\<close>

definition INS_GET_DEVICE_PUBKEY :: u8 where "INS_GET_DEVICE_PUBKEY = 0x10"

definition INS_SIGN_APP :: u8 where "INS_SIGN_APP = 0x11"

definition handle_get_device_pubkey :: "env \<Rightarrow> u8 list \<Rightarrow> vm \<Rightarrow> nat option \<times> vm" where
  "handle_get_device_pubkey E app_hash s =
    (case get_device_pubkey E app_hash s of
       None \<Rightarrow> (None, s)
     | Some pubkey \<Rightarrow> (Some (length pubkey), on_dev (write_buf 0 pubkey) s))"

definition general_command :: "env \<Rightarrow> u8 \<Rightarrow> u8 list \<Rightarrow> nat \<Rightarrow> vm \<Rightarrow> (nat option \<times> vm) outcome" where
  "general_command E ins data sz s =
    (if ins = INS_GET_DEVICE_PUBKEY then
       if sz = 32 then Done (handle_get_device_pubkey E (take 32 data) s) else Done (None, s)
     else if ins = INS_SIGN_APP then
       if sz = response_size then handle_sign_app E data s else Done (None, s)
     else Done (None, s))"

definition handle_general_apdu :: "env \<Rightarrow> u8 \<Rightarrow> u8 list \<Rightarrow> nat \<Rightarrow> vm \<Rightarrow> (nat \<times> vm) outcome" where
  "handle_general_apdu E ins data sz s =
     then_do (general_command E ins data sz s)
       (\<lambda>(tx, s). case tx of
          None \<Rightarrow> Done (2, on_dev (write_buf 0 [0x61, 0x61]) s)
        | Some tx \<Rightarrow> Done (tx + 2, on_dev (write_buf tx [0x90, 0x00]) s))"

section \<open>What a section sends\<close>

text \<open>The messages for the pages of a section, in order: a request and an encrypted HMAC each.\<close>

fun section_msgs ::
    "env \<Rightarrow> u8 list \<Rightarrow> u8 list \<Rightarrow> u32 \<Rightarrow> u8 list \<Rightarrow> u8 list list \<Rightarrow> u8 list list" where
  "section_msgs E aes_key hmac_key addr iv [] = []"
| "section_msgs E aes_key hmac_key addr iv (page # ps) =
    (case encrypt_hmac E aes_key iv (generate_hmac E addr page hmac_key) of
       (mac, iv) \<Rightarrow> cmd_bytes CMD_REQUEST_APP_PAGE # (mac @ cmd_bytes CMD_REQUEST_APP_HMAC) #
         section_msgs E aes_key hmac_key (addr + PAGE_SIZE) iv ps)"

fun section_iv :: "env \<Rightarrow> u8 list \<Rightarrow> u8 list \<Rightarrow> u32 \<Rightarrow> u8 list \<Rightarrow> u8 list list \<Rightarrow> u8 list" where
  "section_iv E aes_key hmac_key addr iv [] = iv"
| "section_iv E aes_key hmac_key addr iv (page # ps) =
     section_iv E aes_key hmac_key (addr + PAGE_SIZE)
       (snd (encrypt_hmac E aes_key iv (generate_hmac E addr page hmac_key))) ps"

text \<open>The number of turns from an address to the end of a section.\<close>

definition page_count :: "u32 \<Rightarrow> u32 \<Rightarrow> nat" where
  "page_count addr end_addr = (unat end_addr - unat addr + 255) div 256"

lemma page_count_step:
  assumes "addr < end_addr" and "unat end_addr + 256 \<le> 2 ^ 32"
  shows "page_count addr end_addr = Suc (page_count (addr + PAGE_SIZE) end_addr)"
    "unat (addr + PAGE_SIZE) = unat addr + 256"
proof -
  have lt: "unat addr < unat end_addr" using assms(1) by (simp add: word_less_nat_alt)
  then have "unat addr + 256 < 2 ^ 32" using assms(2) by linarith
  moreover have "unat (addr + PAGE_SIZE) = (unat addr + 256) mod 2 ^ 32"
    by (simp add: unat_word_ariths(1))
  ultimately show u: "unat (addr + PAGE_SIZE) = unat addr + 256" by (simp only: mod_less)
  show "page_count addr end_addr = Suc (page_count (addr + PAGE_SIZE) end_addr)"
  proof (cases "unat end_addr \<le> unat addr + 256")
    case True
    then have "(unat end_addr - unat addr + 255) div 256 = 1" using lt by (intro div_nat_eqI) auto
    then show ?thesis using True by (simp add: page_count_def u)
  next
    case False
    then have "unat end_addr - unat addr + 255 = (unat end_addr - (unat addr + 256) + 255) + 256" by simp
    then show ?thesis by (simp only: page_count_def u)
  qed
qed

section \<open>Runs of the loop\<close>

text \<open>Only the transport changes.\<close>

definition only_dev :: "vm \<Rightarrow> vm \<Rightarrow> bool" where
  "only_dev s t \<longleftrightarrow> t = s\<lparr>dev := dev t\<rparr> \<and> (buf_ok (dev s) \<longrightarrow> buf_ok (dev t))"

lemma only_dev_trans: "only_dev s t \<Longrightarrow> only_dev t u \<Longrightarrow> only_dev s u"
  unfolding only_dev_def by (metis vm.surjective vm.update_convs(1))

lemma only_dev_refl: "only_dev s s"
  by (simp add: only_dev_def)

lemma only_dev_exchange:
  assumes "exchange E tx s = (r, t)"
  shows "only_dev s t" "d_sent (dev t) = query tx s"
  using assms by (auto simp: exchange_def only_dev_def io_exchange_def Let_def buf_ok_def query_def)

lemma only_dev_write: "off + length bs \<le> 260 \<Longrightarrow> buf_ok (dev s) \<Longrightarrow> only_dev s (on_dev (write_buf off bs) s)"
  by (auto simp: only_dev_def on_dev_def buf_ok_def write_buf_def)

text \<open>A message written at the start of the buffer and exchanged.\<close>

lemma exchange_message:
  assumes "exchange E (length bs) (on_dev (write_buf 0 bs) s) = (r, t)"
    and "buf_ok (dev s)" "length bs \<le> 260"
  shows "only_dev s t" "d_sent (dev t) = bs # d_sent (dev s)" "buf_ok (dev t)"
    "\<And>a. r = Some a \<Longrightarrow> length (a_data a) = 255"
proof -
  let ?w = "on_dev (write_buf 0 bs) s"
  have w: "only_dev s ?w" using assms(2,3) by (intro only_dev_write) auto
  show o: "only_dev s t" using only_dev_trans [OF w] only_dev_exchange(1) [OF assms(1)] by blast
  show "buf_ok (dev t)" using o assms(2) by (simp add: only_dev_def)
  have "length bs \<le> length (d_buf (dev s))" using assms(2,3) by (simp add: buf_ok_def)
  then show "d_sent (dev t) = bs # d_sent (dev s)"
    using only_dev_exchange(2) [OF assms(1)] by (simp add: query_def write_buf_def splice_def)
  have "buf_ok (dev ?w)" using w assms(2) by (simp add: only_dev_def)
  then show "length (a_data a) = 255" if "r = Some a" for a
    using exchange_Some(8) [of E "length bs" ?w a t] assms(1) that by simp
qed

lemma section_page_run:
  assumes "section_page E aes_key hmac_key addr (bs, iv) s = (r, t)"
    and "buf_ok (dev s)" "sizes_ok E"
  shows "only_dev s t \<and> (\<exists>page j. length page = 256 \<and>
    d_sent (dev t) = rev (take j (section_msgs E aes_key hmac_key addr iv [page])) @ d_sent (dev s) \<and>
    (r \<noteq> None \<longrightarrow> j = 2 \<and> r = Some (bs @ page, section_iv E aes_key hmac_key addr iv [page])))"
proof -
  let ?m1 = "cmd_bytes CMD_REQUEST_APP_PAGE"
  obtain a s1 where x1: "exchange E 2 (on_dev (write_buf 0 ?m1) s) = (a, s1)" by fastforce
  have e1: "only_dev s s1" "d_sent (dev s1) = ?m1 # d_sent (dev s)" "buf_ok (dev s1)"
    "\<And>b. a = Some b \<Longrightarrow> length (a_data b) = 255"
    using exchange_message [of E ?m1 s a s1] x1 assms(2) by auto
  show ?thesis
  proof (cases a)
    case None
    then have "r = None" "t = s1" using assms(1) x1 by (simp_all add: section_page_def)
    then show ?thesis using e1
      by (intro conjI exI [of _ "replicate 256 0"] exI [of _ 1]) (auto simp: encrypt_hmac_def Let_def)
  next
    case (Some apdu)
    define page where "page = a_p2 apdu # a_data apdu"
    obtain mac iv' where m: "encrypt_hmac E aes_key iv (generate_hmac E addr page hmac_key) = (mac, iv')"
      by fastforce
    let ?m2 = "mac @ cmd_bytes CMD_REQUEST_APP_HMAC"
    have lm: "length ?m2 = 34"
      using m assms(3) by (auto simp: encrypt_hmac_def generate_hmac_def sizes_ok_def Let_def)
    obtain b s2 where x2: "exchange E 34 (on_dev (write_buf 0 ?m2) s1) = (b, s2)" by fastforce
    have e2: "only_dev s1 s2" "d_sent (dev s2) = ?m2 # d_sent (dev s1)"
      using exchange_message [of E ?m2 s1 b s2] x2 e1(3) lm by auto
    have rt: "t = s2" "r = (case b of None \<Rightarrow> None | Some _ \<Rightarrow> Some (bs @ page, iv'))"
      using assms(1) x1 Some m x2
      by (auto simp: section_page_def page_def Let_def split: option.splits)
    have "length page = 256" using e1(4) Some by (simp add: page_def)
    then show ?thesis using rt e1 e2 m only_dev_trans [OF e1(1) e2(1)]
      by (intro conjI exI [of _ page] exI [of _ 2]) (auto split: option.splits)
  qed
qed

text \<open>
  What the loop does from an address on: it exchanged the first \<open>j\<close> messages of some pages, all of
  them when it returns a context, which then covers these pages and no others.
\<close>

definition section_run ::
    "env \<Rightarrow> u8 list \<Rightarrow> u8 list \<Rightarrow> u32 \<Rightarrow> u32 \<Rightarrow> u8 list \<times> u8 list \<Rightarrow> vm \<Rightarrow> (u8 list \<times> u8 list) option \<Rightarrow> vm \<Rightarrow> bool" where
  "section_run E aes_key hmac_key addr end_addr c s r t \<longleftrightarrow>
    only_dev s t \<and> (\<exists>ps j. (\<forall>p \<in> set ps. length p = 256) \<and>
    d_sent (dev t) = rev (take j (section_msgs E aes_key hmac_key addr (snd c) ps)) @ d_sent (dev s) \<and>
    (r \<noteq> None \<longrightarrow> j = 2 * length ps \<and>
       r = Some (fst c @ concat ps, section_iv E aes_key hmac_key addr (snd c) ps) \<and>
       (unat end_addr + 256 \<le> 2 ^ 32 \<longrightarrow> length ps = page_count addr end_addr)))"

lemma section_run_stop: "\<not> addr < end_addr \<Longrightarrow> section_run E k h addr end_addr c s (Some c) s"
  by (cases c) (auto simp: section_run_def only_dev_refl page_count_def not_less word_le_nat_alt
      intro!: exI [of _ "[]"])

lemma section_run_turn:
  assumes "addr < end_addr" and "section_page E k h addr c s = (r1, s1)" "buf_ok (dev s)" "sizes_ok E"
    and "case r1 of None \<Rightarrow> r = None \<and> t = s1
         | Some c1 \<Rightarrow> section_run E k h (addr + PAGE_SIZE) end_addr c1 s1 r t"
  shows "section_run E k h addr end_addr c s r t"
proof -
  obtain bs iv where c: "c = (bs, iv)" by fastforce
  let ?iv1 = "\<lambda>page. section_iv E k h addr iv [page]"
  from section_page_run [OF assms(2) [unfolded c] assms(3,4)]
  obtain page j where p: "only_dev s s1" "length page = 256"
    "d_sent (dev s1) = rev (take j (section_msgs E k h addr iv [page])) @ d_sent (dev s)"
    "r1 \<noteq> None \<longrightarrow> j = 2 \<and> r1 = Some (bs @ page, ?iv1 page)" by blast
  show ?thesis
  proof (cases r1)
    case None
    then show ?thesis using p assms(5) unfolding section_run_def c
      by (intro conjI exI [of _ "[page]"] exI [of _ j]) auto
  next
    case (Some c1)
    with p(4) have j: "j = 2" and c1: "c1 = (bs @ page, ?iv1 page)" by auto
    obtain ps k' where q: "only_dev s1 t" "\<forall>p \<in> set ps. length p = 256"
      "d_sent (dev t) = rev (take k' (section_msgs E k h (addr + PAGE_SIZE) (?iv1 page) ps)) @ d_sent (dev s1)"
      "r \<noteq> None \<longrightarrow> k' = 2 * length ps \<and>
         r = Some ((bs @ page) @ concat ps, section_iv E k h (addr + PAGE_SIZE) (?iv1 page) ps) \<and>
         (unat end_addr + 256 \<le> 2 ^ 32 \<longrightarrow> length ps = page_count (addr + PAGE_SIZE) end_addr)"
      using assms(5) by (auto simp: Some c1 section_run_def)
    have "section_msgs E k h addr iv (page # ps) = section_msgs E k h addr iv [page] @
        section_msgs E k h (addr + PAGE_SIZE) (?iv1 page) ps"
      "length (section_msgs E k h addr iv [page]) = 2"
      by (simp_all split: prod.splits)
    then have "d_sent (dev t) = rev (take (2 + k') (section_msgs E k h addr iv (page # ps))) @ d_sent (dev s)"
      using q(3) p(3) j by simp
    then show ?thesis
      using only_dev_trans [OF p(1) q(1)] q(2,4) p(2) page_count_step(1) [OF assms(1)] unfolding section_run_def c
      by (intro conjI exI [of _ "page # ps"] exI [of _ "2 + k'"]) auto
  qed
qed

lemma compute_section_run:
  assumes "compute_section_hmacs E k h addr end_addr c s = Some (r, t)" and "buf_ok (dev s)" "sizes_ok E"
  shows "section_run E k h addr end_addr c s r t"
proof -
  have "sizes_ok E' \<longrightarrow> buf_ok (dev u) \<longrightarrow> section_run E' k' h' a e c u (fst v) (snd v)"
    if "compute_section_hmacs E' k' h' a e c u = Some v" for E' k' h' a e c u v
    using that
  proof (rule compute_section_hmacs.raw_induct [rotated])
    fix f E' k' h' a e c u v
    assume IH: "\<And>E' k' h' a e c u v. f E' k' h' a e c u = Some v \<Longrightarrow>
        sizes_ok E' \<longrightarrow> buf_ok (dev u) \<longrightarrow> section_run E' k' h' a e c u (fst v) (snd v)"
      and f: "(if a < e then case section_page E' k' h' a c u of (None, s) \<Rightarrow> Some (None, s)
          | (Some c, s) \<Rightarrow> f E' k' h' (a + PAGE_SIZE) e c s else Some (Some c, u)) = Some v"
    obtain r1 s1 where sp: "section_page E' k' h' a c u = (r1, s1)" by fastforce
    show "sizes_ok E' \<longrightarrow> buf_ok (dev u) \<longrightarrow> section_run E' k' h' a e c u (fst v) (snd v)"
    proof (intro impI)
      assume E: "sizes_ok E'" and buf: "buf_ok (dev u)"
      have "buf_ok (dev s1)" using section_page_run [OF _ buf E] sp buf by (cases c) (auto simp: only_dev_def)
      then show "section_run E' k' h' a e c u (fst v) (snd v)"
      proof (cases "a < e")
        case True
        with \<open>buf_ok (dev s1)\<close> show ?thesis using f sp E IH
          by (cases r1) (auto intro!: section_run_turn [OF True sp buf E])
      next
        case False
        then show ?thesis using f by (auto intro: section_run_stop)
      qed
    qed
  qed
  from this [OF assms(1)] show ?thesis using assms(2,3) by simp
qed

lemma compute_section_ends:
  assumes "unat end_addr + 256 \<le> 2 ^ 32"
  shows "\<exists>v. compute_section_hmacs E k h addr end_addr c s = Some v"
proof (induction "page_count addr end_addr" arbitrary: addr c s)
  case 0
  then have "\<not> addr < end_addr" using page_count_step(1) [OF _ assms] by fastforce
  then show ?case by (subst compute_section_hmacs.simps) simp
next
  case (Suc n)
  show ?case
  proof (cases "addr < end_addr")
    case True
    then have n: "n = page_count (addr + PAGE_SIZE) end_addr" using page_count_step(1) [OF True assms] Suc(2) by simp
    show ?thesis using Suc(1) [OF n] True
      by (subst compute_section_hmacs.simps) (auto split: prod.splits option.splits)
  qed (subst compute_section_hmacs.simps, simp)
qed

section \<open>A signature\<close>

text \<open>What the digest of an application covers, and what the device sends for its pages.\<close>

definition app_header :: "manifest_s \<Rightarrow> u8 list" where
  "app_header m = le_bytes 4 (s_start (m_sections m SECTION_CODE)) @ le_bytes 4 (s_end (m_sections m SECTION_CODE)) @
     le_bytes 4 (s_start (m_sections m SECTION_DATA)) @ le_bytes 4 (m_bss m)"

definition app_messages ::
    "env \<Rightarrow> u8 list \<Rightarrow> u8 list \<Rightarrow> manifest_s \<Rightarrow> u8 list list \<Rightarrow> u8 list list \<Rightarrow> u8 list list" where
  "app_messages E aes_key hmac_key m code data =
    (let start = s_start (m_sections m SECTION_CODE); iv = replicate 16 0
     in section_msgs E aes_key hmac_key start iv code @
        section_msgs E aes_key hmac_key (s_start (m_sections m SECTION_DATA))
          (section_iv E aes_key hmac_key start iv code) data)"

text \<open>The pages of an application whose digest is the hash of the manifest.\<close>

definition app_pages :: "env \<Rightarrow> manifest_s \<Rightarrow> u8 list list \<Rightarrow> u8 list list \<Rightarrow> bool" where
  "app_pages E m code data \<longleftrightarrow>
    (\<forall>p \<in> set (code @ data). length p = 256) \<and>
    m_app_hash m = sha256 E (app_header m @ concat code @ concat data) \<and>
    (unat (s_end (m_sections m SECTION_CODE)) + 256 \<le> 2 ^ 32 \<longrightarrow>
       length code = page_count (s_start (m_sections m SECTION_CODE)) (s_end (m_sections m SECTION_CODE))) \<and>
    (unat (m_bss m) + 256 \<le> 2 ^ 32 \<longrightarrow>
       length data = page_count (s_start (m_sections m SECTION_DATA)) (m_bss m))"

text \<open>The sizes that the library documents.\<close>

definition signing_sizes :: "env \<Rightarrow> bool" where
  "signing_sizes E \<longleftrightarrow> sizes_ok E \<and> (\<forall>i n. length (random_bytes E i n) = n) \<and>
     (\<forall>k d sg. sign E k d = Some sg \<longrightarrow> length sg \<le> 72)"

lemma length_section_msgs: "length (section_msgs E k h addr iv ps) = 2 * length ps"
  by (induction ps arbitrary: addr iv) (auto split: prod.splits)

lemma only_dev_keys:
  assumes "only_dev s t"
  shows "sign_manifest E m t = sign_manifest E m s" "derive_hmac_key E h t = derive_hmac_key E h s"
proof -
  have t: "t = s\<lparr>dev := dev t\<rparr>" using assms by (simp add: only_dev_def)
  show "sign_manifest E m t = sign_manifest E m s" "derive_hmac_key E h t = derive_hmac_key E h s"
    by (subst t, simp add: sign_manifest_def get_privkey_def derive_hmac_key_def)+
qed

text \<open>The state after the two sections: the first \<open>j\<close> messages of some pages are sent.\<close>

definition app_sent ::
    "env \<Rightarrow> u8 list \<Rightarrow> u8 list \<Rightarrow> manifest_s \<Rightarrow> u8 list list \<Rightarrow> u8 list list \<Rightarrow> nat \<Rightarrow> vm \<Rightarrow> vm \<Rightarrow> bool" where
  "app_sent E k h m code data j s t \<longleftrightarrow>
     d_sent (dev t) = rev (take j (app_messages E k h m code data)) @ d_sent (dev s)"

lemma app_sent_none: "d_sent (dev t) = d_sent (dev s) \<Longrightarrow> app_sent E k h m [] [] 0 s t"
  by (simp add: app_sent_def)

lemma code_section_run:
  assumes "compute_section_hmacs E k h (s_start (m_sections m SECTION_CODE)) (s_end (m_sections m SECTION_CODE))
      (app_header m, replicate 16 0) s = Some (r, t)" and "buf_ok (dev s)" "sizes_ok E"
  shows "only_dev s t \<and> (\<exists>code j. app_sent E k h m code [] j s t \<and>
    (r \<noteq> None \<longrightarrow> j = 2 * length code \<and> (\<forall>p \<in> set code. length p = 256) \<and>
       r = Some (app_header m @ concat code,
         section_iv E k h (s_start (m_sections m SECTION_CODE)) (replicate 16 0) code) \<and>
       (unat (s_end (m_sections m SECTION_CODE)) + 256 \<le> 2 ^ 32 \<longrightarrow>
          length code = page_count (s_start (m_sections m SECTION_CODE)) (s_end (m_sections m SECTION_CODE)))))"
  using compute_section_run [OF assms]
  by (auto simp: section_run_def app_sent_def app_messages_def Let_def)

lemma data_section_run:
  assumes "compute_section_hmacs E k h (s_start (m_sections m SECTION_DATA)) (m_bss m)
      (app_header m @ concat code,
       section_iv E k h (s_start (m_sections m SECTION_CODE)) (replicate 16 0) code) s1 = Some (r, t)"
    and "app_sent E k h m code [] (2 * length code) s s1" and "buf_ok (dev s1)" "sizes_ok E"
  shows "only_dev s1 t \<and> (\<exists>data j. app_sent E k h m code data j s t \<and>
    (r \<noteq> None \<longrightarrow> j = 2 * (length code + length data) \<and> (\<forall>p \<in> set data. length p = 256) \<and>
       (\<exists>iv. r = Some (app_header m @ concat code @ concat data, iv)) \<and>
       (unat (m_bss m) + 256 \<le> 2 ^ 32 \<longrightarrow>
          length data = page_count (s_start (m_sections m SECTION_DATA)) (m_bss m))))"
proof -
  let ?iv = "section_iv E k h (s_start (m_sections m SECTION_CODE)) (replicate 16 0) code"
  let ?msgs = "section_msgs E k h (s_start (m_sections m SECTION_DATA)) ?iv"
  from compute_section_run [OF assms(1,3,4)] obtain data j where o: "only_dev s1 t"
    and q: "\<forall>p \<in> set data. length p = 256" "d_sent (dev t) = rev (take j (?msgs data)) @ d_sent (dev s1)"
      "r \<noteq> None \<longrightarrow> j = 2 * length data \<and> (\<exists>iv. r = Some (app_header m @ concat code @ concat data, iv)) \<and>
         (unat (m_bss m) + 256 \<le> 2 ^ 32 \<longrightarrow>
            length data = page_count (s_start (m_sections m SECTION_DATA)) (m_bss m))"
    by (auto simp: section_run_def)
  have "app_sent E k h m code data (2 * length code + j) s t"
    using q(2) assms(2) by (simp add: app_sent_def app_messages_def Let_def length_section_msgs)
  then show ?thesis using o q by (intro conjI exI [of _ data] exI [of _ "2 * length code + j"]) auto
qed

text \<open>
  The handler as one case distinction: what it sent is a prefix of the messages of some pages, and
  when it succeeds these are the pages of the application and the reply is written.
\<close>

lemma handle_sign_app_run:
  assumes "handle_sign_app E response s = Done (r, t)" and "buf_ok (dev s)" "sizes_ok E"
  defines "m \<equiv> take MANIFEST_SIZE response"
  defines "k \<equiv> random_bytes E (d_draws (dev s)) 32" and "h \<equiv> derive_hmac_key E (m_app_hash m) s"
  shows "\<exists>code data j. app_sent E k h m code data j s t \<and>
    (r \<noteq> None \<longrightarrow> app_pages E m code data \<and> j = 2 * (length code + length data) \<and>
       verify_manifest_hsm_signature E m (slice response MANIFEST_SIZE (unat (response ! (MANIFEST_SIZE + 72)))) \<and>
       r = Some 105 \<and> (\<exists>sg u. sign_manifest E m s = Some sg \<and> buf_ok (dev u) \<and> t = on_dev (write_buf 0 k)
         (on_dev (write_buf 104 [of_nat (length sg)]) (on_dev (write_buf 32 sg) u))))"
proof -
  let ?ok = "verify_manifest_hsm_signature E m (slice response MANIFEST_SIZE (unat (response ! (MANIFEST_SIZE + 72))))"
  define s0 where "s0 = s\<lparr>dev := (dev s)\<lparr>d_draws := Suc (d_draws (dev s))\<rparr>\<rparr>"
  have s0: "only_dev s s0" "d_sent (dev s0) = d_sent (dev s)" "buf_ok (dev s0)"
    using assms(2) by (simp_all add: s0_def only_dev_def buf_ok_def)
  note run = assms(1) [unfolded handle_sign_app_def Let_def get_random_def prod.case, folded m_def,
      folded k_def h_def s0_def, folded app_header_def [of m]]
  show ?thesis
  proof (cases ?ok)
    case False
    with run have "r = None" "t = s" by (auto split: if_splits)
    then show ?thesis using app_sent_none [of s s] by blast
  next
    case True
    obtain r1 s1 where c1: "compute_section_hmacs E k h (s_start (m_sections m SECTION_CODE))
        (s_end (m_sections m SECTION_CODE)) (app_header m, replicate 16 0) s0 = Some (r1, s1)"
      using run True by (auto split: if_splits option.splits)
    from code_section_run [OF c1 s0(3) assms(3)] obtain code j1 where
      q1: "only_dev s0 s1" "app_sent E k h m code [] j1 s0 s1"
        "r1 \<noteq> None \<longrightarrow> j1 = 2 * length code \<and> (\<forall>p \<in> set code. length p = 256) \<and>
         r1 = Some (app_header m @ concat code,
           section_iv E k h (s_start (m_sections m SECTION_CODE)) (replicate 16 0) code) \<and>
         (unat (s_end (m_sections m SECTION_CODE)) + 256 \<le> 2 ^ 32 \<longrightarrow>
            length code = page_count (s_start (m_sections m SECTION_CODE)) (s_end (m_sections m SECTION_CODE)))"
      by blast
    have sent1: "app_sent E k h m code [] j1 s s1" using q1(2) s0(2) by (simp add: app_sent_def)
    have b1: "buf_ok (dev s1)" using q1(1) s0(3) by (simp add: only_dev_def)
    show ?thesis
    proof (cases r1)
      case None
      then have "r = None" "t = s1" using run True c1 by (auto split: if_splits)
      then show ?thesis using sent1 by blast
    next
      case (Some c1')
      note q1' = q1(3) [unfolded Some, simplified]
      obtain r2 s2 where c2: "compute_section_hmacs E k h (s_start (m_sections m SECTION_DATA)) (m_bss m) c1' s1 = Some (r2, s2)"
        using run True c1 Some by (auto split: if_splits option.splits)
      from data_section_run [of E k h m code s1 r2 s2 s] c2 q1' sent1 b1 assms(3) obtain data j where
        q2: "only_dev s1 s2" "app_sent E k h m code data j s s2"
          "r2 \<noteq> None \<longrightarrow> j = 2 * (length code + length data) \<and> (\<forall>p \<in> set data. length p = 256) \<and>
           (\<exists>iv. r2 = Some (app_header m @ concat code @ concat data, iv)) \<and>
           (unat (m_bss m) + 256 \<le> 2 ^ 32 \<longrightarrow>
              length data = page_count (s_start (m_sections m SECTION_DATA)) (m_bss m))" by auto
      have o: "only_dev s s2" by (rule only_dev_trans [OF s0(1) only_dev_trans [OF q1(1) q2(1)]])
      show ?thesis
      proof (cases "r = None")
        case None: True
        then have "t = s2" using run True c1 c2 Some by (auto split: if_splits option.splits prod.splits)
        then show ?thesis using q2(2) None by blast
      next
        case False
        then obtain c where r2: "r2 = Some c" "m_app_hash m = sha256 E (fst c)"
          using run True c1 c2 Some by (cases r2) (auto split: if_splits)
        obtain g where g: "sign_manifest E m s2 = Some g" "r = Some 105"
          "t = on_dev (write_buf 0 k) (on_dev (write_buf 104 [of_nat (length g)]) (on_dev (write_buf 32 g) s2))"
          using run True c1 c2 Some r2(1) False by (auto split: if_splits option.splits)
        have "app_pages E m code data" using q1' q2(3) r2 by (auto simp: app_pages_def)
        moreover have "app_sent E k h m code data j s t" using q2(2) by (simp add: g(3) app_sent_def write_buf_def)
        moreover have "buf_ok (dev s2)" using o assms(2) by (simp add: only_dev_def)
        ultimately show ?thesis using q2(3) r2(1) True g only_dev_keys(1) [OF o] by (metis option.distinct(1))
      qed
    qed
  qed
qed

lemma general_sign_run:
  assumes "general_command E INS_SIGN_APP data sz s = Done (r, t)" and "buf_ok (dev s)" "sizes_ok E"
  defines "m \<equiv> take MANIFEST_SIZE data"
  defines "k \<equiv> random_bytes E (d_draws (dev s)) 32" and "h \<equiv> derive_hmac_key E (m_app_hash m) s"
  shows "\<exists>code pages j. app_sent E k h m code pages j s t \<and>
    (r \<noteq> None \<longrightarrow> app_pages E m code pages \<and> j = 2 * (length code + length pages) \<and>
       verify_manifest_hsm_signature E m (slice data MANIFEST_SIZE (unat (data ! (MANIFEST_SIZE + 72)))) \<and>
       r = Some 105 \<and> (\<exists>sg u. sign_manifest E m s = Some sg \<and> buf_ok (dev u) \<and> t = on_dev (write_buf 0 k)
         (on_dev (write_buf 104 [of_nat (length sg)]) (on_dev (write_buf 32 sg) u))))"
proof (cases "handle_sign_app E data s = Done (r, t) \<and> sz = response_size")
  case True
  then show ?thesis using handle_sign_app_run [of E data s r t] assms(2,3)
    unfolding m_def k_def h_def by blast
next
  case False
  with assms(1) have "r = None" "t = s"
    by (auto simp: general_command_def INS_SIGN_APP_def INS_GET_DEVICE_PUBKEY_def split: if_splits)
  then show ?thesis using app_sent_none [of s s] by blast
qed

section \<open>Properties\<close>

lemma written_reply:
  assumes "buf_ok (dev u)" "length k = 32" "length g \<le> 72"
  defines "b \<equiv> d_buf (dev (on_dev (write_buf 105 [0x90, 0]) (on_dev (write_buf 0 k)
    (on_dev (write_buf 104 [of_nat (length g)]) (on_dev (write_buf 32 g) u)))))"
  shows "take 32 b = k" "slice b 32 (length g) = g" "b ! 104 = of_nat (length g)" "slice b 105 2 = [0x90, 0]"
proof -
  have l: "260 \<le> length (d_buf (dev u))" using assms(1) by (simp add: buf_ok_def)
  define b0 where "b0 = splice (splice (splice (d_buf (dev u)) 32 g) 104 [of_nat (length g)]) 0 k"
  have b: "b = splice b0 105 [0x90, 0]" by (simp add: b_def b0_def on_dev_def write_buf_def)
  have lb: "length b0 = length (d_buf (dev u))" "length b = length b0" using l assms(2,3) by (simp_all add: b0_def b)
  have nth: "b ! i = (if i < 32 then k ! i else if i < 32 + length g then g ! (i - 32) else if i = 104 then of_nat (length g)
      else if i = 105 then 0x90 else if i = 106 then 0 else d_buf (dev u) ! i)" if "i < length b" for i
    using that l lb assms(2,3) by (simp add: b b0_def nth_splice nth_Cons')
  show "take 32 b = k" "slice b 32 (length g) = g" "slice b 105 2 = [0x90, 0]"
    using l lb assms(2,3) by (auto intro!: nth_equalityI simp: nth nth_slice less_2_cases_iff)
  show "b ! 104 = of_nat (length g)" using l lb assms(3) by (simp add: nth)
qed

text \<open>
  C2: the device releases the AES key, and its signature of the manifest, only for an application
  that the HSM signed and whose pages, all of them received, hash to the manifest; until then all it
  sends is requests for pages and HMACs encrypted with that key, and when a check fails an error status.
\<close>

theorem sign_app_releases:
  assumes "handle_general_apdu E INS_SIGN_APP data sz s = Done (tx, t)"
    and "buf_ok (dev s)" and "signing_sizes E"
  defines "m \<equiv> take MANIFEST_SIZE data"
  defines "k \<equiv> random_bytes E (d_draws (dev s)) 32" and "h \<equiv> derive_hmac_key E (m_app_hash m) s"
  shows "\<exists>code pages j. d_sent (dev t) = rev (take j (app_messages E k h m code pages)) @ d_sent (dev s) \<and>
    (tx = 2 \<and> take 2 (d_buf (dev t)) = [0x61, 0x61] \<or>
     tx = 107 \<and> app_pages E m code pages \<and> j = length (app_messages E k h m code pages) \<and>
     verify_manifest_hsm_signature E m (slice data MANIFEST_SIZE (unat (data ! (MANIFEST_SIZE + 72)))) \<and>
     (\<exists>sg. sign_manifest E m s = Some sg \<and> take 32 (d_buf (dev t)) = k \<and>
        slice (d_buf (dev t)) 32 (length sg) = sg \<and> d_buf (dev t) ! 104 = of_nat (length sg) \<and>
        slice (d_buf (dev t)) 105 2 = [0x90, 0]))"
proof -
  have sizes: "sizes_ok E" using assms(3) by (simp add: signing_sizes_def)
  obtain r u where g: "general_command E INS_SIGN_APP data sz s = Done (r, u)"
    and t: "(tx, t) = (case r of None \<Rightarrow> (2, on_dev (write_buf 0 [0x61, 0x61]) u)
      | Some n \<Rightarrow> (n + 2, on_dev (write_buf n [0x90, 0]) u))"
    using assms(1) by (auto simp: handle_general_apdu_def then_do_Done split: option.splits)
  from general_sign_run [OF g assms(2) sizes, folded m_def, folded k_def h_def]
  obtain code pages j where sent: "app_sent E k h m code pages j s u"
    and done': "r \<noteq> None \<longrightarrow> app_pages E m code pages \<and> j = 2 * (length code + length pages) \<and>
       verify_manifest_hsm_signature E m (slice data MANIFEST_SIZE (unat (data ! (MANIFEST_SIZE + 72)))) \<and>
       r = Some 105 \<and> (\<exists>sg v. sign_manifest E m s = Some sg \<and> buf_ok (dev v) \<and> u = on_dev (write_buf 0 k)
         (on_dev (write_buf 104 [of_nat (length sg)]) (on_dev (write_buf 32 sg) v)))" by blast
  show ?thesis
  proof (cases r)
    case None
    then show ?thesis using t sent
      by (intro exI [of _ code] exI [of _ pages] exI [of _ j]) (simp add: app_sent_def write_buf_def splice_def)
  next
    case (Some n)
    with done' obtain sg v where r: "n = 105" "sign_manifest E m s = Some sg" "buf_ok (dev v)"
      "u = on_dev (write_buf 0 k) (on_dev (write_buf 104 [of_nat (length sg)]) (on_dev (write_buf 32 sg) v))" by auto
    have "length k = 32" "length sg \<le> 72"
      using assms(3) r(2) by (auto simp: k_def signing_sizes_def sign_manifest_def Let_def split: option.splits)
    note reply = written_reply [OF r(3) this, folded r(4)]
    have "length (app_messages E k h m code pages) = 2 * (length code + length pages)"
      by (simp add: app_messages_def Let_def length_section_msgs)
    moreover have "d_sent (dev t) = d_sent (dev u)" "t = on_dev (write_buf 105 [0x90, 0]) u" "tx = 107"
      using t Some r(1) by (simp_all add: write_buf_def)
    ultimately show ?thesis using done' Some sent r reply by (auto simp: app_sent_def)
  qed
qed

section \<open>An application of one page\<close>

text \<open>
  The code is the page at \<open>0x1000\<close>, filled with nines; the host answers every message with it; the
  toy SHA-256 keeps the first 32 bytes.
\<close>

definition sign_env :: env where
  "sign_env = (ex_env 9 5)\<lparr>host := (\<lambda>t. [0, 0, 0, 9, 255] @ replicate 255 9), verify := (\<lambda>k d s. True), sign := (\<lambda>k d. Some (take 72 d))\<rparr>"

definition one_page_manifest :: manifest_s where
  "one_page_manifest = replicate 52 0 @
     ([0, 0x10, 0, 0, 0, 0x11, 0, 0] @ replicate 8 0 @ replicate 16 9) @ replicate 8 0 @
     [0, 0x10, 0, 0, 0, 0x11, 0, 0] @ replicate 60 0"

definition one_page_response :: "u8 list" where
  "one_page_response = one_page_manifest @ replicate 72 0 @ [70]"

lemma sign_exchange:
  assumes "buf_ok (dev s)"
  shows "\<exists>a u. exchange sign_env tx s = (Some a, u) \<and> a_p2 a = 9 \<and> a_data a = replicate 255 9 \<and> buf_ok (dev u)"
proof -
  let ?r = "[0, 0, 0, 9, 255] @ replicate 255 9 :: u8 list"
  have r: "host sign_env t = ?r" for t by (simp add: sign_env_def)
  have "apdu_wf (host sign_env (query tx s))" unfolding r by (simp add: apdu_wf_def)
  from exchange_answers [OF this assms] obtain a u where x: "exchange sign_env tx s = (Some a, u)" "a_lc a = 255"
    unfolding r by auto
  note e = exchange_Some [OF x(1) assms, unfolded r]
  have "slice (a_data a) 0 255 = slice ?r 5 255" using e(4) [of 0 255] x(2) by simp
  moreover have "slice (a_data a) 0 255 = a_data a" using e(8) by (simp add: slice_def)
  moreover have "slice ?r 5 255 = replicate 255 9" by (simp add: slice_def)
  ultimately show ?thesis using x e(2,7) by simp
qed

lemma sign_section_page:
  assumes "buf_ok (dev s)"
  shows "\<exists>iv u. section_page sign_env k h addr (bs, iv0) s = (Some (bs @ replicate 256 9, iv), u) \<and> buf_ok (dev u)"
proof -
  let ?m1 = "cmd_bytes CMD_REQUEST_APP_PAGE"
  have "length ?m1 \<le> 260" by simp
  then have "buf_ok (dev (on_dev (write_buf 0 ?m1) s))" using assms by (auto simp: buf_ok_def write_buf_def)
  from sign_exchange [OF this, of 2] obtain a u where x1: "exchange sign_env 2 (on_dev (write_buf 0 ?m1) s) = (Some a, u)"
    "a_p2 a = 9" "a_data a = replicate 255 9" "buf_ok (dev u)" by blast
  obtain mac iv where m: "encrypt_hmac sign_env k iv0 (generate_hmac sign_env addr (9 # replicate 255 9) h) = (mac, iv)"
    by fastforce
  let ?m2 = "mac @ cmd_bytes CMD_REQUEST_APP_HMAC"
  have "length mac = 32" using m by (auto simp: encrypt_hmac_def generate_hmac_def sign_env_def ex_env_def Let_def)
  then have "buf_ok (dev (on_dev (write_buf 0 ?m2) u))" using x1(4) by (auto simp: buf_ok_def write_buf_def)
  from sign_exchange [OF this, of 34] obtain b v where x2: "exchange sign_env 34 (on_dev (write_buf 0 ?m2) u) = (Some b, v)"
    "buf_ok (dev v)" by blast
  have "replicate 256 (9 :: u8) = 9 # replicate 255 9" by (simp add: replicate_Suc [symmetric] del: replicate_Suc)
  then show ?thesis using x1 x2 m by (simp add: section_page_def)
qed

lemma one_page_run: "\<exists>t. handle_general_apdu sign_env INS_SIGN_APP one_page_response 233 ex_vm = Done (107, t)"
proof -
  have m: "take MANIFEST_SIZE one_page_response = one_page_manifest" "length one_page_response = 233"
      "one_page_response ! 232 = 70"
    by (simp_all add: one_page_response_def one_page_manifest_def MANIFEST_SIZE_def nth_append)
  have f: "s_start (m_sections one_page_manifest SECTION_CODE) = 0x1000"
      "s_end (m_sections one_page_manifest SECTION_CODE) = 0x1100"
      "s_start (m_sections one_page_manifest SECTION_DATA) = 0" "m_bss one_page_manifest = 0"
      "m_app_hash one_page_manifest = pad_sha (app_header one_page_manifest @ replicate 256 9)"
    by code_simp+
  define s0 where "s0 = ex_vm\<lparr>dev := (dev ex_vm)\<lparr>d_draws := Suc (d_draws (dev ex_vm))\<rparr>\<rparr>"
  define k where "k = random_bytes sign_env (d_draws (dev ex_vm)) 32"
  define h where "h = derive_hmac_key sign_env (m_app_hash one_page_manifest) ex_vm"
  have "buf_ok (dev s0)" by (simp add: s0_def ex_vm_def buf_ok_def)
  from sign_section_page [OF this] obtain iv u where
    p: "section_page sign_env k h 0x1000 (app_header one_page_manifest, replicate 16 0) s0 =
      (Some (app_header one_page_manifest @ replicate 256 9, iv), u)" by blast
  have c: "compute_section_hmacs sign_env k h 0x1000 0x1100 (app_header one_page_manifest, replicate 16 0) s0 =
      Some (Some (app_header one_page_manifest @ replicate 256 9, iv), u)"
    by (subst compute_section_hmacs.simps, simp add: p PAGE_SIZE_def, subst compute_section_hmacs.simps, simp)
  have d: "compute_section_hmacs sign_env k h 0 0 c u = Some (Some c, u)" for c
    by (subst compute_section_hmacs.simps) simp
  have v: "verify_manifest_hsm_signature sign_env mm sg" "sha256 sign_env = pad_sha"
      "\<exists>g. sign_manifest sign_env mm s = Some g" for mm sg s
    by (simp_all add: verify_manifest_hsm_signature_def get_hsm_pubkey_def verify_manifest_signature_def
        sign_manifest_def get_privkey_def Let_def sign_env_def ex_env_def)
  obtain g where g: "sign_manifest sign_env one_page_manifest u = Some g" using v(3) by blast
  have "\<exists>t. handle_sign_app sign_env one_page_response ex_vm = Done (Some 105, t)"
    unfolding handle_sign_app_def Let_def get_random_def prod.case m(1) f(1-4) app_header_def [of one_page_manifest, unfolded f, symmetric]
    k_def [symmetric] h_def [symmetric] s0_def [symmetric]
    using m by (simp add: v c d g f(5) MANIFEST_SIZE_def)
  then show ?thesis
    by (auto simp: handle_general_apdu_def general_command_def INS_SIGN_APP_def INS_GET_DEVICE_PUBKEY_def
        response_size_def MANIFEST_SIZE_def)
qed

theorem sign_app_releases_witness:
  "\<exists>t. handle_general_apdu sign_env INS_SIGN_APP one_page_response 233 ex_vm = Done (107, t) \<and>
    take 32 (d_buf (dev t)) = replicate 32 0"
proof -
  obtain t where t: "handle_general_apdu sign_env INS_SIGN_APP one_page_response 233 ex_vm = Done (107, t)"
    using one_page_run by blast
  have "buf_ok (dev ex_vm)" "signing_sizes sign_env"
    by (auto simp: ex_vm_def buf_ok_def signing_sizes_def sizes_ok_def sign_env_def ex_env_def pad_sha_def)
  from sign_app_releases [OF t this] t show ?thesis by (auto simp: sign_env_def ex_env_def)
qed

end
