(* ===== verification/Vm_Start.thy ===== *)
theory Vm_Start
  imports Flat_Properties
begin

text \<open>
  The start of an application (\<open>stream_init_app\<close> of \<open>vm/src/stream.c\<close>) establishes the invariant
  that its run keeps: the state represents the memory that the signed manifest commits to.
\<close>

section \<open>What a manifest describes\<close>

definition received_manifest :: "env \<Rightarrow> vm \<Rightarrow> manifest_s" where
  "received_manifest E s = slice (host E (cmd_bytes CMD_REQUEST_MANIFEST # d_sent (dev s))) 8 MANIFEST_SIZE"

text \<open>The caches of a device on which no application ran since the reset.\<close>

definition fresh_caches :: "vm \<Rightarrow> bool" where
  "fresh_caches s \<longleftrightarrow> (\<forall>c. length (pages (cache_of c s)) = NPAGE c \<and>
     (\<forall>p \<in> set (pages (cache_of c s)). p_addr p = 0 \<and> length (p_data p) = 256))"

text \<open>The sections and the bounds of heap and stack.\<close>

definition memory_of :: "manifest_s \<Rightarrow> vm \<Rightarrow> vm" where
  "memory_of m s = init_memory_addresses (m_bss m) (s_end (m_sections m SECTION_STACK))
     (init_memory_sections (m_sections m) s)"

text \<open>
  The manifest commits to the entries \<open>es\<close>, all with counter 0, of the initial pages; none is in the
  part of the heap or the stack that does not exist yet.
\<close>

definition image_ok :: "env \<Rightarrow> manifest_s \<Rightarrow> vm \<Rightarrow> entry_s list \<Rightarrow> (u32 \<rightharpoonup> u8 list) \<Rightarrow> bool" where
  "image_ok E m s es initial \<longleftrightarrow>
     mt_rep (sha256 E) (init_merkle_tree (m_root_hash m) (m_merkle_size m) (m_last_entry m)) es \<and>
     (\<forall>e \<in> set es. e_iv e = 0) \<and> dom initial = e_addr ` set es \<and>
     (\<forall>a d. initial a = Some d \<longrightarrow> length d = 256) \<and> layout_ok (memory_of m s) \<and>
     (\<forall>c a. PAGE_START a = a \<longrightarrow> in_section c a (memory_of m s) \<longrightarrow> unborn c a (memory_of m s) \<longrightarrow> initial a = None)"

definition initial_ghost :: "(u32 \<rightharpoonup> u8 list) \<Rightarrow> entry_s list \<Rightarrow> ghost" where
  "initial_ghost initial es = ((\<lambda>(a, v). if v = 0 then initial a else None), es)"

text \<open>The code, the initial pages, and zeros.\<close>

definition start_memory :: "(u32 \<rightharpoonup> u8 list) \<Rightarrow> (u32 \<rightharpoonup> u8 list) \<Rightarrow> vm \<Rightarrow> u32 \<Rightarrow> u8" where
  "start_memory code initial s a =
    (let b = PAGE_START a; byte = (\<lambda>f. case f b of Some d \<Rightarrow> d ! page_off a | None \<Rightarrow> 0)
     in if in_section SECTION_CODE b s then byte code
        else if in_section SECTION_DATA b s \<or> in_section SECTION_STACK b s then byte initial
        else 0)"

section \<open>The parts of the state after a start\<close>

lemma counters_initial:
  assumes "\<forall>e \<in> set es. e_iv e = 0"
  shows "counters es a = (if a \<in> e_addr ` set es then Some 0 else None)"
proof -
  have "counters es a = Some c \<Longrightarrow> c = 0 \<and> a \<in> e_addr ` set es" for c
    using assms by (auto simp: counters_def dest!: map_of_SomeD)
  moreover have "a \<in> e_addr ` set es \<Longrightarrow> counters es a \<noteq> None"
    by (simp add: counters_def map_of_eq_None_iff image_image)
  ultimately show ?thesis by (cases "counters es a") auto
qed

lemma stored_initial:
  assumes "\<forall>e \<in> set es. e_iv e = 0" "dom initial = e_addr ` set es"
  shows "stored (initial_ghost initial es) a = map_option (\<lambda>d. (d, 0)) (initial a)"
  using assms(2) by (auto simp: stored_def initial_ghost_def counters_initial [OF assms(1)] split: option.splits)

lemma init_app_parts:
  assumes "init_app E m s = (True, t)" "buf_ok (dev s)"
  shows "buf_ok (dev t)" "hmac_static_key t = derive_hmac_key E (m_app_hash m) s" "pc (cpu t) = m_pc m"
    "regs (cpu t) ! RV_REG_SP = (s_end (m_sections m SECTION_STACK) - 4) AND 0xfffffff0"
    "mt t = init_merkle_tree (m_root_hash m) (m_merkle_size m) (m_last_entry m)"
    "sections (mem t) = m_sections m" "bss_max (mem t) = PAGE_START (m_bss m)"
    "stack_min (mem t) = s_end (m_sections m SECTION_STACK)"
    "pages (cache_of c t) = pages (cache_of c s)" "writeable (cache_of c t) \<longleftrightarrow> c \<noteq> SECTION_CODE"
    "current_page (cache_of c t) = None"
proof -
  note defs = init_app_def Let_def init_static_key_def init_dynamic_keys_def get_random_def
      init_memory_sections_def init_memory_addresses_def init_caches_def init_cache_def stop_loading_def
      set_app_name_def set_reg_def rv_cpu_reset_def RV_REG_SP_def cache_of_def set_cache_def derive_hmac_key_def
  from assms show "buf_ok (dev t)" "hmac_static_key t = derive_hmac_key E (m_app_hash m) s" "pc (cpu t) = m_pc m"
    "regs (cpu t) ! RV_REG_SP = (s_end (m_sections m SECTION_STACK) - 4) AND 0xfffffff0"
    "mt t = init_merkle_tree (m_root_hash m) (m_merkle_size m) (m_last_entry m)"
    "sections (mem t) = m_sections m" "bss_max (mem t) = PAGE_START (m_bss m)"
    "stack_min (mem t) = s_end (m_sections m SECTION_STACK)"
    by (clarsimp simp: defs buf_ok_def split: if_splits)+
  from assms(1) show "pages (cache_of c t) = pages (cache_of c s)" "writeable (cache_of c t) \<longleftrightarrow> c \<noteq> SECTION_CODE"
    "current_page (cache_of c t) = None"
    by (cases c; clarsimp simp: defs split: if_splits)+
qed

lemma stream_init_app_verified:
  assumes "stream_init_app E buffer n s = (True, t)" "buf_ok (dev s)"
  defines "m \<equiv> received_manifest E s"
  shows "\<exists>u. buf_ok (dev u) \<and> u = s\<lparr>dev := dev u\<rparr> \<and> init_app E m u = (True, t) \<and>
    verify_manifest_device_signature E m (take n buffer) u"
proof -
  let ?s = "on_dev (write_buf 0 (cmd_bytes CMD_REQUEST_MANIFEST)) s"
  have q: "query 2 ?s = cmd_bytes CMD_REQUEST_MANIFEST # d_sent (dev s)" "buf_ok (dev ?s)"
    using query_write_0 [of s "cmd_bytes CMD_REQUEST_MANIFEST" 2] assms(2) by simp_all
  obtain a u where x: "exchange E 2 ?s = (Some a, u)" and lc: "unat (a_lc a) = 3 + MANIFEST_SIZE"
    and v: "verify_manifest_device_signature E (slice (a_data a) 3 MANIFEST_SIZE) (take n buffer) u"
      "init_app E (slice (a_data a) 3 MANIFEST_SIZE) u = (True, t)"
    using assms(1) by (auto simp: stream_init_app_def Let_def split: if_splits option.splits prod.splits)
  note e = exchange_Some [OF x q(2)]
  have "slice (a_data a) 3 MANIFEST_SIZE = m"
    using e(4) [of 3 MANIFEST_SIZE] lc by (simp add: m_def received_manifest_def q(1))
  moreover have "u = s\<lparr>dev := dev u\<rparr>" using x by (auto simp: exchange_def on_dev_def split: prod.splits)
  ultimately show ?thesis using v e(7) by blast
qed

section \<open>The invariant after a start\<close>

lemma flat_initial:
  assumes "fresh_caches s" "a \<noteq> 0"
  shows "flat s g c a = content g a"
proof -
  have "\<forall>p \<in> set (pages (cache_of c s)). p_addr p \<noteq> a" using assms by (auto simp: fresh_caches_def)
  then have "find (\<lambda>p. p_addr p = a) (pages (cache_of c s)) = None" by (auto simp: find_None_iff)
  then show ?thesis by (simp add: flat_def)
qed

lemma fresh_mem_wf:
  assumes "fresh_caches s" "\<And>c. writeable (cache_of c s) \<longleftrightarrow> c \<noteq> SECTION_CODE" "\<And>c. current_page (cache_of c s) = None"
  shows "mem_wf s"
proof -
  have a: "addrs (pages (cache_of c s)) = replicate (NPAGE c) 0" for c
    using assms(1) by (auto simp: fresh_caches_def intro!: replicate_eqI)
  show ?thesis unfolding mem_wf_def cache_wf_def a using assms by (auto simp: fresh_caches_def sorted_replicate PAGE_START_def)
qed

lemma init_app_represents:
  assumes "init_app E m s = (True, t)" "buf_ok (dev s)" "fresh_caches s" "image_ok E m s es initial"
    and "trusted E code t (initial_ghost initial es)" "lengths_ok E"
  shows "guest_rep E code t (start_memory code initial t)"
proof -
  note parts = init_app_parts [OF assms(1,2)]
  let ?g = "initial_ghost initial es"
  have fresh: "fresh_caches t" using assms(3) by (simp add: fresh_caches_def parts(9))
  have iv: "\<forall>e \<in> set es. e_iv e = 0" and dom: "dom initial = e_addr ` set es" using assms(4) by (simp_all add: image_ok_def)
  note st = stored_initial [OF iv dom]
  have mem: "sections (mem (memory_of m s)) = sections (mem t)" "bss_max (mem (memory_of m s)) = bss_max (mem t)"
    "stack_min (mem (memory_of m s)) = stack_min (mem t)"
    by (simp_all add: memory_of_def init_memory_addresses_def init_memory_sections_def parts)
  have same: "in_section c a (memory_of m s) = in_section c a t" "unborn c a (memory_of m s) = unborn c a t"
    "layout_ok (memory_of m s) = layout_ok t" for c a
    by (simp_all add: in_section_def unborn_def layout_ok_def mem)
  have "pager_rep E t ?g"
    using assms(4) parts(1,5) dom
    by (auto simp: pager_rep_def initial_ghost_def image_ok_def counters_initial [OF iv] split: if_splits)
  then have link: "link_ok E code t ?g" using assms(5) by (simp add: link_ok_def)
  have rep: "mem_rep E code t ?g"
    unfolding mem_rep_def
  proof (intro conjI)
    show "mem_wf t" using fresh_mem_wf [OF fresh] parts(10,11) by blast
    show "layout_ok t" using assms(4) by (simp add: image_ok_def same)
    show "code_cached code t" using fresh by (auto simp: code_cached_def fresh_caches_def)
    show "\<forall>c p. c \<noteq> SECTION_CODE \<longrightarrow> p \<in> set (pages (cache_of c t)) \<longrightarrow> p_addr p \<noteq> 0 \<longrightarrow>
        in_section c (p_addr p) t \<and> stored ?g (p_addr p) \<noteq> None" using fresh by (auto simp: fresh_caches_def)
    show "\<forall>c a. PAGE_START a = a \<longrightarrow> in_section c a t \<longrightarrow> unborn c a t \<longrightarrow> stored ?g a = None"
      using assms(4) by (simp add: st image_ok_def same)
    show "\<forall>a d v. stored ?g a = Some (d, v) \<longrightarrow> length d = 256"
      using assms(4) by (auto simp: st image_ok_def)
  qed (use link assms(6) in simp_all)
  have no0: "\<not> in_section c 0 t" for c using rep by (simp add: mem_rep_def layout_ok_def)
  have "flat t ?g c (PAGE_START a) ! page_off a =
      (case initial (PAGE_START a) of Some d \<Rightarrow> d ! page_off a | None \<Rightarrow> 0)"
    if "in_section c (PAGE_START a) t" for c a
    using that no0 [of c] flat_initial [OF fresh, of "PAGE_START a" ?g c]
    by (cases "PAGE_START a = 0") (auto simp: content_def st split: option.splits)
  then have "start_memory code initial t = byte_at code t ?g"
    by (auto simp: fun_eq_iff start_memory_def byte_at_def Let_def)
  with rep show ?thesis by (rule guest_repI)
qed

section \<open>Property\<close>

text \<open>
  C3: an application starts only with a manifest that the device signed, at its entry point and with
  the key derived from its hash; and if no application ran since the reset, the memory it sees
  is the one the manifest commits to: its code, its initial pages, and zeros.
\<close>

theorem start_represents:
  assumes "stream_init_app E buffer n s = (True, t)" and "buf_ok (dev s)" and "fresh_caches s"
    and "image_ok E (received_manifest E s) s es initial"
    and "trusted E code t (initial_ghost initial es)" and "lengths_ok E"
  shows "verify_manifest_device_signature E (received_manifest E s) (take n buffer) s \<and>
    pc (cpu t) = m_pc (received_manifest E s) \<and>
    hmac_static_key t = derive_hmac_key E (m_app_hash (received_manifest E s)) s \<and>
    guest_rep E code t (start_memory code initial t)"
proof -
  let ?m = "received_manifest E s"
  from stream_init_app_verified [OF assms(1,2)] obtain u where u: "buf_ok (dev u)" "u = s\<lparr>dev := dev u\<rparr>"
    and i: "init_app E ?m u = (True, t)" and v: "verify_manifest_device_signature E ?m (take n buffer) u" by blast
  have c: "cache_of c u = cache_of c s" for c by (subst u(2)) (simp add: cache_of_def)
  have mem: "mem (memory_of m u) = mem (memory_of m s)" for m
    by (subst u(2)) (simp add: memory_of_def init_memory_addresses_def init_memory_sections_def)
  have f: "fresh_caches u" using assms(3) by (simp add: fresh_caches_def c)
  have g: "image_ok E ?m u es initial"
    using assms(4) by (simp add: image_ok_def layout_ok_def in_section_def unborn_def mem)
  have k: "verify_manifest_device_signature E ?m sg u = verify_manifest_device_signature E ?m sg s"
    "derive_hmac_key E h u = derive_hmac_key E h s" for sg h
    by (subst u(2), simp add: verify_manifest_device_signature_def get_device_pubkey_def get_privkey_def
        derive_hmac_key_def Let_def)+
  show ?thesis
    using init_app_represents [OF i u(1) f g assms(5,6)] init_app_parts(2,3) [OF i u(1)] v
    by (simp add: k)
qed

section \<open>An application with one initial page\<close>

text \<open>The host answers the request for the manifest and nothing else.\<close>

definition start_manifest :: manifest_s where
  "start_manifest = replicate 84 0 @ le_bytes 4 (0x1000 :: u32) @ le_bytes 4 (0x1200 :: u32) @
     le_bytes 4 (0x1000 :: u32) @ le_bytes 4 (0x1100 :: u32) @ le_bytes 4 (0x2000 :: u32) @ le_bytes 4 (0x3000 :: u32) @
     le_bytes 4 (0x1100 :: u32) @ le_bytes 4 (0x1800 :: u32) @ hash_entry pad_sha \<lparr>e_addr = 0x1100, e_iv = 0\<rparr> @
     le_bytes 4 (1 :: u32) @ le_bytes 4 (0x1100 :: u32) @ le_bytes 4 (0 :: u32)"

definition start_env :: env where
  "start_env = (ex_env 9 5)\<lparr>verify := (\<lambda>k d s. True),
     host := (\<lambda>t. if hd t = cmd_bytes CMD_REQUEST_MANIFEST then [0, 0, 0, 0, 163, 0, 0, 0] @ start_manifest else [])\<rparr>"

definition start_vm :: vm where
  "start_vm = ex_vm\<lparr>mem := (mem ex_vm)\<lparr>caches := (\<lambda>c. \<lparr>pages = replicate (NPAGE c) ex_page,
     writeable = c \<noteq> SECTION_CODE, current_page = None\<rparr>)\<rparr>\<rparr>"

lemma silent_trusted: "trusted start_env code s g"
proof -
  have sizes: "sizes_ok start_env" by (auto simp: start_env_def sizes_ok_def ex_env_def pad_sha_def)
  have silent: "host start_env (m # t) = []" if "length m \<noteq> 2" for m t
    using that by (auto simp: start_env_def)
  have no: "\<not> stream_request_page start_env p a ro u = (True, q, v)" if "buf_ok (dev u)" for p a ro u q v
    using request_answered [of start_env p a ro u q v] that silent [of "le_bytes 4 a @ cmd_bytes CMD_REQUEST_PAGE"]
    by (auto simp: page_query_def)
  have no': "\<not> stream_commit_page start_env p ins u = (True, q, v)"
    if "buf_ok (dev u)" "length (p_data p) = 256" for p ins u q v
  proof
    assume "stream_commit_page start_env p ins u = (True, q, v)"
    from commit_answered [OF this that(1) sizes that(2)] silent show False by fastforce
  qed
  show ?thesis
    by (rule trusted.coinduct [where X = "\<lambda>_ _. True"]) (use no no' in \<open>auto simp: linked_def\<close>)
qed

lemma start_received: "received_manifest start_env start_vm = start_manifest"
  by (simp add: received_manifest_def start_env_def slice_def)
    (simp add: start_manifest_def MANIFEST_SIZE_def hash_entry_def pad_sha_def)

lemma start_fields:
  "s_start (m_sections start_manifest SECTION_CODE) = 0x1000" "s_end (m_sections start_manifest SECTION_CODE) = 0x1100"
  "s_start (m_sections start_manifest SECTION_STACK) = 0x2000" "s_end (m_sections start_manifest SECTION_STACK) = 0x3000"
  "s_start (m_sections start_manifest SECTION_DATA) = 0x1100" "s_end (m_sections start_manifest SECTION_DATA) = 0x1800"
  "m_bss start_manifest = 0x1200" "m_pc start_manifest = 0x1000" "m_merkle_size start_manifest = 1"
  "m_last_entry start_manifest = \<lparr>e_addr = 0x1100, e_iv = 0\<rparr>"
  "m_root_hash start_manifest = hash_entry pad_sha \<lparr>e_addr = 0x1100, e_iv = 0\<rparr>"
  by code_simp+

lemma start_runs: "\<exists>t. stream_init_app start_env [] 0 start_vm = (True, t)"
proof -
  let ?s = "on_dev (write_buf 0 (cmd_bytes CMD_REQUEST_MANIFEST)) start_vm"
  have buf: "buf_ok (dev start_vm)" by (simp add: start_vm_def ex_vm_def buf_ok_def)
  have q: "query 2 ?s = cmd_bytes CMD_REQUEST_MANIFEST # d_sent (dev start_vm)" "buf_ok (dev ?s)"
    using query_write_0 [of start_vm "cmd_bytes CMD_REQUEST_MANIFEST" 2] buf by simp_all
  have h: "host start_env (query 2 ?s) = [0, 0, 0, 0, 163, 0, 0, 0] @ start_manifest"
    by (simp add: q(1) start_env_def)
  have len: "length start_manifest = 160" by (simp add: start_manifest_def hash_entry_def pad_sha_def)
  have "apdu_wf (host start_env (query 2 ?s))" unfolding h by (simp add: apdu_wf_def len)
  from exchange_answers [OF this q(2)] obtain a u where
    x: "exchange start_env 2 ?s = (Some a, u)" "a_lc a = 163" unfolding h by auto
  have "slice (a_data a) 3 MANIFEST_SIZE = start_manifest"
    using exchange_Some(4) [OF x(1) q(2), of 3 MANIFEST_SIZE] x(2) unfolding h by (simp add: slice_def MANIFEST_SIZE_def len)
  moreover have "verify_manifest_device_signature start_env m sg u" for m sg
    by (simp add: verify_manifest_device_signature_def get_device_pubkey_def get_privkey_def
        verify_manifest_signature_def start_env_def ex_env_def)
  moreover have "\<exists>t. init_app start_env start_manifest u = (True, t)"
    by (simp add: init_app_def Let_def start_fields PAGE_START_def PAGE_SIZE_def split: prod.splits)
  ultimately show ?thesis using x by (simp add: stream_init_app_def MANIFEST_SIZE_def)
qed

definition start_image :: "u32 \<rightharpoonup> u8 list" where
  "start_image = [0x1100 \<mapsto> replicate 256 3]"

lemma start_image_ok:
  "image_ok start_env start_manifest start_vm [\<lparr>e_addr = 0x1100, e_iv = 0\<rparr>] start_image"
proof -
  let ?v = "memory_of start_manifest start_vm"
  have s: "in_section SECTION_CODE a ?v \<longleftrightarrow> 0x1000 \<le> a \<and> a < 0x1100"
    "in_section SECTION_STACK a ?v \<longleftrightarrow> 0x2000 \<le> a \<and> a < 0x3000"
    "in_section SECTION_DATA a ?v \<longleftrightarrow> 0x1100 \<le> a \<and> a < 0x1800" for a
    by (simp_all add: in_section_def memory_of_def init_memory_addresses_def init_memory_sections_def start_fields)
  have b: "bss_max (mem ?v) = 0x1200" "stack_min (mem ?v) = 0x3000"
    by (simp_all add: memory_of_def init_memory_addresses_def start_fields PAGE_START_def PAGE_SIZE_def)
  have "layout_ok ?v"
    unfolding layout_ok_def
  proof (intro conjI allI)
    show "\<not> in_section c 0 ?v" for c by (cases c) (simp_all add: s)
    show "\<not> (in_section SECTION_DATA a ?v \<and> in_section SECTION_STACK a ?v)" for a
      unfolding s by (simp add: word_le_nat_alt word_less_nat_alt)
  qed (simp_all add: b PAGE_START_def PAGE_SIZE_def memory_of_def init_memory_addresses_def init_memory_sections_def start_fields)
  moreover have "in_section c a ?v \<Longrightarrow> unborn c a ?v \<Longrightarrow> start_image a = None" for c a
    by (cases c) (auto simp: s unborn_def b start_image_def)
  moreover have "sha256 start_env = pad_sha" by (simp add: start_env_def ex_env_def)
  ultimately show ?thesis
    by (auto simp: image_ok_def mt_rep_def init_merkle_tree_def start_fields start_image_def mth.simps [of _ "[_]"])
qed

theorem start_represents_witness:
  "\<exists>t. stream_init_app start_env [] 0 start_vm = (True, t) \<and> pc (cpu t) = 0x1000 \<and>
    guest_rep start_env (\<lambda>_. None) t (start_memory (\<lambda>_. None) start_image t)"
proof -
  obtain t where t: "stream_init_app start_env [] 0 start_vm = (True, t)" using start_runs by blast
  have "buf_ok (dev start_vm)" "fresh_caches start_vm" "lengths_ok start_env"
    by (auto simp: start_vm_def ex_vm_def buf_ok_def fresh_caches_def cache_of_def ex_page_def lengths_ok_def
        sizes_ok_def start_env_def ex_env_def pad_sha_def)
  from start_represents [OF t this(1,2) start_image_ok [folded start_received] silent_trusted this(3)] t
  show ?thesis by (auto simp: start_received start_fields)
qed

end
