(* ===== verification/Vm_Main.thy ===== *)
theory Vm_Main
  imports Vm_Run App_Signature Vm_Start
begin

text \<open>
  The main loop of the VM (\<open>vm/src/main.c\<close>): it parses a command, signs an application or gives a
  public key, or starts and runs an application. Of \<open>main\<close> the initialisation of the seeds; the
  setup of the transports and the restart after an exception of the OS are not modelled.
\<close>

section \<open>Commands\<close>




definition ui_menu_main :: "vm \<Rightarrow> vm" where
  "ui_menu_main s = draw Menu_main s"


section \<open>The loop\<close>


text \<open>The state in which the loop is entered after a boot.\<close>

definition boot :: "env \<Rightarrow> vm \<Rightarrow> vm" where
  "boot E s = (ui_menu_main (nv_app_state_init E s))\<lparr>app_running := False\<rparr>"

section \<open>Turns that run nothing\<close>



text \<open>The general commands change the transport and the random generator only.\<close>

definition same_but_dev :: "vm \<Rightarrow> vm \<Rightarrow> bool" where
  "same_but_dev s t \<longleftrightarrow> t = s\<lparr>dev := dev t\<rparr>"

lemma same_but_dev_trans: "same_but_dev s t \<Longrightarrow> same_but_dev t u \<Longrightarrow> same_but_dev s u"
  unfolding same_but_dev_def by (metis vm.surjective vm.update_convs(1))

lemma same_but_devI: "only_dev s t \<Longrightarrow> same_but_dev s t" "same_but_dev s (on_dev f s)" "same_but_dev s s"
  by (simp_all add: same_but_dev_def only_dev_def on_dev_def)

lemma same_but_dev_on [intro!]: "same_but_dev s t \<Longrightarrow> same_but_dev s (on_dev f t)"
  using same_but_dev_trans same_but_devI(2) by blast

declare same_but_devI(1,3) [intro]






section \<open>A host that sends an unsigned application\<close>





end
