(* ===== verification/Sha256sum.thy ===== *)
theory Sha256sum
  imports Prelude
begin

text \<open>
  The SHA-256 of the sample application (\<open>app/app-sha256/sha256sum.c\<close>, \<open>sha256.h\<close>) and its
  equivalence with the standard: FIPS 180-4 pads the message, cuts it into blocks of 64 bytes and
  folds a compression function over them, while the code takes the bytes as they come, in any number
  of pieces, and keeps at most 64 of them. The limit of the standard on the size of a message plays
  no part: both take the number of its bits modulo \<open>2 ^ 64\<close>.
\<close>

section \<open>The context\<close>

record SHA256_CTX =
  sha_data :: "u8 list"
  sha_datalen :: u32
  sha_bitlen :: u64
  sha_state :: "u32 list"

section \<open>The compression function\<close>

definition ROTRIGHT :: "u32 \<Rightarrow> nat \<Rightarrow> u32" where
  "ROTRIGHT a b = drop_bit b a OR push_bit (32 - b) a"

definition CH :: "u32 \<Rightarrow> u32 \<Rightarrow> u32 \<Rightarrow> u32" where
  "CH x y z = (x AND y) XOR (NOT x AND z)"

definition MAJ :: "u32 \<Rightarrow> u32 \<Rightarrow> u32 \<Rightarrow> u32" where
  "MAJ x y z = (x AND y) XOR (x AND z) XOR (y AND z)"

definition EP0 :: "u32 \<Rightarrow> u32" where
  "EP0 x = ROTRIGHT x 2 XOR ROTRIGHT x 13 XOR ROTRIGHT x 22"

definition EP1 :: "u32 \<Rightarrow> u32" where
  "EP1 x = ROTRIGHT x 6 XOR ROTRIGHT x 11 XOR ROTRIGHT x 25"

definition SIG0 :: "u32 \<Rightarrow> u32" where
  "SIG0 x = ROTRIGHT x 7 XOR ROTRIGHT x 18 XOR drop_bit 3 x"

definition SIG1 :: "u32 \<Rightarrow> u32" where
  "SIG1 x = ROTRIGHT x 17 XOR ROTRIGHT x 19 XOR drop_bit 10 x"

definition sha_k :: "u32 list" where
  "sha_k = concat [
    [0x428a2f98, 0x71374491, 0xb5c0fbcf, 0xe9b5dba5, 0x3956c25b, 0x59f111f1, 0x923f82a4, 0xab1c5ed5],
    [0xd807aa98, 0x12835b01, 0x243185be, 0x550c7dc3, 0x72be5d74, 0x80deb1fe, 0x9bdc06a7, 0xc19bf174],
    [0xe49b69c1, 0xefbe4786, 0x0fc19dc6, 0x240ca1cc, 0x2de92c6f, 0x4a7484aa, 0x5cb0a9dc, 0x76f988da],
    [0x983e5152, 0xa831c66d, 0xb00327c8, 0xbf597fc7, 0xc6e00bf3, 0xd5a79147, 0x06ca6351, 0x14292967],
    [0x27b70a85, 0x2e1b2138, 0x4d2c6dfc, 0x53380d13, 0x650a7354, 0x766a0abb, 0x81c2c92e, 0x92722c85],
    [0xa2bfe8a1, 0xa81a664b, 0xc24b8b70, 0xc76c51a3, 0xd192e819, 0xd6990624, 0xf40e3585, 0x106aa070],
    [0x19a4c116, 0x1e376c08, 0x2748774c, 0x34b0bcb5, 0x391c0cb3, 0x4ed8aa4a, 0x5b9cca4f, 0x682e6ff3],
    [0x748f82ee, 0x78a5636f, 0x84c87814, 0x8cc70208, 0x90befffa, 0xa4506ceb, 0xbef9a3f7, 0xc67178f2]]"

text \<open>The array \<open>m\<close>: its first loop, and the second one, which appends \<open>m[i]\<close>.\<close>

definition load_block :: "u8 list \<Rightarrow> u32 list" where
  "load_block data =
    map (\<lambda>i. let j = 4 * i
             in push_bit 24 (ucast (data ! j)) OR push_bit 16 (ucast (data ! (j + 1))) OR
                push_bit 8 (ucast (data ! (j + 2))) OR ucast (data ! (j + 3))) [0..<16]"

definition extend_block :: "u32 list \<Rightarrow> u32 list" where
  "extend_block m =
    foldl (\<lambda>m i. m @ [SIG1 (m ! (i - 2)) + m ! (i - 7) + SIG0 (m ! (i - 15)) + m ! (i - 16)])
      m [16..<64]"

text \<open>The working variables, and one turn of the main loop.\<close>

type_synonym working = "u32 \<times> u32 \<times> u32 \<times> u32 \<times> u32 \<times> u32 \<times> u32 \<times> u32"

fun sha_round :: "u32 list \<Rightarrow> working \<Rightarrow> nat \<Rightarrow> working" where
  "sha_round m (a, b, c, d, e, f, g, h) i =
    (let t1 = h + EP1 e + CH e f g + sha_k ! i + m ! i; t2 = EP0 a + MAJ a b c
     in (t1 + t2, a, b, c, d + t1, e, f, g))"

definition sha256_transform :: "u32 list \<Rightarrow> u8 list \<Rightarrow> u32 list" where
  "sha256_transform st data =
    (let m = extend_block (load_block data)
     in case foldl (sha_round m) (st ! 0, st ! 1, st ! 2, st ! 3, st ! 4, st ! 5, st ! 6, st ! 7)
               [0..<64] of
          (a, b, c, d, e, f, g, h) \<Rightarrow>
            [st ! 0 + a, st ! 1 + b, st ! 2 + c, st ! 3 + d, st ! 4 + e, st ! 5 + f, st ! 6 + g,
             st ! 7 + h])"

section \<open>The operations\<close>

text \<open>\<open>data\<close> keeps what it holds.\<close>

definition xsha256_init :: "SHA256_CTX \<Rightarrow> SHA256_CTX" where
  "xsha256_init ctx =
    ctx\<lparr>sha_datalen := 0, sha_bitlen := 0,
        sha_state := [0x6a09e667, 0xbb67ae85, 0x3c6ef372, 0xa54ff53a,
                      0x510e527f, 0x9b05688c, 0x1f83d9ab, 0x5be0cd19]\<rparr>"

definition update_byte :: "SHA256_CTX \<Rightarrow> u8 \<Rightarrow> SHA256_CTX" where
  "update_byte ctx b =
    (let ctx = ctx\<lparr>sha_data := (sha_data ctx)[unat (sha_datalen ctx) := b],
                   sha_datalen := sha_datalen ctx + 1\<rparr>
     in if sha_datalen ctx = 64
        then ctx\<lparr>sha_state := sha256_transform (sha_state ctx) (sha_data ctx),
                 sha_bitlen := sha_bitlen ctx + 512, sha_datalen := 0\<rparr>
        else ctx)"

definition xsha256_update :: "SHA256_CTX \<Rightarrow> u8 list \<Rightarrow> SHA256_CTX" where
  "xsha256_update ctx data = foldl update_byte ctx data"

text \<open>\<open>data[i++] = 0x80; while (i < limit) data[i++] = 0x00;\<close>\<close>

definition pad_until :: "u8 list \<Rightarrow> nat \<Rightarrow> nat \<Rightarrow> u8 list" where
  "pad_until data i limit = foldl (\<lambda>d j. d[j := 0]) (data[i := 0x80]) [i + 1..<limit]"

definition pad_block :: "SHA256_CTX \<Rightarrow> SHA256_CTX" where
  "pad_block ctx =
    (let i = unat (sha_datalen ctx)
     in if sha_datalen ctx < 56 then ctx\<lparr>sha_data := pad_until (sha_data ctx) i 56\<rparr>
        else
          let data = pad_until (sha_data ctx) i 64
          in ctx\<lparr>sha_state := sha256_transform (sha_state ctx) data,
                 sha_data := splice data 0 (replicate 56 0)\<rparr>)"

definition put_bitlen :: "u8 list \<Rightarrow> u64 \<Rightarrow> u8 list" where
  "put_bitlen data n =
    data[63 := ucast n, 62 := ucast (drop_bit 8 n), 61 := ucast (drop_bit 16 n),
         60 := ucast (drop_bit 24 n), 59 := ucast (drop_bit 32 n), 58 := ucast (drop_bit 40 n),
         57 := ucast (drop_bit 48 n), 56 := ucast (drop_bit 56 n)]"

text \<open>\<open>xsha256_final\<close>: the 32 bytes of \<open>hash\<close>.\<close>

definition xsha256_final :: "SHA256_CTX \<Rightarrow> u8 list" where
  "xsha256_final ctx =
    (let ctx = pad_block ctx;
         n = sha_bitlen ctx + ucast (sha_datalen ctx * 8);
         st = sha256_transform (sha_state ctx) (put_bitlen (sha_data ctx) n)
     in map (\<lambda>j. ucast (drop_bit (24 - (j mod 4) * 8) (st ! (j div 4)) AND 0x000000ff)) [0..<32])"

text \<open>\<open>hexdump\<close> of \<open>app-sha256.c\<close>: the digits of the bytes, which the application sends.\<close>

definition sha_hexdump :: "u8 list \<Rightarrow> char list" where
  "sha_hexdump bs =
    (let hex = ''0123456789abcdef''
     in concat (map (\<lambda>c. [hex ! unat (drop_bit 4 c AND 0xf), hex ! unat (c AND 0xf)]) bs))"

section \<open>The standard\<close>

definition be_word :: "u8 list \<Rightarrow> u32" where
  "be_word bs = le_val (rev bs)"

text \<open>The functions of section 4.1.2 and the message schedule of section 6.2.2.\<close>

definition ssig0 :: "u32 \<Rightarrow> u32" where
  "ssig0 x = word_rotr 7 x XOR word_rotr 18 x XOR drop_bit 3 x"

definition ssig1 :: "u32 \<Rightarrow> u32" where
  "ssig1 x = word_rotr 17 x XOR word_rotr 19 x XOR drop_bit 10 x"

definition bsig0 :: "u32 \<Rightarrow> u32" where
  "bsig0 x = word_rotr 2 x XOR word_rotr 13 x XOR word_rotr 22 x"

definition bsig1 :: "u32 \<Rightarrow> u32" where
  "bsig1 x = word_rotr 6 x XOR word_rotr 11 x XOR word_rotr 25 x"

fun schedule :: "u8 list \<Rightarrow> nat \<Rightarrow> u32" where
  "schedule B t =
    (if t < 16 then be_word (slice B (4 * t) 4)
     else ssig1 (schedule B (t - 2)) + schedule B (t - 7) + ssig0 (schedule B (t - 15)) +
          schedule B (t - 16))"

declare schedule.simps [simp del]

fun fips_round :: "u8 list \<Rightarrow> working \<Rightarrow> nat \<Rightarrow> working" where
  "fips_round B (a, b, c, d, e, f, g, h) t =
    (let T1 = h + bsig1 e + CH e f g + sha_k ! t + schedule B t;
         T2 = bsig0 a + MAJ a b c
     in (T1 + T2, a, b, c, d + T1, e, f, g))"

fun add_working :: "working \<Rightarrow> working \<Rightarrow> working" where
  "add_working (a, b, c, d, e, f, g, h) (a', b', c', d', e', f', g', h') =
    (a + a', b + b', c + c', d + d', e + e', f + f', g + g', h + h')"

definition compress :: "working \<Rightarrow> u8 list \<Rightarrow> working" where
  "compress H B = add_working H (foldl (fips_round B) H [0..<64])"

definition H0 :: working where
  "H0 = (0x6a09e667, 0xbb67ae85, 0x3c6ef372, 0xa54ff53a, 0x510e527f, 0x9b05688c, 0x1f83d9ab,
    0x5be0cd19)"

text \<open>
  The padding of section 5.1.1: a one bit, the least number of zeros that leaves room for the length
  at the end of a block, and the number of bits of the message in big-endian order.
\<close>

definition fips_pad :: "u8 list \<Rightarrow> u8 list" where
  "fips_pad M =
    M @ [0x80] @ replicate (nat ((55 - int (length M)) mod 64)) 0 @
    rev (le_bytes 8 (of_nat (8 * length M) :: u64))"

fun blocks :: "u8 list \<Rightarrow> u8 list list" where
  "blocks xs = (if length xs < 64 then [] else take 64 xs # blocks (drop 64 xs))"

declare blocks.simps [simp del]

fun working_bytes :: "working \<Rightarrow> u8 list" where
  "working_bytes (a, b, c, d, e, f, g, h) =
    concat (map (\<lambda>w. rev (le_bytes 4 w)) [a, b, c, d, e, f, g, h])"

definition fips_sha256 :: "u8 list \<Rightarrow> u8 list" where
  "fips_sha256 M = working_bytes (foldl compress H0 (blocks (fips_pad M)))"

section \<open>The code computes the standard\<close>

lemma ROTRIGHT_rotr:
  assumes "0 < n" "n < 32"
  shows "ROTRIGHT a n = word_rotr n a"
proof (rule bit_word_eqI)
  fix i assume i: "i < LENGTH(32)"
  have R: "bit (ROTRIGHT a n) i \<longleftrightarrow> bit a (n + i) \<or> 32 - n \<le> i \<and> bit a (i - (32 - n))"
    using i by (simp add: ROTRIGHT_def bit_or_iff bit_drop_bit_eq bit_push_bit_iff)
  have S: "bit (word_rotr n a) i \<longleftrightarrow> bit a ((i + n) mod 32)"
    using i by (simp add: bit_word_rotr_iff)
  show "bit (ROTRIGHT a n) i = bit (word_rotr n a) i"
  proof (cases "i + n < 32")
    case True
    then have "\<not> 32 - n \<le> i" using assms by simp
    then show ?thesis using True unfolding R S by (simp add: add.commute)
  next
    case False
    then have "\<not> bit a (n + i)" using bit_imp_le_length [of a "n + i"] by auto
    moreover have "(i + n) mod 32 = i - (32 - n)" using False i assms by (simp add: le_mod_geq)
    moreover have "32 - n \<le> i" using False by simp
    ultimately show ?thesis unfolding R S by simp
  qed
qed

lemma sigma_eqs: "EP0 = bsig0" "EP1 = bsig1" "SIG0 = ssig0" "SIG1 = ssig1"
  by (auto simp: fun_eq_iff EP0_def bsig0_def EP1_def bsig1_def SIG0_def ssig0_def SIG1_def
      ssig1_def ROTRIGHT_rotr)

lemma be_word_4:
  "length bs = 4 \<Longrightarrow> be_word bs =
     push_bit 24 (ucast (bs ! 0)) OR push_bit 16 (ucast (bs ! 1)) OR push_bit 8 (ucast (bs ! 2)) OR
     ucast (bs ! 3)"
  by (auto simp: be_word_def length_Suc_conv eval_nat_numeral push_bit_or push_bit_push_bit ac_simps)

lemma load_block_schedule:
  assumes "length data = 64"
  shows "load_block data = map (schedule data) [0..<16]"
proof -
  have "be_word (slice data (4 * t) 4) =
      push_bit 24 (ucast (data ! (4 * t))) OR push_bit 16 (ucast (data ! (4 * t + 1))) OR
      push_bit 8 (ucast (data ! (4 * t + 2))) OR ucast (data ! (4 * t + 3))" if "t < 16" for t
    using assms that by (simp add: be_word_4 nth_slice)
  then show ?thesis
    by (auto simp: load_block_def schedule.simps Let_def)
qed

lemma extend_block_upto:
  assumes "16 \<le> n"
  shows "foldl (\<lambda>m i. m @ [SIG1 (m ! (i - 2)) + m ! (i - 7) + SIG0 (m ! (i - 15)) + m ! (i - 16)])
      (map (schedule data) [0..<16]) [16..<n] = map (schedule data) [0..<n]"
  using assms
proof (induction n rule: nat_induct_at_least)
  case base
  show ?case by simp
next
  case (Suc n)
  then show ?case
    by (simp add: sigma_eqs schedule.simps [of data n])
qed

lemma extend_block_schedule:
  "length data = 64 \<Longrightarrow> extend_block (load_block data) = map (schedule data) [0..<64]"
  unfolding extend_block_def load_block_schedule by (rule extend_block_upto) simp

lemma working_cases:
  obtains a b c d e f g h where "(w :: working) = (a, b, c, d, e, f, g, h)"
  by (metis prod.exhaust)

lemma sha_round_fips:
  "t < 64 \<Longrightarrow> sha_round (map (schedule data) [0..<64]) w t = fips_round data w t"
  by (cases w rule: working_cases) (simp add: sigma_eqs)

lemma foldl_rounds:
  "set ts \<subseteq> {0..<64} \<Longrightarrow>
     foldl (sha_round (map (schedule data) [0..<64])) w ts = foldl (fips_round data) w ts"
  by (induction ts arbitrary: w) (simp_all add: sha_round_fips)

fun state_list :: "working \<Rightarrow> u32 list" where
  "state_list (a, b, c, d, e, f, g, h) = [a, b, c, d, e, f, g, h]"

lemma transform_compress:
  assumes "length data = 64"
  shows "sha256_transform (state_list H) data = state_list (compress H data)"
proof -
  obtain a b c d e f g h where H: "H = (a, b, c, d, e, f, g, h)" by (rule working_cases)
  obtain a' b' c' d' e' f' g' h' where
    R: "foldl (fips_round data) H [0..<64] = (a', b', c', d', e', f', g', h')"
    by (rule working_cases)
  have "foldl (sha_round (extend_block (load_block data))) (a, b, c, d, e, f, g, h) [0..<64] =
      (a', b', c', d', e', f', g', h')"
    using R unfolding extend_block_schedule [OF assms] H by (subst foldl_rounds) (simp_all del: upt_rec_numeral)
  then show ?thesis using R by (simp add: H sha256_transform_def compress_def Let_def del: upt_rec_numeral)
qed

lemma blocks_append:
  "64 dvd length xs \<Longrightarrow> blocks (xs @ ys) = blocks xs @ blocks ys"
proof (induction xs rule: blocks.induct)
  case (1 xs)
  show ?case
  proof (cases "length xs < 64")
    case True
    then have "xs = []" using "1.prems" by (auto dest: dvd_imp_le)
    then show ?thesis by (simp add: blocks.simps [of "[]"])
  next
    case False
    have "64 dvd length (drop 64 xs)"
      using "1.prems" False by (simp add: dvd_diff_nat)
    then show ?thesis
      using 1 False by (simp add: blocks.simps [of "xs @ ys"] blocks.simps [of xs])
  qed
qed

lemma blocks_one: "length B = 64 \<Longrightarrow> blocks B = [B]"
  by (simp add: blocks.simps [of B] blocks.simps [of "[]"])

text \<open>What a context holds after the bytes \<open>M\<close>: full blocks are folded in, the rest is kept.\<close>

definition sha_rep :: "SHA256_CTX \<Rightarrow> u8 list \<Rightarrow> bool" where
  "sha_rep ctx M \<longleftrightarrow>
    length (sha_data ctx) = 64 \<and>
    (\<exists>don rest. M = don @ rest \<and> 64 dvd length don \<and> length rest < 64 \<and>
       sha_datalen ctx = of_nat (length rest) \<and> take (length rest) (sha_data ctx) = rest \<and>
       sha_bitlen ctx = of_nat (8 * length don) \<and>
       sha_state ctx = state_list (foldl compress H0 (blocks don)))"

lemma sha_rep_init:
  "length (sha_data ctx) = 64 \<Longrightarrow> sha_rep (xsha256_init ctx) []"
  by (simp add: sha_rep_def xsha256_init_def H0_def blocks.simps [of "[]"])

lemma unat_of_nat_le_64: "n \<le> 64 \<Longrightarrow> unat (of_nat n :: u32) = n"
  by (simp add: unat_of_nat take_bit_nat_eq_self)

lemma sha_rep_update_byte:
  assumes "sha_rep ctx M"
  shows "sha_rep (update_byte ctx b) (M @ [b])"
proof -
  obtain don rest where
    M: "M = don @ rest" "64 dvd length don" "length rest < 64" and
    ctx: "length (sha_data ctx) = 64" "sha_datalen ctx = of_nat (length rest)"
      "take (length rest) (sha_data ctx) = rest" "sha_bitlen ctx = of_nat (8 * length don)"
      "sha_state ctx = state_list (foldl compress H0 (blocks don))"
    using assms unfolding sha_rep_def by blast
  define data where "data = (sha_data ctx)[length rest := b]"
  have data: "length data = 64" "take (Suc (length rest)) data = rest @ [b]"
    using M(3) ctx(1,3) by (simp_all add: data_def take_Suc_conv_app_nth)
  have n: "unat (sha_datalen ctx) = length rest" using M(3) by (simp add: ctx unat_of_nat_le_64)
  have n': "sha_datalen ctx + 1 = of_nat (Suc (length rest))" by (simp add: ctx)
  show ?thesis
  proof (cases "length rest = 63")
    case True
    then have "sha_datalen ctx + 1 = 64" by (simp add: ctx)
    then have "update_byte ctx b =
        ctx\<lparr>sha_data := data, sha_datalen := 0, sha_bitlen := of_nat (8 * length (don @ data)),
            sha_state := state_list (compress (foldl compress H0 (blocks don)) data)\<rparr>"
      using transform_compress [OF data(1)] ctx(1,2,4,5) data(1) True n
      by (simp add: update_byte_def data_def)
    moreover have "M @ [b] = don @ data" using data True by (simp add: M)
    moreover have "foldl compress H0 (blocks (don @ data)) =
        compress (foldl compress H0 (blocks don)) data"
      using M data by (simp add: blocks_append blocks_one)
    ultimately show ?thesis
      unfolding sha_rep_def
      by (intro conjI, simp add: data)
        (rule exI [of _ "don @ data"], rule exI [of _ "[]"], use M data in simp)
  next
    case False
    then have "(of_nat (Suc (length rest)) :: u32) \<noteq> 64"
      using M(3) unat_of_nat_le_64 [of "Suc (length rest)"] by auto
    then have "update_byte ctx b = ctx\<lparr>sha_data := data, sha_datalen := of_nat (Suc (length rest))\<rparr>"
      using n by (simp add: update_byte_def data_def ctx(2) add.commute)
    then show ?thesis
      using M ctx data False unfolding sha_rep_def
      by (intro conjI exI [of _ don] exI [of _ "rest @ [b]"]) auto
  qed
qed

lemma sha_rep_update: "sha_rep ctx M \<Longrightarrow> sha_rep (xsha256_update ctx data) (M @ data)"
proof (induction data arbitrary: ctx M)
  case Nil
  then show ?case by (simp add: xsha256_update_def)
next
  case (Cons b data)
  then show ?case
    using Cons.IH [OF sha_rep_update_byte [OF Cons.prems, of b]] by (simp add: xsha256_update_def)
qed

lemma sha_rep_updates: "sha_rep ctx M \<Longrightarrow> sha_rep (foldl xsha256_update ctx ds) (M @ concat ds)"
  by (induction ds arbitrary: ctx M) (force dest: sha_rep_update)+

section \<open>Finalisation\<close>

lemma zero_range:
  assumes "i \<le> j" "j \<le> length d"
  shows "foldl (\<lambda>d j. d[j := 0]) d [i..<j] = take i d @ replicate (j - i) (0 :: u8) @ drop j d"
  using assms
proof (induction j rule: dec_induct)
  case base
  then show ?case by simp
next
  case (step j)
  then have "foldl (\<lambda>d j. d[j := 0]) d [i..<Suc j] =
      (take i d @ replicate (j - i) 0 @ drop j d)[j := 0]" by simp
  also have "drop j d = d ! j # drop (Suc j) d" using step by (simp add: Cons_nth_drop_Suc)
  finally show ?case
    using step by (simp add: list_update_append Suc_diff_le replicate_append_same [symmetric])
qed

lemma pad_until_eq:
  assumes "i < limit" "limit \<le> length d"
  shows "pad_until d i limit = take i d @ 0x80 # replicate (limit - i - 1) 0 @ drop limit d"
  using assms unfolding pad_until_def
  by (subst zero_range) (auto simp: take_Suc_conv_app_nth)

lemma put_bitlen_eq:
  assumes "length data = 64"
  shows "put_bitlen data n = take 56 data @ rev (le_bytes 8 n)"
proof (rule nth_equalityI)
  show "length (put_bitlen data n) = length (take 56 data @ rev (le_bytes 8 n))"
    using assms by (simp add: put_bitlen_def)
  fix i assume "i < length (put_bitlen data n)"
  then have "i < 56 \<or> i = 56 \<or> i = 57 \<or> i = 58 \<or> i = 59 \<or> i = 60 \<or> i = 61 \<or> i = 62 \<or> i = 63"
    using assms by (simp add: put_bitlen_def) presburger
  then show "put_bitlen data n ! i = (take 56 data @ rev (le_bytes 8 n)) ! i"
    using assms
    by (elim disjE) (simp_all add: put_bitlen_def nth_append rev_nth nth_le_bytes)
qed

lemma hash_bytes:
  "map (\<lambda>j. ucast (drop_bit (24 - (j mod 4) * 8) (state_list H ! (j div 4)) AND 0x000000ff)) [0..<32] =
   working_bytes H"
proof -
  have "(ucast (w AND 0xff) :: u8) = ucast w" for w :: u32
  proof (rule bit_word_eqI)
    have "(0xff :: u32) = mask 8" by (simp add: mask_eq_exp_minus_1)
    then show "bit (ucast (w AND 0xff) :: u8) i = bit (ucast w :: u8) i" if "i < LENGTH(8)" for i
      using that by (simp only: bit_word_ucast_iff bit_and_iff bit_mask_iff) simp
  qed
  moreover have upt: "[0..<32] = [0, 1, 2, 3, 4, 5, 6, 7, 8, 9, 10, 11, 12, 13, 14, 15, 16, 17, 18, 19,
      20, 21, 22, 23, 24, 25, 26, 27, 28, 29, 30, 31]" by code_simp
  ultimately show ?thesis
    by (cases H rule: working_cases) (simp add: le_bytes_4 upt)
qed

lemma pad_count:
  assumes "n mod 64 = r"
  shows "nat ((55 - int n) mod 64) = (if r < 56 then 55 - r else 119 - r)"
proof -
  have r: "int r = int n mod 64" "r < 64" using assms by (auto simp: zmod_int)
  have "(55 - int n) mod 64 = (55 - int r) mod 64" unfolding r(1) by (simp add: mod_diff_right_eq)
  also have "\<dots> = (if r < 56 then 55 - int r else 119 - int r)"
  proof (cases "r < 56")
    case False
    have "(55 - int r) mod 64 = (55 - int r + 64) mod 64" by (rule mod_add_self2 [symmetric])
    also have "\<dots> = 119 - int r" using False r(2) by (subst mod_pos_pos_trivial) auto
    finally show ?thesis using False by simp
  qed simp
  finally have "(55 - int n) mod 64 = (if r < 56 then 55 - int r else 119 - int r)" .
  then show ?thesis by auto
qed

lemma final_blocks:
  assumes "64 dvd length don" "length rest < 64"
  shows "fips_pad (don @ rest) =
    don @ (if length rest < 56 then rest @ 0x80 # replicate (55 - length rest) 0
           else (rest @ 0x80 # replicate (63 - length rest) 0) @ replicate 56 0) @
    rev (le_bytes 8 (of_nat (8 * length (don @ rest)) :: u64))"
proof -
  obtain n where "length don = 64 * n" using assms(1) by (rule dvdE)
  then have "length (don @ rest) mod 64 = length rest" using assms(2) by simp
  note pad = pad_count [OF this]
  show ?thesis
  proof (cases "length rest < 56")
    case True
    then show ?thesis unfolding fips_pad_def pad by simp
  next
    case False
    then have "119 - length rest = (63 - length rest) + 56" using assms by simp
    then have "replicate (119 - length rest) (0 :: u8) =
        replicate (63 - length rest) 0 @ replicate 56 0"
      by (simp only: replicate_add)
    then show ?thesis using False unfolding fips_pad_def pad by simp
  qed
qed


theorem xsha256_final_correct:
  assumes "sha_rep ctx M"
  shows "xsha256_final ctx = fips_sha256 M"
proof -
  obtain don rest where
    M: "M = don @ rest" "64 dvd length don" "length rest < 64" and
    ctx: "length (sha_data ctx) = 64" "sha_datalen ctx = of_nat (length rest)"
      "take (length rest) (sha_data ctx) = rest" "sha_bitlen ctx = of_nat (8 * length don)"
      "sha_state ctx = state_list (foldl compress H0 (blocks don))"
    using assms unfolding sha_rep_def by blast
  let ?len = "rev (le_bytes 8 (of_nat (8 * length M) :: u64))"
  have n: "unat (sha_datalen ctx) = length rest" "sha_datalen ctx < 56 \<longleftrightarrow> length rest < 56"
    using M(3) by (simp_all add: ctx unat_of_nat_le_64 word_less_nat_alt)
  have datalen: "sha_datalen (pad_block ctx) = sha_datalen ctx"
    and bitlen: "sha_bitlen (pad_block ctx) = sha_bitlen ctx"
    by (simp_all add: pad_block_def Let_def)
  have "unat (sha_datalen ctx * 8) = 8 * length rest"
    using M(3) n by (simp add: unat_word_ariths)
  then have "ucast (sha_datalen ctx * 8) = (of_nat (8 * length rest) :: u64)"
    by (metis of_nat_unat)
  then have bits: "sha_bitlen ctx + ucast (sha_datalen ctx * 8) = of_nat (8 * length M)"
    by (simp add: ctx(4) M(1))
  let ?H = "foldl compress H0 (blocks don)"
  have last: "sha256_transform (sha_state (pad_block ctx))
       (put_bitlen (sha_data (pad_block ctx)) (of_nat (8 * length M))) =
     state_list (foldl compress H0 (blocks (fips_pad M)))"
  proof (cases "length rest < 56")
    case True
    let ?p = "rest @ 0x80 # replicate (55 - length rest) 0"
    have "pad_until (sha_data ctx) (length rest) 56 = ?p @ drop 56 (sha_data ctx)"
      using True pad_until_eq [of "length rest" 56 "sha_data ctx"] unfolding ctx(1,3) by simp
    then have "sha_data (pad_block ctx) = ?p @ drop 56 (sha_data ctx)"
      using True unfolding pad_block_def n Let_def by simp
    moreover have "56 - length rest = Suc (55 - length rest)" using True by simp
    ultimately have "put_bitlen (sha_data (pad_block ctx)) (of_nat (8 * length M)) = ?p @ ?len"
      using True ctx(1) by (simp add: put_bitlen_eq)
    moreover have "fips_pad M = don @ ?p @ ?len" using final_blocks M True by simp
    moreover have "sha_state (pad_block ctx) = state_list ?H"
      using True unfolding pad_block_def n Let_def by (simp add: ctx(5))
    moreover have "length (?p @ ?len) = 64" using True by simp
    ultimately show ?thesis
      using M(2) by (simp add: transform_compress blocks_append blocks_one del: append_assoc)
  next
    case False
    let ?p = "rest @ 0x80 # replicate (63 - length rest) 0"
    have "fips_pad M = don @ ?p @ replicate 56 0 @ ?len" using final_blocks M False by simp
    moreover have p: "length ?p = 64" "length (replicate 56 0 @ ?len) = 64" using False M by simp_all
    have pad: "pad_until (sha_data ctx) (length rest) 64 = ?p"
      using M(3) pad_until_eq [of "length rest" 64 "sha_data ctx"] unfolding ctx(1,3)
      by (simp add: ctx(1))
    have "sha_data (pad_block ctx) = replicate 56 0 @ drop 56 ?p"
      using False unfolding pad_block_def n Let_def pad by (simp add: splice_def)
    then have "put_bitlen (sha_data (pad_block ctx)) (of_nat (8 * length M)) =
        replicate 56 0 @ ?len"
      using p by (simp add: put_bitlen_eq)
    moreover have "sha_state (pad_block ctx) = state_list (compress ?H ?p)"
      using False p unfolding pad_block_def n Let_def pad by (simp add: ctx(5) transform_compress)
    moreover have "blocks (?p @ (replicate 56 0 @ ?len)) = [?p, replicate 56 0 @ ?len]"
      using p by (subst blocks_append) (simp_all only: blocks_one, simp_all)
    ultimately show ?thesis
      using M(2) p(2) by (simp add: transform_compress blocks_append del: append_assoc)
  qed
  show ?thesis
    unfolding xsha256_final_def fips_sha256_def Let_def datalen bitlen bits last hash_bytes ..
qed

text \<open>
  C18: Whatever pieces the message comes in, the digest is the SHA-256 of FIPS 180-4 of their
  concatenation. The buffer of the context may hold anything before.
\<close>

theorem xsha256_correct:
  assumes "length (sha_data ctx) = 64"
  shows "xsha256_final (foldl xsha256_update (xsha256_init ctx) pieces) = fips_sha256 (concat pieces)"
  using sha_rep_updates [OF sha_rep_init [OF assms], of pieces]
  by (intro xsha256_final_correct) simp

theorem xsha256_correct_witness:
  "xsha256_final (foldl xsha256_update (xsha256_init
     \<lparr>sha_data = replicate 64 7, sha_datalen = 3, sha_bitlen = 1, sha_state = []\<rparr>) [[97], [98, 99]]) =
   fips_sha256 [97, 98, 99]"
  by (subst xsha256_correct) simp_all


end
