(* ===== verification/Sdk_Uint256.thy ===== *)
theory Sdk_Uint256
  imports Wide_Division
begin

text \<open>
  The wide integers of the applications (\<open>app/sdk/uint256.c\<close>): big-endian bytes to and from the
  records of \<open>uint256.h\<close>, and the multiplication, which is left to a system call. \<open>syscall_mult a b\<close> is what
  that call writes, \<open>None\<close> when it fails, which leaves the zeros of \<open>result\<close>.
\<close>

section \<open>Big-endian values\<close>

definition be_val :: "u8 list \<Rightarrow> nat" where
  "be_val bs = foldl (\<lambda>v b. 256 * v + unat b) 0 bs"

lemma be_val_Nil [simp]: "be_val [] = 0"
  by (simp add: be_val_def)

lemma be_val_snoc [simp]: "be_val (bs @ [b]) = 256 * be_val bs + unat b"
  by (simp add: be_val_def)

lemma be_val_append: "be_val (bs @ cs) = be_val bs * 256 ^ length cs + be_val cs"
  by (induction cs rule: rev_induct)
    (simp_all add: algebra_simps flip: append_assoc)

lemma be_val_Cons: "be_val (b # bs) = unat b * 256 ^ length bs + be_val bs"
  using be_val_append [of "[b]" bs] be_val_snoc [of "[]" b] by simp

lemma be_val_lt: "be_val bs < 256 ^ length bs"
proof (induction bs rule: rev_induct)
  case Nil
  then show ?case by simp
next
  case (snoc b bs)
  have "unat b < 256" using unsigned_less [of b, where 'a = nat] by simp
  then show ?case using snoc by simp
qed

lemma be_val_zeros: "be_val (replicate n 0 @ bs) = be_val bs"
  by (induction n) (simp_all add: be_val_Cons)

lemma be_val_inject:
  "length bs = length cs \<Longrightarrow> be_val bs = be_val cs \<Longrightarrow> bs = cs"
proof (induction bs arbitrary: cs rule: rev_induct)
  case Nil
  then show ?case by simp
next
  case (snoc b bs)
  then obtain c cs' where cs: "cs = cs' @ [c]" by (cases cs rule: rev_cases) auto
  have u: "unat b < 256" "unat c < 256" 
    using unsigned_less [of b, where 'a = nat] unsigned_less [of c, where 'a = nat] by simp_all
  have e: "256 * be_val bs + unat b = 256 * be_val cs' + unat c" using snoc.prems cs by simp
  then have "(256 * be_val bs + unat b) mod 256 = (256 * be_val cs' + unat c) mod 256" by simp
  then have "b = c" using u by (simp add: word_unat_eq_iff)
  then show ?case using snoc e cs by simp
qed

text \<open>The last \<open>n\<close> bytes of a number.\<close>

primrec be_bytes :: "nat \<Rightarrow> nat \<Rightarrow> u8 list" where
  "be_bytes 0 v = []"
| "be_bytes (Suc n) v = be_bytes n (v div 256) @ [of_nat (v mod 256)]"

lemma length_be_bytes [simp]: "length (be_bytes n v) = n"
  by (induction n arbitrary: v) simp_all

lemma be_val_be_bytes: "v < 256 ^ n \<Longrightarrow> be_val (be_bytes n v) = v"
proof (induction n arbitrary: v)
  case 0
  then show ?case by simp
next
  case (Suc n)
  then have "v div 256 < 256 ^ n" by (simp add: div_less_iff_less_mult mult.commute)
  then show ?case
    using Suc.IH [of "v div 256"] by (simp add: unat_of_nat take_bit_nat_eq_self)
qed

lemma be_bytes_be_val: "length bs = n \<Longrightarrow> be_bytes n (be_val bs) = bs"
  using be_val_lt [of bs] by (intro be_val_inject) (simp_all add: be_val_be_bytes)

text \<open>The bytes of a number, without leading zeros.\<close>

function be_min :: "nat \<Rightarrow> u8 list" where
  "be_min n = (if n = 0 then [] else be_min (n div 256) @ [of_nat (n mod 256)])"
  by pat_completeness auto
termination by (relation "measure id") auto

declare be_min.simps [simp del]

lemma be_val_be_min [simp]: "be_val (be_min n) = n"
proof (induction n rule: be_min.induct)
  case (1 n)
  then show ?case
    by (subst be_min.simps) (simp add: unat_of_nat take_bit_nat_eq_self)
qed

lemma be_min_0 [simp]: "be_min 0 = []"
  by (simp add: be_min.simps)

lemma length_be_min: "n < 256 ^ k \<Longrightarrow> length (be_min n) \<le> k"
proof (induction n arbitrary: k rule: be_min.induct)
  case (1 n)
  show ?case
  proof (cases "n = 0")
    case False
    then obtain j where j: "k = Suc j" using 1(2) by (cases k) auto
    then have "n div 256 < 256 ^ j" using 1(2) by (simp add: div_less_iff_less_mult mult.commute)
    then show ?thesis using False 1(1) j by (subst be_min.simps) simp
  qed simp
qed

lemma be_min_small: "0 < n \<Longrightarrow> n < 256 \<Longrightarrow> be_min n = [of_nat n]"
  by (subst be_min.simps) simp

lemma be_min_ne: "n \<noteq> 0 \<Longrightarrow> be_min n \<noteq> []"
  by (subst be_min.simps) simp

lemma be_min_long: "256 \<le> n \<Longrightarrow> 2 \<le> length (be_min n)"
  using be_min_ne [of "n div 256"] by (subst be_min.simps) (auto simp: Suc_le_eq div_eq_0_iff)

lemma be_min_be_val: "bs = [] \<or> hd bs \<noteq> 0 \<Longrightarrow> be_min (be_val bs) = bs"
proof (induction bs rule: rev_induct)
  case Nil
  then show ?case by simp
next
  case (snoc b bs)
  have b: "unat b < 256" using unsigned_less [of b, where 'a = nat] by simp
  have "256 * be_val bs + unat b \<noteq> 0"
  proof (cases "bs = []")
    case True
    then show ?thesis using snoc.prems by (simp add: unat_eq_0)
  next
    case False
    then have "be_min (be_val bs) = bs" using snoc by simp
    then have "be_val bs \<noteq> 0" using False be_min_0 by metis
    then show ?thesis by simp
  qed
  moreover have "be_min (be_val bs) = bs" using snoc by (cases bs) auto
  ultimately show ?case using b by (subst be_min.simps) simp
qed

lemma dropWhile_be_min: "dropWhile (\<lambda>b. b = 0) bs = be_min (be_val bs)"
proof (induction bs)
  case Nil
  then show ?case by simp
next
  case (Cons b bs)
  then show ?case
    using be_min_be_val [of "b # bs"] by (auto simp: be_val_Cons)
qed

section \<open>Reading and writing\<close>

definition readUint64BE :: "u8 list \<Rightarrow> u64" where
  "readUint64BE buffer =
    push_bit 56 (ucast (buffer ! 0)) OR push_bit 48 (ucast (buffer ! 1)) OR
    push_bit 40 (ucast (buffer ! 2)) OR push_bit 32 (ucast (buffer ! 3)) OR
    push_bit 24 (ucast (buffer ! 4)) OR push_bit 16 (ucast (buffer ! 5)) OR
    push_bit 8 (ucast (buffer ! 6)) OR ucast (buffer ! 7)"

definition readu128BE :: "u8 list \<Rightarrow> uint128_t" where
  "readu128BE buffer = u128 (readUint64BE buffer) (readUint64BE (drop 8 buffer))"

definition readu256BE :: "u8 list \<Rightarrow> uint256_t" where
  "readu256BE buffer = u256 (readu128BE buffer) (readu128BE (drop 16 buffer))"

definition write_u64_be :: "u64 \<Rightarrow> u8 list" where
  "write_u64_be value =
    [ucast (drop_bit 56 value AND 0xff), ucast (drop_bit 48 value AND 0xff),
     ucast (drop_bit 40 value AND 0xff), ucast (drop_bit 32 value AND 0xff),
     ucast (drop_bit 24 value AND 0xff), ucast (drop_bit 16 value AND 0xff),
     ucast (drop_bit 8 value AND 0xff), ucast (value AND 0xff)]"

text \<open>The bytes of the number in memory are in the opposite order.\<close>

definition read_u64_be :: "u8 list \<Rightarrow> u64" where
  "read_u64_be bs =
    le_val [bs ! 7, bs ! 6, bs ! 5, bs ! 4, bs ! 3, bs ! 2, bs ! 1, bs ! 0]"

text \<open>The words of a number, most significant first: \<open>elements[i / 2].elements[i % 2]\<close>.\<close>

definition words256 :: "uint256_t \<Rightarrow> u64 list" where
  "words256 n = [upper (upper128 n), lower (upper128 n), upper (lower128 n), lower (lower128 n)]"

definition write_u256_be :: "uint256_t \<Rightarrow> u8 list" where
  "write_u256_be n = concat (map write_u64_be (words256 n))"

definition mul256_bytes :: "(u8 list \<Rightarrow> u8 list \<Rightarrow> u8 list option) \<Rightarrow> uint256_t \<Rightarrow> uint256_t \<Rightarrow> u8 list" where
  "mul256_bytes syscall_mult a b =
    (case syscall_mult (write_u256_be a) (write_u256_be b) of
       None \<Rightarrow> replicate 64 0 | Some r \<Rightarrow> r)"

definition mul256 :: "(u8 list \<Rightarrow> u8 list \<Rightarrow> u8 list option) \<Rightarrow> uint256_t \<Rightarrow> uint256_t \<Rightarrow> uint256_t" where
  "mul256 syscall_mult number1 number2 =
    (let result = mul256_bytes syscall_mult number1 number2; w = (\<lambda>i. read_u64_be (drop (32 + i * 8) result))
     in u256 (u128 (w 0) (w 1)) (u128 (w 2) (w 3)))"

section \<open>Their meaning\<close>

lemma le_val_Cons_add: "(le_val (b # bs) :: 'a::len word) = ucast b + 256 * le_val bs"
proof -
  have "(ucast b :: 'a word) AND push_bit 8 (le_val bs) = 0"
    by (rule bit_word_eqI) (auto simp: bit_and_iff bit_push_bit_iff bit_word_ucast_iff dest: bit_imp_le_length)
  then have "(ucast b :: 'a word) OR push_bit 8 (le_val bs) = ucast b + push_bit 8 (le_val bs)"
    by (rule disjunctive_add_eq_or [symmetric])
  then show ?thesis by (simp add: push_bit_eq_mult mult.commute)
qed

lemma le_val_rev: "(le_val (rev bs) :: 'a::len word) = of_nat (be_val bs)"
proof (induction bs rule: rev_induct)
  case Nil
  then show ?case by simp
next
  case (snoc b bs)
  then show ?case by (simp add: le_val_Cons_add del: le_val.simps)
qed

lemma be_val_take_8: "length bs = 8 \<Longrightarrow> be_val bs < 2 ^ 64"
  using be_val_lt [of bs] by simp

lemma list_8: "length bs = 8 \<Longrightarrow> \<exists>a b c d e f g h. bs = [a, b, c, d, e, f, g, h]"
  by (auto simp: length_Suc_conv eval_nat_numeral)

lemma readUint64BE_le: "length bs = 8 \<Longrightarrow> readUint64BE bs = le_val (rev bs)"
  by (drule list_8) (auto simp: readUint64BE_def push_bit_or push_bit_push_bit ac_simps)

lemma unat_readUint64BE: "length bs = 8 \<Longrightarrow> unat (readUint64BE bs) = be_val bs"
  using be_val_take_8 [of bs] by (simp add: readUint64BE_le le_val_rev unat_of_nat take_bit_nat_eq_self)

lemma readUint64BE_take: "8 \<le> length bs \<Longrightarrow> readUint64BE bs = readUint64BE (take 8 bs)"
  by (simp add: readUint64BE_def)

lemma val128_readu128BE:
  assumes "length bs = 16"
  shows "val128 (readu128BE bs) = be_val bs"
  using be_val_append [of "take 8 bs" "drop 8 bs"] assms
  by (simp add: readu128BE_def val128_def unat_readUint64BE readUint64BE_take [of bs])

lemma readu128BE_take: "16 \<le> length bs \<Longrightarrow> readu128BE bs = readu128BE (take 16 bs)"
  by (simp add: readu128BE_def readUint64BE_take [of bs] readUint64BE_take [of "take 16 bs"]
      readUint64BE_take [of "drop 8 bs"] drop_take)

lemma val256_readu256BE:
  assumes "length bs = 32"
  shows "val256 (readu256BE bs) = be_val bs"
  using be_val_append [of "take 16 bs" "drop 16 bs"] assms
  by (simp add: readu256BE_def val256_def val128_readu128BE readu128BE_take [of bs])

lemma ucast_and_255: "(ucast (w AND 0xff) :: u8) = ucast w" for w :: u64
proof (rule bit_word_eqI)
  have "(0xff :: u64) = mask 8" by (simp add: mask_eq_exp_minus_1)
  then show "bit (ucast (w AND 0xff) :: u8) i = bit (ucast w :: u8) i" if "i < LENGTH(8)" for i
    using that by (simp only: bit_word_ucast_iff bit_and_iff bit_mask_iff) simp
qed

lemma write_u64_be_le: "write_u64_be w = rev (le_bytes 8 w)"
  by (simp add: write_u64_be_def ucast_and_255 eval_nat_numeral)

lemma length_write_u64_be [simp]: "length (write_u64_be w) = 8"
  by (simp add: write_u64_be_def)

lemma readUint64BE_write [simp]: "readUint64BE (write_u64_be w) = w"
  by (simp add: readUint64BE_le write_u64_be_le)

lemma read_u64_be_read: "read_u64_be bs = readUint64BE bs"
  by (simp add: read_u64_be_def readUint64BE_def push_bit_or push_bit_push_bit ac_simps)

lemma be_val_write_u64_be: "be_val (write_u64_be w) = unat w"
  by (metis length_write_u64_be readUint64BE_write unat_readUint64BE)

lemma length_write_u256_be [simp]: "length (write_u256_be n) = 32"
  by (simp add: write_u256_be_def words256_def)

lemma be_val_write_u256_be: "be_val (write_u256_be n) = val256 n"
  by (simp add: write_u256_be_def words256_def be_val_append be_val_write_u64_be val256_def val128_def)

lemma readu256BE_write:
  "readu256BE (write_u256_be n) = n"
  by (simp add: readu256BE_def readu128BE_def write_u256_be_def words256_def readUint64BE_take
      u256_def u128_def)

lemma write_readu256BE: "length bs = 32 \<Longrightarrow> write_u256_be (readu256BE bs) = bs"
  by (rule be_val_inject) (simp_all add: be_val_write_u256_be val256_readu256BE)

definition mult_ok :: "(u8 list \<Rightarrow> u8 list \<Rightarrow> u8 list option) \<Rightarrow> bool" where
  "mult_ok syscall_mult \<longleftrightarrow> (\<forall>a b. length a = 32 \<and> length b = 32 \<longrightarrow>
     (\<exists>r. syscall_mult a b = Some r \<and> length r = 64 \<and> be_val r = be_val a * be_val b))"

lemma mul256_low:
  assumes "length r = 64" "syscall_mult (write_u256_be a) (write_u256_be b) = Some r"
  shows "mul256 syscall_mult a b = readu256BE (drop 32 r)"
  using assms
  by (simp add: mul256_def mul256_bytes_def readu256BE_def readu128BE_def Let_def read_u64_be_read)

lemma val256_mul256:
  assumes "mult_ok syscall_mult"
  shows "val256 (mul256 syscall_mult a b) = val256 a * val256 b mod 2 ^ 256"
proof -
  obtain r where r: "syscall_mult (write_u256_be a) (write_u256_be b) = Some r" "length r = 64"
    "be_val r = val256 a * val256 b"
    using assms by (force simp: mult_ok_def be_val_write_u256_be)
  have "val256 a * val256 b = be_val (take 32 r) * 2 ^ 256 + be_val (drop 32 r)"
    using be_val_append [of "take 32 r" "drop 32 r"] r by simp
  moreover have "be_val (drop 32 r) < 2 ^ 256" using be_val_lt [of "drop 32 r"] r by simp
  ultimately have "val256 a * val256 b mod 2 ^ 256 = be_val (drop 32 r)" by simp
  then show ?thesis using r by (simp add: mul256_low val256_readu256BE)
qed

text \<open>A multiplication that does what its documentation says.\<close>

definition school_mult :: "u8 list \<Rightarrow> u8 list \<Rightarrow> u8 list option" where
  "school_mult a b = Some (be_bytes 64 (be_val a * be_val b))"

lemma mult_ok_school: "mult_ok school_mult"
proof -
  have "be_val a * be_val b < 256 ^ 64" if "length a = 32" "length b = 32" for a b
  proof -
    have "be_val a * be_val b < 256 ^ 32 * 256 ^ 32"
      using be_val_lt [of a] be_val_lt [of b] that by (intro mult_strict_mono) simp_all
    then show ?thesis by simp
  qed
  then show ?thesis by (simp add: mult_ok_def school_mult_def be_val_be_bytes)
qed

end
