(* ===== verification/Rlp.thy ===== *)
theory Rlp
  imports Sdk_Uint256
begin

text \<open>
  The transactions that the Ethereum application reads (\<open>app/app-ethereum/src/rlp.c\<close>). A pointer and a
  size are the list of the bytes that are left. A function that returns 0 is \<open>Done None\<close>. \<open>int\<close> has
  32 bits on the RISC-V target: a shift by 32 or more is \<open>Undefined\<close>, and a byte shifted into the sign
  is extended to 64 bits. \<open>alloc n\<close> says whether \<open>malloc(n)\<close> succeeds.
\<close>

section \<open>Items\<close>

fun fixed_int_loop :: "nat \<Rightarrow> u64 \<Rightarrow> u8 list \<Rightarrow> u64 outcome" where
  "fixed_int_loop n value [] = Done value"
| "fixed_int_loop n value (d # ds) =
    (if 8 * (n - 1) \<ge> 32 then Undefined
     else fixed_int_loop (n - 1) (value OR scast (push_bit (8 * (n - 1)) (ucast d) :: u32)) ds)"

definition rlp_decode_fixed_int :: "u8 list \<Rightarrow> u64 outcome" where
  "rlp_decode_fixed_int data = fixed_int_loop (length data) 0 data"

text \<open>The value and the number of bytes read.\<close>

definition rlp_decode_int :: "u8 list \<Rightarrow> (nat \<times> u64) option outcome" where
  "rlp_decode_int data =
    (if length data = 0 then Done None
     else if data ! 0 < 0x80 then Done (Some (1, ucast (data ! 0)))
     else
       let length_size = unat (data ! 0 - 0x80)
       in if length data < 2 \<or> length_size > 8 \<or> length data - 1 < length_size then Done None
          else then_do (rlp_decode_fixed_int (take length_size (drop 1 data)))
                 (\<lambda>result. Done (Some (1 + length_size, result))))"

text \<open>\<open>string_size\<close> has 32 bits. The copy starts behind the first byte.\<close>

definition decode_bytes_sizes :: "u8 list \<Rightarrow> (nat \<times> u32) option outcome" where
  "decode_bytes_sizes data =
    (if data ! 0 < 0x80 then Done (Some (0, 1))
     else if data ! 0 < 0xb8 then Done (Some (0, ucast (data ! 0 - 0x80)))
     else
       let length_size = unat (data ! 0 - 0xb7)
       in if length_size > length data - 1 then Done None
          else then_do (rlp_decode_fixed_int (take length_size (drop 1 data)))
                 (\<lambda>v. let string_size = ucast v :: u32
                      in if string_size > 1024 then Done None
                         else Done (Some (length_size, string_size))))"

definition rlp_decode_bytes :: "(nat \<Rightarrow> bool) \<Rightarrow> u8 list \<Rightarrow> (nat \<times> u8 list) option outcome" where
  "rlp_decode_bytes alloc data =
    (if length data = 0 \<or> data ! 0 \<ge> 0xc0 then Done None
     else then_do (decode_bytes_sizes data) (\<lambda>sizes.
       case sizes of
         None \<Rightarrow> Done None
       | Some (length_size, string_size) \<Rightarrow>
           let n = unat string_size
           in if 1 + length_size + n > length data then Done None
              else if \<not> alloc n then Exited
              else Done (Some (1 + length_size + n,
                     if data ! 0 < 0x80 then [data ! 0] else take n (drop 1 data)))))"

definition convertUint256BE :: "u8 list \<Rightarrow> uint256_t" where
  "convertUint256BE data = readu256BE (replicate (32 - length data) 0 @ data)"

definition rlp_decode_uint256 :: "u8 list \<Rightarrow> (nat \<times> uint256_t) option outcome" where
  "rlp_decode_uint256 data =
    (if length data = 0 \<or> data ! 0 > 0xb7 then Done None
     else if data ! 0 < 0x80 then Done (Some (1, convertUint256BE (take 1 data)))
     else
       let string_size = unat (data ! 0 - 0x80)
       in if 1 + string_size > length data \<or> string_size > 32 then Done None
          else Done (Some (1 + string_size, convertUint256BE (take string_size (drop 1 data)))))"

section \<open>Transactions\<close>

record tx_s =
  tx_nonce :: uint256_t
  tx_gas_price :: uint256_t
  tx_gas_limit :: uint256_t
  tx_to :: "u8 list option"
  tx_value :: uint256_t
  tx_data :: "u8 list option"
  tx_chain_id :: u64

text \<open>
  One field of the list: when it is read, what is left of the bytes and the transaction go on, and
  otherwise \<open>rlp_decode_list\<close> returns \<open>false\<close> with the fields read so far.
\<close>

definition next_field ::
    "(u8 list \<Rightarrow> (nat \<times> 'a) option outcome) \<Rightarrow> ('a \<Rightarrow> tx_s \<Rightarrow> tx_s) \<Rightarrow> ('a \<Rightarrow> bool) \<Rightarrow>
     u8 list \<Rightarrow> tx_s \<Rightarrow> (u8 list \<Rightarrow> tx_s \<Rightarrow> (bool \<times> tx_s) outcome) \<Rightarrow> (bool \<times> tx_s) outcome" where
  "next_field decode upd ok p tx k =
    then_do (decode p) (\<lambda>ret.
      case ret of
        None \<Rightarrow> Done (False, tx)
      | Some (n, v) \<Rightarrow>
          let tx = upd v tx in if ok v then k (drop n p) tx else Done (False, tx))"

text \<open>The nine fields; the two last ones of an unsigned transaction are zero.\<close>

definition decode_fields :: "(nat \<Rightarrow> bool) \<Rightarrow> u8 list \<Rightarrow> tx_s \<Rightarrow> (bool \<times> tx_s) outcome" where
  "decode_fields alloc p tx =
    next_field rlp_decode_uint256 (\<lambda>v. tx_nonce_update (\<lambda>_. v)) (\<lambda>_. True) p tx (\<lambda>p tx.
    next_field rlp_decode_uint256 (\<lambda>v. tx_gas_price_update (\<lambda>_. v)) (\<lambda>_. True) p tx (\<lambda>p tx.
    next_field rlp_decode_uint256 (\<lambda>v. tx_gas_limit_update (\<lambda>_. v)) (\<lambda>_. True) p tx (\<lambda>p tx.
    next_field (rlp_decode_bytes alloc) (\<lambda>v. tx_to_update (\<lambda>_. Some v)) (\<lambda>v. length v = 20) p tx (\<lambda>p tx.
    next_field rlp_decode_uint256 (\<lambda>v. tx_value_update (\<lambda>_. v)) (\<lambda>_. True) p tx (\<lambda>p tx.
    next_field (rlp_decode_bytes alloc) (\<lambda>v. tx_data_update (\<lambda>_. Some v)) (\<lambda>_. True) p tx (\<lambda>p tx.
    next_field rlp_decode_int (\<lambda>v. tx_chain_id_update (\<lambda>_. v)) (\<lambda>_. True) p tx (\<lambda>p tx.
    next_field rlp_decode_int (\<lambda>_ tx. tx) (\<lambda>v. v = 0) p tx (\<lambda>p tx.
    next_field rlp_decode_int (\<lambda>_ tx. tx) (\<lambda>v. v = 0) p tx (\<lambda>p tx.
      Done (p = [], tx))))))))))"

definition rlp_decode_list :: "(nat \<Rightarrow> bool) \<Rightarrow> u8 list \<Rightarrow> tx_s \<Rightarrow> (bool \<times> tx_s) outcome" where
  "rlp_decode_list alloc data tx =
    (if length data = 0 \<or> data ! 0 < 0xc0 then Done (False, tx)
     else
       then_do
         (if data ! 0 \<le> 0xf7 then Done (Some (0, ucast (data ! 0 - 0xc0)))
          else
            let length_size = unat (data ! 0 - 0xf8)
            in if length_size > length data - 1 then Done None
               else then_do (rlp_decode_fixed_int (take length_size (drop 1 data)))
                      (\<lambda>list_size. Done (Some (length_size, list_size))))
         (\<lambda>sizes.
           case sizes of
             None \<Rightarrow> Done (False, tx)
           | Some (length_size, list_size) \<Rightarrow>
               if of_nat (1 + length_size) + list_size \<noteq> (of_nat (length data) :: u64)
               then Done (False, tx)
               else decode_fields alloc (drop (1 + length_size) data) tx))"

section \<open>The standard\<close>

text \<open>
  Appendix B of the Ethereum yellow paper: strings, integers without leading zeros, and lists.
\<close>

definition rlp_header :: "u8 \<Rightarrow> nat \<Rightarrow> u8 list" where
  "rlp_header b n =
    (if n < 56 then [b + of_nat n] else [b + 55 + of_nat (length (be_min n))] @ be_min n)"

definition rlp_str :: "u8 list \<Rightarrow> u8 list" where
  "rlp_str s = (if length s = 1 \<and> s ! 0 < 0x80 then s else rlp_header 0x80 (length s) @ s)"

definition rlp_nat :: "nat \<Rightarrow> u8 list" where
  "rlp_nat n = rlp_str (be_min n)"

definition rlp_list :: "u8 list list \<Rightarrow> u8 list" where
  "rlp_list items = rlp_header 0xc0 (length (concat items)) @ concat items"

text \<open>The unsigned transaction of EIP-155, which is hashed and signed.\<close>

definition rlp_tx :: "nat \<Rightarrow> nat \<Rightarrow> nat \<Rightarrow> u8 list \<Rightarrow> nat \<Rightarrow> u8 list \<Rightarrow> nat \<Rightarrow> u8 list list" where
  "rlp_tx nonce gas_price gas_limit to val data chain_id =
    [rlp_nat nonce, rlp_nat gas_price, rlp_nat gas_limit, rlp_str to, rlp_nat val, rlp_str data,
     rlp_nat chain_id, rlp_nat 0, rlp_nat 0]"

section \<open>Encoded numbers\<close>

text \<open>How the encoding of a number begins.\<close>

lemma rlp_nat_cases:
  assumes "n < 256 ^ 55"
  obtains (byte) "0 < n" "n < 128" "rlp_nat n = [of_nat n]"
  | (string) "n = 0 \<or> 128 \<le> n" "rlp_nat n = (0x80 + of_nat (length (be_min n))) # be_min n"
proof (cases "n = 0 \<or> 128 \<le> n")
  case True
  have "\<not> (length (be_min n) = 1 \<and> be_min n ! 0 < 0x80)"
  proof
    assume a: "length (be_min n) = 1 \<and> be_min n ! 0 < 0x80"
    then have "128 \<le> n" "n < 256" using True be_min_long [of n] by (auto simp: not_less [symmetric])
    then show False using a be_min_small [of n] by (simp add: word_less_nat_alt unat_of_nat take_bit_nat_eq_self)
  qed
  then have "rlp_nat n = (0x80 + of_nat (length (be_min n))) # be_min n"
    using length_be_min [OF assms] by (auto simp: rlp_nat_def rlp_str_def rlp_header_def)
  then show ?thesis using True string by blast
next
  case False
  then show ?thesis
    using be_min_small [of n] byte
    by (simp add: rlp_nat_def rlp_str_def word_less_nat_alt unat_of_nat take_bit_nat_eq_self)
qed

lemma short_length:
  assumes "k < 56"
  shows "unat (0x80 + of_nat k :: u8) = 128 + k" "unat (0x80 + of_nat k - 0x80 :: u8) = k"
  using assms by (simp_all add: unat_word_ariths unat_of_nat take_bit_nat_eq_self)

lemma unat_small_byte: "n < 256 \<Longrightarrow> unat (of_nat n :: u8) = n"
  by (simp add: unat_of_nat take_bit_nat_eq_self)

section \<open>Reading an encoded item\<close>

lemma decode_uint256_nat:
  assumes "n < 2 ^ 256"
  shows "rlp_decode_uint256 (rlp_nat n @ rest) =
      Done (Some (length (rlp_nat n), convertUint256BE (be_min n)))"
    and "val256 (convertUint256BE (be_min n)) = n"
proof -
  have len: "length (be_min n) \<le> 32" using assms by (intro length_be_min) simp
  then show "val256 (convertUint256BE (be_min n)) = n"
    by (simp add: convertUint256BE_def val256_readu256BE be_val_zeros)
  have "n < 256 ^ 55" using assms by (rule less_le_trans) simp
  then show "rlp_decode_uint256 (rlp_nat n @ rest) =
      Done (Some (length (rlp_nat n), convertUint256BE (be_min n)))"
  proof (cases rule: rlp_nat_cases)
    case byte
    then show ?thesis
      by (simp add: rlp_decode_uint256_def word_less_nat_alt unat_small_byte be_min_small)
  next
    case string
    then show ?thesis
      using len short_length [of "length (be_min n)"]
      by (simp add: rlp_decode_uint256_def word_less_nat_alt Let_def)
  qed
qed

text \<open>A single byte below \<open>0x80\<close> is counted twice.\<close>

lemma decode_bytes_single:
  assumes "b < 0x80" "alloc 1"
  shows "rlp_decode_bytes alloc (rlp_str [b] @ rest) = (if rest = [] then Done None else Done (Some (2, [b])))"
proof -
  have "\<not> 192 \<le> unat b" using assms(1) by (simp add: word_less_nat_alt)
  then show ?thesis
    using assms
    by (simp add: rlp_str_def rlp_decode_bytes_def decode_bytes_sizes_def word_le_nat_alt Suc_le_eq)
qed

lemma decode_bytes_str:
  assumes "length s < 56" "alloc (length s)" "length s = 1 \<Longrightarrow> \<not> s ! 0 < 0x80"
  shows "rlp_decode_bytes alloc (rlp_str s @ rest) = Done (Some (length (rlp_str s), s))"
proof -
  let ?b = "0x80 + of_nat (length s) :: u8"
  have b: "unat ?b = 128 + length s" "unat (?b - 0x80) = length s"
    using short_length [OF assms(1)] by simp_all
  have "unat (ucast (?b - 0x80) :: u32) = length s"
    unfolding unsigned_ucast_eq b(2) using assms(1) by (simp add: take_bit_nat_eq_self)
  moreover have "rlp_str s = ?b # s" using assms(1,3) by (auto simp: rlp_str_def rlp_header_def)
  ultimately show ?thesis
    using b assms
    by (simp add: rlp_decode_bytes_def decode_bytes_sizes_def word_less_nat_alt word_le_nat_alt Let_def)
qed

lemma scast_nonneg: "unat (w :: u32) < 2 ^ 31 \<Longrightarrow> (scast w :: u64) = of_nat (unat w)"
proof -
  assume "unat w < 2 ^ 31"
  then have "unat w < 2147483648" by simp
  then have "uint w < 2147483648" using uint_nat [of w] by linarith
  moreover have "- 2147483648 \<le> uint w" by (rule order_trans [OF _ unsigned_greater_eq]) simp
  ultimately have "signed_take_bit 31 (uint w) = uint w"
    by (intro signed_take_bit_int_eq_self) simp_all
  moreover have "sint w = signed_take_bit (32 - 1) (uint w)" using sint_uint [of w] by simp
  ultimately have "sint w = int (unat w)" by simp
  then have "(word_of_int (sint w) :: u64) = of_nat (unat w)" by simp
  then show ?thesis by (simp only: of_int_sint)
qed

lemma fixed_int_value:
  assumes "length ds \<le> 4" "be_val ds < 2 ^ 31" "\<And>i. i < 8 * length ds \<Longrightarrow> \<not> bit acc i"
  shows "fixed_int_loop (length ds) acc ds = Done (acc + of_nat (be_val ds))"
  using assms
proof (induction ds arbitrary: acc)
  case Nil
  then show ?case by simp
next
  case (Cons d ds)
  let ?k = "8 * length ds"
  let ?x = "push_bit ?k (ucast d) :: u32"
  have k: "?k < 32" using Cons.prems(1) by simp
  have p: "(256 :: nat) ^ length ds = 2 ^ ?k" by (simp add: power_mult)
  have lt: "unat d * 2 ^ ?k < 2 ^ 31" using Cons.prems(2) by (simp add: be_val_Cons p)
  have "?x = of_nat (unat d * 2 ^ ?k)" by (simp add: push_bit_eq_mult)
  then have x: "unat ?x = unat d * 2 ^ ?k"
    using lt by (simp only: unsigned_of_nat of_nat_id) (rule take_bit_nat_eq_self, simp)
  then have sc: "(scast ?x :: u64) = of_nat (unat d * 2 ^ ?k)"
    using scast_nonneg [of ?x] lt by (simp only: x)
  also have "\<dots> = push_bit ?k (ucast d)" by (simp add: push_bit_eq_mult)
  finally have bits: "(scast ?x :: u64) = push_bit ?k (ucast d)" .
  have "acc AND push_bit ?k (ucast d) = 0"
  proof (rule bit_word_eqI)
    fix i
    show "bit (acc AND push_bit ?k (ucast d)) i = bit 0 i"
      using Cons.prems(3) [of i]
      by (auto simp: bit_and_iff bit_push_bit_iff bit_word_ucast_iff dest: bit_imp_le_length)
  qed
  then have "acc OR scast ?x = acc + scast ?x"
    unfolding bits by (rule disjunctive_add_eq_or [symmetric])
  moreover have "\<not> bit (acc OR scast ?x) i" if "i < ?k" for i
    using that Cons.prems(3) [of i] unfolding bits by (simp add: bit_or_iff bit_push_bit_iff)
  moreover have "be_val ds < 2 ^ 31" using Cons.prems(2) by (simp add: be_val_Cons)
  ultimately show ?case
    using Cons.IH [of "acc OR scast ?x"] Cons.prems(1) k
    by (simp add: sc be_val_Cons p)
qed

lemma decode_int_nat:
  assumes "n < 2 ^ 31" "2 \<le> length (rlp_nat n @ rest)"
  shows "rlp_decode_int (rlp_nat n @ rest) = Done (Some (length (rlp_nat n), of_nat n))"
proof -
  have len: "length (be_min n) \<le> 4" using assms(1) by (intro length_be_min) simp
  have "n < 256 ^ 55" using assms(1) by (rule less_le_trans) simp
  then show ?thesis
  proof (cases rule: rlp_nat_cases)
    case byte
    have "(of_nat (unat (of_nat n :: u8)) :: u64) = ucast (of_nat n :: u8)" by (rule of_nat_unat)
    then have "ucast (of_nat n :: u8) = (of_nat n :: u64)" using byte by (simp add: unat_small_byte)
    then show ?thesis
      using byte by (simp add: rlp_decode_int_def word_less_nat_alt unat_small_byte)
  next
    case string
    have "rlp_decode_fixed_int (be_min n) = Done (of_nat n)"
      using fixed_int_value [of "be_min n" 0] len assms(1) by (simp add: rlp_decode_fixed_int_def)
    then show ?thesis
      using string len assms(2) short_length [of "length (be_min n)"]
      by (auto simp: rlp_decode_int_def word_less_nat_alt Let_def)
  qed
qed

text \<open>The integer zero at the end of the bytes is refused.\<close>

lemma decode_int_last_zero: "rlp_decode_int (rlp_nat 0) = Done None"
  by (simp add: rlp_decode_int_def rlp_nat_def rlp_str_def rlp_header_def)

section \<open>Reading a transaction\<close>

lemma next_field_read:
  assumes "decode (enc @ p) = Done (Some (length enc, v))" "ok v"
  shows "next_field decode upd ok (enc @ p) tx k = k p (upd v tx)"
  using assms by (simp add: next_field_def)

lemma length_rlp_nat_pos: "rlp_nat n \<noteq> []"
  by (auto simp: rlp_nat_def rlp_str_def rlp_header_def be_min_ne)

text \<open>
  All fields of a short transaction are read; \<open>false\<close> is returned nevertheless, because of the zero at
  its end.
\<close>

lemma rlp_decode_list_fields:
  assumes "nonce < 2 ^ 256" "gas_price < 2 ^ 256" "gas_limit < 2 ^ 256" "val < 2 ^ 256"
    and "chain_id < 2 ^ 31" "length to = 20" "length data = 1 \<Longrightarrow> \<not> data ! 0 < 0x80"
    and "alloc 20" "alloc (length data)"
    and short: "length (concat (rlp_tx nonce gas_price gas_limit to val data chain_id)) < 56"
  shows "rlp_decode_list alloc (rlp_list (rlp_tx nonce gas_price gas_limit to val data chain_id)) tx =
    Done (False, tx\<lparr>tx_nonce := convertUint256BE (be_min nonce),
      tx_gas_price := convertUint256BE (be_min gas_price),
      tx_gas_limit := convertUint256BE (be_min gas_limit), tx_to := Some to,
      tx_value := convertUint256BE (be_min val), tx_data := Some data,
      tx_chain_id := of_nat chain_id\<rparr>)"
proof -
  let ?items = "rlp_tx nonce gas_price gas_limit to val data chain_id"
  let ?n = "length (concat ?items)"
  have n: "unat (0xc0 + of_nat ?n :: u8) = 192 + ?n" "unat (0xc0 + of_nat ?n - 0xc0 :: u8) = ?n"
    using short by (simp_all add: unat_word_ariths unat_small_byte)
  have list: "rlp_list ?items = (0xc0 + of_nat ?n) # concat ?items"
    using short by (simp add: rlp_list_def rlp_header_def)
  have size': "(ucast (0xc0 + of_nat ?n - 0xc0 :: u8) :: u64) = of_nat ?n"
    by (subst of_nat_unat [symmetric]) (simp only: n)
  have "length data < 56"
    using short by (auto simp: rlp_tx_def rlp_str_def split: if_splits)
  then have data: "rlp_decode_bytes alloc (rlp_str data @ p) = Done (Some (length (rlp_str data), data))" for p
    using assms(7,9) by (intro decode_bytes_str) simp_all
  have to: "rlp_decode_bytes alloc (rlp_str to @ p) = Done (Some (length (rlp_str to), to))" for p
    using assms(6,8) by (intro decode_bytes_str) simp_all
  have ints: "rlp_decode_int (rlp_nat c @ rlp_nat 0 @ p) = Done (Some (length (rlp_nat c), of_nat c))"
    if "c < 2 ^ 31" for c p
    using that length_rlp_nat_pos [of c] length_rlp_nat_pos [of 0]
    by (intro decode_int_nat) (simp_all add: Suc_le_eq flip: length_greater_0_conv)
  have reads: "next_field rlp_decode_uint256 upd (\<lambda>_. True) (rlp_nat c @ p) t k =
      k p (upd (convertUint256BE (be_min c)) t)" if "c < 2 ^ 256" for c upd p t k
    using that by (intro next_field_read decode_uint256_nat) simp_all
  have reads_data: "next_field (rlp_decode_bytes alloc) upd (\<lambda>_. True) (rlp_str data @ p) t k =
      k p (upd data t)" for upd p t k
    by (intro next_field_read data) simp
  have reads_to: "next_field (rlp_decode_bytes alloc) upd (\<lambda>v. length v = 20) (rlp_str to @ p) t k =
      k p (upd to t)" for upd p t k
    using assms(6) by (intro next_field_read to) simp
  have reads_int: "next_field rlp_decode_int upd ok (rlp_nat c @ rlp_nat 0 @ p) t k =
      k (rlp_nat 0 @ p) (upd (of_nat c) t)" if "c < 2 ^ 31" "ok (of_nat c)" for c upd ok p t k
    using that by (intro next_field_read ints) simp_all
  have stops: "next_field rlp_decode_int upd ok (rlp_nat 0) t k = Done (False, t)" for upd ok t k
    by (simp add: next_field_def decode_int_last_zero)
  have "decode_fields alloc (concat ?items) tx = Done (False, tx\<lparr>tx_nonce := convertUint256BE (be_min nonce),
      tx_gas_price := convertUint256BE (be_min gas_price),
      tx_gas_limit := convertUint256BE (be_min gas_limit), tx_to := Some to,
      tx_value := convertUint256BE (be_min val), tx_data := Some data,
      tx_chain_id := of_nat chain_id\<rparr>)"
    unfolding decode_fields_def rlp_tx_def concat.simps append_Nil2
    using reads_int [of chain_id "\<lambda>_. True" _ "rlp_nat 0"] reads_int [of 0 "\<lambda>v. v = 0" _ "[]"]
      assms(5)
    by (simp add: reads [OF assms(1)] reads [OF assms(2)] reads [OF assms(3)] reads [OF assms(4)]
        reads_data reads_to stops)
  then show ?thesis
    using n short
    by (simp add: list rlp_decode_list_def word_less_nat_alt word_le_nat_alt size' [simplified])
qed

text \<open>
  A transaction with a payload of more than 55 bytes is not read at all: the size of its length is
  taken to be one less than it is.
\<close>

lemma rlp_decode_list_long:
  assumes "56 \<le> length (concat items)" "length (concat items) < 2 ^ 16"
  shows "rlp_decode_list alloc (rlp_list items) tx = Done (False, tx)"
proof -
  let ?n = "length (concat items)"
  let ?l = "be_min ?n"
  have l: "length ?l \<le> 2" "?l \<noteq> []" using assms by (auto intro!: length_be_min be_min_ne)
  have list: "rlp_list items = (0xf7 + of_nat (length ?l)) # ?l @ concat items"
    using assms(1) by (simp add: rlp_list_def rlp_header_def)
  consider "length ?l = 1" | "length ?l = 2" using l by (cases ?l; cases "tl ?l") auto
  then show ?thesis
  proof cases
    case 1
    have "unat (of_nat (Suc ?n) :: u64) = Suc ?n"
      using assms(2) by (simp only: unsigned_of_nat of_nat_id) (rule take_bit_nat_eq_self, simp)
    then have "(of_nat (Suc ?n) :: u64) \<noteq> 0" by (metis Zero_not_Suc unsigned_0)
    then show ?thesis
      using 1 assms(1) by (simp add: list rlp_decode_list_def rlp_decode_fixed_int_def)
  next
    case 2
    then obtain a b where ab: "?l = [a, b]" by (auto simp: length_Suc_conv numeral_2_eq_2)
    then have n: "?n = 256 * unat a + unat b"
      using be_val_be_min [of ?n] by (simp add: be_val_Cons)
    have "rlp_decode_fixed_int [a] = Done (ucast a)"
      using fixed_int_value [of "[a]" 0] unsigned_less [of a, where 'a = nat]
      by (simp add: rlp_decode_fixed_int_def be_val_Cons)
    moreover have "2 + (ucast a :: u64) \<noteq> of_nat (3 + ?n)"
    proof
      assume "2 + (ucast a :: u64) = of_nat (3 + ?n)"
      then have "unat (2 + (ucast a :: u64)) = unat (of_nat (3 + ?n) :: u64)" by simp
      moreover have "unat (2 + (ucast a :: u64)) = 2 + unat a"
        using unsigned_less [of a, where 'a = nat]
        by (simp add: unat_word_ariths unsigned_ucast_eq take_bit_nat_eq_self)
      moreover have "unat (of_nat (3 + ?n) :: u64) = 3 + ?n"
        using assms(2) by (simp only: unsigned_of_nat of_nat_id) (rule take_bit_nat_eq_self, simp)
      ultimately show False using n by simp
    qed
    then have "2 + (ucast a :: u64) \<noteq> of_nat (length (rlp_list items))"
      by (simp add: list ab numeral_3_eq_3)
    moreover have "rlp_list items ! 0 = 0xf9" "take 1 (drop 1 (rlp_list items)) = [a]"
      "2 \<le> length (rlp_list items)"
      by (simp_all add: list ab)
    ultimately show ?thesis
      by (auto simp: rlp_decode_list_def)
  qed
qed

end
