(* ===== verification/Eth_Display.thy ===== *)
theory Eth_Display
  imports Sdk_Uint256 C_Strings
begin

text \<open>
  Addresses, networks and amounts as they are shown for approval (\<open>app/app-swap/src/eth/utils.c\<close>, of
  which \<open>app/app-ethereum/src/utils.c\<close> is the first part, and \<open>eth_get_printable_amount\<close>). A C string
  is the list of its bytes; a buffer is the list of all its bytes, so that a write past its end is
  \<open>Undefined\<close>. The SHA-3 of the OS and the multiplication of the system call are parameters.
\<close>

section \<open>Addresses\<close>

definition eth_hexdump :: "u8 list \<Rightarrow> u8 list" where
  "eth_hexdump src =
    concat (map (\<lambda>digit. [HEXDIGITS ! unat (drop_bit 4 digit AND 0x0f),
                          HEXDIGITS ! unat (digit AND 0x0f)]) src)"

definition checksum :: "u8 list \<Rightarrow> u8 list \<Rightarrow> u8 list" where
  "checksum hash_checksum hash_address =
    map (\<lambda>i.
      let digit = hash_address ! (i div 2);
          digit = (if i mod 2 = 0 then drop_bit 4 digit AND 0x0f else digit AND 0x0f)
      in if digit < 10 then HEXDIGITS ! unat digit
         else
           let v = drop_bit (4 * (1 - i mod 2)) (hash_checksum ! (i div 2)) AND 0x0f
           in if v \<ge> 8 then HEXDIGITS ! unat digit - 97 + 65 else HEXDIGITS ! unat digit)
    [0..<40]"

definition getEthAddressStringFromBinary :: "(u8 list \<Rightarrow> u8 list) \<Rightarrow> u8 list \<Rightarrow> u64 \<Rightarrow> u8 list" where
  "getEthAddressStringFromBinary sha3 hash_address chain_id =
    (let hash_checksum =
       (if chain_id = 30 \<or> chain_id = 31
        then sha3 (printed 10 (unat chain_id) @ chars ''0x'' @ eth_hexdump (take 20 hash_address))
        else sha3 (eth_hexdump (take 20 hash_address)))
     in checksum hash_checksum hash_address)"

definition getEthAddressStringFromKey :: "(u8 list \<Rightarrow> u8 list) \<Rightarrow> u8 list \<Rightarrow> u64 \<Rightarrow> u8 list" where
  "getEthAddressStringFromKey sha3 W chain_id =
    getEthAddressStringFromBinary sha3 (drop 12 (sha3 (take 64 (drop 1 W)))) chain_id"

section \<open>Networks\<close>

record network_info =
  net_name :: "u8 list"
  net_ticker :: "u8 list"
  net_chain_id :: u64

definition network :: "u64 \<Rightarrow> string \<Rightarrow> string \<Rightarrow> network_info" where
  "network c n t = \<lparr>net_name = chars n, net_ticker = chars t, net_chain_id = c\<rparr>"

definition NETWORK_MAPPING :: "network_info list" where
  "NETWORK_MAPPING = [
    network 1 ''Ethereum'' ''ETH'',
    network 3 ''Ropsten'' ''ETH'',
    network 4 ''Rinkeby'' ''ETH'',
    network 5 ''Goerli'' ''ETH'',
    network 10 ''Optimism'' ''ETH'',
    network 42 ''Kovan'' ''ETH'',
    network 56 ''BSC'' ''BNB'',
    network 100 ''xDai'' ''xDAI'',
    network 137 ''Polygon'' ''MATIC'',
    network 250 ''Fantom'' ''FTM'',
    network 42161 ''Arbitrum'' ''AETH'',
    network 42220 ''Celo'' ''CELO'',
    network 43114 ''Avalanche'' ''AVAX'',
    network 44787 ''Celo Alfajores'' ''aCELO'',
    network 62320 ''Celo Baklava'' ''bCELO'',
    network 11297108109 ''Palm Network'' ''PALM'']"

definition get_network :: "u64 \<Rightarrow> network_info option" where
  "get_network chain_id = find (\<lambda>n. net_chain_id n = chain_id) NETWORK_MAPPING"

definition get_network_name :: "u64 \<Rightarrow> u8 list option" where
  "get_network_name chain_id = map_option net_name (get_network chain_id)"

definition get_network_ticker :: "u64 \<Rightarrow> u8 list option" where
  "get_network_ticker chain_id = map_option net_ticker (get_network chain_id)"

text \<open>The string that \<open>name\<close> then holds; \<open>name[size - 1]\<close> is outside the buffer when \<open>size\<close> is 0.\<close>

definition set_network_name :: "u64 \<Rightarrow> nat \<Rightarrow> u8 list outcome" where
  "set_network_name chain_id size' =
    (case get_network_name chain_id of
       None \<Rightarrow> Done (take (size' - 1) (printed 10 (unat chain_id)))
     | Some name \<Rightarrow> if size' = 0 then Undefined else Done (take (size' - 1) name))"

section \<open>The decimal point\<close>

text \<open>
  The loop over the digits behind the point: the offset of the first of the zeros that the string
  ends with, or 0.
\<close>

definition last_zero_offset :: "u8 list \<Rightarrow> nat \<Rightarrow> nat" where
  "last_zero_offset target startOffset =
    foldl (\<lambda>lz i. if target ! i = 48 then (if lz = 0 then i else lz) else 0) 0
      [startOffset..<length target]"

text \<open>Its end: the string is written with its final zero, then cut.\<close>

definition cut_zeros :: "u8 list \<Rightarrow> nat \<Rightarrow> u8 list \<Rightarrow> (bool \<times> u8 list) outcome" where
  "cut_zeros s startOffset target =
    (if length target < length s + 1 then Undefined
     else
       let target = splice target 0 (s @ [0]); lz = last_zero_offset s startOffset
       in if lz = 0 then Done (True, target)
          else
            let target = target[lz := 0]
            in Done (True, if target ! (lz - 1) = 46 then target[lz - 1 := 0] else target))"

definition adjustDecimals :: "u8 list \<Rightarrow> u8 list \<Rightarrow> u32 \<Rightarrow> u8 \<Rightarrow> (bool \<times> u8 list) outcome" where
  "adjustDecimals src target targetLength decimals =
    (let srcLength = of_nat (length src) :: u32
     in if srcLength = 1 \<and> src ! 0 = 48 then
          if targetLength < 2 then Done (False, target)
          else if length target < 2 then Undefined
          else Done (True, splice target 0 [48, 0])
        else if srcLength \<le> ucast decimals then
          let delta = ucast decimals - srcLength
          in if targetLength < srcLength + 1 + 2 + delta then Done (False, target)
             else
               let head = [48, 46] @ replicate (unat delta) 48
               in cut_zeros (head @ src) (length head) target
        else
          let delta = srcLength - ucast decimals
          in if targetLength < srcLength + 1 + 1 then Done (False, target)
             else
               let head = take (unat delta) src @ (if decimals \<noteq> 0 then [46] else [])
               in cut_zeros (head @ drop (unat delta) src) (length head) target)"

section \<open>Amounts and fees\<close>

text \<open>
  \<open>computeFees\<close>, and \<open>value_to_string\<close>: the string left in the display buffer. The two buffers of
  100 bytes hold what the stack held before. A null ticker given to \<open>snprintf\<close> is undefined.
\<close>

definition computeFees :: "(u8 list \<Rightarrow> u8 list \<Rightarrow> u8 list option) \<Rightarrow> uint256_t \<Rightarrow> uint256_t \<Rightarrow> uint256_t" where
  "computeFees syscall_mult gasPrice gasLimit = mul256 syscall_mult gasPrice gasLimit"

definition value_to_string ::
    "u8 list \<Rightarrow> u8 list \<Rightarrow> u8 list option \<Rightarrow> uint256_t \<Rightarrow> nat \<Rightarrow> u8 list outcome" where
  "value_to_string buf buf2 feeTicker rawFee displayBufferSize =
    (case tostring256_implem rawFee 10 buf 100 of
       None \<Rightarrow> Blocked
     | Some printing \<Rightarrow>
         then_do printing (\<lambda>(_, buf).
         then_do (adjustDecimals (cstr buf) buf2 100 18) (\<lambda>(_, buf2).
           case feeTicker of
             None \<Rightarrow> Undefined
           | Some t \<Rightarrow>
               if displayBufferSize = 0 then Undefined
               else Done (take (displayBufferSize - 1) (t @ [32] @ cstr buf2)))))"

definition compute_amount :: "u8 list \<Rightarrow> u8 list \<Rightarrow> u64 \<Rightarrow> uint256_t \<Rightarrow> nat \<Rightarrow> u8 list outcome" where
  "compute_amount buf buf2 chain_id amount out_buffer_size =
    value_to_string buf buf2 (get_network_ticker chain_id) amount out_buffer_size"

definition compute_fees ::
    "(u8 list \<Rightarrow> u8 list \<Rightarrow> u8 list option) \<Rightarrow> u8 list \<Rightarrow> u8 list \<Rightarrow> u64 \<Rightarrow> uint256_t \<Rightarrow> uint256_t \<Rightarrow> nat \<Rightarrow>
     u8 list outcome" where
  "compute_fees syscall_mult buf buf2 chain_id gas_price gas_limit size' =
    value_to_string buf buf2 (get_network_ticker chain_id)
      (computeFees syscall_mult gas_price gas_limit) size'"

section \<open>Big-endian amounts\<close>

definition allzeroes :: "'a::zero list \<Rightarrow> bool" where
  "allzeroes buf \<longleftrightarrow> (\<forall>p \<in> set buf. p = 0)"

text \<open>The digits in base \<open>2 ^ 16\<close> of 32 bytes, after \<open>bswap16\<close>.\<close>

fun limbs :: "u8 list \<Rightarrow> u16 list" where
  "limbs (a # b # bs) = (push_bit 8 (ucast a) OR ucast b) # limbs bs"
| "limbs _ = []"

text \<open>One division by ten: the quotient and the remainder.\<close>

fun div_ten :: "u32 \<Rightarrow> u16 list \<Rightarrow> u16 list \<times> u32" where
  "div_ten carry [] = ([], carry)"
| "div_ten carry (x # n) =
    (let v = push_bit 16 carry OR ucast x; (q, carry) = div_ten (v mod 10) n
     in (ucast (v div 10) # q, carry))"

text \<open>
  The loop that writes the digits from the end of \<open>out\<close>, down from \<open>pos\<close>: whether all found room,
  where they start, and \<open>out\<close>.
\<close>

primrec decimal_loop :: "nat \<Rightarrow> u16 list \<Rightarrow> u8 list \<Rightarrow> bool \<times> nat \<times> u8 list" where
  "decimal_loop 0 n out = (allzeroes n, 0, out)"
| "decimal_loop (Suc pos) n out =
    (if allzeroes n then (True, Suc pos, out)
     else case div_ten 0 n of (n, carry) \<Rightarrow> decimal_loop pos n (out[pos := 48 + ucast carry]))"

definition uint256_to_decimal :: "u8 list \<Rightarrow> u8 list \<Rightarrow> (bool \<times> u8 list) outcome" where
  "uint256_to_decimal value out =
    (let out_len = length out
     in if length value > 32 then Done (False, out)
        else
          let bs = replicate (32 - length value) 0 @ value
          in if allzeroes bs then
               if out_len < 2 then Done (False, out) else Done (True, splice out 0 [48, 0])
             else
               case decimal_loop out_len (limbs bs) out of
                 (ok, pos, out) \<Rightarrow>
                   if \<not> ok then Done (False, out)
                   else if pos = 0 then Undefined
                   else Done (True, (splice out 0 (drop pos out))[out_len - pos := 0]))"

text \<open>The capacity of \<open>out_buffer\<close> is its length; an index past it wraps to one that is outside.\<close>

definition amountToString :: "u8 list \<Rightarrow> u8 \<Rightarrow> u8 list \<Rightarrow> u8 list \<Rightarrow> (bool \<times> u8 list) outcome" where
  "amountToString amount decimals ticker out_buffer =
    then_do (uint256_to_decimal amount (replicate 100 0)) (\<lambda>(ok, tmp_buffer).
      if \<not> ok then Done (False, out_buffer)
      else
        let out_buffer_size = of_nat (length out_buffer) :: u32;
            ticker = take 12 ticker;
            ticker_len = of_nat (length ticker) :: u32;
            out_buffer = splice out_buffer 0 (take (min (length out_buffer) (length ticker)) ticker)
        in then_do (adjustDecimals (cstr tmp_buffer) (drop (length ticker) out_buffer)
                      (out_buffer_size - ticker_len - 1) decimals)
             (\<lambda>(ok, target).
               let out_buffer = take (length ticker) out_buffer @ target
               in if \<not> ok then Done (False, out_buffer)
                  else Done (True, out_buffer[length out_buffer - 1 := 0])))"

text \<open>The result of \<open>amountToString\<close> is not used.\<close>

definition eth_get_printable_amount :: "u8 list \<Rightarrow> u8 list \<Rightarrow> (bool \<times> u8 list) outcome" where
  "eth_get_printable_amount bytes out =
    (if length bytes > 32 then Done (False, out)
     else then_do (amountToString bytes 18 (chars ''ETH '') out) (\<lambda>(_, out). Done (True, out)))"

end
