(* ===== verification/Eth_Amounts.thy ===== *)
theory Eth_Amounts
  imports Eth_Display
begin

text \<open>
  What the screens show is the amount: the decimal point of \<open>adjustDecimals\<close>, the digits of
  \<open>uint256_to_decimal\<close> and of the system call, and the strings made of them.
\<close>

section \<open>Decimal strings\<close>

definition dec_val :: "u8 list \<Rightarrow> nat" where
  "dec_val s = foldl (\<lambda>v c. v * 10 + (unat c - 48)) 0 s"

definition digit :: "u8 \<Rightarrow> bool" where
  "digit c \<longleftrightarrow> 48 \<le> c \<and> c \<le> 57"

lemma dec_val_Nil [simp]: "dec_val [] = 0"
  by (simp add: dec_val_def)

lemma dec_val_snoc [simp]: "dec_val (s @ [c]) = dec_val s * 10 + (unat c - 48)"
  by (simp add: dec_val_def)

lemma dec_val_append: "dec_val (s @ t) = dec_val s * 10 ^ length t + dec_val t"
  by (induction t rule: rev_induct) (simp_all add: algebra_simps flip: append_assoc)

lemma dec_val_zeros [simp]: "dec_val (replicate n 48) = 0"
  using dec_val_append [of "[48]"] by (induction n) (simp_all add: dec_val_def)

text \<open>A string without the zeros that it ends with.\<close>

definition strip :: "u8 list \<Rightarrow> u8 list" where
  "strip s = rev (dropWhile (\<lambda>c. c = 48) (rev s))"

lemma strip_Nil [simp]: "strip [] = []"
  by (simp add: strip_def)

lemma strip_snoc: "strip (s @ [c]) = (if c = 48 then strip s else s @ [c])"
  by (simp add: strip_def)

lemma strip_zeros: "s = strip s @ replicate (length s - length (strip s)) 48"
proof (induction s rule: rev_induct)
  case Nil
  then show ?case by simp
next
  case (snoc c s)
  have "length (strip s) \<le> length s" by (metis length_append le_add1 snoc)
  then have "replicate (length s - length (strip s)) 48 @ [48] =
      replicate (Suc (length s) - length (strip s)) (48 :: u8)"
    by (simp add: replicate_append_same Suc_diff_le)
  then show ?case using snoc by (simp add: strip_snoc) (metis append_assoc)
qed

lemma length_strip: "length (strip s) \<le> length s"
  by (metis length_append le_add1 strip_zeros)

lemma dec_val_strip: "dec_val s = dec_val (strip s) * 10 ^ (length s - length (strip s))"
  by (subst strip_zeros) (simp only: dec_val_append dec_val_zeros length_replicate add_0_right)

lemma set_strip: "set (strip s) \<subseteq> set s"
  by (metis Un_upper1 set_append strip_zeros)

lemma last_strip: "strip s \<noteq> [] \<Longrightarrow> last (strip s) \<noteq> 48"
  by (induction s rule: rev_induct) (auto simp: strip_snoc split: if_splits)

lemma take_strip: "take (length (strip s)) s = strip s"
  by (metis append_eq_conv_conj strip_zeros)

lemma nth_strip: "j < length (strip s) \<Longrightarrow> strip s ! j = s ! j"
  by (metis nth_take take_strip)

text \<open>
  \<open>s\<close> is the number \<open>v / 10 ^ d\<close>, written the only way: no zero before the first digit but one, none
  behind the last decimal, no point without a decimal.
\<close>

definition shows_amount :: "u8 list \<Rightarrow> nat \<Rightarrow> nat \<Rightarrow> bool" where
  "shows_amount s v d \<longleftrightarrow>
    (\<exists>ip fp. s = ip @ (if fp = [] then [] else 46 # fp) \<and> ip \<noteq> [] \<and>
       (\<forall>c \<in> set (ip @ fp). digit c) \<and> (hd ip = 48 \<longrightarrow> length ip = 1) \<and>
       (fp \<noteq> [] \<longrightarrow> last fp \<noteq> 48) \<and> length fp \<le> d \<and>
       v = dec_val (ip @ fp) * 10 ^ (d - length fp))"

section \<open>The decimal point\<close>

lemma cstr_splice:
  assumes "0 \<notin> set s" "length s < length target"
  shows "cstr (splice target 0 (s @ [0])) = s"
proof -
  have "takeWhile (\<lambda>b. b \<noteq> 0) (s @ 0 # r) = s" for r using assms(1) by (induction s) auto
  then show ?thesis by (simp add: cstr_def splice_def)
qed

lemma cstr_update_0:
  assumes "i \<le> length (cstr xs)" "i < length xs"
  shows "cstr (xs[i := 0]) = take i (cstr xs)"
  using assms
proof (induction xs arbitrary: i)
  case Nil
  then show ?case by simp
next
  case (Cons x xs)
  then show ?case by (cases i) (auto simp: cstr_def split: if_splits)
qed

lemma append_update: "(xs @ ys)[length xs + k := y] = xs @ ys[k := y]"
  by (simp add: list_update_append)

lemma cstr_update_end: "length (cstr xs) \<le> i \<Longrightarrow> cstr (xs[i := 0]) = cstr xs"
proof (induction xs arbitrary: i)
  case Nil
  then show ?case by simp
next
  case (Cons x xs)
  then show ?case by (cases i) (auto simp: cstr_def split: if_splits)
qed

lemma last_zero_offset_strip:
  assumes "head \<noteq> []"
  shows "last_zero_offset (head @ body) (length head) =
    (if strip body = body then 0 else length head + length (strip body))"
proof (induction body rule: rev_induct)
  case Nil
  then show ?case by (simp add: last_zero_offset_def)
next
  case (snoc c body)
  let ?step = "\<lambda>t lz i. if t ! i = (48 :: u8) then (if lz = 0 then i else lz) else (0 :: nat)"
  have "foldl (?step (head @ body @ [c])) 0 [length head..<length (head @ body)] =
      foldl (?step (head @ body)) 0 [length head..<length (head @ body)]"
    by (rule foldl_cong) (auto simp: nth_append)
  then have "last_zero_offset (head @ body @ [c]) (length head) =
      (let lz = last_zero_offset (head @ body) (length head)
       in if c = 48 then (if lz = 0 then length (head @ body) else lz) else 0)"
    by (simp add: last_zero_offset_def nth_append Let_def)
  moreover have "strip body \<noteq> body @ [c]" using length_strip [of body] by auto
  ultimately show ?case using snoc assms by (auto simp: strip_snoc Let_def)
qed

lemma cut_zeros_eq:
  assumes head: "head \<noteq> []" and s: "0 \<notin> set (head @ body)" "46 \<notin> set body"
    and room: "length (head @ body) < length target"
    and point: "last head = 46 \<Longrightarrow> body \<noteq> []"
  shows "\<exists>t. cut_zeros (head @ body) (length head) target = Done (True, t) \<and> length t = length target \<and>
    cstr t = (if strip body = [] \<and> last head = 46 then butlast head else head @ strip body)"
proof -
  let ?t = "splice target 0 ((head @ body) @ [0])"
  let ?lz = "length head + length (strip body)"
  have t: "cstr ?t = head @ body" "length ?t = length target"
    using cstr_splice [of "head @ body" target] s(1) room by simp_all
  show ?thesis
  proof (cases "strip body = body")
    case True
    then have "\<not> (strip body = [] \<and> last head = 46)" using point by auto
    then show ?thesis using True t room head
      by (auto simp: cut_zeros_def last_zero_offset_strip)
  next
    case False
    have le: "length (strip body) \<le> length body" by (rule length_strip)
    then have lt: "?lz \<le> length (head @ body)" "?lz < length target" using room by auto
    let ?u = "?t[?lz := 0]"
    have u: "cstr ?u = head @ strip body" "length ?u = length target"
      using cstr_update_0 [of ?lz ?t] t lt by (simp_all add: take_strip)
    obtain k where k: "?lz = Suc k" using head by (cases head) auto
    have "?u ! k = (head @ body) ! k"
      using lt k room nth_splice [of 0 "head @ body @ [0]" target k] by (auto simp: nth_append)
    also have "\<dots> = (head @ strip body) ! k"
      using k by (auto simp: nth_append nth_strip)
    finally have nth: "?u ! (?lz - 1) = (head @ strip body) ! (?lz - 1)" by (simp add: k)
    have "?u ! (?lz - 1) = last (head @ strip body)"
      unfolding nth using head by (subst last_conv_nth) simp_all
    moreover have "last (strip body) \<noteq> 46" if "strip body \<noteq> []"
      using s(2) set_strip [of body] last_in_set [OF that] by auto
    ultimately have "?u ! (?lz - 1) = 46 \<longleftrightarrow> strip body = [] \<and> last head = 46"
      by (cases "strip body = []") simp_all
    moreover have "cstr (?u[length head - 1 := 0]) = butlast head" if "strip body = []"
      using cstr_update_0 [of "length head - 1" ?u] u that lt by (simp add: butlast_conv_take)
    ultimately show ?thesis
      using False t u room head
      by (auto simp: cut_zeros_def last_zero_offset_strip Let_def simp del: append_assoc)
  qed
qed

text \<open>The room that the result needs, its final zero included.\<close>

definition decimals_room :: "u8 list \<Rightarrow> nat \<Rightarrow> nat" where
  "decimals_room src d = (if src = [48] then 2 else if length src \<le> d then d + 3 else length src + 2)"

lemma digit_not: "digit c \<Longrightarrow> c \<noteq> 0 \<and> c \<noteq> 46"
  by (auto simp: digit_def)

lemma adjustDecimals_small:
  assumes "\<forall>c \<in> set src. digit c" "src \<noteq> []" "hd src \<noteq> 48" "length src \<le> d"
    and "d + 3 \<le> length target"
  shows "\<exists>t. cut_zeros ([48, 46] @ replicate (d - length src) 48 @ src) (2 + (d - length src)) target =
      Done (True, t) \<and> length t = length target \<and> length (cstr t) < length t \<and>
      shows_amount (cstr t) (dec_val src) d"
proof -
  let ?head = "[48, 46] @ replicate (d - length src) 48"
  have ne: "strip src \<noteq> []"
  proof
    assume "strip src = []"
    then have "src = replicate (length src) 48" using strip_zeros [of src] by simp
    then show False using assms(2,3) by (metis hd_replicate length_0_conv)
  qed
  have "0 \<notin> set (?head @ src)" "46 \<notin> set src" using assms(1) digit_not by auto
  from cut_zeros_eq [OF _ this, of target] obtain t where
    t: "cut_zeros (?head @ src) (length ?head) target = Done (True, t)" "length t = length target"
      "cstr t = ?head @ strip src"
    using assms(2,4,5) ne by auto
  let ?fp = "replicate (d - length src) 48 @ strip src"
  have "shows_amount (cstr t) (dec_val src) d"
    unfolding shows_amount_def
  proof (intro exI conjI)
    show "cstr t = [48] @ (if ?fp = [] then [] else 46 # ?fp)" using t(3) ne by simp
    show "\<forall>c \<in> set ([48] @ ?fp). digit c"
      using assms(1) set_strip [of src] by (auto simp: digit_def)
    show "?fp \<noteq> [] \<longrightarrow> last ?fp \<noteq> 48" using last_strip ne by simp
    have le: "length (strip src) \<le> length src" by (rule length_strip)
    then show "length ?fp \<le> d" using assms(4) by simp
    have "d - length ?fp = length src - length (strip src)" using le assms(4) by simp
    moreover have "dec_val ([48] @ ?fp) = dec_val (strip src)"
      using dec_val_zeros [of "Suc (d - length src)"] by (simp add: dec_val_append dec_val_def)
    ultimately show "dec_val src = dec_val ([48] @ ?fp) * 10 ^ (d - length ?fp)"
      using dec_val_strip [of src] by simp
  qed simp_all
  moreover have "length (cstr t) < length t"
    using t(2,3) length_strip [of src] assms(4,5) by simp
  ultimately show ?thesis using t(1,2) by auto
qed

lemma adjustDecimals_large:
  assumes "\<forall>c \<in> set src. digit c" "hd src = 48 \<longrightarrow> length src = 1" "d < length src" 
    and "length src + 2 \<le> length target"
  shows "\<exists>t. cut_zeros ((take (length src - d) src @ (if d \<noteq> 0 then [46] else [])) @ drop (length src - d) src)
        (length src - d + (if d \<noteq> 0 then 1 else 0)) target =
      Done (True, t) \<and> length t = length target \<and> length (cstr t) < length t \<and>
      shows_amount (cstr t) (dec_val src) d"
proof -
  let ?ip = "take (length src - d) src" and ?body = "drop (length src - d) src"
  let ?head = "?ip @ (if d \<noteq> 0 then [46] else [])"
  have ip: "?ip \<noteq> []" "length ?body = d" using assms(3) by auto
  have sub: "set ?ip \<subseteq> set src" "set ?body \<subseteq> set src" by (rule set_take_subset, rule set_drop_subset)
  then have "0 \<notin> set (?head @ ?body)" "46 \<notin> set ?body" using assms(1) digit_not by auto
  moreover have "last ?ip \<noteq> 46" using assms(1) digit_not sub(1) last_in_set [OF ip(1)] by blast
  then have "last ?head = 46 \<longleftrightarrow> d \<noteq> 0" by (cases "d = 0") simp_all
  moreover have "?head \<noteq> []" "length (?head @ ?body) < length target" using ip assms(3,4) by auto
  moreover have "last ?head = 46 \<Longrightarrow> ?body \<noteq> []" using ip calculation by fastforce
  ultimately obtain t where
    t: "cut_zeros (?head @ ?body) (length ?head) target = Done (True, t)" "length t = length target"
      "cstr t = (if strip ?body = [] \<and> d \<noteq> 0 then butlast ?head else ?head @ strip ?body)"
    using cut_zeros_eq [of ?head ?body target] by metis
  have "shows_amount (cstr t) (dec_val src) d"
    unfolding shows_amount_def
  proof (intro exI conjI)
    show "cstr t = ?ip @ (if strip ?body = [] then [] else 46 # strip ?body)"
      using t(3) ip by (cases "d = 0") auto
    show "\<forall>c \<in> set (?ip @ strip ?body). digit c" using assms(1) sub set_strip [of ?body] by auto
    show "hd ?ip = 48 \<longrightarrow> length ?ip = 1" using assms(2,3) by auto
    show "strip ?body \<noteq> [] \<longrightarrow> last (strip ?body) \<noteq> 48" using last_strip by blast
    show "length (strip ?body) \<le> d" using length_strip [of ?body] ip by simp
    have "dec_val src = dec_val ?ip * 10 ^ d + dec_val ?body"
      using dec_val_append [of ?ip ?body] ip by simp
    also have "\<dots> = (dec_val ?ip * 10 ^ length (strip ?body) + dec_val (strip ?body)) *
        10 ^ (d - length (strip ?body))"
      using length_strip [of ?body] ip dec_val_strip [of ?body]
      by (simp add: distrib_right mult.assoc flip: power_add)
    finally show "dec_val src = dec_val (?ip @ strip ?body) * 10 ^ (d - length (strip ?body))"
      by (simp add: dec_val_append)
  qed (rule ip)
  moreover have "length (cstr t) < length t"
    using t(2,3) length_strip [of ?body] ip assms(3,4) by auto
  ultimately show ?thesis using t(1,2) ip assms(3) by (intro exI [of _ t]) auto
qed

lemma adjustDecimals_shows:
  assumes "\<forall>c \<in> set src. digit c" "src \<noteq> []" "hd src = 48 \<longrightarrow> src = [48]"
    and "decimals_room src (unat decimals) \<le> unat targetLength" "unat targetLength \<le> length target"
    and "length src < 2 ^ 31"
  shows "\<exists>t. adjustDecimals src target targetLength decimals = Done (True, t) \<and>
    length t = length target \<and> length (cstr t) < length t \<and>
    shows_amount (cstr t) (dec_val src) (unat decimals)"
proof -
  let ?d = "unat decimals"
  have d: "?d < 256" using unsigned_less [of decimals, where 'a = nat] by simp
  have len: "unat (of_nat (length src) :: u32) = length src"
    using assms(6) by (simp add: unat_of_nat take_bit_nat_eq_self)
  have dec: "unat (ucast decimals :: u32) = ?d"
    unfolding unsigned_ucast_eq by (rule take_bit_nat_eq_self) (use d in simp)
  show ?thesis
  proof (cases "src = [48]")
    case True
    have "cstr (splice target 0 [48, 0]) = [48]" using cstr_splice [of "[48]" target] assms(4,5) True
      by (simp add: decimals_room_def)
    moreover have "shows_amount [48] (dec_val [48]) ?d"
      unfolding shows_amount_def
      by (intro exI [of _ "[48]"] exI [of _ "[]"]) (simp add: digit_def dec_val_def)
    moreover have "2 \<le> unat targetLength" using assms(4) True by (simp add: decimals_room_def)
    then have "\<not> targetLength < 2" "2 \<le> length target"
      using assms(5) by (simp_all add: word_less_nat_alt)
    ultimately show ?thesis using True by (simp add: adjustDecimals_def Let_def)
  next
    case False
    then have hd: "hd src \<noteq> 48" using assms(3) by simp
    then have ne: "\<not> ((of_nat (length src) :: u32) = 1 \<and> src ! 0 = 48)"
      using assms(2) by (simp add: hd_conv_nth)
    show ?thesis
    proof (cases "length src \<le> ?d")
      case True
      then have le: "(of_nat (length src) :: u32) \<le> ucast decimals"
        by (simp add: word_le_nat_alt len dec)
      then have delta: "unat (ucast decimals - of_nat (length src) :: u32) = ?d - length src"
        by (simp add: unat_sub len dec)
      have "of_nat (length src) + 1 + 2 + (ucast decimals - of_nat (length src)) = (ucast decimals + 3 :: u32)"
        by simp
      moreover have "unat (ucast decimals + 3 :: u32) = ?d + 3"
        using d by (simp add: unat_word_ariths dec)
      moreover have "?d + 3 \<le> unat targetLength"
        using assms(4) True False by (simp add: decimals_room_def)
      ultimately have "\<not> targetLength < of_nat (length src) + 1 + 2 + (ucast decimals - of_nat (length src))"
        by (simp only: word_less_nat_alt not_less)
      then show ?thesis
        using adjustDecimals_small [OF assms(1,2) hd True, of target]
          \<open>?d + 3 \<le> unat targetLength\<close> assms(5)
        unfolding adjustDecimals_def Let_def if_not_P [OF ne] if_P [OF le] by (simp add: delta)
    next
      case gt: False
      then have le: "\<not> (of_nat (length src) :: u32) \<le> ucast decimals"
        by (simp add: word_le_nat_alt len dec)
      then have delta: "unat (of_nat (length src) - ucast decimals :: u32) = length src - ?d"
        by (simp add: unat_sub len dec)
      have "unat (of_nat (length src) + 1 + 1 :: u32) = length src + 2"
        using assms(6) by (simp add: unat_word_ariths len)
      moreover have "length src + 2 \<le> unat targetLength"
        using assms(4) gt False by (simp add: decimals_room_def)
      ultimately have "\<not> targetLength < of_nat (length src) + 1 + 1"
        by (simp only: word_less_nat_alt not_less)
      moreover have "decimals = 0 \<longleftrightarrow> ?d = 0" by (simp add: unat_eq_0)
      ultimately show ?thesis
        using adjustDecimals_large [OF assms(1), of ?d target] hd assms(3,5) gt
          \<open>length src + 2 \<le> unat targetLength\<close>
        unfolding adjustDecimals_def Let_def if_not_P [OF ne] if_not_P [OF le]
        by (cases "decimals = 0") (simp_all add: delta len)
    qed
  qed
qed

section \<open>Digits of a number\<close>

lemma hex_char_digit: "d < 10 \<Longrightarrow> hex_char d = 48 + of_nat d"
proof -
  have "list_all (\<lambda>d. hex_char d = 48 + of_nat d) [0..<10]" by code_simp
  then show "d < 10 \<Longrightarrow> hex_char d = 48 + of_nat d" by (simp add: list_all_iff)
qed

lemma printed_small: "n < 10 \<Longrightarrow> printed 10 n = [48 + of_nat n]"
  by (simp add: printed_def rdigits.simps [of 10 n] hex_char_digit)

lemma printed_snoc: "10 \<le> n \<Longrightarrow> printed 10 n = printed 10 (n div 10) @ [48 + of_nat (n mod 10)]"
  using div_eq_0_iff [of n 10] by (simp add: printed_def rdigits.simps [of 10 n] hex_char_digit)

lemma printed_induct [case_names small step]:
  assumes "\<And>n. n < 10 \<Longrightarrow> P n" "\<And>n. 10 \<le> n \<Longrightarrow> P (n div 10) \<Longrightarrow> P n"
  shows "P (n :: nat)"
proof (induction n rule: less_induct)
  case (less n)
  then show ?case using assms by (cases "n < 10") auto
qed

lemma unat_digit: "n < 10 \<Longrightarrow> unat (48 + of_nat n :: u8) = 48 + n"
  by (simp add: unat_word_ariths unat_of_nat take_bit_nat_eq_self)

lemma digit_of_nat: "n < 10 \<Longrightarrow> digit (48 + of_nat n)"
  by (simp add: digit_def word_le_nat_alt unat_digit)

lemma dec_val_printed: "dec_val (printed 10 n) = n"
proof (induction n rule: printed_induct)
  case (small n)
  then show ?case by (simp add: printed_small dec_val_def unat_digit)
next
  case (step n)
  then show ?case by (simp add: printed_snoc unat_digit)
qed

lemma printed_digits: "\<forall>c \<in> set (printed 10 n). digit c"
proof (induction n rule: printed_induct)
  case (small n)
  then show ?case by (simp add: printed_small digit_of_nat)
next
  case (step n)
  then show ?case by (auto simp: printed_snoc digit_of_nat)
qed

lemma printed_ne [simp]: "printed 10 n \<noteq> []"
  by (simp add: printed_def rdigits.simps [of 10 n])

lemma printed_lead: "hd (printed 10 n) = 48 \<Longrightarrow> printed 10 n = [48]"
proof (induction n rule: printed_induct)
  case (small n)
  then show ?case by (simp add: printed_small)
next
  case (step n)
  then have "hd (printed 10 (n div 10)) = 48" by (simp add: printed_snoc)
  then have "printed 10 (n div 10) = [48]" using step.IH by simp
  then have "n div 10 = 0" using dec_val_printed [of "n div 10"] by (simp add: dec_val_def)
  then show ?case using step.hyps by simp
qed

lemma length_printed: "n < 10 ^ k \<Longrightarrow> 0 < k \<Longrightarrow> length (printed 10 n) \<le> k"
proof (induction n arbitrary: k rule: printed_induct)
  case (small n)
  then show ?case by (simp add: printed_small)
next
  case (step n)
  then obtain j where j: "k = Suc j" "0 < j" by (cases k; cases "k - 1") auto
  then have "n div 10 < 10 ^ j" using step.prems by (simp add: div_less_iff_less_mult)
  then show ?case using step j by (simp add: printed_snoc)
qed

section \<open>The digits of big-endian bytes\<close>

definition limbs_val :: "u16 list \<Rightarrow> nat" where
  "limbs_val n = foldl (\<lambda>v x. 65536 * v + unat x) 0 n"

lemma limbs_val_Nil [simp]: "limbs_val [] = 0"
  by (simp add: limbs_val_def)

lemma limbs_val_Cons: "limbs_val (x # n) = unat x * 65536 ^ length n + limbs_val n"
proof (induction n rule: rev_induct)
  case Nil
  then show ?case by (simp add: limbs_val_def)
next
  case (snoc y n)
  then show ?case by (simp add: limbs_val_def algebra_simps)
qed

lemma unat_join_limb: "unat c < 65536 \<Longrightarrow> unat (push_bit 16 c OR ucast (x :: u16) :: u32) = unat c * 65536 + unat x"
proof -
  assume c: "unat c < 65536"
  have x: "unat x < 65536" using unsigned_less [of x, where 'a = nat] by simp
  have "push_bit 16 c AND ucast x = 0"
    by (rule bit_word_eqI) (auto simp: bit_and_iff bit_push_bit_iff bit_word_ucast_iff dest: bit_imp_le_length)
  then have "push_bit 16 c OR ucast x = push_bit 16 c + ucast x"
    by (rule disjunctive_add_eq_or [symmetric])
  also have "\<dots> = of_nat (unat c * 65536 + unat x)"
    by (simp add: push_bit_eq_mult)
  finally show ?thesis
    by (simp only: unsigned_of_nat of_nat_id) (rule take_bit_nat_eq_self, use c x in simp)
qed

lemma div_ten_split: "10 * (a div 10) * p + a mod 10 * p = a * p" for a p :: nat
  using mult_div_mod_eq [of 10 a] by (simp flip: distrib_right)

lemma div_ten_correct:
  assumes "unat carry < 10" "div_ten carry n = (q, c)"
  shows "length q = length n \<and> unat c < 10 \<and>
    10 * limbs_val q + unat c = unat carry * 65536 ^ length n + limbs_val n"
  using assms
proof (induction n arbitrary: carry q c)
  case Nil
  then show ?case by simp
next
  case (Cons x n)
  let ?v = "push_bit 16 carry OR ucast x :: u32"
  obtain q' where q': "div_ten (?v mod 10) n = (q', c)" "q = ucast (?v div 10) # q'"
    using Cons.prems(2) by (auto simp: Let_def split: prod.splits)
  have v: "unat ?v = unat carry * 65536 + unat x" using Cons.prems(1) by (simp add: unat_join_limb)
  have x: "unat x < 65536" using unsigned_less [of x, where 'a = nat] by simp
  have m: "unat (?v mod 10) = unat ?v mod 10" by (simp add: unat_mod)
  have d: "unat (?v div 10) = unat ?v div 10" by (simp add: unat_div)
  have "unat ?v div 10 < 65536" using v x Cons.prems(1) by (simp add: div_less_iff_less_mult)
  then have h: "unat (ucast (?v div 10) :: u16) = unat ?v div 10"
    by (simp add: unsigned_ucast_eq d take_bit_nat_eq_self)
  have IH: "length q' = length n" "unat c < 10"
    "10 * limbs_val q' + unat c = unat ?v mod 10 * 65536 ^ length n + limbs_val n"
    using Cons.IH [OF _ q'(1)] m by simp_all
  have "10 * limbs_val q + unat c = 10 * (unat ?v div 10) * 65536 ^ length n + (10 * limbs_val q' + unat c)"
    by (simp add: q'(2) limbs_val_Cons h IH(1))
  also have "\<dots> = 10 * (unat ?v div 10) * 65536 ^ length n + unat ?v mod 10 * 65536 ^ length n + limbs_val n"
    by (simp only: IH(3) add.assoc)
  also have "\<dots> = unat ?v * 65536 ^ length n + limbs_val n"
    by (simp only: div_ten_split)
  finally have e: "10 * limbs_val q + unat c = unat ?v * 65536 ^ length n + limbs_val n" .
  have "unat ?v * 65536 ^ length n + limbs_val n =
      unat carry * 65536 ^ length (x # n) + limbs_val (x # n)"
    by (simp add: v limbs_val_Cons algebra_simps)
  moreover have "length q = length (x # n)" by (simp add: q'(2) IH(1))
  ultimately show ?case using IH(2) e by presburger
qed

lemma allzeroes_limbs: "allzeroes n \<longleftrightarrow> limbs_val n = 0"
  by (induction n) (auto simp: allzeroes_def limbs_val_Cons unat_eq_0)

lemma allzeroes_bytes: "allzeroes bs \<longleftrightarrow> be_val bs = 0"
  by (induction bs) (auto simp: allzeroes_def be_val_Cons unat_eq_0)

lemma limbs_val_limbs: "even (length bs) \<Longrightarrow> length (limbs bs) = length bs div 2 \<and> limbs_val (limbs bs) = be_val bs"
proof (induction bs rule: limbs.induct)
  case (1 a b bs)
  have a: "unat a < 256" "unat b < 256"
    using unsigned_less [of a, where 'a = nat] unsigned_less [of b, where 'a = nat] by simp_all
  have "push_bit 8 (ucast a) AND (ucast b :: u16) = 0"
    by (rule bit_word_eqI) (auto simp: bit_and_iff bit_push_bit_iff bit_word_ucast_iff dest: bit_imp_le_length)
  then have "push_bit 8 (ucast a) OR (ucast b :: u16) = push_bit 8 (ucast a) + ucast b"
    by (rule disjunctive_add_eq_or [symmetric])
  also have "\<dots> = of_nat (unat a * 256 + unat b)" by (simp add: push_bit_eq_mult)
  finally have u: "unat (push_bit 8 (ucast a) OR (ucast b :: u16)) = unat a * 256 + unat b"
    by (simp only: unsigned_of_nat of_nat_id) (rule take_bit_nat_eq_self, use a in simp)
  have "65536 ^ (length bs div 2) = (256 :: nat) ^ length bs"
    using 1 by (auto simp: power_mult elim!: evenE)
  then show ?case using 1 by (auto simp: limbs_val_Cons u be_val_Cons algebra_simps)
qed auto

definition digits_or_none :: "nat \<Rightarrow> u8 list" where
  "digits_or_none v = (if v = 0 then [] else printed 10 v)"

lemma digits_or_none_snoc: "v \<noteq> 0 \<Longrightarrow> digits_or_none v = digits_or_none (v div 10) @ [48 + of_nat (v mod 10)]"
  by (cases "v < 10") (auto simp: digits_or_none_def printed_small printed_snoc)

lemma decimal_loop_correct:
  assumes "pos \<le> length out" "length (digits_or_none (limbs_val n)) \<le> pos"
  shows "decimal_loop pos n out =
    (True, pos - length (digits_or_none (limbs_val n)),
     splice out (pos - length (digits_or_none (limbs_val n))) (digits_or_none (limbs_val n)))"
  using assms
proof (induction pos arbitrary: n out)
  case 0
  then have "limbs_val n = 0" by (auto simp: digits_or_none_def split: if_splits)
  then show ?case by (simp add: allzeroes_limbs digits_or_none_def)
next
  case (Suc pos)
  show ?case
  proof (cases "limbs_val n = 0")
    case True
    then show ?thesis by (simp add: allzeroes_limbs digits_or_none_def)
  next
    case False
    obtain q c where q: "div_ten 0 n = (q, c)" by fastforce
    have "unat c < 10" and e: "10 * limbs_val q + unat c = limbs_val n"
      using div_ten_correct [OF _ q] by auto
    then have v: "limbs_val q = limbs_val n div 10" "unat c = limbs_val n mod 10"
      by (simp_all flip: e)
    let ?ds = "digits_or_none (limbs_val q)"
    have c: "48 + ucast c = (48 + of_nat (limbs_val n mod 10) :: u8)"
      unfolding v(2) [symmetric] by simp
    have ds: "digits_or_none (limbs_val n) = ?ds @ [48 + ucast c]"
      using digits_or_none_snoc [OF False] by (simp only: v c)
    let ?out = "out[pos := 48 + ucast c]"
    have "decimal_loop pos q ?out = (True, pos - length ?ds, splice ?out (pos - length ?ds) ?ds)"
      using Suc.prems ds by (intro Suc.IH) simp_all
    moreover have "splice ?out (pos - length ?ds) ?ds = splice out (pos - length ?ds) (?ds @ [48 + ucast c])"
      using Suc.prems ds
      by (intro nth_equalityI) (auto simp: nth_splice nth_append nth_list_update)
    ultimately show ?thesis using False q ds by (simp add: allzeroes_limbs)
  qed
qed

section \<open>Amounts\<close>

lemma be_val_32: "length bs \<le> 32 \<Longrightarrow> be_val bs < 10 ^ 78"
proof -
  assume "length bs \<le> 32"
  then have "(256 :: nat) ^ length bs \<le> 256 ^ 32" by (intro power_increasing) simp_all
  then have "be_val bs < 256 ^ 32" using be_val_lt [of bs] by linarith
  then show ?thesis by simp
qed

lemma printed_no_zero: "0 \<notin> set (printed 10 n)"
  using printed_digits [of n] by (auto simp: digit_def)

lemma uint256_to_decimal_prints:
  assumes "length value \<le> 32" "79 \<le> length out"
  shows "\<exists>buf. uint256_to_decimal value out = Done (True, buf) \<and> length buf = length out \<and>
    cstr buf = printed 10 (be_val value)"
proof -
  let ?bs = "replicate (32 - length value) 0 @ value"
  have bs: "length ?bs = 32" "be_val ?bs = be_val value" using assms(1) by (simp_all add: be_val_zeros)
  show ?thesis
  proof (cases "be_val value = 0")
    case True
    then have "cstr (splice out 0 (printed 10 (be_val value) @ [0])) = printed 10 (be_val value)"
      using assms(2) by (intro cstr_splice printed_no_zero) (simp add: printed_small)
    moreover have "allzeroes ?bs" using True bs by (simp add: allzeroes_bytes)
    ultimately show ?thesis
      using assms True by (simp add: uint256_to_decimal_def printed_small Let_def)
  next
    case False
    let ?ds = "printed 10 (be_val value)" and ?n = "length out"
    have ds: "digits_or_none (limbs_val (limbs ?bs)) = ?ds"
      using False bs limbs_val_limbs [of ?bs] by (simp add: digits_or_none_def)
    have k: "length ?ds < ?n" "0 < length ?ds"
      using length_printed [OF be_val_32 [OF assms(1)]] assms(2) by simp_all
    let ?out = "splice out (?n - length ?ds) ?ds"
    have loop: "decimal_loop ?n (limbs ?bs) out = (True, ?n - length ?ds, ?out)"
      using decimal_loop_correct [of ?n out "limbs ?bs"] k unfolding ds by simp
    have "drop (?n - length ?ds) ?out = ?ds" using k by (simp add: splice_def)
    then have "splice ?out 0 (drop (?n - length ?ds) ?out) = ?ds @ drop (length ?ds) ?out"
      by (simp add: splice_def)
    moreover have "cstr ((?ds @ drop (length ?ds) ?out)[length ?ds := 0]) = ?ds"
    proof -
      have "takeWhile (\<lambda>b. b \<noteq> 0) ?ds = ?ds"
        using printed_no_zero by (intro takeWhile_eq_all_conv [THEN iffD2]) auto
      moreover have "drop (length ?ds) ?out \<noteq> []" using k by simp
      then obtain x r where "drop (length ?ds) ?out = x # r" by (cases "drop (length ?ds) ?out") auto
      ultimately show ?thesis
        using printed_no_zero [of "be_val value"] by (simp add: cstr_def list_update_append takeWhile_append)
    qed
    moreover have "\<not> allzeroes ?bs" using False bs by (simp add: allzeroes_bytes)
    ultimately show ?thesis
      using assms k loop by (simp add: uint256_to_decimal_def Let_def)
  qed
qed

text \<open>
  C31: For every amount of at most 32 bytes and a buffer with room for it, \<open>amountToString\<close> leaves
  in the buffer the ticker followed by the amount, exactly: the digits are those of the number
  with its point, without superfluous zeros.
\<close>

theorem amountToString_shows:
  assumes "length amount \<le> 32" and "0 \<notin> set ticker" and "length out < 2 ^ 32"
    and "length (take 12 ticker) + decimals_room (printed 10 (be_val amount)) (unat decimals) < length out"
  shows "\<exists>buf s. amountToString amount decimals ticker out = Done (True, buf) \<and>
    length buf = length out \<and> cstr buf = take 12 ticker @ s \<and>
    shows_amount s (be_val amount) (unat decimals)"
proof -
  let ?ds = "printed 10 (be_val amount)" and ?t = "take 12 ticker"
  obtain tmp where tmp: "uint256_to_decimal amount (replicate 100 0) = Done (True, tmp)" "cstr tmp = ?ds"
    using uint256_to_decimal_prints [OF assms(1), of "replicate 100 0"] by auto
  let ?out = "splice out 0 ?t"
  let ?len = "of_nat (length out) - of_nat (length ?t) - 1 :: u32"
  have "?len = of_nat (length out - length ?t - 1)" using assms(4) by (simp add: of_nat_diff)
  then have len: "unat ?len = length out - length ?t - 1"
    using assms(3) by (simp add: unat_of_nat take_bit_nat_eq_self)
  have lead: "hd ?ds = 48 \<longrightarrow> ?ds = [48]" using printed_lead by blast
  have room: "decimals_room ?ds (unat decimals) \<le> unat ?len" "unat ?len \<le> length (drop (length ?t) ?out)"
    "length ?ds < 2 ^ 31"
    using assms(4) length_printed [OF be_val_32 [OF assms(1)]] unfolding len by simp_all
  obtain t where t: "adjustDecimals ?ds (drop (length ?t) ?out) ?len decimals = Done (True, t)"
    "length t = length (drop (length ?t) ?out)" "length (cstr t) < length t"
    "shows_amount (cstr t) (be_val amount) (unat decimals)"
    using adjustDecimals_shows [OF printed_digits printed_ne lead room] by (auto simp: dec_val_printed)
  let ?buf = "take (length ?t) ?out @ t"
  have head: "take (length ?t) ?out = ?t" using assms(4) by (simp add: splice_def min_def)
  have buf: "length ?buf = length out" using t(2) assms(4) by simp
  have "?buf[length ?buf - 1 := 0] = ?t @ t[length t - 1 := 0]"
    using t(3) append_update [of ?t t "length t - 1" 0] unfolding head by simp
  moreover have "cstr (t[length t - 1 := 0]) = cstr t"
    using t(3) by (intro cstr_update_end) simp_all
  moreover have "0 \<notin> set ?t" using assms(2) by (meson in_set_takeD)
  ultimately have str: "cstr (?buf[length ?buf - 1 := 0]) = ?t @ cstr t"
    by (simp add: cstr_def takeWhile_append)
  have all: "take (min (length out) (length ?t)) ?t = ?t" using assms(4) by (intro take_all) simp
  have "amountToString amount decimals ticker out = Done (True, ?buf[length ?buf - 1 := 0])"
    unfolding amountToString_def tmp(1) then_do.simps case_prod_conv Let_def tmp(2) all t(1)
    by simp
  then show ?thesis using t(4) str buf by (intro exI conjI) simp_all
qed

text \<open>0.25 with three decimals and a ticker.\<close>

theorem amountToString_shows_witness:
  "\<exists>buf s. amountToString [0, 250] 3 [69, 32] (replicate 20 1) = Done (True, buf) \<and>
    length buf = 20 \<and> cstr buf = [69, 32] @ s \<and> shows_amount s 250 3"
proof -
  have v: "be_val [0, 250] = 250" by (simp add: be_val_Cons)
  have "length (printed 10 250) \<le> 3" by (rule length_printed) simp_all
  then have "decimals_room (printed 10 (be_val [0, 250])) (unat (3 :: u8)) \<le> 6"
    by (auto simp: v decimals_room_def)
  then show ?thesis
    using amountToString_shows [of "[0, 250]" "[69, 32]" "replicate 20 1" 3] by (simp add: v)
qed

lemma value_to_string_shows:
  assumes "length buf = 100" "length buf2 = 100" "0 < n"
  shows "\<exists>s. value_to_string buf buf2 (Some t) fee n = Done (take (n - 1) (t @ [32] @ s)) \<and>
    shows_amount s (val256 fee) 18"
proof -
  let ?ds = "printed 10 (val256 fee)"
  have "val256 fee < 10 ^ 78" using val256_lt [of fee] by simp
  then have k: "length ?ds \<le> 78" by (rule length_printed) simp
  have "tostring256_implem fee 10 buf 100 = Some (Done (True, splice buf 0 (?ds @ [0])))"
    using tostring256_digits [of 10 fee 100 buf] k assms(1) by simp
  moreover have "cstr (splice buf 0 (?ds @ [0])) = ?ds"
    using k assms(1) by (intro cstr_splice printed_no_zero) simp
  moreover have "decimals_room ?ds 18 \<le> 80" using k by (simp add: decimals_room_def)
  then obtain b where "adjustDecimals ?ds buf2 100 18 = Done (True, b)" "shows_amount (cstr b) (val256 fee) 18"
    using adjustDecimals_shows [OF printed_digits printed_ne, of "val256 fee" 18 100 buf2]
      printed_lead [of "val256 fee"] k assms(2)
    by (auto simp: dec_val_printed)
  ultimately show ?thesis
    using assms(3) by (intro exI [of _ "cstr b"]) (simp add: value_to_string_def)
qed

text \<open>
  The fees of a transaction on a known network are shown as its ticker and the product of gas
  price and gas limit modulo \<open>2 ^ 256\<close>, exactly, cut at the size of the display buffer.
\<close>

theorem compute_fees_shows:
  assumes "mult_ok syscall_mult" and "get_network_ticker chain_id = Some t"
    and "length buf = 100" "length buf2 = 100" "0 < n"
  shows "\<exists>s. compute_fees syscall_mult buf buf2 chain_id gas_price gas_limit n =
      Done (take (n - 1) (t @ [32] @ s)) \<and>
    shows_amount s (val256 gas_price * val256 gas_limit mod 2 ^ 256) 18"
  using value_to_string_shows [OF assms(3-5), of t "mul256 syscall_mult gas_price gas_limit"] assms(1,2)
  by (simp add: compute_fees_def computeFees_def val256_mul256)

theorem compute_fees_shows_witness:
  "\<exists>s. compute_fees school_mult (replicate 100 0) (replicate 100 0) 1
      (u256 clear128 (u128 0 5)) (u256 clear128 (u128 0 21000)) 30 =
      Done (take 29 (chars ''ETH'' @ [32] @ s)) \<and> shows_amount s 105000 18"
proof -
  have "get_network_ticker 1 = Some (chars ''ETH'')" by code_simp
  moreover have "val256 (u256 clear128 (u128 0 5)) * val256 (u256 clear128 (u128 0 21000)) mod 2 ^ 256 = 105000"
    by (simp add: val256_def val128_def clear128_def)
  ultimately show ?thesis
    using compute_fees_shows [OF mult_ok_school, of 1 "chars ''ETH''" "replicate 100 0" "replicate 100 0" 30
        "u256 clear128 (u128 0 5)" "u256 clear128 (u128 0 21000)"]
    by simp
qed

end
