(* ===== verification/Ux.thy ===== *)
theory Ux
  imports C_Strings
begin

text \<open>
  The screens of the applications (\<open>app/sdk/ux/ux.c\<close>, \<open>ux_display.c\<close>, \<open>ux.h\<close>, \<open>bagl.h\<close>, \<open>fonts.h\<close> and the
  drawing calls of \<open>app/sdk/sdk.c\<close>). What is drawn is a list of events, the buttons that the user
  presses are a list of masks; a wait for a button that never comes is \<open>Blocked\<close>.
\<close>

section \<open>What is drawn\<close>

datatype bagl_components_type_e =
  BAGL_NONE | BAGL_BUTTON | BAGL_LABEL | BAGL_RECTANGLE | BAGL_LINE | BAGL_ICON | BAGL_CIRCLE
| BAGL_LABELINE | BAGL_FLAG_TOUCHABLE

record bagl_component =
  b_type :: bagl_components_type_e
  b_userid :: u8
  b_x :: u16
  b_y :: u16
  b_width :: u16
  b_height :: u16
  b_stroke :: u8
  b_radius :: u8
  b_fill :: u8
  b_fgcolor :: u32
  b_bgcolor :: u32
  b_font_id :: u16
  b_icon_id :: u8

record bagl_icon_details =
  ic_width :: u32
  ic_height :: u32
  ic_bpp :: u32
  ic_colors :: "u32 list"
  ic_bitmap :: "u8 list"

text \<open>The pointer \<open>text\<close> of an element is null, a C string or an icon.\<close>

datatype bagl_text = No_text | Line "u8 list" | Icon bagl_icon_details

record bagl_element =
  el_component :: bagl_component
  el_text :: bagl_text

text \<open>
  The system calls that draw: an element with a context, its length and its encoding; a bitmap with
  its position, size, colors, depth, bytes and number of bits; the update of the screen.
\<close>

datatype ux_draw =
  Ux_context bagl_component "u8 list option" u16 u8
| Ux_bitmap u32 u32 u32 u32 "u32 list" u32 "u8 list" u32
| Ux_update

definition element :: "bagl_components_type_e \<Rightarrow> u8 \<Rightarrow> u16 \<Rightarrow> u16 \<Rightarrow> u16 \<Rightarrow> u16 \<Rightarrow> u8 \<Rightarrow> u32 \<Rightarrow> u32 \<Rightarrow> u16 \<Rightarrow> bagl_text \<Rightarrow> bagl_element" where
  "element t userid x y w h fill fg bg font txt =
    \<lparr>el_component = \<lparr>b_type = t, b_userid = userid, b_x = x, b_y = y, b_width = w, b_height = h,
       b_stroke = 0, b_radius = 0, b_fill = fill, b_fgcolor = fg, b_bgcolor = bg, b_font_id = font,
       b_icon_id = 0\<rparr>, el_text = txt\<rparr>"

definition C_icon_left :: bagl_icon_details where
  "C_icon_left = \<lparr>ic_width = 4, ic_height = 7, ic_bpp = 1, ic_colors = [0, 0x00ffffff],
    ic_bitmap = [0x48, 0x12, 0x42, 0x08]\<rparr>"

definition C_icon_right :: bagl_icon_details where
  "C_icon_right = \<lparr>ic_width = 4, ic_height = 7, ic_bpp = 1, ic_colors = [0, 0x00ffffff],
    ic_bitmap = [0x21, 0x84, 0x24, 0x01]\<rparr>"

definition C_icon_eye :: bagl_icon_details where
  "C_icon_eye = \<lparr>ic_width = 14, ic_height = 14, ic_bpp = 1, ic_colors = [0, 0x00ffffff],
    ic_bitmap = [0x00, 0x00, 0x00, 0x00, 0x1e, 0xe0, 0x1f, 0x1c, 0x0e, 0x03, 0x63, 0x8c, 0x19,
      0x63, 0x0c, 0x0c, 0x87, 0x83, 0x7f, 0x80, 0x07, 0x00, 0x00, 0x00, 0x00]\<rparr>"

definition C_icon_crossmark :: bagl_icon_details where
  "C_icon_crossmark = \<lparr>ic_width = 14, ic_height = 14, ic_bpp = 1, ic_colors = [0, 0x00ffffff],
    ic_bitmap = [0x00, 0x80, 0x01, 0xe6, 0xc0, 0x71, 0x38, 0x38, 0x07, 0xfc, 0x00, 0x1e, 0x80,
      0x07, 0xf0, 0x03, 0xce, 0xc1, 0xe1, 0x38, 0x70, 0x06, 0x18, 0x00, 0x00]\<rparr>"

definition C_icon_validate_14 :: bagl_icon_details where
  "C_icon_validate_14 = \<lparr>ic_width = 14, ic_height = 14, ic_bpp = 1, ic_colors = [0, 0x00ffffff],
    ic_bitmap = [0x00, 0x00, 0x00, 0x00, 0x00, 0x00, 0xc0, 0x00, 0x38, 0x00, 0x67, 0xe0, 0x38,
      0x1c, 0x9c, 0x03, 0x7e, 0x00, 0x0f, 0x80, 0x01, 0x00, 0x00, 0x00, 0x00]\<rparr>"

definition ux_erase :: bagl_element where
  "ux_erase = element BAGL_RECTANGLE 0x00 0 0 128 64 1 0 0xFFFFFF 0 No_text"

definition ux_left :: bagl_element where
  "ux_left = element BAGL_ICON 0x01 2 28 4 7 0 0xFFFFFF 0 0 (Icon C_icon_left)"

definition ux_right :: bagl_element where
  "ux_right = element BAGL_ICON 0x02 122 28 4 7 0 0xFFFFFF 0 0 (Icon C_icon_right)"

text \<open>The fonts of \<open>fonts.h\<close>, centered.\<close>

definition regular_11px :: u16 where "regular_11px = 10 OR 0x8000"
definition extrabold_11px :: u16 where "extrabold_11px = 8 OR 0x8000"

text \<open>
  The three layouts. Their arrays are static, and all texts of an array are set before it is drawn,
  so that a layout is a function of its texts.
\<close>

definition ux_layout_pbb :: "bagl_text \<Rightarrow> bagl_text \<Rightarrow> bagl_text \<Rightarrow> bagl_element list" where
  "ux_layout_pbb t0 t1 t2 =
    [element BAGL_ICON 0x0F 57 10 14 14 0 0xFFFFFF 0 regular_11px t0,
     element BAGL_LABELINE 0x10 6 37 116 32 0 0xFFFFFF 0 extrabold_11px t1,
     element BAGL_LABELINE 0x11 6 51 116 32 0 0xFFFFFF 0 extrabold_11px t2]"

definition ux_layout_pn :: "bagl_text \<Rightarrow> bagl_text \<Rightarrow> bagl_element list" where
  "ux_layout_pn t0 t1 =
    [element BAGL_ICON 0x10 57 17 14 14 0 0xFFFFFF 0 regular_11px t0,
     element BAGL_LABELINE 0x11 0 44 128 32 0 0xFFFFFF 0 extrabold_11px t1]"

definition ux_layout_bb :: "bagl_text \<Rightarrow> bagl_text \<Rightarrow> bagl_element list" where
  "ux_layout_bb t0 t1 =
    [element BAGL_LABELINE 0x10 6 29 116 32 0 0xFFFFFF 0 regular_11px t0,
     element BAGL_LABELINE 0x11 6 43 116 32 0 0xFFFFFF 0 regular_11px t1]"

definition bagl_draw_glyph :: "bagl_component \<Rightarrow> bagl_icon_details \<Rightarrow> ux_draw" where
  "bagl_draw_glyph c d =
    Ux_bitmap (scast (b_x c)) (scast (b_y c)) (ic_width d) (ic_height d) (ic_colors d) (ic_bpp d)
      (ic_bitmap d) (ic_bpp d * (ic_width d * ic_height d))"

definition display_icon :: "bagl_component \<Rightarrow> bagl_icon_details \<Rightarrow> ux_draw" where
  "display_icon c d =
    bagl_draw_glyph (c\<lparr>b_width := ucast (ic_width d), b_height := ucast (ic_height d)\<rparr>) d"

definition display_text :: "bagl_component \<Rightarrow> u8 list \<Rightarrow> ux_draw" where
  "display_text c txt = Ux_context c (Some txt) (of_nat (length txt)) 0"

definition display_rectangle :: "bagl_component \<Rightarrow> ux_draw" where
  "display_rectangle c = Ux_context c None 0 0"

definition display_element :: "bagl_element \<Rightarrow> ux_draw list outcome" where
  "display_element e =
    (case b_type (el_component e) of
       BAGL_RECTANGLE \<Rightarrow> Done [display_rectangle (el_component e)]
     | BAGL_ICON \<Rightarrow>
         (case el_text e of Icon d \<Rightarrow> Done [display_icon (el_component e) d] | _ \<Rightarrow> Undefined)
     | BAGL_LABELINE \<Rightarrow>
         (case el_text e of Line t \<Rightarrow> Done [display_text (el_component e) t] | _ \<Rightarrow> Undefined)
     | _ \<Rightarrow> Done [])"

primrec display_elements :: "bagl_element list \<Rightarrow> ux_draw list outcome" where
  "display_elements [] = Done []"
| "display_elements (e # es) =
    then_do (display_element e) (\<lambda>d. then_do (display_elements es) (\<lambda>ds. Done (d @ ds)))"

section \<open>Items\<close>

datatype ux_action_e = UX_ACTION_NONE | UX_ACTION_VALIDATE | UX_ACTION_REJECT

record ux_item =
  it_icon :: "bagl_icon_details option"
  it_line1 :: "u8 list"
  it_line2 :: "u8 list option"
  it_action :: ux_action_e

text \<open>A line of text under a title, and the usual dialogue around such lines.\<close>

definition text_item :: "string \<Rightarrow> u8 list \<Rightarrow> ux_item" where
  "text_item title line =
    \<lparr>it_icon = None, it_line1 = chars title, it_line2 = Some line, it_action = UX_ACTION_NONE\<rparr>"

definition review_items :: "string \<Rightarrow> string \<Rightarrow> ux_item list \<Rightarrow> ux_item list" where
  "review_items what accept items =
    [\<lparr>it_icon = Some C_icon_eye, it_line1 = chars ''Review'', it_line2 = Some (chars what),
      it_action = UX_ACTION_NONE\<rparr>] @ items @
    [\<lparr>it_icon = Some C_icon_validate_14, it_line1 = chars ''Accept'', it_line2 = Some (chars accept),
      it_action = UX_ACTION_VALIDATE\<rparr>,
     \<lparr>it_icon = Some C_icon_crossmark, it_line1 = chars ''Reject'', it_line2 = None,
      it_action = UX_ACTION_REJECT\<rparr>]"

definition line_text :: "u8 list option \<Rightarrow> bagl_text" where
  "line_text l = (case l of None \<Rightarrow> No_text | Some t \<Rightarrow> Line t)"

definition item_layout :: "ux_item \<Rightarrow> bagl_element list" where
  "item_layout item =
    (case it_icon item of
       Some i \<Rightarrow>
         if it_line2 item \<noteq> None
         then ux_layout_pbb (Icon i) (Line (it_line1 item)) (line_text (it_line2 item))
         else ux_layout_pn (Icon i) (Line (it_line1 item))
     | None \<Rightarrow> ux_layout_bb (Line (it_line1 item)) (line_text (it_line2 item)))"

definition display_item :: "ux_item \<Rightarrow> bool \<Rightarrow> bool \<Rightarrow> ux_draw list outcome" where
  "display_item item first last' =
    then_do (display_elements
      ([ux_erase] @ (if \<not> first then [ux_left] else []) @ (if \<not> last' then [ux_right] else []) @
       item_layout item))
      (\<lambda>d. Done (d @ [Ux_update]))"

section \<open>The dialogue\<close>

definition BUTTON_LEFT :: int where "BUTTON_LEFT = 1"
definition BUTTON_RIGHT :: int where "BUTTON_RIGHT = 2"
definition BUTTON_BOTH :: int where "BUTTON_BOTH = 3"

text \<open>The button, what is stored in \<open>validated\<close> if anything, and the buttons still to come.\<close>

fun wait_input :: "ux_action_e \<Rightarrow> int list \<Rightarrow> (int \<times> bool option \<times> int list) outcome" where
  "wait_input action [] = Blocked"
| "wait_input action (button # buttons) =
    (if button = BUTTON_LEFT \<or> button = BUTTON_RIGHT then Done (button, None, buttons)
     else if button = BUTTON_BOTH \<and> action \<noteq> UX_ACTION_NONE then
       Done (button, Some (action = UX_ACTION_VALIDATE), buttons)
     else wait_input action buttons)"

lemma wait_input_less [termination_simp]:
  "wait_input action buttons = Done (button, validated, rest) \<Longrightarrow> length rest < length buttons"
  by (induction action buttons rule: wait_input.induct) (auto split: if_splits)

lemma then_do_cong [fundef_cong]:
  "m = m' \<Longrightarrow> (\<And>x. m' = Done x \<Longrightarrow> f x = f' x) \<Longrightarrow> then_do m f = then_do m' f'"
  by (cases m') auto

text \<open>The item to go to and whether to draw it; \<open>None\<close> when the button ends the dialogue.\<close>

definition ux_move :: "nat \<Rightarrow> nat \<Rightarrow> int \<Rightarrow> (nat \<times> bool) option" where
  "ux_move count' n button =
    (if button = BUTTON_LEFT then Some (if n > 0 then (n - 1, True) else (n, False))
     else if button = BUTTON_RIGHT then Some (if n + 1 < count' then (n + 1, True) else (n, False))
     else None)"

text \<open>
  The loop of \<open>ux_validate\<close> at the item \<open>n\<close>: the decision, what was drawn and the buttons not yet read.
\<close>

function ux_loop :: "ux_item list \<Rightarrow> nat \<Rightarrow> bool \<Rightarrow> int list \<Rightarrow> (bool \<times> ux_draw list \<times> int list) outcome" where
  "ux_loop items n refresh buttons =
    then_do (if refresh then display_item (items ! n) (n = 0) (n = length items - 1) else Done []) (\<lambda>shown.
    then_do (wait_input (it_action (items ! n)) buttons) (\<lambda>(button, validated, rest).
      case ux_move (length items) n button of
        Some (n, refresh) \<Rightarrow>
          then_do (ux_loop items n refresh rest) (\<lambda>(v, d, rest). Done (v, shown @ d, rest))
      | None \<Rightarrow>
          (case validated of Some v \<Rightarrow> Done (v, shown, rest) | None \<Rightarrow> Undefined)))"
  by auto

termination
  by (relation "measure (\<lambda>(items, n, refresh, buttons). length buttons)") (auto dest: wait_input_less)

declare ux_loop.simps [simp del]

definition ux_validate :: "ux_item list \<Rightarrow> int list \<Rightarrow> (bool \<times> ux_draw list \<times> int list) outcome" where
  "ux_validate items buttons = ux_loop items 0 True buttons"

section \<open>What the user has seen\<close>

text \<open>The events of the item \<open>i\<close>.\<close>

definition screen :: "ux_item list \<Rightarrow> nat \<Rightarrow> ux_draw list" where
  "screen items i =
    (case display_item (items ! i) (i = 0) (i = length items - 1) of Done d \<Rightarrow> d | _ \<Rightarrow> [])"

definition screens :: "ux_item list \<Rightarrow> nat list \<Rightarrow> ux_draw list" where
  "screens items is = concat (map (screen items) is)"

abbreviation neighbours :: "nat list \<Rightarrow> bool" where
  "neighbours \<equiv> successively (\<lambda>i j. j = Suc i \<or> i = Suc j)"

lemma neighbours_cover: "neighbours (i # is) \<Longrightarrow> {i..last (i # is)} \<subseteq> set (i # is)"
proof (induction "is" arbitrary: i)
  case (Cons j js)
  then have j: "{j..last (j # js)} \<subseteq> set (j # js)" "j \<le> Suc i" by (auto simp: successively_Cons)
  show ?case
  proof
    fix x assume "x \<in> {i..last (i # j # js)}"
    then have "x = i \<or> x \<in> {j..last (j # js)}" using j(2) by auto
    then show "x \<in> set (i # j # js)" using j(1) by auto
  qed
qed simp

lemma wait_input_decides:
  "wait_input action buttons = Done (button, validated, rest) \<Longrightarrow>
    (if button = BUTTON_LEFT \<or> button = BUTTON_RIGHT then validated = None
     else action \<noteq> UX_ACTION_NONE \<and> validated = Some (action = UX_ACTION_VALIDATE))"
  by (induction action buttons rule: wait_input.induct) (auto split: if_splits)

lemma ux_loop_seen:
  assumes "ux_loop items n refresh buttons = Done (v, shown, rest)" "n < length items"
  shows "\<exists>is. shown = screens items (if refresh then n # is else is) \<and> neighbours (n # is) \<and>
    last (n # is) < length items \<and> it_action (items ! last (n # is)) \<noteq> UX_ACTION_NONE \<and>
    (v \<longleftrightarrow> it_action (items ! last (n # is)) = UX_ACTION_VALIDATE)"
  using assms
proof (induction items n refresh buttons arbitrary: v shown rest rule: ux_loop.induct)
  case (1 items n refresh buttons)
  obtain d button validated bs where d: "(if refresh then display_item (items ! n) (n = 0) (n = length items - 1)
      else Done []) = Done d"
    and w: "wait_input (it_action (items ! n)) buttons = Done (button, validated, bs)"
    using "1.prems"(1) by (subst (asm) ux_loop.simps) (auto simp: then_do_Done)
  note step = "1.prems"(1) [unfolded ux_loop.simps [of items n refresh buttons] d w then_do.simps prod.case]
  have d': "d = (if refresh then screen items n else [])"
    using d by (auto simp: screen_def split: if_splits)
  show ?case
  proof (cases "ux_move (length items) n button")
    case None
    then have "validated = Some v" "shown = d" using step by (auto split: option.splits)
    moreover have "\<not> (button = BUTTON_LEFT \<or> button = BUTTON_RIGHT)"
      using None by (auto simp: ux_move_def split: if_splits)
    ultimately show ?thesis
      using wait_input_decides [OF w] d' "1.prems"(2)
      by (intro exI [of _ "[]"]) (auto simp: screens_def)
  next
    case (Some m)
    obtain n' r' where m: "m = (n', r')" by fastforce
    obtain d2 where d2: "ux_loop items n' r' bs = Done (v, d2, rest)" "shown = d @ d2"
      using step unfolding Some m option.case prod.case by (auto simp: then_do_Done)
    have n': "n' < length items" "if r' then n' = Suc n \<or> n = Suc n' else n' = n"
      using Some "1.prems"(2) unfolding m by (auto simp: ux_move_def split: if_splits)
    obtain js where js: "d2 = screens items (if r' then n' # js else js)" "neighbours (n' # js)"
      "last (n' # js) < length items" "it_action (items ! last (n' # js)) \<noteq> UX_ACTION_NONE"
      "v \<longleftrightarrow> it_action (items ! last (n' # js)) = UX_ACTION_VALIDATE"
      using "1.IH" [OF d w refl refl Some [unfolded m] refl d2(1) n'(1)] by auto
    show ?thesis
      using js n'(2) d' d2(2)
      by (intro exI [of _ "if r' then n' # js else js"]) (auto simp: screens_def successively_Cons split: if_splits)
  qed
qed

text \<open>
  C24: The user decides on what was drawn. When \<open>ux_validate\<close> returns, the last item drawn is the one
  that was pressed, its action is the decision, and every item before it has been drawn.
\<close>

theorem ux_validate_shows:
  assumes "ux_validate items buttons = Done (v, shown, rest)" "items \<noteq> []"
  shows "\<exists>is. shown = screens items is \<and> is \<noteq> [] \<and> last is < length items \<and> {0..last is} \<subseteq> set is \<and>
    it_action (items ! last is) = (if v then UX_ACTION_VALIDATE else UX_ACTION_REJECT)"
proof -
  obtain js where js: "shown = screens items (0 # js)" "neighbours (0 # js)"
    "last (0 # js) < length items" "it_action (items ! last (0 # js)) \<noteq> UX_ACTION_NONE"
    "v \<longleftrightarrow> it_action (items ! last (0 # js)) = UX_ACTION_VALIDATE"
    using ux_loop_seen [OF assms(1) [unfolded ux_validate_def]] assms(2) by auto
  then show ?thesis
    using neighbours_cover [OF js(2)]
    by (intro exI [of _ "0 # js"]) (cases "it_action (items ! last (0 # js))"; simp)
qed

text \<open>The user can reach any item that ends the dialogue.\<close>

definition item_ok :: "ux_item \<Rightarrow> bool" where
  "item_ok item \<longleftrightarrow> it_icon item \<noteq> None \<or> it_line2 item \<noteq> None"

definition element_ok :: "bagl_element \<Rightarrow> bool" where
  "element_ok e \<longleftrightarrow> (\<exists>d. display_element e = Done d)"

lemma display_elements_ok: "list_all element_ok es \<Longrightarrow> \<exists>d. display_elements es = Done d"
  by (induction es) (auto simp: element_ok_def)

lemma item_layout_ok: "item_ok item \<Longrightarrow> list_all element_ok (item_layout item)"
  by (auto simp: item_ok_def item_layout_def ux_layout_pbb_def ux_layout_pn_def ux_layout_bb_def
      element_def element_ok_def display_element_def line_text_def split: option.split)

lemma display_item_ok:
  assumes "item_ok item"
  shows "\<exists>d. display_item item first last' = Done d"
proof -
  have "list_all element_ok [ux_erase, ux_left, ux_right]"
    by (simp add: element_ok_def element_def display_element_def ux_erase_def ux_left_def ux_right_def)
  then show ?thesis
    using display_elements_ok [of "[ux_erase] @ (if \<not> first then [ux_left] else []) @
        (if \<not> last' then [ux_right] else []) @ item_layout item"] item_layout_ok [OF assms]
    by (auto simp: display_item_def simp del: display_elements.simps)
qed

lemma screen_ok:
  "item_ok (items ! i) \<Longrightarrow> display_item (items ! i) (i = 0) (i = length items - 1) = Done (screen items i)"
  using display_item_ok [of "items ! i" "i = 0" "i = length items - 1"] by (auto simp: screen_def)

lemma ux_loop_reaches:
  assumes "list_all item_ok items" "n + k < length items" "it_action (items ! (n + k)) \<noteq> UX_ACTION_NONE"
  shows "ux_loop items n True (replicate k BUTTON_RIGHT @ BUTTON_BOTH # rest) =
    Done (it_action (items ! (n + k)) = UX_ACTION_VALIDATE, screens items [n..<Suc (n + k)], rest)"
  using assms(2,3)
proof (induction k arbitrary: n)
  case 0
  then have "item_ok (items ! n)" using assms(1) by (simp add: list_all_length)
  then show ?case
    using 0 by (subst ux_loop.simps)
      (simp add: screen_ok [simplified] screens_def ux_move_def BUTTON_LEFT_def BUTTON_RIGHT_def BUTTON_BOTH_def)
next
  case (Suc k)
  then have ok: "item_ok (items ! n)" using assms(1) by (simp add: list_all_length)
  have "[n..<Suc (n + Suc k)] = n # [Suc n..<Suc (Suc n + k)]"
    by (metis Suc_n_not_le_n add_Suc_shift le_add1 not_less_eq_eq upt_conv_Cons not_le)
  moreover have "ux_move (length items) n BUTTON_RIGHT = Some (Suc n, True)"
    using Suc.prems(1) by (simp add: ux_move_def BUTTON_LEFT_def BUTTON_RIGHT_def)
  ultimately show ?case
    using Suc.IH [of "Suc n"] Suc.prems ok
    by (subst ux_loop.simps) (simp add: screen_ok [simplified] screens_def)
qed

lemma review_accepts:
  assumes "list_all item_ok items"
  shows "\<exists>shown. ux_validate (review_items what accept items)
    (replicate (Suc (length items)) BUTTON_RIGHT @ [BUTTON_BOTH]) = Done (True, shown, [])"
proof -
  have "list_all item_ok (review_items what accept items)"
    using assms by (simp add: review_items_def item_ok_def)
  moreover have "it_action (review_items what accept items ! Suc (length items)) = UX_ACTION_VALIDATE"
    "Suc (length items) < length (review_items what accept items)"
    by (simp_all add: review_items_def nth_append)
  ultimately show ?thesis
    using ux_loop_reaches [of "review_items what accept items" 0 "Suc (length items)" "[]"]
    by (simp add: ux_validate_def)
qed

lemma item_ok_text [simp]: "item_ok (text_item title line)"
  by (simp add: item_ok_def text_item_def)

text \<open>
  C25: Every decision can be reached: moving right to an item with an action and pressing both buttons
  there returns that decision, with the items up to it on the screen one after the other.
\<close>

theorem ux_validate_reaches:
  assumes "list_all item_ok items" "k < length items" "it_action (items ! k) \<noteq> UX_ACTION_NONE"
  shows "ux_validate items (replicate k BUTTON_RIGHT @ BUTTON_BOTH # rest) =
    Done (it_action (items ! k) = UX_ACTION_VALIDATE, screens items [0..<Suc k], rest)"
  using ux_loop_reaches [of items 0 k rest] assms by (simp add: ux_validate_def)

definition example_items :: "ux_item list" where
  "example_items =
    [\<lparr>it_icon = None, it_line1 = [65], it_line2 = Some [66], it_action = UX_ACTION_NONE\<rparr>,
     \<lparr>it_icon = Some C_icon_left, it_line1 = [67], it_line2 = None, it_action = UX_ACTION_VALIDATE\<rparr>]"

theorem ux_validate_reaches_witness:
  "ux_validate example_items [BUTTON_RIGHT, BUTTON_BOTH, BUTTON_LEFT] =
    Done (True, screens example_items [0, 1], [BUTTON_LEFT])"
  using ux_validate_reaches [of example_items 1 "[BUTTON_LEFT]"]
  by (simp add: example_items_def item_ok_def)

theorem ux_validate_shows_witness:
  "\<exists>shown is. ux_validate example_items [BUTTON_LEFT, BUTTON_BOTH, BUTTON_RIGHT, BUTTON_BOTH] = Done (True, shown, []) \<and>
    shown = screens example_items is \<and> {0..last is} \<subseteq> set is \<and>
    it_action (example_items ! last is) = UX_ACTION_VALIDATE"
proof -
  have ne: "example_items \<noteq> []" by (simp add: example_items_def)
  have "case ux_validate example_items [BUTTON_LEFT, BUTTON_BOTH, BUTTON_RIGHT, BUTTON_BOTH] of
      Done (v, _, rest) \<Rightarrow> v \<and> rest = [] | _ \<Rightarrow> False"
    by code_simp
  then obtain shown where u:
    "ux_validate example_items [BUTTON_LEFT, BUTTON_BOTH, BUTTON_RIGHT, BUTTON_BOTH] = Done (True, shown, [])"
    by (auto split: outcome.splits)
  from ux_validate_shows [OF u ne] show ?thesis using u by auto
qed

end
