(* ===== verification/Eth_Sign.thy ===== *)
theory Eth_Sign
  imports Rlp Eth_Amounts Ux
begin

text \<open>
  The requests of the Ethereum application that use a key (\<open>app/app-ethereum/src/sign_tx.c\<close>,
  \<open>sign.c\<close>, \<open>sign_message.c\<close>, \<open>get_pubkey.c\<close>, \<open>ui.c\<close>) and the check of an address by the exchange
  application (\<open>app/app-swap/src/eth/eth.c\<close>). The system calls and the user are parameters.
\<close>

section \<open>The environment\<close>

text \<open>What is on the screens when the user is asked to accept a transaction.\<close>

record tx_screens =
  scr_amount :: "u8 list"
  scr_address :: "u8 list"
  scr_fees :: "u8 list"
  scr_network :: "u8 list"

text \<open>
  \<open>eth_derive\<close> gives the private key and the chain code of a path, \<open>eth_keypair\<close> the public key,
  \<open>eth_ecdsa\<close> a signature, empty when it fails; \<open>eth_buf1\<close> and \<open>eth_buf2\<close> are what the buffers of
  \<open>value_to_string\<close> hold at first.
\<close>

record eth_env =
  eth_sha3 :: "u8 list \<Rightarrow> u8 list"
  eth_mult :: "u8 list \<Rightarrow> u8 list \<Rightarrow> u8 list option"
  eth_alloc :: "nat \<Rightarrow> bool"
  eth_derive :: "u32 list \<Rightarrow> (u8 list \<times> u8 list) option"
  eth_keypair :: "u8 list \<Rightarrow> u8 list option"
  eth_ecdsa :: "u8 list \<Rightarrow> u8 list \<Rightarrow> u8 list"
  eth_buttons :: "int list"
  eth_buf1 :: "u8 list"
  eth_buf2 :: "u8 list"

section \<open>Signing\<close>

text \<open>The error message, or the signature.\<close>

definition eth_sign :: "eth_env \<Rightarrow> u32 list \<Rightarrow> u8 list \<Rightarrow> string + u8 list" where
  "eth_sign E path hash =
    (case eth_derive E path of
       None \<Rightarrow> Inl ''path derivation failed''
     | Some (privkey, _) \<Rightarrow>
         let signature = eth_ecdsa E privkey hash
         in if signature = [] then Inl ''ecdsa_sign failed'' else Inr signature)"

text \<open>The dialogue about a transaction (\<open>ui_sign_tx_validation\<close> of \<open>ui.c\<close>).\<close>

definition eth_tx_items :: "tx_screens \<Rightarrow> ux_item list" where
  "eth_tx_items scr =
    review_items ''transaction'' ''and send''
      [text_item ''Amount'' (scr_amount scr), text_item ''Address'' (scr_address scr),
       text_item ''Max Fees'' (scr_fees scr), text_item ''Network'' (scr_network scr)]"

definition eth_approve_tx :: "eth_env \<Rightarrow> tx_screens \<Rightarrow> bool outcome" where
  "eth_approve_tx E scr =
    then_do (ux_validate (eth_tx_items scr) (eth_buttons E)) (\<lambda>(validated, _). Done validated)"

definition ui_set_tx_address :: "eth_env \<Rightarrow> u64 \<Rightarrow> u8 list option \<Rightarrow> u8 list outcome" where
  "ui_set_tx_address E chain_id to =
    (case to of
       None \<Rightarrow> Undefined
     | Some a \<Rightarrow> if length a < 20 then Undefined
                 else Done (getEthAddressStringFromBinary (eth_sha3 E) a chain_id))"

definition ui_set_tx_amount :: "eth_env \<Rightarrow> u64 \<Rightarrow> uint256_t \<Rightarrow> u8 list outcome" where
  "ui_set_tx_amount E chain_id amount = compute_amount (eth_buf1 E) (eth_buf2 E) chain_id amount 79"

definition ui_set_tx_network_name :: "u64 \<Rightarrow> u8 list outcome" where
  "ui_set_tx_network_name chain_id = set_network_name chain_id 79"

definition ui_set_tx_fees :: "eth_env \<Rightarrow> u64 \<Rightarrow> uint256_t \<Rightarrow> uint256_t \<Rightarrow> u8 list outcome" where
  "ui_set_tx_fees E chain_id gas_price gas_limit =
    compute_fees (eth_mult E) (eth_buf1 E) (eth_buf2 E) chain_id gas_price gas_limit 50"

text \<open>
  \<open>handle_sign_tx\<close>: an error, or the signature if the user accepted. \<open>tx\<close> is what the stack held.
  \<open>rlp_decode_list\<close> returns true when it succeeds, and the error is reported then.
\<close>

definition handle_sign_tx ::
    "eth_env \<Rightarrow> u32 list \<Rightarrow> u8 list \<Rightarrow> tx_s \<Rightarrow> (string + u8 list option) outcome" where
  "handle_sign_tx E path raw_tx tx =
    then_do (rlp_decode_list (eth_alloc E) raw_tx (tx\<lparr>tx_to := None, tx_data := None\<rparr>)) (\<lambda>(ok, tx).
      if ok then Done (Inl ''rlp decoding failed'')
      else
        let chain_id = tx_chain_id tx
        in then_do (ui_set_tx_address E chain_id (tx_to tx)) (\<lambda>address.
           then_do (ui_set_tx_amount E chain_id (tx_value tx)) (\<lambda>amount.
           then_do (ui_set_tx_network_name chain_id) (\<lambda>network.
           then_do (ui_set_tx_fees E chain_id (tx_gas_price tx) (tx_gas_limit tx)) (\<lambda>fees.
           then_do (eth_approve_tx E \<lparr>scr_amount = amount, scr_address = address,
                                      scr_fees = fees, scr_network = network\<rparr>) (\<lambda>approved.
             if \<not> approved then Done (Inr None)
             else Done (map_sum id Some (eth_sign E path (eth_sha3 E raw_tx)))))))))"

text \<open>\<open>handle_sign_message\<close>: no screen yet.\<close>

definition handle_sign_message :: "eth_env \<Rightarrow> u32 list \<Rightarrow> u8 list \<Rightarrow> string + u8 list" where
  "handle_sign_message E path message =
    (let prefix = [0x19] @ chars ''Ethereum Signed Message:'' @ [10] @ printed 10 (length message)
     in eth_sign E path (eth_sha3 E (prefix @ message)))"

section \<open>Public keys and addresses\<close>

definition derive_pubkey :: "eth_env \<Rightarrow> u32 list \<Rightarrow> string + (u8 list \<times> u8 list)" where
  "derive_pubkey E path =
    (case eth_derive E path of
       None \<Rightarrow> Inl ''path derivation failed''
     | Some (privkey, chain_code) \<Rightarrow>
         (case eth_keypair E privkey of
            None \<Rightarrow> Inl ''failed to generate keypair''
          | Some pubkey \<Rightarrow> Inr (pubkey, chain_code)))"

text \<open>
  \<open>handle_get_pubkey\<close>: public key, address and chain code; the chain identifier is always 30 there.
\<close>

definition pubkey_items :: "u8 list \<Rightarrow> ux_item list" where
  "pubkey_items address =
    [\<lparr>it_icon = Some C_icon_eye, it_line1 = chars ''Verify'', it_line2 = Some (chars ''address''),
      it_action = UX_ACTION_NONE\<rparr>,
     text_item ''Address:'' address,
     \<lparr>it_icon = Some C_icon_validate_14, it_line1 = chars ''Approve'', it_line2 = None,
      it_action = UX_ACTION_VALIDATE\<rparr>,
     \<lparr>it_icon = Some C_icon_crossmark, it_line1 = chars ''Reject'', it_line2 = None,
      it_action = UX_ACTION_REJECT\<rparr>]"

definition ui_get_pubkey_validation :: "eth_env \<Rightarrow> u8 list \<Rightarrow> bool outcome" where
  "ui_get_pubkey_validation E address =
    then_do (ux_validate (pubkey_items address) (eth_buttons E)) (\<lambda>(validated, _). Done validated)"

definition ui_set_pubkey_address :: "u8 list \<Rightarrow> u8 list" where
  "ui_set_pubkey_address address = take 63 (chars ''0x'' @ take 40 address)"

definition handle_get_pubkey ::
    "eth_env \<Rightarrow> u32 list \<Rightarrow> bool \<Rightarrow> bool \<Rightarrow> (string + (u8 list \<times> u8 list \<times> u8 list option) option) outcome" where
  "handle_get_pubkey E path confirm get_chain_code =
    (case derive_pubkey E path of
       Inl error \<Rightarrow> Done (Inl error)
     | Inr (pubkey, chain_code) \<Rightarrow>
         let address = getEthAddressStringFromKey (eth_sha3 E) pubkey 30
         in then_do (if \<not> confirm then Done True
                     else ui_get_pubkey_validation E (ui_set_pubkey_address address)) (\<lambda>approved.
            Done (Inr (if approved then Some (pubkey, address, if get_chain_code then Some chain_code else None)
                       else None))))"

definition eth_validate_address :: "eth_env \<Rightarrow> u8 list \<Rightarrow> u32 list \<Rightarrow> bool" where
  "eth_validate_address E addr path =
    (case derive_pubkey E path of
       Inl _ \<Rightarrow> False
     | Inr (pubkey, _) \<Rightarrow>
         let head = (if take 2 addr = chars ''0x'' then chars ''0x'' else [])
         in head @ getEthAddressStringFromKey (eth_sha3 E) pubkey 1 = addr)"

section \<open>Transactions\<close>

text \<open>The screens that \<open>handle_sign_tx\<close> sets up from the fields of a transaction.\<close>

definition screens_of :: "eth_env \<Rightarrow> tx_s \<Rightarrow> tx_screens outcome" where
  "screens_of E tx =
    (let chain_id = tx_chain_id tx
     in then_do (ui_set_tx_address E chain_id (tx_to tx)) (\<lambda>address.
        then_do (ui_set_tx_amount E chain_id (tx_value tx)) (\<lambda>amount.
        then_do (ui_set_tx_network_name chain_id) (\<lambda>network.
        then_do (ui_set_tx_fees E chain_id (tx_gas_price tx) (tx_gas_limit tx)) (\<lambda>fees.
          Done \<lparr>scr_amount = amount, scr_address = address, scr_fees = fees, scr_network = network\<rparr>)))))"

lemma handle_sign_tx_screens:
  "handle_sign_tx E path raw tx =
    then_do (rlp_decode_list (eth_alloc E) raw (tx\<lparr>tx_to := None, tx_data := None\<rparr>)) (\<lambda>(ok, tx).
      if ok then Done (Inl ''rlp decoding failed'')
      else then_do (screens_of E tx) (\<lambda>scr. then_do (eth_approve_tx E scr) (\<lambda>approved.
        if \<not> approved then Done (Inr None)
        else Done (map_sum id Some (eth_sign E path (eth_sha3 E raw))))))"
  by (cases "rlp_decode_list (eth_alloc E) raw (tx\<lparr>tx_to := None, tx_data := None\<rparr>)")
    (auto simp: handle_sign_tx_def screens_of_def Let_def then_do_assoc)

text \<open>
  The transactions that are read in full: fields that fit their types, one byte of data only if it
  has a header of its own, a list with a header of one byte, on a device that has the memory.
\<close>

definition tx_readable ::
    "eth_env \<Rightarrow> nat \<Rightarrow> nat \<Rightarrow> nat \<Rightarrow> u8 list \<Rightarrow> nat \<Rightarrow> u8 list \<Rightarrow> nat \<Rightarrow> bool" where
  "tx_readable E nonce gas_price gas_limit to val data chain_id \<longleftrightarrow>
    nonce < 2 ^ 256 \<and> gas_price < 2 ^ 256 \<and> gas_limit < 2 ^ 256 \<and> val < 2 ^ 256 \<and> chain_id < 2 ^ 31 \<and>
    length to = 20 \<and> (length data = 1 \<longrightarrow> \<not> data ! 0 < 0x80) \<and>
    length (concat (rlp_tx nonce gas_price gas_limit to val data chain_id)) < 56 \<and>
    mult_ok (eth_mult E) \<and> eth_alloc E 20 \<and> eth_alloc E (length data) \<and>
    length (eth_buf1 E) = 100 \<and> length (eth_buf2 E) = 100"

lemma readable_screens:
  assumes ok: "tx_readable E nonce gas_price gas_limit to val data chain_id"
    and known: "get_network (of_nat chain_id) = Some net"
    and raw: "raw = rlp_list (rlp_tx nonce gas_price gas_limit to val data chain_id)"
  shows "\<exists>s f tx'. shows_amount s val 18 \<and> shows_amount f (gas_price * gas_limit mod 2 ^ 256) 18 \<and>
    rlp_decode_list (eth_alloc E) raw (tx\<lparr>tx_to := None, tx_data := None\<rparr>) = Done (False, tx') \<and>
    screens_of E tx' = Done
      \<lparr>scr_amount = take 78 (net_ticker net @ [32] @ s),
       scr_address = getEthAddressStringFromBinary (eth_sha3 E) to (of_nat chain_id),
       scr_fees = take 49 (net_ticker net @ [32] @ f),
       scr_network = take 78 (net_name net)\<rparr>"
proof -
  have fields: "nonce < 2 ^ 256" "gas_price < 2 ^ 256" "gas_limit < 2 ^ 256" "val < 2 ^ 256"
      "chain_id < 2 ^ 31" "length to = 20" "length data = 1 \<Longrightarrow> \<not> data ! 0 < 0x80"
      "length (concat (rlp_tx nonce gas_price gas_limit to val data chain_id)) < 56"
    and env: "mult_ok (eth_mult E)" "eth_alloc E 20" "eth_alloc E (length data)"
      "length (eth_buf1 E) = 100" "length (eth_buf2 E) = 100"
    using ok unfolding tx_readable_def by blast+
  have t: "get_network_ticker (of_nat chain_id) = Some (net_ticker net)"
    "get_network_name (of_nat chain_id) = Some (net_name net)"
    using known by (simp_all add: get_network_ticker_def get_network_name_def)
  let ?v = "\<lambda>n. convertUint256BE (be_min n)"
  obtain s where s: "ui_set_tx_amount E (of_nat chain_id) (?v val) =
      Done (take 78 (net_ticker net @ [32] @ s))" "shows_amount s val 18"
    using value_to_string_shows [OF env(4,5), of 79 "net_ticker net" "?v val"]
      decode_uint256_nat(2) [OF fields(4)]
    by (auto simp: ui_set_tx_amount_def compute_amount_def t)
  have fee: "val256 (mul256 (eth_mult E) (?v gas_price) (?v gas_limit)) = gas_price * gas_limit mod 2 ^ 256"
    by (simp only: val256_mul256 [OF env(1)] decode_uint256_nat(2) [OF fields(2)]
        decode_uint256_nat(2) [OF fields(3)])
  obtain f where f: "ui_set_tx_fees E (of_nat chain_id) (?v gas_price) (?v gas_limit) =
      Done (take 49 (net_ticker net @ [32] @ f))" "shows_amount f (gas_price * gas_limit mod 2 ^ 256) 18"
    using value_to_string_shows [OF env(4,5), of 50 "net_ticker net"
        "mul256 (eth_mult E) (?v gas_price) (?v gas_limit)"] fee
    by (auto simp: ui_set_tx_fees_def compute_fees_def computeFees_def t)
  have "rlp_decode_list (eth_alloc E) raw (tx\<lparr>tx_to := None, tx_data := None\<rparr>) =
      Done (False, tx\<lparr>tx_to := None, tx_data := None, tx_nonce := ?v nonce, tx_gas_price := ?v gas_price,
        tx_gas_limit := ?v gas_limit, tx_to := Some to, tx_value := ?v val, tx_data := Some data,
        tx_chain_id := of_nat chain_id\<rparr>)"
    unfolding raw by (rule rlp_decode_list_fields) (use fields env in simp_all)
  then show ?thesis
    using s f fields(6)
    by - (rule exI [of _ s], rule exI [of _ f],
        simp add: screens_of_def ui_set_tx_address_def ui_set_tx_network_name_def
        set_network_name_def t)
qed

text \<open>
  C27: What is shown is what is signed. For every unsigned transaction on a known network with a
  chain identifier below \<open>2 ^ 31\<close>, a payload of at most 55 bytes and data other than a single byte
  below \<open>0x80\<close>, a signature is given only if the user accepts the screens with its recipient, the
  exact amount, the exact fees modulo \<open>2 ^ 256\<close>, each cut at the width of its line, and the name of
  the network; and it is a signature of the hash of that transaction.
\<close>

theorem handle_sign_tx_shows:
  assumes fields: "nonce < 2 ^ 256" "gas_price < 2 ^ 256" "gas_limit < 2 ^ 256" "val < 2 ^ 256"
      "chain_id < 2 ^ 31" "length to = 20" "length data = 1 \<Longrightarrow> \<not> data ! 0 < 0x80"
      "length (concat (rlp_tx nonce gas_price gas_limit to val data chain_id)) < 56"
    and known: "get_network (of_nat chain_id) = Some net"
    and env: "mult_ok (eth_mult E)" "eth_alloc E 20" "eth_alloc E (length data)"
      "length (eth_buf1 E) = 100" "length (eth_buf2 E) = 100"
    and raw: "raw = rlp_list (rlp_tx nonce gas_price gas_limit to val data chain_id)"
  shows "\<exists>s f. shows_amount s val 18 \<and> shows_amount f (gas_price * gas_limit mod 2 ^ 256) 18 \<and>
    handle_sign_tx E path raw tx =
      then_do (eth_approve_tx E
             \<lparr>scr_amount = take 78 (net_ticker net @ [32] @ s),
              scr_address = getEthAddressStringFromBinary (eth_sha3 E) to (of_nat chain_id),
              scr_fees = take 49 (net_ticker net @ [32] @ f),
              scr_network = take 78 (net_name net)\<rparr>)
        (\<lambda>ok. if \<not> ok then Done (Inr None) else Done (map_sum id Some (eth_sign E path (eth_sha3 E raw))))"
proof -
  have "tx_readable E nonce gas_price gas_limit to val data chain_id"
    using fields env unfolding tx_readable_def by blast
  from readable_screens [OF this known raw, of tx] obtain s f tx' where
    "shows_amount s val 18" "shows_amount f (gas_price * gas_limit mod 2 ^ 256) 18"
    and r: "rlp_decode_list (eth_alloc E) raw (tx\<lparr>tx_to := None, tx_data := None\<rparr>) = Done (False, tx')"
      "screens_of E tx' = Done
        \<lparr>scr_amount = take 78 (net_ticker net @ [32] @ s),
         scr_address = getEthAddressStringFromBinary (eth_sha3 E) to (of_nat chain_id),
         scr_fees = take 49 (net_ticker net @ [32] @ f), scr_network = take 78 (net_name net)\<rparr>"
    by blast
  then show ?thesis
    by - (rule exI [of _ s], rule exI [of _ f], simp only: handle_sign_tx_screens r then_do.simps
        prod.case if_False simp_thms)
qed

text \<open>
  C28: A transaction with a payload of more than 55 bytes is never shown: the handler goes on with
  the fields unread, and the recipient is a null pointer.
\<close>

theorem handle_sign_tx_long:
  assumes "56 \<le> length (concat items)" "length (concat items) < 2 ^ 16"
  shows "handle_sign_tx E path (rlp_list items) tx = Undefined"
  by (simp add: handle_sign_tx_def rlp_decode_list_long [OF assms] ui_set_tx_address_def)

text \<open>A transfer on a device whose user accepts.\<close>

definition example_env :: eth_env where
  "example_env =
    \<lparr>eth_sha3 = (\<lambda>_. replicate 32 0), eth_mult = school_mult, eth_alloc = (\<lambda>_. True),
     eth_derive = (\<lambda>_. Some ([1], [])), eth_keypair = (\<lambda>_. None), eth_ecdsa = (\<lambda>_ h. h),
     eth_buttons = replicate 5 BUTTON_RIGHT @ [BUTTON_BOTH],
     eth_buf1 = replicate 100 0, eth_buf2 = replicate 100 0\<rparr>"

definition example_tx :: tx_s where
  "example_tx =
    \<lparr>tx_nonce = clear256, tx_gas_price = clear256, tx_gas_limit = clear256, tx_to = None,
     tx_value = clear256, tx_data = None, tx_chain_id = 7\<rparr>"

lemma example_accepts: "eth_approve_tx example_env scr = Done True"
  using review_accepts [of "[text_item ''Amount'' (scr_amount scr), text_item ''Address'' (scr_address scr),
      text_item ''Max Fees'' (scr_fees scr), text_item ''Network'' (scr_network scr)]" "''transaction''" "''and send''"]
  by (auto simp: eth_approve_tx_def eth_tx_items_def example_env_def eval_nat_numeral)

theorem handle_sign_tx_shows_witness:
  "\<exists>s f. shows_amount s 5 18 \<and> shows_amount f 21000 18 \<and>
    handle_sign_tx example_env [] (rlp_list (rlp_tx 0 1 21000 (replicate 20 1) 5 [] 1)) example_tx =
      Done (Inr (Some (replicate 32 0)))"
proof -
  have n: "rlp_nat 0 = [0x80]" "rlp_nat 1 = [1]" "rlp_nat 5 = [5]" "length (rlp_nat 21000) \<le> 4"
    using length_be_min [of 21000 3]
    by (simp_all add: rlp_nat_def rlp_str_def rlp_header_def be_min_small)
  have short: "length (concat (rlp_tx 0 1 21000 (replicate 20 1) 5 [] 1)) < 56"
    using n by (simp add: rlp_tx_def rlp_str_def rlp_header_def)
  have net: "get_network (of_nat 1) = Some (network 1 ''Ethereum'' ''ETH'')" by code_simp
  have env: "mult_ok (eth_mult example_env)" "eth_alloc example_env 20"
    "eth_alloc example_env (length [])" "length (eth_buf1 example_env) = 100"
    "length (eth_buf2 example_env) = 100"
    by (simp_all add: example_env_def mult_ok_school)
  obtain s f where sf: "shows_amount s 5 18" "shows_amount f (1 * 21000 mod 2 ^ 256) 18"
    "handle_sign_tx example_env [] (rlp_list (rlp_tx 0 1 21000 (replicate 20 1) 5 [] 1)) example_tx =
      then_do (eth_approve_tx example_env
             \<lparr>scr_amount = take 78 (net_ticker (network 1 ''Ethereum'' ''ETH'') @ [32] @ s),
              scr_address = getEthAddressStringFromBinary (eth_sha3 example_env) (replicate 20 1) (of_nat 1),
              scr_fees = take 49 (net_ticker (network 1 ''Ethereum'' ''ETH'') @ [32] @ f),
              scr_network = take 78 (net_name (network 1 ''Ethereum'' ''ETH''))\<rparr>)
        (\<lambda>ok. if \<not> ok then Done (Inr None) else Done (map_sum id Some (eth_sign example_env []
            (eth_sha3 example_env (rlp_list (rlp_tx 0 1 21000 (replicate 20 1) 5 [] 1))))))"
    using handle_sign_tx_shows [of 0 1 21000 5 1 "replicate 20 1" "[]", OF _ _ _ _ _ _ _ short net env refl]
    by force
  have "1 * 21000 mod 2 ^ 256 = (21000 :: nat)" by simp
  then have "shows_amount f 21000 18" using sf(2) by (simp only:)
  then show ?thesis
    using sf(1) sf(3) [unfolded example_accepts then_do.simps] by (auto simp: example_env_def eth_sign_def)
qed

theorem handle_sign_tx_long_witness:
  "handle_sign_tx example_env [] (rlp_list [replicate 60 0]) example_tx = Undefined"
  by (rule handle_sign_tx_long) simp_all

end
