(* ===== verification/Eth_Tx.thy ===== *)
theory Eth_Tx
  imports Eth_Sign
begin

text \<open>
  The transaction that the exchange application builds and signs (\<open>app/app-swap/src/eth/tx.c\<close>,
  \<open>sign_tx.c\<close>). A function that moves a pointer into the buffer and counts down the room behind it
  is a function from that room to what it writes and the room that is left; \<open>None\<close> is its failure.
\<close>

section \<open>Writing items\<close>

type_synonym writer = "nat \<Rightarrow> (u8 list \<times> nat) option"

definition and_then :: "writer \<Rightarrow> writer \<Rightarrow> writer" where
  "and_then f g maxsize =
    (case f maxsize of
       None \<Rightarrow> None
     | Some (out, maxsize) \<Rightarrow> map_option (\<lambda>(out', maxsize). (out @ out', maxsize)) (g maxsize))"

definition encode_bytes :: "u8 list \<Rightarrow> writer" where
  "encode_bytes bytes maxsize =
    (let size' = length bytes
     in if size' = 0 then None
        else if size' = 1 \<and> bytes ! 0 < 0x80 then
          if maxsize < 1 then None else Some ([bytes ! 0], maxsize - 1)
        else if size' < 56 then
          if maxsize < 1 + size' then None
          else Some ((0x80 + of_nat size') # bytes, maxsize - (1 + size'))
        else None)"

definition bytes_to_uint256 :: "u8 list \<Rightarrow> uint256_t option" where
  "bytes_to_uint256 bytes =
    (if length bytes > 32 then None
     else Some (readu256BE (replicate (32 - length bytes) 0 @ bytes)))"

text \<open>The bytes of a number as they are in memory; \<open>readu256BE\<close> is used on them to swap them.\<close>

definition mem256 :: "uint256_t \<Rightarrow> u8 list" where
  "mem256 n = concat (map (le_bytes 8) (words256 n))"

definition encode_uint256 :: "uint256_t \<Rightarrow> writer" where
  "encode_uint256 n maxsize =
    (let tmp = mem256 (readu256BE (mem256 n)) in encode_bytes (dropWhile (\<lambda>b. b = 0) tmp) maxsize)"

definition swap_gas_limit :: uint256_t where
  "swap_gas_limit = u256 clear128 (u128 0 21000)"

definition encode_gas_price :: "(u8 list \<Rightarrow> u8 list \<Rightarrow> u8 list option) \<Rightarrow> u8 list \<Rightarrow> writer" where
  "encode_gas_price syscall_mult fees maxsize =
    (case bytes_to_uint256 fees of
       None \<Rightarrow> None
     | Some n \<Rightarrow> encode_uint256 (mul256 syscall_mult swap_gas_limit n) maxsize)"

definition encode_gas_limit :: writer where
  "encode_gas_limit maxsize = (if maxsize < 3 then None else Some ([0x82, 0x52, 0x08], maxsize - 3))"

definition unhex_helper :: "u8 \<Rightarrow> u8" where
  "unhex_helper c =
    (if c \<ge> 48 \<and> c \<le> 57 then c - 48
     else if c \<ge> 97 \<and> c \<le> 102 then c - 97 + 10
     else if c \<ge> 65 \<and> c \<le> 70 then c - 65 + 10
     else 0)"

definition unhex :: "u8 list \<Rightarrow> nat \<Rightarrow> u8 list" where
  "unhex hex bin_size =
    map (\<lambda>i. push_bit 4 (unhex_helper (hex ! (i * 2))) OR unhex_helper (hex ! (i * 2 + 1))) [0..<bin_size]"

definition address_digits :: "u8 list \<Rightarrow> u8 list" where
  "address_digits address = (if take 2 address \<noteq> chars ''0x'' then address else drop 2 address)"

definition encode_address :: "u8 list \<Rightarrow> writer" where
  "encode_address address maxsize =
    (let p = address_digits address
     in if length p \<noteq> 40 then None else encode_bytes (unhex p 20) maxsize)"

text \<open>The nonce is fixed, and the data are empty; chain 1 and two zeros end the list.\<close>

definition encode_nonce :: writer where
  "encode_nonce size' = (if size' < 6 then None else Some ([0x85, 0x03, 0x06, 0xdc, 0x42, 0x00], size' - 6))"

definition encode_end :: writer where
  "encode_end size' = (if size' < 4 then None else Some ([0x80, 0x01, 0x80, 0x80], size' - 4))"

definition rlp_encode_tx ::
    "(u8 list \<Rightarrow> u8 list \<Rightarrow> u8 list option) \<Rightarrow> u8 list \<Rightarrow> u8 list \<Rightarrow> u8 list \<Rightarrow> writer" where
  "rlp_encode_tx syscall_mult address amount fees =
    and_then encode_nonce
      (and_then (encode_gas_price syscall_mult fees)
        (and_then encode_gas_limit
          (and_then (encode_address address) (and_then (encode_bytes amount) encode_end))))"

section \<open>The signature\<close>

text \<open>
  \<open>sign\<close> of \<open>sign_tx.c\<close>: the DER signature in its array, and the parity. \<open>ecdsa key hash\<close> is the system
  call, which may fail. \<open>v\<close> is one byte.
\<close>

definition swap_sign ::
    "eth_env \<Rightarrow> (u8 list \<Rightarrow> u8 list \<Rightarrow> (u8 list \<times> u32) option) \<Rightarrow> u32 list \<Rightarrow> u8 list \<Rightarrow> (u8 list \<times> u8) option" where
  "swap_sign E ecdsa path hash =
    (case eth_derive E path of
       None \<Rightarrow> None
     | Some (privkey, _) \<Rightarrow> map_option (\<lambda>(sig, parity). (sig, ucast parity)) (ecdsa privkey hash))"

text \<open>The two integers of a DER signature, as \<open>sign_tx\<close> finds them.\<close>

definition der_r :: "u8 list \<Rightarrow> u8 list" where
  "der_r sig = take (unat (sig ! 3)) (drop 4 sig)"

definition der_s :: "u8 list \<Rightarrow> u8 list" where
  "der_s sig =
    (let r_size = unat (sig ! 3); s_size = unat (sig ! (4 + r_size + 1))
     in take s_size (drop (4 + r_size + 2) sig))"

definition sign_tx ::
    "eth_env \<Rightarrow> (u8 list \<Rightarrow> u8 list \<Rightarrow> (u8 list \<times> u32) option) \<Rightarrow> u32 list \<Rightarrow> u8 list \<Rightarrow> writer" where
  "sign_tx E ecdsa path tx max_size =
    (case swap_sign E ecdsa path (eth_sha3 E tx) of
       None \<Rightarrow> None
     | Some (sig, v) \<Rightarrow>
         let v = v + (1 * 2 + 35)
         in and_then (encode_bytes [v]) (and_then (encode_bytes (der_r sig)) (encode_bytes (der_s sig)))
              max_size)"

section \<open>The list\<close>

definition rlp_buffer_to_list :: "u8 list \<Rightarrow> nat \<Rightarrow> u8 list option" where
  "rlp_buffer_to_list buffer max_size =
    (let size' = length buffer
     in if size' \<ge> 0x100 then None
        else
          let offset = (if size' < 56 then 1 else if size' < 0x80 then 2 else 3)
          in if offset + size' > max_size then None
             else if size' < 56 then Some ([0xc0 + of_nat size'] @ buffer)
             else if size' < 0x80 then Some ([0xf7 + 1, of_nat size'] @ buffer)
             else Some ([0xf7 + 2, 0x80 + 1, of_nat size'] @ buffer))"

definition eth_create_tx ::
    "eth_env \<Rightarrow> (u8 list \<Rightarrow> u8 list \<Rightarrow> (u8 list \<times> u32) option) \<Rightarrow> u32 list \<Rightarrow> u8 list \<Rightarrow> u8 list \<Rightarrow>
     u8 list \<Rightarrow> nat \<Rightarrow> u8 list option" where
  "eth_create_tx E ecdsa path address amount fees max_size =
    (case rlp_encode_tx (eth_mult E) address amount fees max_size of
       None \<Rightarrow> None
     | Some (tx, size') \<Rightarrow>
         (case sign_tx E ecdsa path tx size' of
            None \<Rightarrow> None
          | Some (sig, _) \<Rightarrow> rlp_buffer_to_list (tx @ sig) max_size))"

section \<open>What is written\<close>

lemma and_then_Some:
  "and_then f g m = Some (out, m') \<longleftrightarrow>
    (\<exists>o1 m1 o2. f m = Some (o1, m1) \<and> g m1 = Some (o2, m') \<and> out = o1 @ o2)"
  by (auto simp: and_then_def split: option.splits)

text \<open>\<open>encode_bytes\<close> writes the standard's encoding of its string, if it has at most 55 bytes.\<close>

lemma encode_bytes_rlp:
  "encode_bytes s m = Some (out, m') \<longleftrightarrow>
    s \<noteq> [] \<and> length s < 56 \<and> length (rlp_str s) \<le> m \<and> out = rlp_str s \<and> m' = m - length (rlp_str s)"
proof (cases "length s = 1 \<and> s ! 0 < 0x80")
  case True
  then obtain b where "s = [b]" by (auto simp: length_Suc_conv)
  then show ?thesis using True by (auto simp: encode_bytes_def rlp_str_def)
next
  case False
  then show ?thesis by (auto simp: encode_bytes_def rlp_str_def rlp_header_def Let_def)
qed

lemma mem256_swap: "mem256 (readu256BE (mem256 n)) = write_u256_be n"
proof -
  have swap: "le_bytes 8 (readUint64BE (le_bytes 8 w)) = write_u64_be w" for w :: u64
    by (simp add: readUint64BE_le write_u64_be_le le_bytes_le_val)
  have front: "readUint64BE (le_bytes 8 w @ bs) = readUint64BE (le_bytes 8 w)" for w :: u64 and bs
    by (simp add: readUint64BE_def nth_append)
  show ?thesis
    by (simp add: mem256_def words256_def readu256BE_def readu128BE_def front swap
        write_u256_be_def u256_def u128_def)
qed

lemma encode_uint256_rlp:
  "encode_uint256 n m = Some (out, m') \<longleftrightarrow>
    val256 n \<noteq> 0 \<and> length (rlp_nat (val256 n)) \<le> m \<and> out = rlp_nat (val256 n) \<and>
    m' = m - length (rlp_nat (val256 n))"
proof -
  have "length (be_min (val256 n)) \<le> 32" using val256_lt [of n] by (intro length_be_min) simp
  moreover have "be_min (val256 n) = [] \<longleftrightarrow> val256 n = 0" using be_min_ne by auto
  ultimately show ?thesis
    by (auto simp: encode_uint256_def mem256_swap dropWhile_be_min be_val_write_u256_be
        encode_bytes_rlp rlp_nat_def)
qed

text \<open>The items that the exchange application means to write.\<close>

definition swap_tx_items :: "u8 list \<Rightarrow> u8 list \<Rightarrow> u8 list \<Rightarrow> u8 list list" where
  "swap_tx_items address amount fees =
    [rlp_nat 0x0306dc4200, rlp_nat (21000 * be_val fees mod 2 ^ 256), rlp_nat 21000,
     rlp_str (unhex (address_digits address) 20), rlp_str amount, rlp_str [], rlp_nat 1, rlp_nat 0,
     rlp_nat 0]"

text \<open>\<open>f\<close> writes nothing but \<open>out\<close>, and counts its bytes.\<close>

definition writes :: "writer \<Rightarrow> u8 list \<Rightarrow> bool" where
  "writes f out \<longleftrightarrow> (\<forall>m o' m'. f m = Some (o', m') \<longrightarrow> o' = out \<and> m' + length out = m)"

lemma writes_and_then: "writes f a \<Longrightarrow> writes g b \<Longrightarrow> writes (and_then f g) (a @ b)"
  unfolding writes_def and_then_Some by force

lemma writes_bytes: "writes (encode_bytes s) (rlp_str s)"
  by (auto simp: writes_def encode_bytes_rlp)

lemma writes_nonce: "writes encode_nonce (rlp_nat 0x0306dc4200)"
  by (auto simp: writes_def encode_nonce_def rlp_nat_def be_min.simps rlp_str_def rlp_header_def)

lemma writes_gas_price:
  assumes "mult_ok syscall_mult"
  shows "writes (encode_gas_price syscall_mult fees) (rlp_nat (21000 * be_val fees mod 2 ^ 256))"
proof -
  have "val256 swap_gas_limit = 21000" by (simp add: swap_gas_limit_def val256_def val128_def clear128_def)
  moreover have "val256 (readu256BE (replicate (32 - length fees) 0 @ fees)) = be_val fees"
    if "length fees \<le> 32"
    using that by (simp add: val256_readu256BE be_val_zeros)
  ultimately show ?thesis
    using val256_mul256 [OF assms]
    by (auto simp: writes_def encode_gas_price_def bytes_to_uint256_def encode_uint256_rlp)
qed

lemma writes_gas_limit: "writes encode_gas_limit (rlp_nat 21000)"
  by (auto simp: writes_def encode_gas_limit_def rlp_nat_def be_min.simps rlp_str_def rlp_header_def)

lemma writes_address: "writes (encode_address address) (rlp_str (unhex (address_digits address) 20))"
  by (auto simp: writes_def encode_address_def Let_def encode_bytes_rlp split: if_splits)

lemma writes_end: "writes encode_end (rlp_str [] @ rlp_nat 1 @ rlp_nat 0 @ rlp_nat 0)"
  by (auto simp: writes_def encode_end_def rlp_nat_def be_min.simps rlp_str_def rlp_header_def)

lemma writes_tx:
  "mult_ok syscall_mult \<Longrightarrow>
    writes (rlp_encode_tx syscall_mult address amount fees) (concat (swap_tx_items address amount fees))"
  unfolding rlp_encode_tx_def swap_tx_items_def concat.simps append_Nil2
  by (intro writes_and_then writes_nonce writes_gas_price writes_gas_limit writes_address writes_bytes
      writes_end)

lemma rlp_header_list:
  assumes "rlp_buffer_to_list (concat items) m = Some out"
  shows "out = (if length (concat items) < 128 then rlp_list items
      else [0xf9, 0x81, of_nat (length (concat items))] @ concat items) \<and> length out \<le> m \<and>
    (128 \<le> length (concat items) \<longrightarrow> out \<noteq> rlp_list items)"
proof -
  let ?n = "length (concat items)"
  have n: "?n < 256" using assms by (auto simp: rlp_buffer_to_list_def Let_def split: if_splits)
  have short: "rlp_header 0xc0 ?n = (if ?n < 56 then [0xc0 + of_nat ?n] else [0xf8, of_nat ?n])"
  proof (cases "?n < 56")
    case False
    then have "be_min ?n = [of_nat ?n]" using n by (intro be_min_small) linarith
    then show ?thesis using False unfolding rlp_header_def by simp
  qed (simp only: rlp_header_def if_True)
  show ?thesis
    using assms n
    by (auto simp: rlp_buffer_to_list_def Let_def rlp_list_def short split: if_splits)
qed

text \<open>
  C30: The transaction that \<open>eth_create_tx\<close> returns is the RLP list of its fields: nonce, gas price,
  gas limit, recipient, amount, data, the chain with its two zeros and the signature of what precedes
  it; it fits the buffer. From 128 bytes on, the header is not that of the standard.
\<close>

theorem eth_create_tx_rlp:
  assumes "mult_ok (eth_mult E)"
    and "eth_create_tx E ecdsa path address amount fees max_size = Some out"
  shows "\<exists>sig v. swap_sign E ecdsa path (eth_sha3 E (concat (swap_tx_items address amount fees))) = Some (sig, v) \<and>
    (let items = swap_tx_items address amount fees @ [rlp_str [v + 37], rlp_str (der_r sig), rlp_str (der_s sig)]
     in out = (if length (concat items) < 128 then rlp_list items
               else [0xf9, 0x81, of_nat (length (concat items))] @ concat items) \<and>
       length out \<le> max_size \<and> (128 \<le> length (concat items) \<longrightarrow> out \<noteq> rlp_list items))"
proof -
  obtain tx n s m where tx: "rlp_encode_tx (eth_mult E) address amount fees max_size = Some (tx, n)"
    and s: "sign_tx E ecdsa path tx n = Some (s, m)"
    and out: "rlp_buffer_to_list (tx @ s) max_size = Some out"
    using assms(2) by (auto simp: eth_create_tx_def split: option.splits)
  have tx': "tx = concat (swap_tx_items address amount fees)"
    using writes_tx [OF assms(1), of address amount fees] tx by (simp add: writes_def)
  obtain sig v where sig: "swap_sign E ecdsa path (eth_sha3 E tx) = Some (sig, v)"
    "and_then (encode_bytes [v + 37]) (and_then (encode_bytes (der_r sig)) (encode_bytes (der_s sig))) n = Some (s, m)"
    using s by (auto simp: sign_tx_def Let_def split: option.splits)
  have "writes (and_then (encode_bytes [v + 37]) (and_then (encode_bytes (der_r sig)) (encode_bytes (der_s sig))))
      (rlp_str [v + 37] @ rlp_str (der_r sig) @ rlp_str (der_s sig))"
    by (intro writes_and_then writes_bytes)
  then have "s = rlp_str [v + 37] @ rlp_str (der_r sig) @ rlp_str (der_s sig)"
    using sig(2) by (simp add: writes_def)
  then have "tx @ s = concat (swap_tx_items address amount fees @ [rlp_str [v + 37], rlp_str (der_r sig), rlp_str (der_s sig)])"
    by (simp add: tx')
  from rlp_header_list [OF out [unfolded this]] show ?thesis
    using sig(1) unfolding tx' Let_def by blast
qed

text \<open>One wei sent to an address, with a fee of two.\<close>

definition example_ecdsa :: "u8 list \<Rightarrow> u8 list \<Rightarrow> (u8 list \<times> u32) option" where
  "example_ecdsa key hash = Some ([0x30, 6, 2, 1, 5, 2, 1, 6], 1)"

lemma encode_gas_price_two:
  "6 \<le> m \<Longrightarrow> encode_gas_price school_mult [2] m = Some (rlp_nat 42000, m - length (rlp_nat 42000))"
proof -
  assume m: "6 \<le> m"
  let ?n = "mul256 school_mult swap_gas_limit (readu256BE (replicate 31 0 @ [2]))"
  have "val256 (readu256BE (replicate 31 0 @ [2])) = be_val (replicate 31 0 @ [2])"
    by (rule val256_readu256BE) simp
  also have "\<dots> = 2" by (simp only: be_val_zeros) (simp add: be_val_Cons)
  finally have "val256 ?n = 42000"
    by (simp add: val256_mul256 [OF mult_ok_school] swap_gas_limit_def val256_def [of "u256 _ _"] val128_def
        clear128_def)
  moreover have "length (rlp_nat 42000) \<le> 6"
    using length_be_min [of 42000 2] by (auto simp: rlp_nat_def rlp_str_def rlp_header_def)
  ultimately have "encode_uint256 ?n m = Some (rlp_nat 42000, m - length (rlp_nat 42000))"
    using m by (simp add: encode_uint256_rlp)
  then show ?thesis by (simp add: encode_gas_price_def bytes_to_uint256_def)
qed

lemma example_create:
  "eth_create_tx example_env example_ecdsa [] (replicate 40 48) [1] [2] 200 \<noteq> None"
proof -
  have len: "length (rlp_nat 42000) \<le> 6"
    using length_be_min [of 42000 2] by (auto simp: rlp_nat_def rlp_str_def rlp_header_def)
  have digits: "address_digits (replicate 40 48) = replicate 40 48"
    by code_simp
  have zeros: "unhex (replicate 40 48) 20 = replicate 20 0" by code_simp
  let ?l = "length (rlp_nat 42000)"
  have steps: "encode_nonce 200 = Some ([0x85, 0x03, 0x06, 0xdc, 0x42, 0x00], 194)"
    "encode_gas_price school_mult [2] 194 = Some (rlp_nat 42000, 194 - ?l)"
    "encode_gas_limit (194 - ?l) = Some ([0x82, 0x52, 0x08], 191 - ?l)"
    "encode_address (replicate 40 48) (191 - ?l) = Some (0x94 # replicate 20 0, 170 - ?l)"
    "encode_bytes [1] (170 - ?l) = Some ([1], 169 - ?l)"
    "encode_end (169 - ?l) = Some ([0x80, 0x01, 0x80, 0x80], 165 - ?l)"
    using len
    by (simp_all add: encode_nonce_def encode_gas_price_two encode_gas_limit_def encode_address_def
        digits zeros encode_bytes_def encode_end_def)
  obtain tx n where tx: "rlp_encode_tx school_mult (replicate 40 48) [1] [2] 200 = Some (tx, n)"
    "length tx + n = 200" "150 \<le> n"
    using len by (simp add: rlp_encode_tx_def and_then_def steps)
  have "sign_tx example_env example_ecdsa [] tx n = Some ([38, 5, 6], n - 3)"
    using tx(3) by (auto simp: sign_tx_def swap_sign_def example_env_def example_ecdsa_def and_then_def
        encode_bytes_def der_r_def der_s_def)
  moreover have "rlp_buffer_to_list (tx @ [38, 5, 6]) 200 \<noteq> None"
    using tx(2,3) by (simp add: rlp_buffer_to_list_def)
  ultimately show ?thesis using tx(1) by (simp add: eth_create_tx_def example_env_def)
qed

theorem eth_create_tx_rlp_witness:
  "\<exists>out sig v. eth_create_tx example_env example_ecdsa [] (replicate 40 48) [1] [2] 200 = Some out \<and>
    swap_sign example_env example_ecdsa [] (eth_sha3 example_env
      (concat (swap_tx_items (replicate 40 48) [1] [2]))) = Some (sig, v) \<and> length out \<le> 200"
proof -
  obtain out where out: "eth_create_tx example_env example_ecdsa [] (replicate 40 48) [1] [2] 200 = Some out"
    using example_create by auto
  have "mult_ok (eth_mult example_env)" by (simp add: example_env_def mult_ok_school)
  from eth_create_tx_rlp [OF this out] show ?thesis using out by (auto simp: Let_def)
qed

end
