(* ===== verification/Btc_Amount.thy ===== *)
theory Btc_Amount
  imports Eth_Amounts
begin

text \<open>
  Amounts in bitcoins (\<open>app/app-swap/src/btc/bcd.c\<close> and \<open>btc_get_printable_amount\<close> of \<open>btc.c\<close>): a
  64-bit number is turned into 21 decimal digits, one of its bits at a time, by doubling them.
\<close>

section \<open>Doubling\<close>

text \<open>
  One turn of the inner loop: the digits from \<open>smin\<close> on are prepared for their carries, then shifted
  by one bit. The loops run upwards, so \<open>scratch[k + 1]\<close> is the digit before the shift.
\<close>

definition dabble :: "u16 list \<times> nat \<Rightarrow> bool \<Rightarrow> u16 list \<times> nat" where
  "dabble = (\<lambda>(scratch, smin) shifted_in.
    let scratch = foldl (\<lambda>s k. s[k := s ! k + (if s ! k \<ge> 5 then 3 else 0)]) scratch [smin..<21];
        smin = (if scratch ! smin \<ge> 8 then smin - 1 else smin);
        scratch = foldl (\<lambda>s k. s[k := (push_bit 1 (s ! k) AND 0xF) OR (if s ! (k + 1) \<ge> 8 then 1 else 0)])
                    scratch [smin..<20];
        scratch = scratch[20 := (push_bit 1 (scratch ! 20) AND 0x0F) OR (if shifted_in then 1 else 0)]
    in (scratch, smin))"

text \<open>The bits of the amount, most significant first.\<close>

definition amount_bits :: "u8 list \<Rightarrow> bool list" where
  "amount_bits amount = concat (map (\<lambda>b. map (\<lambda>j. (b AND push_bit (7 - j) 1) \<noteq> 0) [0..<8]) amount)"

definition bcd_digits :: "u8 list \<Rightarrow> u16 list" where
  "bcd_digits amount = fst (foldl dabble (replicate 21 0, 19) (amount_bits (take 8 amount)))"

section \<open>Printing\<close>

text \<open>The loop over the first 15 digits, and the one over the 6 others up to the last that is not zero.\<close>

fun integer_digits :: "bool \<Rightarrow> u16 list \<Rightarrow> u8 list" where
  "integer_digits nonZero [] = []"
| "integer_digits nonZero (s # ss) =
    (if \<not> nonZero \<and> s = 0 then integer_digits nonZero ss
     else (ucast s + 48) # integer_digits True ss)"

fun decimal_digits :: "u16 list \<Rightarrow> u8 list" where
  "decimal_digits [] = []"
| "decimal_digits (s # ss) =
    (if allzeroes (s # ss) then [] else (ucast s + 48) # decimal_digits ss)"

text \<open>What is written to \<open>out\<close>; its length is returned.\<close>

definition btchip_convert_hex_amount_to_displayable :: "u8 list \<Rightarrow> u8 list" where
  "btchip_convert_hex_amount_to_displayable amount =
    (let scratch = bcd_digits amount;
         ip = integer_digits False (take 15 scratch); fp = decimal_digits (drop 15 scratch)
     in (if ip = [] then [48] else ip) @ (if fp = [] then [] else 46 # fp))"

text \<open>\<open>strncpy\<close> fills the buffer with zeros; the amount is written behind the ticker, whatever its size.\<close>

definition btc_get_printable_amount :: "u8 list \<Rightarrow> u8 list \<Rightarrow> (bool \<times> u8 list) outcome" where
  "btc_get_printable_amount bytes out =
    (if length bytes > 8 then Done (False, out)
     else
       let out = take (length out) (chars ''BTC '' @ replicate (length out - 4) 0);
           s = btchip_convert_hex_amount_to_displayable (replicate (8 - length bytes) 0 @ bytes)
       in if length out < 4 + length s then Undefined else Done (True, splice out 4 s))"

section \<open>The digits\<close>

definition bcd_val :: "u16 list \<Rightarrow> nat" where
  "bcd_val ds = foldl (\<lambda>v d. 10 * v + unat d) 0 ds"

lemma bcd_val_Nil [simp]: "bcd_val [] = 0"
  by (simp add: bcd_val_def)

lemma bcd_val_snoc [simp]: "bcd_val (ds @ [d]) = 10 * bcd_val ds + unat d"
  by (simp add: bcd_val_def)

lemma bcd_val_append: "bcd_val (ds @ es) = bcd_val ds * 10 ^ length es + bcd_val es"
  by (induction es rule: rev_induct) (simp_all add: algebra_simps flip: append_assoc)

lemma bcd_val_Cons: "bcd_val (d # ds) = unat d * 10 ^ length ds + bcd_val ds"
  using bcd_val_append [of "[d]" ds] bcd_val_snoc [of "[]" d] by simp

text \<open>What a turn does, without its window: the digits doubled and the carry.\<close>

definition digit_step :: "u16 \<Rightarrow> bool \<Rightarrow> u16" where
  "digit_step d c =
    (let d = d + (if d \<ge> 5 then 3 else 0) in (push_bit 1 d AND 0xF) OR (if c then 1 else 0))"

fun double_digits :: "u16 list \<Rightarrow> bool \<Rightarrow> u16 list" where
  "double_digits [] b = []"
| "double_digits (d # ds) b =
    digit_step d (case ds of [] \<Rightarrow> b | e # es \<Rightarrow> e \<ge> 5) # double_digits ds b"

lemma digit_step_small:
  assumes "d < 10"
  shows "digit_step d c < 10"
    and "10 * of_bool (d \<ge> 5) + unat (digit_step d c) = 2 * unat d + of_bool c"
    and "d + (if d \<ge> 5 then 3 else 0) \<ge> 8 \<longleftrightarrow> d \<ge> 5"
proof -
  let ?P = "\<lambda>d c. digit_step d c < 10 \<and>
    10 * of_bool (d \<ge> 5) + unat (digit_step d c) = 2 * unat d + of_bool c \<and>
    (d + (if d \<ge> 5 then 3 else 0) \<ge> 8 \<longleftrightarrow> d \<ge> 5)"
  have "list_all (\<lambda>n. list_all (\<lambda>c. ?P (of_nat n) c) [True, False]) [0..<10]" by code_simp
  moreover have "unat d \<in> set [0..<10]" using assms by (simp add: word_less_nat_alt)
  ultimately have "list_all (\<lambda>c. ?P (of_nat (unat d)) c) [True, False]" unfolding list_all_iff by blast
  then have "?P d c" by (cases c) simp_all
  then show "digit_step d c < 10"
    and "10 * of_bool (d \<ge> 5) + unat (digit_step d c) = 2 * unat d + of_bool c"
    and "d + (if d \<ge> 5 then 3 else 0) \<ge> 8 \<longleftrightarrow> d \<ge> 5" by blast+
qed

definition bcd :: "u16 list \<Rightarrow> bool" where
  "bcd ds \<longleftrightarrow> (\<forall>d \<in> set ds. d < 10)"

lemma length_double_digits [simp]: "length (double_digits ds b) = length ds"
  by (induction ds b rule: double_digits.induct) simp_all

lemma bcd_double: "bcd ds \<Longrightarrow> bcd (double_digits ds b)"
  by (induction ds b rule: double_digits.induct) (auto simp: bcd_def digit_step_small)

lemma bcd_val_double:
  "bcd ds \<Longrightarrow> (case ds of [] \<Rightarrow> of_bool b | d # _ \<Rightarrow> of_bool (d \<ge> 5)) * 10 ^ length ds +
    bcd_val (double_digits ds b) = 2 * bcd_val ds + of_bool b"
proof (induction ds)
  case Nil
  then show ?case by simp
next
  case (Cons d ds)
  let ?c = "case ds of [] \<Rightarrow> b | e # es \<Rightarrow> e \<ge> 5"
  have "d < 10" "bcd ds" using Cons.prems by (simp_all add: bcd_def)
  note d = digit_step_small(2) [OF this(1), of ?c] and IH = Cons.IH [OF this(2)]
  have c: "(case ds of [] \<Rightarrow> of_bool b | d # _ \<Rightarrow> of_bool (d \<ge> 5)) = (of_bool ?c :: nat)"
    by (simp split: list.split)
  have "of_bool (d \<ge> 5) * 10 ^ length (d # ds) + bcd_val (double_digits (d # ds) b) =
      (10 * of_bool (d \<ge> 5) + unat (digit_step d ?c)) * 10 ^ length ds + bcd_val (double_digits ds b)"
    by (simp add: bcd_val_Cons algebra_simps)
  also have "\<dots> = 2 * unat d * 10 ^ length ds + (of_bool ?c * 10 ^ length ds + bcd_val (double_digits ds b))"
    unfolding d by (simp add: algebra_simps)
  also have "\<dots> = 2 * bcd_val (d # ds) + of_bool b"
    using IH unfolding c by (simp add: bcd_val_Cons algebra_simps)
  finally show ?case by simp
qed

lemma bcd_val_lt: "bcd ds \<Longrightarrow> bcd_val ds < 10 ^ length ds"
proof (induction ds)
  case Nil
  then show ?case by simp
next
  case (Cons d ds)
  then have "unat d \<le> 9" and ds: "bcd_val ds < 10 ^ length ds"
    by (auto simp: bcd_def word_less_nat_alt)
  then have "unat d * 10 ^ length ds \<le> 9 * 10 ^ length ds" by (intro mult_right_mono) simp_all
  then have "bcd_val (d # ds) < 10 * 10 ^ length ds" using ds unfolding bcd_val_Cons by linarith
  then show ?case by simp
qed

lemma nth_double_digits:
  "i < length ds \<Longrightarrow> double_digits ds b ! i =
    digit_step (ds ! i) (if Suc i < length ds then ds ! Suc i \<ge> 5 else b)"
proof (induction ds arbitrary: i)
  case Nil
  then show ?case by simp
next
  case (Cons d ds)
  then show ?case by (cases i) (auto split: list.split)
qed

text \<open>The loops over the window.\<close>

lemma nth_fold_range:
  assumes "a \<le> b" "b \<le> length s" "b < length s \<or> (\<forall>x y z. h x y = h x z)"
  shows "length (foldl (\<lambda>s k. s[k := h (s ! k) (s ! (k + 1))]) s [a..<b]) = length s \<and>
    (\<forall>i < length s. foldl (\<lambda>s k. s[k := h (s ! k) (s ! (k + 1))]) s [a..<b] ! i =
      (if a \<le> i \<and> i < b then h (s ! i) (s ! (i + 1)) else s ! i))"
  using assms
proof (induction b rule: dec_induct)
  case base
  then show ?case by auto
next
  case (step b)
  let ?s = "foldl (\<lambda>s k. s[k := h (s ! k) (s ! (k + 1))]) s [a..<b]"
  have IH: "length ?s = length s"
    "\<And>i. i < length s \<Longrightarrow> ?s ! i = (if a \<le> i \<and> i < b then h (s ! i) (s ! (i + 1)) else s ! i)"
    using step by auto
  have "h (s ! b) (?s ! (b + 1)) = h (s ! b) (s ! (b + 1))"
    using step.prems IH(2) [of "b + 1"] by auto
  then show ?case using step.hyps step.prems IH by (auto simp: nth_list_update less_Suc_eq)
qed

text \<open>
  The invariant of the digits: they are digits, zero before the window, and there is room for the next
  carry.
\<close>

definition bcd_inv :: "u16 list \<times> nat \<Rightarrow> nat \<Rightarrow> bool" where
  "bcd_inv = (\<lambda>(ds, smin) v. length ds = 21 \<and> bcd ds \<and> bcd_val ds = v \<and> smin \<le> 19 \<and>
    (\<forall>i < smin. ds ! i = 0))"

lemma bcd_val_ge: "i < length ds \<Longrightarrow> unat (ds ! i) * 10 ^ (length ds - Suc i) \<le> bcd_val ds"
proof (induction ds arbitrary: i)
  case Nil
  then show ?case by simp
next
  case (Cons d ds)
  then show ?case
    by (cases i) (auto simp: bcd_val_Cons intro: trans_le_add2)
qed

lemma dabble_inv:
  assumes "bcd_inv (ds, smin) v" "v < 2 ^ 63"
  shows "bcd_inv (dabble (ds, smin) b) (2 * v + of_bool b)"
proof -
  have len: "length ds = 21" and bcd: "bcd ds" and v: "bcd_val ds = v" and le: "smin \<le> 19"
    and low: "\<And>i. i < smin \<Longrightarrow> ds ! i = 0"
    using assms(1) by (auto simp: bcd_inv_def)
  have d: "ds ! i < 10" if "i < 21" for i using bcd len that by (auto simp: bcd_def)
  let ?g = "\<lambda>d :: u16. d + (if d \<ge> 5 then 3 else 0)"
  let ?ds1 = "foldl (\<lambda>s k. s[k := s ! k + (if s ! k \<ge> 5 then 3 else 0)]) ds [smin..<21]"
  have one: "length ?ds1 = 21" "\<And>i. i < 21 \<Longrightarrow> ?ds1 ! i = ?g (ds ! i)"
    using nth_fold_range [of smin 21 ds "\<lambda>d _. ?g d"] len le low by auto
  let ?s = "if ?ds1 ! smin \<ge> 8 then smin - 1 else smin"
  have carry: "?ds1 ! i \<ge> 8 \<longleftrightarrow> ds ! i \<ge> 5" if "i < 21" for i
    using one(2) digit_step_small(3) d that by simp
  have top: "\<not> ds ! 0 \<ge> 5"
  proof
    assume "ds ! 0 \<ge> 5"
    then have "5 * 10 ^ 20 \<le> unat (ds ! 0) * 10 ^ 20" by (simp add: word_le_nat_alt)
    also have "\<dots> \<le> v" using bcd_val_ge [of 0 ds] len v by simp
    finally show False using assms(2) by simp
  qed
  have zero: "digit_step 0 False = 0" by (simp add: digit_step_def)
  have below: "digit_step (ds ! i) (ds ! (i + 1) \<ge> 5) = 0" "ds ! i = 0" if "i < ?s" for i
  proof -
    show i: "ds ! i = 0" using that low by (auto split: if_splits)
    have "\<not> ds ! (i + 1) \<ge> 5"
    proof (cases "i + 1 < smin")
      case False
      then have "i + 1 = smin" "\<not> ?ds1 ! smin \<ge> 8" using that by (auto split: if_splits)
      then show ?thesis using carry [of smin] le by simp
    qed (simp add: low)
    then show "digit_step (ds ! i) (ds ! (i + 1) \<ge> 5) = 0" using i zero by simp
  qed
  let ?ds2 = "foldl (\<lambda>s k. s[k := (push_bit 1 (s ! k) AND 0xF) OR (if s ! (k + 1) \<ge> 8 then 1 else 0)])
      ?ds1 [?s..<20]"
  have s20: "?s \<le> 20" using le by auto
  have two: "length ?ds2 = 21" "\<And>i. i < 20 \<Longrightarrow> ?ds2 ! i = digit_step (ds ! i) (ds ! (i + 1) \<ge> 5)"
    "?ds2 ! 20 = ?g (ds ! 20)"
  proof -
    note range = nth_fold_range [of ?s 20 ?ds1 "\<lambda>d e. (push_bit 1 d AND 0xF) OR (if e \<ge> 8 then 1 else 0)"]
    show "length ?ds2 = 21" using range s20 one(1) by simp
    show "?ds2 ! 20 = ?g (ds ! 20)" using range s20 one by simp
    fix i :: nat assume i: "i < 20"
    show "?ds2 ! i = digit_step (ds ! i) (ds ! (i + 1) \<ge> 5)"
    proof (cases "i < ?s")
      case True
      then have "?ds2 ! i = ?g (ds ! i)" using range s20 one i by simp
      then show ?thesis using below [OF True] by simp
    next
      case False
      then have "?ds2 ! i = (push_bit 1 (?ds1 ! i) AND 0xF) OR (if ?ds1 ! (i + 1) \<ge> 8 then 1 else 0)"
        using range s20 one(1) i by simp
      then show ?thesis using one(2) [of i] carry [of "i + 1"] i by (simp add: digit_step_def Let_def)
    qed
  qed
  have "?ds2[20 := (push_bit 1 (?ds2 ! 20) AND 0x0F) OR (if b then 1 else 0)] = double_digits ds b"
  proof (rule nth_equalityI)
    show "length (?ds2[20 := (push_bit 1 (?ds2 ! 20) AND 0x0F) OR (if b then 1 else 0)]) = length (double_digits ds b)"
      using two(1) len by simp
    fix i assume "i < length (?ds2[20 := (push_bit 1 (?ds2 ! 20) AND 0x0F) OR (if b then 1 else 0)])"
    then have "i < 20 \<or> i = 20" using two(1) by simp linarith
    then show "?ds2[20 := (push_bit 1 (?ds2 ! 20) AND 0x0F) OR (if b then 1 else 0)] ! i = double_digits ds b ! i"
      using two len by (auto simp: nth_double_digits digit_step_def Let_def)
  qed
  then have eq: "dabble (ds, smin) b = (double_digits ds b, ?s)"
    by (simp only: dabble_def Let_def prod.case)
  have "2 * v + of_bool b = bcd_val (double_digits ds b)"
    using bcd_val_double [OF bcd, of b] top v len by (cases ds) simp_all
  moreover have "double_digits ds b ! i = 0" if "i < ?s" for i
    using that below [OF that] s20 len le by (simp add: nth_double_digits)
  ultimately show ?thesis
    using eq bcd_double [OF bcd] len le by (auto simp: bcd_inv_def)
qed

section \<open>All bits\<close>

definition bits_val :: "nat \<Rightarrow> bool list \<Rightarrow> nat" where
  "bits_val v bs = foldl (\<lambda>v b. 2 * v + of_bool b) v bs"

lemma bits_val_ge: "v \<le> bits_val v bs"
proof (induction bs arbitrary: v)
  case Nil
  then show ?case by (simp add: bits_val_def)
next
  case (Cons b bs)
  have "v \<le> 2 * v + of_bool b" by simp
  also have "\<dots> \<le> bits_val (2 * v + of_bool b) bs" by (rule Cons)
  finally show ?case by (simp add: bits_val_def)
qed

lemma dabbles_inv:
  "bcd_inv st v \<Longrightarrow> bits_val v bs < 2 ^ 64 \<Longrightarrow> bcd_inv (foldl dabble st bs) (bits_val v bs)"
proof (induction bs arbitrary: st v)
  case Nil
  then show ?case by (simp add: bits_val_def)
next
  case (Cons b bs)
  have e: "bits_val v (b # bs) = bits_val (2 * v + of_bool b) bs" by (simp add: bits_val_def)
  then have "2 * v + of_bool b < 2 ^ 64"
    using Cons.prems(2) bits_val_ge [of "2 * v + of_bool b" bs] by (metis le_less_trans)
  then have "v < 2 ^ 63" by simp
  then have "bcd_inv (dabble st b) (2 * v + of_bool b)"
    using dabble_inv [of "fst st" "snd st" v b] Cons.prems(1) by simp
  then show ?case using Cons.IH Cons.prems(2) unfolding e by simp
qed

lemma halves: "2 * (n div 2) + of_bool (odd n) = (n :: nat)"
  by (cases "even n") simp_all

lemma byte_bits:
  "bits_val v (map (\<lambda>j. (b AND push_bit (7 - j) 1) \<noteq> 0) [0..<8]) = 256 * v + unat (b :: u8)"
proof -
  have bit: "(b AND push_bit k 1) \<noteq> 0 \<longleftrightarrow> odd (unat b div 2 ^ k)" for k
  proof -
    have "(b AND push_bit k 1) \<noteq> 0 \<longleftrightarrow> bit b k"
      using and_exp_eq_0_iff_not_bit [of b k] by (simp add: push_bit_eq_mult)
    also have "\<dots> \<longleftrightarrow> bit (unat b) k" by (simp add: bit_unsigned_iff)
    finally show ?thesis by (simp add: bit_iff_odd)
  qed
  have "bits_val v (map (\<lambda>j. (b AND push_bit (7 - j) 1) \<noteq> 0) [0..<m]) = 2 ^ m * v + unat b div 2 ^ (8 - m)"
    if "m \<le> 8" for m
    using that
  proof (induction m)
    case 0
    then show ?case using unsigned_less [of b, where 'a = nat] by (simp add: bits_val_def)
  next
    case (Suc m)
    let ?d = "unat b div 2 ^ (7 - m)"
    have "8 - m = Suc (7 - m)" using Suc.prems by simp
    then have "unat b div 2 ^ (8 - m) = ?d div 2"
      by (simp only: power_Suc2 div_mult2_eq)
    moreover have "2 * (?d div 2) + of_bool (odd ?d) = ?d"
      by (rule halves)
    ultimately show ?case
      using Suc bit [of "7 - m"] by (simp add: bits_val_def algebra_simps)
  qed
  from this [of 8] show ?thesis by simp
qed

lemma bits_val_amount: "bits_val 0 (amount_bits amount) = be_val amount"
proof -
  have "bits_val v (amount_bits amount) = v * 256 ^ length amount + be_val amount" for v
  proof (induction amount arbitrary: v)
    case Nil
    then show ?case by (simp add: amount_bits_def bits_val_def)
  next
    case (Cons b amount)
    have "bits_val v (amount_bits (b # amount)) =
        bits_val (bits_val v (map (\<lambda>j. (b AND push_bit (7 - j) 1) \<noteq> 0) [0..<8])) (amount_bits amount)"
      unfolding amount_bits_def list.map concat.simps bits_val_def foldl_append ..
    then show ?case unfolding byte_bits Cons by (simp add: be_val_Cons algebra_simps)
  qed
  then show ?thesis by simp
qed

lemma bcd_digits_correct:
  assumes "length amount = 8"
  shows "length (bcd_digits amount) = 21 \<and> bcd (bcd_digits amount) \<and> bcd_val (bcd_digits amount) = be_val amount"
proof -
  have z: "bcd_val (replicate n 0) = 0" for n by (induction n) (simp_all add: bcd_val_Cons)
  then have "bcd_inv (replicate 21 0, 19) 0" by (simp add: bcd_inv_def bcd_def)
  moreover have "bits_val 0 (amount_bits amount) < 2 ^ 64"
    using be_val_lt [of amount] assms by (simp add: bits_val_amount)
  ultimately have "bcd_inv (foldl dabble (replicate 21 0, 19) (amount_bits amount)) (be_val amount)"
    using dabbles_inv bits_val_amount by metis
  then show ?thesis
    using assms by (cases "foldl dabble (replicate 21 0, 19) (amount_bits amount)")
      (simp add: bcd_digits_def bcd_inv_def)
qed

section \<open>The amount shown\<close>

definition chr :: "u16 \<Rightarrow> u8" where
  "chr d = ucast d + 48"

lemma chr_digit:
  assumes "d < 10"
  shows "unat (chr d) = unat d + 48" and "digit (chr d)" and "chr d = 48 \<longleftrightarrow> d = 0"
proof -
  have "list_all (\<lambda>n. unat (chr (of_nat n)) = n + 48) [0..<10]" by code_simp
  moreover have "unat d \<in> set [0..<10]" using assms by (simp add: word_less_nat_alt)
  ultimately have "unat (chr (of_nat (unat d))) = unat d + 48" unfolding list_all_iff by blast
  then show u: "unat (chr d) = unat d + 48" by simp
  then show "digit (chr d)" using assms by (simp add: digit_def word_le_nat_alt word_less_nat_alt)
  have "chr d = 48 \<longleftrightarrow> unat (chr d) = 48" by (simp add: word_unat_eq_iff)
  also have "\<dots> \<longleftrightarrow> d = 0" using u by (simp add: unat_eq_0)
  finally show "chr d = 48 \<longleftrightarrow> d = 0" .
qed

lemma dec_val_chr: "bcd ds \<Longrightarrow> dec_val (map chr ds) = bcd_val ds"
  by (induction ds rule: rev_induct) (simp_all add: bcd_def chr_digit)

lemma integer_digits_eq:
  "integer_digits True ds = map chr ds"
  "integer_digits False ds = map chr (dropWhile (\<lambda>d. d = 0) ds)"
proof -
  show t: "integer_digits True ds = map chr ds" for ds by (induction ds) (simp_all add: chr_def)
  show "integer_digits False ds = map chr (dropWhile (\<lambda>d. d = 0) ds)"
    by (induction ds) (simp_all add: t chr_def)
qed

lemma strip_Cons: "strip (c # s) = (if strip s = [] \<and> c = 48 then [] else c # strip s)"
  by (simp add: strip_def dropWhile_append)

lemma strip_zero: "bcd ds \<Longrightarrow> strip (map chr ds) = [] \<longleftrightarrow> allzeroes ds"
  by (induction ds) (auto simp: strip_Cons bcd_def chr_digit allzeroes_def)

lemma decimal_digits_eq: "bcd ds \<Longrightarrow> decimal_digits ds = strip (map chr ds)"
proof (induction ds)
  case Nil
  then show ?case by simp
next
  case (Cons d ds)
  then show ?case
    using strip_zero [of "d # ds"]
    by (auto simp: bcd_def strip_Cons chr_def [of d, symmetric] add.commute split: if_splits)
qed

lemma bcd_val_drop_zeros: "bcd_val (dropWhile (\<lambda>d. d = 0) ds) = bcd_val ds"
  by (induction ds) (simp_all add: bcd_val_Cons)

lemma displayable_shows:
  assumes "length amount = 8"
  shows "shows_amount (btchip_convert_hex_amount_to_displayable amount) (be_val amount) 6 \<and>
    length (btchip_convert_hex_amount_to_displayable amount) \<le> 22 \<and>
    0 \<notin> set (btchip_convert_hex_amount_to_displayable amount)"
proof -
  let ?ds = "bcd_digits amount"
  let ?is = "dropWhile (\<lambda>d. d = 0) (take 15 ?ds)"
  let ?ip = "if ?is = [] then [48] else map chr ?is" and ?fp = "strip (map chr (drop 15 ?ds))"
  have ds: "length ?ds = 21" "bcd ?ds" "bcd_val ?ds = be_val amount"
    using bcd_digits_correct [OF assms] by simp_all
  then have bcd: "bcd (take 15 ?ds)" "bcd (drop 15 ?ds)" "bcd ?is"
    by (auto simp: bcd_def dest: in_set_takeD in_set_dropD set_dropWhileD)
  have out: "btchip_convert_hex_amount_to_displayable amount = ?ip @ (if ?fp = [] then [] else 46 # ?fp)"
    by (simp add: btchip_convert_hex_amount_to_displayable_def Let_def integer_digits_eq decimal_digits_eq bcd)
  have digits: "\<forall>c \<in> set (map chr (drop 15 ?ds)). digit c" "\<forall>c \<in> set ?ip. digit c"
    using bcd by (auto simp: bcd_def chr_digit, simp add: digit_def)
  have len: "length ?is \<le> 15" "length (strip (map chr (drop 15 ?ds))) \<le> 6"
    using length_dropWhile_le [of _ "take 15 ?ds"] length_strip [of "map chr (drop 15 ?ds)"] ds(1)
    by (auto intro: order_trans)
  have ip: "dec_val ?ip = bcd_val (take 15 ?ds)"
  proof (cases "?is = []")
    case True
    then show ?thesis
      using bcd_val_drop_zeros [of "take 15 ?ds"] by (simp add: dec_val_def del: dropWhile_eq_Nil_conv)
  next
    case False
    then show ?thesis
      using dec_val_chr [OF bcd(3)] bcd_val_drop_zeros [of "take 15 ?ds"]
      by (simp del: dropWhile_eq_Nil_conv)
  qed
  have "shows_amount (btchip_convert_hex_amount_to_displayable amount) (be_val amount) 6"
    unfolding shows_amount_def
  proof (intro exI conjI)
    show "btchip_convert_hex_amount_to_displayable amount = ?ip @ (if ?fp = [] then [] else 46 # ?fp)"
      by (rule out)
    show "?ip \<noteq> []" by simp
    show "\<forall>c \<in> set (?ip @ ?fp). digit c" 
      using digits set_strip [of "map chr (drop 15 ?ds)"] unfolding set_append by blast
    show "hd ?ip = 48 \<longrightarrow> length ?ip = 1"
      using hd_dropWhile [of "\<lambda>d. d = 0" "take 15 ?ds"] bcd(3)
      by (auto simp: hd_map bcd_def chr_digit dest: hd_in_set)
    show "?fp \<noteq> [] \<longrightarrow> last ?fp \<noteq> 48" using last_strip by blast
    show "length ?fp \<le> 6" by (rule len)
    have "be_val amount = bcd_val (take 15 ?ds) * 10 ^ 6 + bcd_val (drop 15 ?ds)"
      using bcd_val_append [of "take 15 ?ds" "drop 15 ?ds"] ds by simp
    also have "\<dots> = dec_val ?ip * 10 ^ 6 + dec_val ?fp * 10 ^ (6 - length ?fp)"
      using dec_val_strip [of "map chr (drop 15 ?ds)"] dec_val_chr [OF bcd(2)] ds(1) ip by simp
    also have "\<dots> = (dec_val ?ip * 10 ^ length ?fp + dec_val ?fp) * 10 ^ (6 - length ?fp)"
      using len(2) by (simp add: distrib_right mult.assoc flip: power_add)
    finally show "be_val amount = dec_val (?ip @ ?fp) * 10 ^ (6 - length ?fp)"
      by (simp add: dec_val_append)
  qed
  moreover have "0 \<notin> set (?ip @ (if ?fp = [] then [] else 46 # ?fp))"

  proof -
    have "0 \<notin> set ?ip" "0 \<notin> set ?fp"
      using digits set_strip [of "map chr (drop 15 ?ds)"] digit_not by blast+
    then show ?thesis by (simp del: set_map)
  qed
  ultimately show ?thesis using len by (auto simp: out)
qed

text \<open>
  C32: The exchange application shows an amount of at most 64 bits as "BTC", a space and the exact
  decimal of the amount divided by \<open>10 ^ 6\<close>: a satoshi is shown as a millionth.
\<close>

theorem btc_amount_shows:
  assumes "length bytes \<le> 8" and "27 \<le> length out"
  shows "\<exists>buf s. btc_get_printable_amount bytes out = Done (True, buf) \<and> length buf = length out \<and>
    cstr buf = chars ''BTC '' @ s \<and> shows_amount s (be_val bytes) 6"
proof -
  let ?amount = "replicate (8 - length bytes) 0 @ bytes"
  let ?s = "btchip_convert_hex_amount_to_displayable ?amount"
  let ?out = "chars ''BTC '' @ replicate (length out - 4) 0"
  have s: "shows_amount ?s (be_val bytes) 6" "length ?s \<le> 22" "0 \<notin> set ?s"
    using displayable_shows [of ?amount] assms(1) by (simp_all add: be_val_zeros)
  have btc: "length (chars ''BTC '') = 4" "0 \<notin> set (chars ''BTC '')" by (simp add: chars_def, code_simp)
  have "splice ?out 4 ?s = chars ''BTC '' @ ?s @ replicate (length out - 4 - length ?s) 0"
    using btc s(2) assms(2) by (simp add: splice_def drop_replicate)
  moreover have "cstr (chars ''BTC '' @ ?s @ replicate (length out - 4 - length ?s) 0) = chars ''BTC '' @ ?s"
    using btc s(2,3) assms(2) by (simp add: cstr_def takeWhile_append)
  moreover have "btc_get_printable_amount bytes out = Done (True, splice ?out 4 ?s)"
    using btc s(2) assms by (simp add: btc_get_printable_amount_def)
  ultimately show ?thesis
    using s(1,2) btc(1) assms(2) by (intro exI conjI) (assumption | simp)+
qed

theorem btc_amount_shows_witness:
  "\<exists>buf s. btc_get_printable_amount [5, 245, 225, 0] (replicate 32 7) = Done (True, buf) \<and>
    length buf = 32 \<and> cstr buf = chars ''BTC '' @ s \<and> shows_amount s 100000000 6"
proof -
  have "be_val [5, 245, 225, 0] = 100000000" by (simp add: be_val_Cons)
  then show ?thesis using btc_amount_shows [of "[5, 245, 225, 0]" "replicate 32 7"] by simp
qed

end
