(* ===== verification/Base58.thy ===== *)
theory Base58
  imports Sdk_Uint256
begin

text \<open>
  Base 58 (\<open>app/app-swap/src/btc/base58.c\<close>): the encoder multiplies the digits it has by 256 for each
  byte, and stops at the first position that a digit can not have reached; the decoder divides the
  digits by 256. \<open>None\<close> is the result -1.
\<close>

section \<open>The code\<close>

definition BASE58_TABLE :: "u8 list" where
  "BASE58_TABLE = [
    0xFF, 0xFF, 0xFF, 0xFF, 0xFF, 0xFF, 0xFF, 0xFF, 0xFF, 0xFF, 0xFF, 0xFF,
    0xFF, 0xFF, 0xFF, 0xFF, 0xFF, 0xFF, 0xFF, 0xFF, 0xFF, 0xFF, 0xFF, 0xFF,
    0xFF, 0xFF, 0xFF, 0xFF, 0xFF, 0xFF, 0xFF, 0xFF, 0xFF, 0xFF, 0xFF, 0xFF,
    0xFF, 0xFF, 0xFF, 0xFF, 0xFF, 0xFF, 0xFF, 0xFF, 0xFF, 0xFF, 0xFF, 0xFF,
    0xFF, 0x00, 0x01, 0x02, 0x03, 0x04, 0x05, 0x06, 0x07, 0x08, 0xFF, 0xFF,
    0xFF, 0xFF, 0xFF, 0xFF, 0xFF, 0x09, 0x0A, 0x0B, 0x0C, 0x0D, 0x0E, 0x0F,
    0x10, 0xFF, 0x11, 0x12, 0x13, 0x14, 0x15, 0xFF, 0x16, 0x17, 0x18, 0x19,
    0x1A, 0x1B, 0x1C, 0x1D, 0x1E, 0x1F, 0x20, 0xFF, 0xFF, 0xFF, 0xFF, 0xFF,
    0xFF, 0x21, 0x22, 0x23, 0x24, 0x25, 0x26, 0x27, 0x28, 0x29, 0x2A, 0x2B,
    0xFF, 0x2C, 0x2D, 0x2E, 0x2F, 0x30, 0x31, 0x32, 0x33, 0x34, 0x35, 0x36,
    0x37, 0x38, 0x39, 0xFF, 0xFF, 0xFF, 0xFF, 0xFF]"

text \<open>\<open>123456789ABCDEFGHJKLMNPQRSTUVWXYZabcdefghijkmnopqrstuvwxyz\<close>\<close>

definition BASE58_ALPHABET :: "u8 list" where
  "BASE58_ALPHABET = [
    49, 50, 51, 52, 53, 54, 55, 56, 57, 65, 66, 67, 68, 69, 70,
    71, 72, 74, 75, 76, 77, 78, 80, 81, 82, 83, 84, 85, 86, 87,
    88, 89, 90, 97, 98, 99, 100, 101, 102, 103, 104, 105, 106, 107, 109,
    110, 111, 112, 113, 114, 115, 116, 117, 118, 119, 120, 121, 122]"

text \<open>The loop over the characters: their digits.\<close>

fun table_digits :: "u8 list \<Rightarrow> u8 list option" where
  "table_digits [] = Some []"
| "table_digits (c # cs) =
    (if unat c \<ge> length BASE58_TABLE then None
     else if BASE58_TABLE ! unat c = 0xFF then None
     else map_option (\<lambda>ds. BASE58_TABLE ! unat c # ds) (table_digits cs))"

text \<open>One division by 256 of the digits from \<open>start_at\<close> on.\<close>

fun div_256 :: "u16 \<Rightarrow> u8 list \<Rightarrow> u8 list \<times> u16" where
  "div_256 remainder [] = ([], remainder)"
| "div_256 remainder (d # ds) =
    (let tmp_div = remainder * 58 + ucast d; (qs, remainder) = div_256 (tmp_div mod 256) ds
     in (ucast (tmp_div div 256) # qs, remainder))"

lemma length_div_256 [simp]: "length (fst (div_256 r ds)) = length ds"
  by (induction r ds rule: div_256.induct) (simp_all add: Let_def split: prod.split, metis fst_conv)

lemma hd_div_256 [simp]: "hd (fst (div_256 0 (d # ds))) = 0"
proof -
  have "unat (ucast d :: u16) < 256"
    using unsigned_less [of d, where 'a = nat] by (simp add: unsigned_ucast_eq take_bit_nat_eq_self)
  then have "unat ((ucast d :: u16) div 256) = 0" by (simp add: unat_div)
  then have "(ucast d :: u16) div 256 = 0" by (simp add: unat_eq_0)
  then show ?thesis by (simp add: Let_def split: prod.split)
qed

text \<open>
  The outer loop, on the digits from \<open>start_at\<close> on; the remainders are written before those that
  \<open>buffer\<close> already holds.
\<close>

function (sequential) decode_loop :: "u8 list \<Rightarrow> u8 list \<Rightarrow> u8 list" where
  "decode_loop [] buffer = buffer"
| "decode_loop ds buffer =
    (case div_256 0 ds of
       (qs, remainder) \<Rightarrow> decode_loop (if hd qs = 0 then tl qs else qs) (ucast remainder # buffer))"
  by pat_completeness auto
termination
proof (relation "measure (\<lambda>(ds, buffer). length ds)", goal_cases)
  case (2 d ds buffer qs remainder)
  then have "fst (div_256 0 (d # ds)) = qs" by (metis fst_conv)
  then show ?case using length_div_256 [of 0 "d # ds"] hd_div_256 [of d ds] by auto
qed simp

definition base58_decode :: "u8 list \<Rightarrow> nat \<Rightarrow> u8 list option" where
  "base58_decode inp out_len =
    (if length inp > 164 \<or> length inp < 2 then None
     else
       case table_digits inp of
         None \<Rightarrow> None
       | Some tmp \<Rightarrow>
           let zero_count = length (takeWhile (\<lambda>d. d = 0) tmp);
               buffer = decode_loop (drop zero_count tmp) [];
               buffer = replicate (length inp - length buffer) 0 @ buffer;
               j = zero_count + length (takeWhile (\<lambda>b. b = 0) (drop zero_count buffer));
               result = drop (j - zero_count) buffer
           in if out_len < length result then None else Some result)"

text \<open>
  The inner loop of the encoder from \<open>j\<close> on, which counts down to -1: the digits and \<open>stop_at\<close>.
\<close>

primrec encode_inner :: "u8 list \<Rightarrow> u32 \<Rightarrow> nat \<Rightarrow> u32 \<Rightarrow> u8 list \<times> u32" where
  "encode_inner buffer stop_at 0 carry = (buffer, - 1)"
| "encode_inner buffer stop_at (Suc j) carry =
    (let carry = carry + 256 * ucast (buffer ! j); buffer = buffer[j := ucast (carry mod 58)];
         carry = carry div 58
     in if of_nat j \<le> stop_at - 1 \<and> carry = 0 then (buffer, of_nat j)
        else encode_inner buffer stop_at j carry)"

definition encode_byte :: "u8 list \<times> u32 \<Rightarrow> u8 \<Rightarrow> u8 list \<times> u32" where
  "encode_byte = (\<lambda>(buffer, stop_at) b. encode_inner buffer stop_at (length buffer) (ucast b))"

definition base58_encode :: "u8 list \<Rightarrow> nat \<Rightarrow> u8 list option" where
  "base58_encode inp out_len =
    (if length inp > 120 then None
     else
       let zero_count = length (takeWhile (\<lambda>b. b = 0) inp);
           output_size = (length inp - zero_count) * 138 div 100 + 1;
           (buffer, _) = foldl encode_byte (replicate output_size 0, of_nat (output_size - 1))
                           (drop zero_count inp);
           j = length (takeWhile (\<lambda>d. d = 0) buffer)
       in if out_len < zero_count + output_size - j then None
          else Some (replicate zero_count (BASE58_ALPHABET ! 0) @
                 map (\<lambda>d. BASE58_ALPHABET ! unat d) (drop j buffer)))"

section \<open>Values of digits\<close>

definition b58_val :: "u8 list \<Rightarrow> nat" where
  "b58_val ds = foldl (\<lambda>v d. 58 * v + unat d) 0 ds"

definition b58 :: "u8 list \<Rightarrow> bool" where
  "b58 ds \<longleftrightarrow> (\<forall>d \<in> set ds. unat d < 58)"

lemma b58_val_Nil [simp]: "b58_val [] = 0"
  by (simp add: b58_val_def)

lemma b58_val_snoc [simp]: "b58_val (ds @ [d]) = 58 * b58_val ds + unat d"
  by (simp add: b58_val_def)

lemma b58_val_append: "b58_val (ds @ es) = b58_val ds * 58 ^ length es + b58_val es"
  by (induction es rule: rev_induct) (simp_all add: algebra_simps flip: append_assoc)

lemma b58_val_Cons: "b58_val (d # ds) = unat d * 58 ^ length ds + b58_val ds"
  using b58_val_append [of "[d]" ds] b58_val_snoc [of "[]" d] by simp

lemma b58_val_zeros: "b58_val (replicate n 0 @ ds) = b58_val ds"
  by (induction n) (simp_all add: b58_val_Cons)

lemma b58_val_drop_zeros: "b58_val (dropWhile (\<lambda>d. d = 0) ds) = b58_val ds"
  by (induction ds) (simp_all add: b58_val_Cons)

lemma b58_val_lt: "b58 ds \<Longrightarrow> b58_val ds < 58 ^ length ds"
proof (induction ds rule: rev_induct)
  case Nil
  then show ?case by simp
next
  case (snoc d ds)
  then show ?case by (simp add: b58_def)
qed

lemma b58_val_inject:
  "b58 ds \<Longrightarrow> b58 es \<Longrightarrow> length ds = length es \<Longrightarrow> b58_val ds = b58_val es \<Longrightarrow> ds = es"
proof (induction ds arbitrary: es rule: rev_induct)
  case Nil
  then show ?case by simp
next
  case (snoc d ds)
  then obtain e es' where es: "es = es' @ [e]" by (cases es rule: rev_cases) auto
  have u: "unat d < 58" "unat e < 58" using snoc.prems es by (simp_all add: b58_def)
  have v: "58 * b58_val ds + unat d = 58 * b58_val es' + unat e" using snoc.prems es by simp
  then have "(58 * b58_val ds + unat d) mod 58 = (58 * b58_val es' + unat e) mod 58" by simp
  then have "d = e" using u by (simp add: word_unat_eq_iff)
  then show ?case using snoc v es by (simp add: b58_def)
qed

section \<open>Multiplying by 256\<close>

lemma encode_digit:
  assumes "unat (d :: u8) < 58" "unat (carry :: u32) < 256"
  defines "c \<equiv> carry + 256 * ucast d"
  shows "unat (ucast (c mod 58) :: u8) = unat (c mod 58)" "unat (c mod 58) < 58" "unat (c div 58) < 256"
    and "58 * unat (c div 58) + unat (c mod 58) = unat carry + 256 * unat d"
proof -
  have d: "unat (ucast d :: u32) = unat d"
    unfolding unsigned_ucast_eq by (rule take_bit_nat_eq_self) (use assms(1) in simp)
  have c: "unat c = unat carry + 256 * unat d"
    using assms(1,2) by (simp add: c_def unat_word_ariths d)
  have m: "unat (c mod 58) = unat c mod 58" "unat (c div 58) = unat c div 58"
    by (simp_all add: unat_mod unat_div)
  show "unat (c mod 58) < 58" by (simp add: m)
  then show "unat (ucast (c mod 58) :: u8) = unat (c mod 58)"
    unfolding unsigned_ucast_eq by (intro take_bit_nat_eq_self) simp
  show "unat (c div 58) < 256" using assms(1,2) c m by (simp add: div_less_iff_less_mult)
  show "58 * unat (c div 58) + unat (c mod 58) = unat carry + 256 * unat d"
    unfolding m c by (rule mult_div_mod_eq)
qed

lemma less_of_times: "58 * a + d = x \<Longrightarrow> x < 58 * p \<Longrightarrow> a < p" for a d x p :: nat
  by linarith

text \<open>
  From \<open>j\<close> down, with digits only behind \<open>stop_at\<close> and room for the result, the loop stops at some \<open>j'\<close>
  before \<open>stop_at\<close>, with the digits multiplied and the carry added, and no digit before \<open>j'\<close>.
\<close>

lemma encode_inner_correct:
  assumes "j \<le> length buf" "length buf < 2 ^ 31" "b58 buf" "unat carry < 256"
    and "\<forall>i < unat stop. i < j \<longrightarrow> buf ! i = 0" "0 < unat stop" "unat stop \<le> length buf"
    and "256 * b58_val (take j buf) + unat carry < 58 ^ j" "unat stop \<le> j \<or> carry \<noteq> 0"
  shows "\<exists>buf' j'. encode_inner buf stop j carry = (buf', of_nat j') \<and> j' < j \<and> j' < unat stop \<and>
    length buf' = length buf \<and> b58 buf' \<and> drop j buf' = drop j buf \<and>
    b58_val (take j buf') = 256 * b58_val (take j buf) + unat carry \<and> (\<forall>i < j'. buf' ! i = 0) \<and>
    (Suc j' = unat stop \<or> 58 ^ (j - Suc j') \<le> 256 * b58_val (take j buf) + unat carry)"
  using assms
proof (induction j arbitrary: buf carry)
  case 0
  then show ?case by (auto simp: unat_eq_0)
next
  case (Suc j)
  let ?c = "carry + 256 * ucast (buf ! j)"
  let ?d = "ucast (?c mod 58) :: u8"
  let ?buf = "buf[j := ?d]"
  have j: "j < length buf" using Suc.prems(1) by simp
  have "unat (buf ! j) < 58" using Suc.prems(3) j by (simp add: b58_def)
  note digit = encode_digit [OF this Suc.prems(4)]
  have take: "take (Suc j) buf = take j buf @ [buf ! j]" using j by (simp add: take_Suc_conv_app_nth)
  have val: "58 * (256 * b58_val (take j buf) + unat (?c div 58)) + unat ?d =
      256 * b58_val (take (Suc j) buf) + unat carry"
    using digit(4) unfolding take b58_val_snoc digit(1) by (simp add: algebra_simps)
  have small: "256 * b58_val (take j buf) + unat (?c div 58) < 58 ^ j"
    using less_of_times [OF val] Suc.prems(8) by simp
  have b58': "b58 ?buf"
    using Suc.prems(3) digit(1,2) by (auto simp: b58_def dest!: set_update_subset_insert [THEN subsetD])
  have stop: "unat (stop - 1) = unat stop - 1" using Suc.prems(6) by (simp add: unat_minus_one unat_gt_0)
  have jw: "unat (of_nat j :: u32) = j"
    using j Suc.prems(2) by (simp add: unat_of_nat take_bit_nat_eq_self)
  have done_iff: "of_nat j \<le> stop - 1 \<and> ?c div 58 = 0 \<longleftrightarrow> j < unat stop \<and> ?c div 58 = 0"
    using Suc.prems(6) by (auto simp: word_le_nat_alt stop jw)
  show ?case
  proof (cases "j < unat stop \<and> ?c div 58 = 0")
    case True
    then have zero: "\<forall>i < j. buf ! i = 0" using Suc.prems(5) by auto
    then have "take j buf = replicate j 0" using j by (auto intro!: nth_equalityI)
    then have v0: "b58_val (take j buf) = 0" using b58_val_zeros [of j "[]"] by simp
    have "take (Suc j) ?buf = take j buf @ [?d]" using j by (simp add: take_Suc_conv_app_nth)
    then have v: "b58_val (take (Suc j) ?buf) = 256 * b58_val (take (Suc j) buf) + unat carry"
      using val v0 True by simp
    have "encode_inner buf stop (Suc j) carry = (?buf, of_nat j)"
      using True done_iff by (simp add: Let_def)
    moreover have "Suc j = unat stop \<or> 1 \<le> 256 * b58_val (take (Suc j) buf) + unat carry"
      using Suc.prems(9) True by (auto simp: unat_gt_0 Suc_le_eq)
    ultimately show ?thesis
      using True v b58' zero j by (intro exI [of _ ?buf] exI [of _ j]) auto
  next
    case False
    then have e: "encode_inner buf stop (Suc j) carry = encode_inner ?buf stop j (?c div 58)"
      using done_iff by (simp only: encode_inner.simps Let_def if_False)
    have same: "take j ?buf = take j buf" by simp
    have "unat stop \<le> j \<or> ?c div 58 \<noteq> 0" using False by auto
    then obtain buf' j' where IH: "encode_inner ?buf stop j (?c div 58) = (buf', of_nat j')" "j' < j"
      "j' < unat stop" "length buf' = length buf" "b58 buf'" "drop j buf' = drop j ?buf"
      "b58_val (take j buf') = 256 * b58_val (take j buf) + unat (?c div 58)" "\<forall>i < j'. buf' ! i = 0"
      "Suc j' = unat stop \<or> 58 ^ (j - Suc j') \<le> 256 * b58_val (take j buf) + unat (?c div 58)"
      using Suc.IH [of ?buf "?c div 58"] Suc.prems(2,5,6,7) j b58' digit(3) small by auto
    have nth: "buf' ! j = ?d"
      using IH(4,6) j by (metis hd_drop_conv_nth length_list_update nth_list_update_eq)
    have take': "take (Suc j) buf' = take j buf' @ [?d]"
      using IH(4) j nth by (simp add: take_Suc_conv_app_nth)
    have "b58_val (take (Suc j) buf') = 256 * b58_val (take (Suc j) buf) + unat carry"
      using val unfolding take' b58_val_snoc IH(7) by simp
    moreover have "drop (Suc j) buf' = drop (Suc j) buf"
      using arg_cong [OF IH(6), of tl] by (simp only: tl_drop drop_Suc [symmetric]) simp
    moreover have "Suc j' = unat stop \<or> 58 ^ (Suc j - Suc j') \<le> 256 * b58_val (take (Suc j) buf) + unat carry"
    proof (cases "Suc j' = unat stop")
      case False
      then have "58 * 58 ^ (j - Suc j') \<le> 58 * (256 * b58_val (take j buf) + unat (?c div 58)) + unat ?d"
        using IH(9) by simp
      moreover have "Suc j - Suc j' = Suc (j - Suc j')" using IH(2) by simp
      ultimately show ?thesis unfolding val by simp
    qed simp
    ultimately show ?thesis
      using IH(1-5,8) e by (intro exI [of _ buf'] exI [of _ j']) simp
  qed
qed

section \<open>All bytes\<close>

text \<open>At most \<open>digits_bound k\<close> digits are needed for \<open>k\<close> bytes: 30 bytes take no more than 41.\<close>

definition digits_bound :: "nat \<Rightarrow> nat" where
  "digits_bound k = (41 * k + 29) div 30"

lemma power_digits: "(256 :: nat) ^ k \<le> 58 ^ digits_bound k"
proof -
  have "41 * k \<le> 30 * digits_bound k" by (simp add: digits_bound_def)
  then have "(58 :: nat) ^ (41 * k) \<le> 58 ^ (30 * digits_bound k)" by (intro power_increasing) simp_all
  moreover have "((256 :: nat) ^ 30) ^ k \<le> (58 ^ 41) ^ k" by (intro power_mono) simp_all
  moreover have "((256 :: nat) ^ 30) ^ k = (256 ^ k) ^ 30" by (simp only: power_mult [symmetric] mult.commute)
  moreover have "((58 :: nat) ^ 41) ^ k = 58 ^ (41 * k)" by (simp only: power_mult)
  moreover have "(58 :: nat) ^ (30 * digits_bound k) = (58 ^ digits_bound k) ^ 30"
    by (simp only: power_mult [symmetric] mult.commute)
  ultimately have "((256 :: nat) ^ k) ^ 30 \<le> (58 ^ digits_bound k) ^ 30" by linarith
  then show ?thesis by (simp only: power_mono_iff zero_le zero_less_numeral)
qed

lemma bound_step: "digits_bound k + 1 \<le> digits_bound (Suc k)"
  by (simp add: digits_bound_def)

definition encode_size :: "nat \<Rightarrow> nat" where
  "encode_size n = n * 138 div 100 + 1"

lemma bound_size: "k < n \<Longrightarrow> digits_bound k < encode_size n" "digits_bound n \<le> encode_size n"
proof -
  have x: "138 * n < 100 * encode_size n"
    using mult_div_mod_eq [of 100 "n * 138"] mod_less_divisor [of 100 "n * 138"]
    by (simp add: encode_size_def)
  have q: "30 * digits_bound k \<le> 41 * k + 29" for k by (simp add: digits_bound_def)
  show "digits_bound k < encode_size n" if "k < n"
    using x q [of k] that by linarith
  show "digits_bound n \<le> encode_size n"
    using x q [of n] by linarith
qed

text \<open>The digits after \<open>k\<close> bytes, of \<open>n\<close>.\<close>

definition encode_inv :: "nat \<Rightarrow> u8 list \<Rightarrow> u8 list \<times> u32 \<Rightarrow> bool" where
  "encode_inv n bs = (\<lambda>(buf, stop). length buf = encode_size n \<and> b58 buf \<and> b58_val buf = be_val bs \<and>
    (\<forall>i < unat stop. buf ! i = 0) \<and> unat stop < length buf \<and>
    length buf \<le> unat stop + max 1 (digits_bound (length bs)))"

lemma encode_byte_inv:
  assumes inv: "encode_inv n bs (buf, stop)" and n: "length bs < n" "n \<le> 120"
  shows "encode_inv n (bs @ [b]) (encode_byte (buf, stop) b)"
proof -
  let ?os = "encode_size n" and ?k = "length bs"
  have len: "length buf = ?os" and buf: "b58 buf" "b58_val buf = be_val bs"
    and zero: "\<forall>i < unat stop. buf ! i = 0" and stop: "unat stop < ?os"
    and room: "?os \<le> unat stop + max 1 (digits_bound ?k)"
    using inv by (auto simp: encode_inv_def)
  have os: "?os < 2 ^ 31" "2 \<le> ?os" using n by (simp_all add: encode_size_def)
  have "max 1 (digits_bound ?k) < ?os" using bound_size(1) [OF n(1)] os by simp
  then have pos: "0 < unat stop" using room by linarith
  have b: "unat (ucast b :: u32) = unat b" "unat b < 256"
    using unsigned_less [of b, where 'a = nat] by (simp_all add: unsigned_ucast_eq take_bit_nat_eq_self)
  let ?v = "256 * be_val bs + unat b"
  have "?v < 256 ^ Suc ?k" using be_val_lt [of "bs @ [b]"] by simp
  then have v: "?v < 58 ^ digits_bound (Suc ?k)" using power_digits [of "Suc ?k"] by linarith
  have bound: "digits_bound (Suc ?k) \<le> ?os"
    using bound_size n(1) by (metis Suc_leI le_neq_implies_less less_imp_le)
  then have "(58 :: nat) ^ digits_bound (Suc ?k) \<le> 58 ^ ?os" by (intro power_increasing) simp_all
  then have fits: "?v < 58 ^ ?os" using v by linarith
  obtain buf' j where r: "encode_inner buf stop ?os (ucast b) = (buf', of_nat j)" "j < ?os" "j < unat stop"
    "length buf' = ?os" "b58 buf'" "b58_val buf' = ?v" "\<forall>i < j. buf' ! i = 0"
    "Suc j = unat stop \<or> 58 ^ (?os - Suc j) \<le> ?v"
    using encode_inner_correct [of ?os buf "ucast b" stop] len os(1) buf b zero pos stop fits by auto
  have "?os - j \<le> digits_bound (Suc ?k)"
    using r(8)
  proof
    assume "Suc j = unat stop"
    then have "?os - j \<le> max 1 (digits_bound ?k) + 1" using room by simp
    moreover have "1 \<le> digits_bound (Suc ?k) \<and> (?k = 0 \<longrightarrow> digits_bound (Suc ?k) = 2)"
      by (simp add: digits_bound_def)
    moreover have "digits_bound 0 = 0" by (simp add: digits_bound_def)
    moreover have "?k \<noteq> 0 \<Longrightarrow> 1 \<le> digits_bound ?k" using bound_step [of "?k - 1"] by simp
    ultimately show ?thesis using bound_step [of ?k] by (cases "?k = 0") auto
  next
    assume "58 ^ (?os - Suc j) \<le> ?v"
    then have "(58 :: nat) ^ (?os - Suc j) < 58 ^ digits_bound (Suc ?k)" using v by linarith
    then have "?os - Suc j < digits_bound (Suc ?k)" by (rule power_less_imp_less_exp [rotated]) simp
    then show ?thesis using r(2) by simp
  qed
  moreover have "unat (of_nat j :: u32) = j"
    using r(2) os(1) by (simp add: unat_of_nat take_bit_nat_eq_self)
  ultimately show ?thesis
    using r len by (simp add: encode_inv_def encode_byte_def)
qed

lemma encode_bytes_inv:
  assumes "encode_inv n bs st" "length (bs @ cs) \<le> n" "n \<le> 120"
  shows "encode_inv n (bs @ cs) (foldl encode_byte st cs)"
  using assms
proof (induction cs arbitrary: bs st)
  case Nil
  then show ?case by simp
next
  case (Cons c cs)
  then have "encode_inv n (bs @ [c]) (encode_byte st c)"
    using encode_byte_inv [of n bs "fst st" "snd st" c] by simp
  then show ?case using Cons.IH [of "bs @ [c]"] Cons.prems by simp
qed

section \<open>The encoding\<close>

function digits58 :: "nat \<Rightarrow> u8 list" where
  "digits58 n = (if n = 0 then [] else digits58 (n div 58) @ [of_nat (n mod 58)])"
  by pat_completeness auto
termination by (relation "measure id") auto

declare digits58.simps [simp del]

lemma digits58_0 [simp]: "digits58 0 = []"
  by (simp add: digits58.simps)

lemma digits58_val: "ds = [] \<or> hd ds \<noteq> 0 \<Longrightarrow> b58 ds \<Longrightarrow> digits58 (b58_val ds) = ds"
proof (induction ds rule: rev_induct)
  case Nil
  then show ?case by simp
next
  case (snoc d ds)
  have d: "unat d < 58" "b58 ds" using snoc.prems by (simp_all add: b58_def)
  have IH: "digits58 (b58_val ds) = ds" using snoc d by (cases ds) auto
  have "58 * b58_val ds + unat d \<noteq> 0"
  proof (cases "ds = []")
    case True
    then show ?thesis using snoc.prems by (simp add: unat_eq_0)
  next
    case False
    then have "b58_val ds \<noteq> 0" using IH digits58_0 by metis
    then show ?thesis by simp
  qed
  then show ?case using IH d by (subst digits58.simps) simp
qed

lemma b58_drop_zeros: "b58 ds \<Longrightarrow> dropWhile (\<lambda>d. d = 0) ds = digits58 (b58_val ds)"
proof -
  let ?e = "dropWhile (\<lambda>d. d = 0) ds"
  assume "b58 ds"
  then have "b58 ?e" by (auto simp: b58_def dest: set_dropWhileD)
  moreover have "?e = [] \<or> hd ?e \<noteq> 0" using hd_dropWhile [of "\<lambda>d. d = 0" ds] by blast
  ultimately have "digits58 (b58_val ?e) = ?e" by (intro digits58_val)
  then show ?thesis by (simp add: b58_val_drop_zeros)
qed

text \<open>A 1 for each zero byte at the start, and the digits of the number that the bytes are.\<close>

definition base58_text :: "u8 list \<Rightarrow> u8 list" where
  "base58_text bs =
    replicate (length (takeWhile (\<lambda>b. b = 0) bs)) (BASE58_ALPHABET ! 0) @
    map (\<lambda>d. BASE58_ALPHABET ! unat d) (digits58 (be_val bs))"

lemma drop_takeWhile: "drop (length (takeWhile P xs)) xs = dropWhile P xs"
  by (metis append_eq_conv_conj takeWhile_dropWhile_id)

lemma length_dropWhile: "length (dropWhile P xs) = length xs - length (takeWhile P xs)"
  by (metis drop_takeWhile length_drop)

lemma be_val_drop_zeros: "be_val (dropWhile (\<lambda>b. b = 0) bs) = be_val bs"
  by (induction bs) (simp_all add: be_val_Cons)

lemma encoded_digits:
  assumes "length bs \<le> 120" "n = length bs - length (takeWhile (\<lambda>b. b = 0) bs)"
  obtains buf stop where
    "foldl encode_byte (replicate (encode_size n) 0, of_nat (encode_size n - 1))
       (dropWhile (\<lambda>b. b = 0) bs) = (buf, stop)"
    "length buf = encode_size n" "dropWhile (\<lambda>d. d = 0) buf = digits58 (be_val bs)"
    "length (digits58 (be_val bs)) \<le> max 1 (digits_bound n)"
proof -
  let ?cs = "dropWhile (\<lambda>b. b = 0) bs"
  have n: "length ?cs = n" "n \<le> 120"
    using assms by (simp_all add: length_dropWhile)
  have size': "0 < encode_size n" "encode_size n < 2 ^ 31"
    using n by (simp_all add: encode_size_def)
  then have "encode_size n - 1 < 2 ^ LENGTH(32)" by simp
  then have u: "unat (of_nat (encode_size n - 1) :: u32) = encode_size n - 1"
    by (simp only: unsigned_of_nat of_nat_id) (rule take_bit_nat_eq_self)
  have "b58_val (replicate k 0) = 0" for k using b58_val_zeros [of k "[]"] by simp
  then have "encode_inv n [] (replicate (encode_size n) 0, of_nat (encode_size n - 1))"
    using size'(1) unfolding encode_inv_def prod.case u by (simp add: b58_def)
  from encode_bytes_inv [OF this, of ?cs] n obtain buf stop where
    r: "foldl encode_byte (replicate (encode_size n) 0, of_nat (encode_size n - 1)) ?cs = (buf, stop)"
      "encode_inv n ?cs (buf, stop)"
    by (cases "foldl encode_byte (replicate (encode_size n) 0, of_nat (encode_size n - 1)) ?cs") auto
  have buf: "length buf = encode_size n" "b58 buf" "b58_val buf = be_val bs"
    "\<forall>i < unat stop. buf ! i = 0" "length buf \<le> unat stop + max 1 (digits_bound n)" "unat stop < length buf"
    using r(2) n(1) by (auto simp: encode_inv_def be_val_drop_zeros)
  have d: "dropWhile (\<lambda>d. d = 0) buf = digits58 (be_val bs)" using b58_drop_zeros [OF buf(2)] buf(3) by simp
  have "unat stop \<le> length (takeWhile (\<lambda>d. d = 0) buf)"
    using buf(4,6) by (intro length_takeWhile_less_P_nth) auto
  then have "length (digits58 (be_val bs)) \<le> length buf - unat stop"
    using d arg_cong [OF takeWhile_dropWhile_id [of "\<lambda>d. d = 0" buf], of length] by simp
  then show thesis using that r(1) buf(1,5) d by simp
qed

lemma base58_encode_text:
  assumes "length bs \<le> 120"
  shows "base58_encode bs out_len =
    (if out_len < length (base58_text bs) then None else Some (base58_text bs))"
proof -
  let ?z = "length (takeWhile (\<lambda>b. b = 0) bs)"
  let ?n = "length bs - ?z"
  obtain buf stop where r: "foldl encode_byte (replicate (encode_size ?n) 0, of_nat (encode_size ?n - 1))
       (dropWhile (\<lambda>b. b = 0) bs) = (buf, stop)"
    "length buf = encode_size ?n" "dropWhile (\<lambda>d. d = 0) buf = digits58 (be_val bs)"
    using encoded_digits [OF assms refl] by metis
  let ?j = "length (takeWhile (\<lambda>d. d = 0) buf)"
  have "encode_size ?n = ?j + length (digits58 (be_val bs))"
    using r(2,3) arg_cong [OF takeWhile_dropWhile_id [of "\<lambda>d. d = 0" buf], of length] by simp
  then have len: "?z + encode_size ?n - ?j = length (base58_text bs)" by (simp add: base58_text_def)
  show ?thesis
    using assms r(1,3) len
    by (simp add: base58_encode_def encode_size_def Let_def drop_takeWhile base58_text_def)
qed

section \<open>Decoding\<close>

lemma div_256_correct:
  assumes "b58 ds" "unat r < 256" "div_256 r ds = (qs, r')"
  shows "b58 qs \<and> length qs = length ds \<and> unat r' < 256 \<and>
    256 * b58_val qs + unat r' = unat r * 58 ^ length ds + b58_val ds"
  using assms
proof (induction ds arbitrary: r qs r')
  case Nil
  then show ?case by (simp add: b58_def)
next
  case (Cons d ds)
  let ?t = "r * 58 + ucast d"
  obtain qs' where q: "div_256 (?t mod 256) ds = (qs', r')" "qs = ucast (?t div 256) # qs'"
    using Cons.prems(3) by (auto simp: Let_def split: prod.splits)
  have d: "unat d < 58" "b58 ds" using Cons.prems(1) by (simp_all add: b58_def)
  then have "unat (ucast d :: u16) = unat d"
    unfolding unsigned_ucast_eq by (intro take_bit_nat_eq_self) simp
  then have t: "unat ?t = unat r * 58 + unat d"
    using Cons.prems(2) d by (simp add: unat_word_ariths)
  have m: "unat (?t mod 256) = unat ?t mod 256" "unat (?t div 256) = unat ?t div 256"
    by (simp_all add: unat_mod unat_div)
  have lt: "unat ?t div 256 < 58" using Cons.prems(2) d unfolding t by (simp add: div_less_iff_less_mult)
  then have h: "unat (ucast (?t div 256) :: u8) = unat ?t div 256"
    unfolding unsigned_ucast_eq m by (intro take_bit_nat_eq_self) simp
  have IH: "b58 qs'" "length qs' = length ds" "unat r' < 256"
    "256 * b58_val qs' + unat r' = unat ?t mod 256 * 58 ^ length ds + b58_val ds"
    using Cons.IH [OF d(2) _ q(1)] m by simp_all
  have "256 * b58_val qs + unat r' =
      (256 * (unat ?t div 256)) * 58 ^ length ds + (256 * b58_val qs' + unat r')"
    by (simp add: q(2) b58_val_Cons h IH(2))
  also have "\<dots> = (256 * (unat ?t div 256) + unat ?t mod 256) * 58 ^ length ds + b58_val ds"
    unfolding IH(4) by (simp only: distrib_right add.assoc)
  also have "\<dots> = unat r * 58 ^ length (d # ds) + b58_val (d # ds)"
    unfolding mult_div_mod_eq t by (simp add: b58_val_Cons algebra_simps)
  finally show ?case using IH lt h by (simp add: q(2) b58_def)
qed

lemma decode_loop_correct: "b58 ds \<Longrightarrow> decode_loop ds acc = be_bytes (length ds) (b58_val ds) @ acc"
proof (induction ds acc rule: decode_loop.induct)
  case (1 acc)
  then show ?case by simp
next
  case (2 d ds acc)
  obtain qs r where q: "div_256 0 (d # ds) = (qs, r)" by fastforce
  then have hd: "hd qs = 0" using hd_div_256 [of d ds] by simp
  have c: "b58 qs" "length qs = Suc (length ds)" "unat r < 256" "256 * b58_val qs + unat r = b58_val (d # ds)"
    using div_256_correct [OF 2(2) _ q] by simp_all
  then obtain qs' where qs: "qs = 0 # qs'" using hd by (cases qs) auto
  have e: "b58_val (d # ds) = 256 * b58_val qs' + unat r"
    unfolding c(4) [symmetric] qs by (simp add: b58_val_Cons)
  have v: "b58_val qs' = b58_val (d # ds) div 256" "unat r = b58_val (d # ds) mod 256" "b58 qs'"
    using c(1,3) qs unfolding e by (simp_all add: b58_def)
  have "(ucast r :: u8) = of_nat (b58_val (d # ds) mod 256)"
    by (simp flip: v(2))
  moreover have "decode_loop qs' (ucast r # acc) = be_bytes (length qs') (b58_val qs') @ ucast r # acc"
    using 2(1) [OF q [symmetric]] hd qs v(3) by simp
  ultimately show ?case using q hd qs c(2) v(1) by simp
qed

lemma table_alphabet:
  assumes "unat d < 58"
  shows "unat (BASE58_ALPHABET ! unat d) < length BASE58_TABLE"
    and "BASE58_TABLE ! unat (BASE58_ALPHABET ! unat d) = d" and "d \<noteq> 0xFF"
proof -
  have "list_all (\<lambda>n. unat (BASE58_ALPHABET ! n) < length BASE58_TABLE \<and>
      BASE58_TABLE ! unat (BASE58_ALPHABET ! n) = of_nat n) [0..<58]" by code_simp
  moreover have "unat d \<in> set [0..<58]" using assms by simp
  ultimately have "unat (BASE58_ALPHABET ! unat d) < length BASE58_TABLE \<and>
      BASE58_TABLE ! unat (BASE58_ALPHABET ! unat d) = of_nat (unat d)" unfolding list_all_iff by blast
  then show "unat (BASE58_ALPHABET ! unat d) < length BASE58_TABLE"
    and "BASE58_TABLE ! unat (BASE58_ALPHABET ! unat d) = d" by simp_all
  show "d \<noteq> 0xFF" using assms by auto
qed

lemma table_digits_alphabet: "b58 ds \<Longrightarrow> table_digits (map (\<lambda>d. BASE58_ALPHABET ! unat d) ds) = Some ds"
  by (induction ds) (auto simp: b58_def table_alphabet not_le)

lemma b58_digits58: "b58 (digits58 n)"
proof (induction n rule: digits58.induct)
  case (1 n)
  then show ?case
    by (subst digits58.simps) (auto simp: b58_def unat_of_nat take_bit_nat_eq_self)
qed

lemma b58_val_digits58 [simp]: "b58_val (digits58 n) = n"
proof (induction n rule: digits58.induct)
  case (1 n)
  then show ?case by (subst digits58.simps) (simp add: unat_of_nat take_bit_nat_eq_self)
qed

lemma digits58_lead: "takeWhile (\<lambda>d. d = 0) (digits58 n) = []"
proof (induction n rule: digits58.induct)
  case (1 n)
  show ?case
  proof (cases "n div 58 = 0")
    case True
    then have "n < 58" by (simp add: div_eq_0_iff)
    then show ?thesis
      by (subst digits58.simps) (auto simp: div_eq_0_iff word_unat_eq_iff unat_of_nat take_bit_nat_eq_self)
  next
    case False
    have "digits58 (n div 58) \<noteq> []" using False b58_val_digits58 [of "n div 58"] by (metis b58_val_Nil)
    moreover have "n \<noteq> 0" using False by auto
    ultimately show ?thesis using 1 False
      by (subst digits58.simps) (cases "digits58 (n div 58)"; auto split: if_splits)
  qed
qed

lemma base58_text_length:
  assumes "length bs \<le> 120"
  shows "length (base58_text bs) \<le> 164"
proof -
  let ?z = "length (takeWhile (\<lambda>b. b = 0) bs)"
  have ds: "length (digits58 (be_val bs)) \<le> max 1 (digits_bound (length bs - ?z))"
    using encoded_digits [OF assms refl] by metis
  have "?z \<le> length bs" by (rule length_takeWhile_le)
  then have "?z + max 1 (digits_bound (length bs - ?z)) \<le> 164 \<or> length bs = ?z"
    using assms by (auto simp: digits_bound_def)
  moreover have "digits58 (be_val bs) = []" if "length bs = ?z"
  proof -
    have "dropWhile (\<lambda>b. b = 0) bs = []" using that length_dropWhile [of "\<lambda>b. b = 0" bs] by simp
    then have "be_val bs = 0" using be_val_drop_zeros [of bs] by (metis be_val_Nil)
    then show ?thesis by simp
  qed
  ultimately show ?thesis using ds assms by (auto simp: base58_text_def)
qed

lemma drop_zeros_swap: "drop j (replicate i 0 @ replicate j (0 :: u8) @ xs) = replicate i 0 @ xs"
proof -
  have "replicate i 0 @ replicate j (0 :: u8) = replicate j 0 @ replicate i 0"
    by (simp flip: replicate_add add: add.commute)
  then have "replicate i 0 @ replicate j 0 @ xs = replicate j 0 @ replicate i 0 @ xs"
    by (metis append_assoc)
  then show ?thesis by (metis append_eq_conv_conj length_replicate)
qed

text \<open>The bytes found from the digits, with the leading zeros that the decoder takes off again.\<close>

lemma decoded_bytes:
  fixes bs :: "u8 list"
  defines "B \<equiv> be_bytes (length (digits58 (be_val bs))) (be_val bs)"
  shows "drop (length (takeWhile (\<lambda>b. b = 0) B)) (replicate (length (takeWhile (\<lambda>b. b = 0) bs)) 0 @ B) = bs"
proof -
  let ?k = "length (digits58 (be_val bs))"
  have "be_val bs < 58 ^ ?k" using b58_val_lt [OF b58_digits58, of "be_val bs"] by simp
  also have "\<dots> \<le> 256 ^ ?k" by (rule power_mono) simp_all
  finally have B: "dropWhile (\<lambda>b. b = 0) B = dropWhile (\<lambda>b. b = 0) bs"
    by (simp add: B_def dropWhile_be_min be_val_be_bytes)
  have "takeWhile (\<lambda>b. b = 0) xs = replicate (length (takeWhile (\<lambda>b. b = 0) xs)) 0" for xs :: "u8 list"
    by (induction xs) simp_all
  then have "B = replicate (length (takeWhile (\<lambda>b. b = 0) B)) 0 @ dropWhile (\<lambda>b. b = 0) bs"
    "bs = replicate (length (takeWhile (\<lambda>b. b = 0) bs)) 0 @ dropWhile (\<lambda>b. b = 0) bs"
    using takeWhile_dropWhile_id [of "\<lambda>b. b = 0" B] takeWhile_dropWhile_id [of "\<lambda>b. b = 0" bs] B
    by metis+
  then show ?thesis using drop_zeros_swap by metis
qed

lemma base58_decode_text:
  assumes "length bs \<le> 120" "2 \<le> length (base58_text bs)" "length bs \<le> m"
  shows "base58_decode (base58_text bs) m = Some bs"
proof -
  let ?z = "length (takeWhile (\<lambda>b. b = 0) bs)" and ?ds = "digits58 (be_val bs)"
  let ?tmp = "replicate ?z 0 @ ?ds" and ?B = "be_bytes (length ?ds) (be_val bs)"
  have "b58 ?tmp" using b58_digits58 by (auto simp: b58_def)
  then have tab: "table_digits (base58_text bs) = Some ?tmp"
    using table_digits_alphabet [of ?tmp] by (simp only: base58_text_def map_append map_replicate unsigned_0)
  have l: "length (base58_text bs) = ?z + length ?ds" by (simp add: base58_text_def)
  have loop: "decode_loop ?ds [] = ?B" using decode_loop_correct [OF b58_digits58, of "be_val bs" "[]"] by simp
  have "length (takeWhile (\<lambda>d. d = 0) ?tmp) = ?z" "drop ?z ?tmp = ?ds" "drop ?z (replicate ?z 0 @ ?B) = ?B"
    by (simp_all add: takeWhile_append digits58_lead)
  moreover have "length ?B = length ?ds" "length (base58_text bs) - length ?ds = ?z" using l by simp_all
  moreover have "\<not> (length (base58_text bs) > 164 \<or> length (base58_text bs) < 2)" "\<not> m < length bs"
    using assms base58_text_length by fastforce+
  ultimately show ?thesis
    unfolding base58_decode_def tab Let_def option.case
    by (simp only: if_False loop add_diff_cancel_left' decoded_bytes)
qed

text \<open>
  C33: Base 58 round trip: what \<open>base58_encode\<close> writes for at most 120 bytes is their number in base 58
  behind a 1 for each leading zero, and \<open>base58_decode\<close> gives the bytes back.
\<close>

theorem base58_roundtrip:
  assumes "base58_encode bs n = Some s" "2 \<le> length s" "length bs \<le> m"
  shows "s = base58_text bs \<and> base58_decode s m = Some bs"
proof -
  have len: "length bs \<le> 120" using assms(1) by (auto simp: base58_encode_def split: if_splits)
  then have s: "s = base58_text bs" using assms(1) base58_encode_text [of bs n] by (simp split: if_splits)
  then show ?thesis using base58_decode_text [OF len] assms(2,3) by simp
qed

theorem base58_roundtrip_witness:
  "base58_encode [0, 255] 9 = Some [49, 53, 81] \<and> base58_decode [49, 53, 81] 2 = Some [0, 255]"
proof -
  have "base58_encode [0, 255] 9 = Some [49, 53, 81]" by code_simp
  moreover from base58_roundtrip [OF this, of 2]
  have "base58_decode [49, 53, 81] 2 = Some [0, 255]" by (rule conjunct2) simp_all
  ultimately show ?thesis by (rule conjI)
qed

end
