(* ===== verification/Segwit.thy ===== *)
theory Segwit
  imports Prelude
begin

text \<open>
  Segregated witness addresses (\<open>app/app-swap/src/btc/segwit.c\<close>): the Bech32 and Bech32m encodings,
  the regrouping of bits, and the addresses made of both. A C string is the list of its bytes before
  the final zero; a function that returns 0, or \<open>BECH32_ENCODING_NONE\<close>, is \<open>None\<close>, its outputs being
  unused then.
\<close>

section \<open>The checksum\<close>

datatype bech32_encoding = BECH32_ENCODING_BECH32 | BECH32_ENCODING_BECH32M

definition bech32_polymod_step :: "u32 \<Rightarrow> u32" where
  "bech32_polymod_step pre =
    (let b = ucast (ucast (drop_bit 25 pre) :: u8) :: u32
     in push_bit 5 (pre AND 0x1FFFFFF) XOR ((- (b AND 1)) AND 0x3b6a57b2) XOR
        ((- (drop_bit 1 b AND 1)) AND 0x26508e6d) XOR ((- (drop_bit 2 b AND 1)) AND 0x1ea119fa) XOR
        ((- (drop_bit 3 b AND 1)) AND 0x3d4233dd) XOR ((- (drop_bit 4 b AND 1)) AND 0x2a1462b3))"

primrec bech32_final_constant :: "bech32_encoding \<Rightarrow> u32" where
  "bech32_final_constant BECH32_ENCODING_BECH32 = 1"
| "bech32_final_constant BECH32_ENCODING_BECH32M = 0x2bc830a3"

text \<open>\<open>qpzry9x8gf2tvdw0s3jn54khce6mua7l\<close>\<close>

definition charset :: "u8 list" where
  "charset = [113, 112, 122, 114, 121, 57, 120, 56, 103, 102, 50, 116, 118, 100, 119, 48,
     115, 51, 106, 110, 53, 52, 107, 104, 99, 101, 54, 109, 117, 97, 55, 108]"

definition charset_rev :: "int list" where
  "charset_rev = [
    -1, -1, -1, -1, -1, -1, -1, -1, -1, -1, -1, -1, -1, -1, -1, -1, -1, -1, -1, -1, -1, -1,
    -1, -1, -1, -1, -1, -1, -1, -1, -1, -1, -1, -1, -1, -1, -1, -1, -1, -1, -1, -1, -1, -1,
    -1, -1, -1, -1, 15, -1, 10, 17, 21, 20, 26, 30, 7,  5,  -1, -1, -1, -1, -1, -1, -1, 29,
    -1, 24, 13, 25, 9,  8,  23, -1, 18, 22, 31, 27, 19, -1, 1,  0,  3,  16, 11, 28, 12, 14,
    6,  4,  2,  -1, -1, -1, -1, -1, -1, 29, -1, 24, 13, 25, 9,  8,  23, -1, 18, 22, 31, 27,
    19, -1, 1,  0,  3,  16, 11, 28, 12, 14, 6,  4,  2,  -1, -1, -1, -1, -1]"

section \<open>Bech32\<close>

text \<open>The first loop of \<open>bech32_encode\<close> over the human-readable part.\<close>

fun encode_hrp :: "u32 \<Rightarrow> u8 list \<Rightarrow> u32 option" where
  "encode_hrp chk [] = Some chk"
| "encode_hrp chk (ch # hrp) =
    (if ch < 33 \<or> ch > 126 then None
     else if ch \<ge> 65 \<and> ch \<le> 90 then None
     else encode_hrp (bech32_polymod_step chk XOR ucast (drop_bit 5 ch)) hrp)"

definition hrp_low :: "u32 \<Rightarrow> u8 list \<Rightarrow> u32" where
  "hrp_low chk hrp = foldl (\<lambda>chk ch. bech32_polymod_step chk XOR ucast (ch AND 0x1f)) chk hrp"

fun encode_data :: "u32 \<Rightarrow> u8 list \<Rightarrow> (u32 \<times> u8 list) option" where
  "encode_data chk [] = Some (chk, [])"
| "encode_data chk (d # ds) =
    (if drop_bit 5 d \<noteq> 0 then None
     else map_option (\<lambda>(chk, out). (chk, charset ! unat d # out))
            (encode_data (bech32_polymod_step chk XOR ucast d) ds))"

definition bech32_encode :: "u8 list \<Rightarrow> u8 list \<Rightarrow> bech32_encoding \<Rightarrow> u8 list option" where
  "bech32_encode hrp data enc =
    (case encode_hrp 1 hrp of
       None \<Rightarrow> None
     | Some chk \<Rightarrow>
         if length hrp + 7 + length data > 90 then None
         else
           (case encode_data (hrp_low (bech32_polymod_step chk) hrp) data of
              None \<Rightarrow> None
            | Some (chk, out) \<Rightarrow>
                let chk = (bech32_polymod_step ^^ 6) chk XOR bech32_final_constant enc
                in Some (hrp @ [49] @ out @
                     map (\<lambda>i. charset ! unat (drop_bit ((5 - i) * 5) chk AND 0x1f)) [0..<6])))"

text \<open>The number of bytes after the last separator.\<close>

definition tail_length :: "u8 list \<Rightarrow> nat" where
  "tail_length input = length (takeWhile (\<lambda>c. c \<noteq> 49) (rev input))"

text \<open>
  The first loop of \<open>bech32_decode\<close>: the checksum, whether there is a lower and an upper case letter,
  and the human-readable part in lower case.
\<close>

fun decode_hrp :: "u32 \<Rightarrow> bool \<Rightarrow> bool \<Rightarrow> u8 list \<Rightarrow> (u32 \<times> bool \<times> bool \<times> u8 list) option" where
  "decode_hrp chk lower upper [] = Some (chk, lower, upper, [])"
| "decode_hrp chk lower upper (ch # input) =
    (if ch < 33 \<or> ch > 126 then None
     else
       let is_upper = (ch \<ge> 65 \<and> ch \<le> 90);
           lower = (lower \<or> ch \<ge> 97 \<and> ch \<le> 122);
           upper = (upper \<or> is_upper);
           ch = (if is_upper then (ch - 65) + 97 else ch)
       in map_option (\<lambda>(chk, lower, upper, hrp). (chk, lower, upper, ch # hrp))
            (decode_hrp (bech32_polymod_step chk XOR ucast (drop_bit 5 ch)) lower upper input))"

fun decode_data :: "u32 \<Rightarrow> bool \<Rightarrow> bool \<Rightarrow> u8 list \<Rightarrow> (u32 \<times> bool \<times> bool \<times> u8 list) option" where
  "decode_data chk lower upper [] = Some (chk, lower, upper, [])"
| "decode_data chk lower upper (c # input) =
    (let v = (if c AND 0x80 \<noteq> 0 then -1 else charset_rev ! unat c);
         lower = (lower \<or> c \<ge> 97 \<and> c \<le> 122);
         upper = (upper \<or> c \<ge> 65 \<and> c \<le> 90)
     in if v = -1 then None
        else map_option (\<lambda>(chk, lower, upper, vs). (chk, lower, upper, word_of_int v # vs))
               (decode_data (bech32_polymod_step chk XOR word_of_int v) lower upper input))"

definition bech32_decode :: "u8 list \<Rightarrow> (bech32_encoding \<times> u8 list \<times> u8 list) option" where
  "bech32_decode input =
    (let data_len = tail_length input; hrp_len = length input - (1 + data_len)
     in if length input < 8 \<or> length input > 90 then None
        else if 1 + data_len \<ge> length input \<or> data_len < 6 then None
        else
          case decode_hrp 1 False False (take hrp_len input) of
            None \<Rightarrow> None
          | Some (chk, lower, upper, hrp) \<Rightarrow>
              (case decode_data (hrp_low (bech32_polymod_step chk) (take hrp_len input)) lower upper
                     (drop (hrp_len + 1) input) of
                None \<Rightarrow> None
              | Some (chk, lower, upper, vs) \<Rightarrow>
                  if lower \<and> upper then None
                  else if chk = bech32_final_constant BECH32_ENCODING_BECH32
                  then Some (BECH32_ENCODING_BECH32, hrp, take (data_len - 6) vs)
                  else if chk = bech32_final_constant BECH32_ENCODING_BECH32M
                  then Some (BECH32_ENCODING_BECH32M, hrp, take (data_len - 6) vs)
                  else None))"

section \<open>Regrouping bits\<close>

text \<open>The inner loop of \<open>convert_bits\<close>, which only ends for a positive \<open>outbits\<close>: it is 5 or 8.\<close>

function emit_groups :: "nat \<Rightarrow> u32 \<Rightarrow> u32 \<Rightarrow> nat \<Rightarrow> nat \<times> u8 list" where
  "emit_groups outbits maxv val nbits =
    (if outbits = 0 \<or> nbits < outbits then (nbits, [])
     else
       let nbits = nbits - outbits; (n, out) = emit_groups outbits maxv val nbits
       in (n, ucast (drop_bit nbits val AND maxv) # out))"
  by pat_completeness auto
termination by (relation "measure (\<lambda>(outbits, maxv, val, nbits). nbits)") auto

declare emit_groups.simps [simp del]

fun convert_loop :: "nat \<Rightarrow> nat \<Rightarrow> u32 \<Rightarrow> u32 \<Rightarrow> nat \<Rightarrow> u8 list \<Rightarrow> u32 \<times> nat \<times> u8 list" where
  "convert_loop outbits inbits maxv val nbits [] = (val, nbits, [])"
| "convert_loop outbits inbits maxv val nbits (b # bs) =
    (let val = push_bit inbits val OR ucast b;
         (nbits, out) = emit_groups outbits maxv val (nbits + inbits);
         (val, nbits, out') = convert_loop outbits inbits maxv val nbits bs
     in (val, nbits, out @ out'))"

text \<open>The return value and the bytes it wrote.\<close>

definition convert_bits :: "nat \<Rightarrow> u8 list \<Rightarrow> nat \<Rightarrow> bool \<Rightarrow> bool \<times> u8 list" where
  "convert_bits outbits bs inbits pad =
    (let maxv = push_bit outbits 1 - 1;
         (val, nbits, out) = convert_loop outbits inbits maxv 0 0 bs;
         rest = push_bit (outbits - nbits) val AND maxv
     in if pad then (True, if nbits \<noteq> 0 then out @ [ucast rest] else out)
        else (\<not> (rest \<noteq> 0 \<or> nbits \<ge> inbits), out))"

section \<open>Addresses\<close>

definition segwit_addr_encode :: "u8 list \<Rightarrow> int \<Rightarrow> u8 list \<Rightarrow> u8 list option" where
  "segwit_addr_encode hrp witver witprog =
    (if witver > 16 then None
     else if witver = 0 \<and> length witprog \<noteq> 20 \<and> length witprog \<noteq> 32 then None
     else if length witprog < 2 \<or> length witprog > 40 then None
     else bech32_encode hrp (word_of_int witver # snd (convert_bits 5 witprog 8 True))
            (if witver > 0 then BECH32_ENCODING_BECH32M else BECH32_ENCODING_BECH32))"

definition segwit_addr_decode :: "u8 list \<Rightarrow> u8 list \<Rightarrow> (int \<times> u8 list) option" where
  "segwit_addr_decode hrp addr =
    (case bech32_decode addr of
       None \<Rightarrow> None
     | Some (enc, hrp_actual, data) \<Rightarrow>
         if length data = 0 \<or> length data > 65 then None
         else if take 84 hrp \<noteq> take 84 hrp_actual then None
         else if data ! 0 > 16 then None
         else if data ! 0 = 0 \<and> enc \<noteq> BECH32_ENCODING_BECH32 then None
         else if data ! 0 > 0 \<and> enc \<noteq> BECH32_ENCODING_BECH32M then None
         else
           case convert_bits 8 (tl data) 5 False of
             (ok, witdata) \<Rightarrow>
               if \<not> ok then None
               else if length witdata < 2 \<or> length witdata > 40 then None
               else if data ! 0 = 0 \<and> length witdata \<noteq> 20 \<and> length witdata \<noteq> 32 then None
               else Some (uint (data ! 0), witdata))"

section \<open>The checksum is linear\<close>

lemma neg_bit_mask: "(- (drop_bit i b AND 1)) AND c = (if bit b i then c else 0)" for b c :: u32
proof -
  have "drop_bit i b AND 1 = of_bool (bit b i)"
    by (simp add: and_one_eq mod_2_eq_odd bit_iff_odd_drop_bit)
  then show ?thesis by simp
qed

lemma polymod_step_bits:
  "bech32_polymod_step x = push_bit 5 (x AND 0x1FFFFFF) XOR (if bit x 25 then 0x3b6a57b2 else 0) XOR
     (if bit x 26 then 0x26508e6d else 0) XOR (if bit x 27 then 0x1ea119fa else 0) XOR
     (if bit x 28 then 0x3d4233dd else 0) XOR (if bit x 29 then 0x2a1462b3 else 0)"
proof -
  have b: "bit (ucast (ucast (drop_bit 25 x) :: u8) :: u32) i \<longleftrightarrow> bit x (25 + i)" if "i < 5" for i
    using that by (auto simp: bit_word_ucast_iff bit_drop_bit_eq)
  show ?thesis
    unfolding bech32_polymod_step_def Let_def
    using neg_bit_mask [of 0 "ucast (ucast (drop_bit 25 x) :: u8)"] by (simp add: neg_bit_mask b)
qed

lemma polymod_step_xor: "bech32_polymod_step (x XOR y) = bech32_polymod_step x XOR bech32_polymod_step y"
proof -
  have c: "(if p \<noteq> q then c else 0) = (if p then c else 0) XOR (if q then c else (0 :: u32))" for p q c by simp
  have "push_bit 5 ((x XOR y) AND 0x1FFFFFF) = push_bit 5 (x AND 0x1FFFFFF) XOR push_bit 5 (y AND 0x1FFFFFF)"
    by (rule bit_word_eqI) (auto simp: bit_simps)
  then show ?thesis by (simp only: polymod_step_bits bit_xor_iff c xor.assoc xor.commute xor.left_commute)
qed

text \<open>Values below \<open>2^30\<close>, and a step of one below \<open>2^25\<close>.\<close>

definition fits :: "nat \<Rightarrow> u32 \<Rightarrow> bool" where
  "fits n x \<longleftrightarrow> take_bit n x = x"

lemma fits_bits: "fits n x \<longleftrightarrow> (\<forall>i. n \<le> i \<longrightarrow> \<not> bit x i)"
proof
  assume "fits n x"
  then show "\<forall>i. n \<le> i \<longrightarrow> \<not> bit x i" by (metis fits_def bit_take_bit_iff not_le)
next
  assume "\<forall>i. n \<le> i \<longrightarrow> \<not> bit x i"
  then show "fits n x" unfolding fits_def by (intro bit_word_eqI) (auto simp: bit_take_bit_iff not_le)
qed

lemma fits_xor: "fits n x \<Longrightarrow> fits n y \<Longrightarrow> fits n (x XOR y)"
  by (simp add: fits_bits bit_xor_iff)

lemma fits_mono: "fits m x \<Longrightarrow> m \<le> n \<Longrightarrow> fits n x"
  by (auto simp: fits_bits)

lemma fits_step: "fits 30 (bech32_polymod_step x)"
proof -
  have c: "fits 30 0x3b6a57b2" "fits 30 0x26508e6d" "fits 30 0x1ea119fa" "fits 30 0x3d4233dd" "fits 30 0x2a1462b3" "fits 30 0"
    by (simp_all add: fits_def)
  have m: "(0x1FFFFFF :: u32) = mask 25" by (simp add: mask_eq_exp_minus_1)
  have "fits 30 (push_bit 5 (x AND 0x1FFFFFF))"
    unfolding m by (auto simp: fits_bits bit_push_bit_iff bit_and_iff bit_mask_iff)
  then show ?thesis unfolding polymod_step_bits using c by (intro fits_xor) auto
qed

lemma step_small: "fits 25 x \<Longrightarrow> bech32_polymod_step x = push_bit 5 x"
proof -
  assume x: "fits 25 x"
  have "(0x1FFFFFF :: u32) = mask 25" by (simp add: mask_eq_exp_minus_1)
  then have "x AND 0x1FFFFFF = x" using x by (simp add: fits_def take_bit_eq_mask)
  moreover have "\<not> bit x 25" "\<not> bit x 26" "\<not> bit x 27" "\<not> bit x 28" "\<not> bit x 29" using x by (auto simp: fits_bits)
  ultimately show ?thesis by (simp add: polymod_step_bits)
qed

text \<open>The checksum after the symbols \<open>vs\<close>.\<close>

definition feed :: "u32 \<Rightarrow> u32 list \<Rightarrow> u32" where
  "feed chk vs = foldl (\<lambda>chk v. bech32_polymod_step chk XOR v) chk vs"

lemma feed_simps [simp]: "feed chk [] = chk" "feed chk (v # vs) = feed (bech32_polymod_step chk XOR v) vs"
  "feed chk (us @ vs) = feed (feed chk us) vs"
  by (simp_all add: feed_def)

lemma feed_xor: "feed (x XOR y) vs = (bech32_polymod_step ^^ length vs) x XOR feed y vs"
proof (induction vs arbitrary: x y)
  case (Cons v vs)
  have "feed (x XOR y) (v # vs) = feed (bech32_polymod_step x XOR (bech32_polymod_step y XOR v)) vs"
    by (simp add: polymod_step_xor xor.assoc)
  then show ?case by (simp only: Cons.IH feed_simps) (simp add: funpow_swap1)
qed simp

definition symbol :: "u32 \<Rightarrow> nat \<Rightarrow> u32" where
  "symbol chk i = drop_bit (i * 5) chk AND 0x1f"

text \<open>The six symbols of a value, fed to an empty checksum, give the value.\<close>

lemma feed_symbols:
  assumes "fits 30 c"
  shows "feed 0 (map (symbol c) [5, 4, 3, 2, 1, 0]) = c"
proof -
  define p where "p k = drop_bit (k * 5) c" for k
  have m: "(0x1f :: u32) = mask 5" by (simp add: mask_eq_exp_minus_1)
  have bs: "bit (symbol c k) i \<longleftrightarrow> i < 5 \<and> bit c (k * 5 + i)" for k i
    unfolding symbol_def m by (auto simp: bit_and_iff bit_drop_bit_eq bit_mask_iff)
  have step: "bech32_polymod_step (p (Suc k)) XOR symbol c k = p k" for k
  proof -
    have "fits 25 (p (Suc k))" using assms by (auto simp: fits_bits p_def bit_drop_bit_eq)
    then have "bech32_polymod_step (p (Suc k)) XOR symbol c k = push_bit 5 (p (Suc k)) XOR symbol c k"
      by (simp add: step_small)
    also have "\<dots> = p k"
    proof (rule bit_word_eqI)
      fix i assume "i < LENGTH(32)"
      then show "bit (push_bit 5 (p (Suc k)) XOR symbol c k) i = bit (p k) i"
        by (cases "i < 5") (auto simp: bit_xor_iff bs bit_push_bit_iff p_def bit_drop_bit_eq)
    qed
    finally show ?thesis .
  qed
  have "p 6 = 0" using assms by (intro bit_word_eqI) (auto simp: p_def fits_bits bit_drop_bit_eq)
  then have "feed 0 (map (symbol c) [5, 4, 3, 2, 1, 0]) = p 0"
    using step [of 5] step [of 4] step [of 3] step [of 2] step [of 1] step [of 0] by (simp add: eval_nat_numeral)
  then show ?thesis by (simp add: p_def)
qed

text \<open>The symbols that \<open>bech32_encode\<close> appends bring the checksum to the final constant.\<close>

lemma fits_final: "fits 30 (bech32_final_constant enc)"
  by (cases enc) (simp_all add: fits_def)

lemma checksum_closes:
  "feed chk (map (symbol ((bech32_polymod_step ^^ 6) chk XOR bech32_final_constant enc)) [5, 4, 3, 2, 1, 0])
     = bech32_final_constant enc"
proof -
  let ?p = "(bech32_polymod_step ^^ 6) chk" and ?k = "bech32_final_constant enc"
  have six: "6 = Suc 5" by simp
  have "fits 30 ?p" unfolding six funpow.simps o_apply by (rule fits_step)
  then have c: "fits 30 (?p XOR ?k)" using fits_final by (rule fits_xor)
  have len: "length [5, 4, 3, 2, 1, 0 :: nat] = 6" by simp
  have "feed (chk XOR 0) (map (symbol (?p XOR ?k)) [5, 4, 3, 2, 1, 0]) = ?p XOR (?p XOR ?k)"
    unfolding feed_xor feed_symbols [OF c] length_map len ..
  also have "\<dots> = ?k" by (simp add: xor.assoc [symmetric])
  finally show ?thesis by simp
qed

section \<open>Decoding what was encoded\<close>

definition small :: "u8 \<Rightarrow> bool" where
  "small v \<longleftrightarrow> v < 32"

definition letter :: "u8 \<Rightarrow> u8" where
  "letter v = charset ! unat v"

text \<open>The 32 letters, by evaluation.\<close>

lemma letter_facts:
  assumes "small v"
  shows "letter v AND 0x80 = 0" "charset_rev ! unat (letter v) = uint v" "\<not> (letter v \<ge> 65 \<and> letter v \<le> 90)"
    "letter v \<noteq> 49"
proof -
  have "list_all (\<lambda>n. let v = of_nat n :: u8 in letter v AND 0x80 = 0 \<and> charset_rev ! unat (letter v) = uint v \<and>
      \<not> (letter v \<ge> 65 \<and> letter v \<le> 90) \<and> letter v \<noteq> 49) [0..<32]"
    by code_simp
  moreover have "v = of_nat (unat v)" "unat v < 32" using assms by (simp_all add: small_def word_less_nat_alt)
  ultimately have "let w = v in letter w AND 0x80 = 0 \<and> charset_rev ! unat (letter w) = uint w \<and>
      \<not> (letter w \<ge> 65 \<and> letter w \<le> 90) \<and> letter w \<noteq> 49"
    unfolding list_all_iff by (metis (no_types, lifting) atLeastLessThan_iff le0 set_upt)
  then show "letter v AND 0x80 = 0" "charset_rev ! unat (letter v) = uint v" "\<not> (letter v \<ge> 65 \<and> letter v \<le> 90)"
    "letter v \<noteq> 49" unfolding Let_def by blast+
qed

lemma decode_data_letters:
  "list_all small vs \<Longrightarrow>
    \<exists>lower'. decode_data chk lower upper (map letter vs) = Some (feed chk (map ucast vs), lower', upper, vs)"
proof (induction vs arbitrary: chk lower)
  case (Cons v vs)
  then have v: "small v" and vs: "list_all small vs" by simp_all
  have "0 \<le> uint v" by simp
  then have "uint v \<noteq> -1" by linarith
  moreover have "word_of_int (uint v) = (ucast v :: u32)" by (rule ucast_eq [symmetric])
  moreover have "(upper \<or> letter v \<ge> 65 \<and> letter v \<le> 90) = upper" using letter_facts(3) [OF v] by blast
  moreover obtain l where "decode_data (bech32_polymod_step chk XOR ucast v)
      (lower \<or> letter v \<ge> 97 \<and> letter v \<le> 122) upper (map letter vs) =
      Some (feed (bech32_polymod_step chk XOR ucast v) (map ucast vs), l, upper, vs)"
    using Cons.IH [OF vs] by blast
  ultimately have "decode_data chk lower upper (letter v # map letter vs) =
      Some (feed (bech32_polymod_step chk XOR ucast v) (map ucast vs), l, upper, v # vs)"
    by (simp only: decode_data.simps Let_def letter_facts(1,2) [OF v] refl not_True_eq_False if_False
        option.map prod.case word_of_int_uint)
  then show ?case by simp
qed simp

lemma encode_data_Some:
  "encode_data chk ds = Some (c, out) \<Longrightarrow> list_all small ds \<and> out = map letter ds \<and> c = feed chk (map ucast ds)"
proof (induction ds arbitrary: chk out)
  case (Cons d ds)
  then have "small d" by (auto simp: small_def drop_bit_eq_div word_less_nat_alt word_unat_eq_iff unat_div split: if_splits)
  with Cons show ?case by (fastforce simp: letter_def split: if_splits)
qed simp

lemma encode_hrp_decodes:
  "encode_hrp chk hrp = Some c \<Longrightarrow> \<exists>lower'. decode_hrp chk lower False hrp = Some (c, lower', False, hrp)"
proof (induction hrp arbitrary: chk lower)
  case (Cons ch hrp)
  then have e: "encode_hrp (bech32_polymod_step chk XOR ucast (drop_bit 5 ch)) hrp = Some c"
    and ch: "\<not> (ch < 33 \<or> ch > 126)" "\<not> (ch \<ge> 65 \<and> ch \<le> 90)" by (auto split: if_splits)
  have up: "(ch \<ge> 65 \<and> ch \<le> 90) = False" using ch(2) by blast
  obtain l where "decode_hrp (bech32_polymod_step chk XOR ucast (drop_bit 5 ch)) (lower \<or> ch \<ge> 97 \<and> ch \<le> 122) False hrp =
      Some (c, l, False, hrp)" using Cons.IH [OF e] by blast
  then show ?case using ch(1) by (simp add: Let_def up)
qed simp

lemma tail_length_letters: "list_all small vs \<Longrightarrow> tail_length (hrp @ [49] @ map letter vs) = length vs"
proof -
  assume "list_all small vs"
  then have "\<forall>c \<in> set (rev (map letter vs)). c \<noteq> 49" using letter_facts(4) by (auto simp: list_all_iff)
  then have "takeWhile (\<lambda>c. c \<noteq> 49) (rev (map letter vs) @ 49 # rev hrp) = rev (map letter vs)"
    by (subst takeWhile_append2) auto
  then show ?thesis by (simp add: tail_length_def)
qed

text \<open>Any valid word of symbols decodes, with the constant that its checksum reaches.\<close>

lemma bech32_decode_word:
  assumes "encode_hrp 1 hrp = Some c" "hrp \<noteq> []" "list_all small vs" "6 \<le> length vs" "length hrp + 1 + length vs \<le> 90"
    and "feed (hrp_low (bech32_polymod_step c) hrp) (map ucast vs) = bech32_final_constant enc"
  shows "bech32_decode (hrp @ [49] @ map letter vs) = Some (enc, hrp, take (length vs - 6) vs)"
proof -
  let ?in = "hrp @ [49] @ map letter vs"
  note tail = tail_length_letters [OF assms(3), of hrp]
  have hl: "length ?in - (1 + tail_length ?in) = length hrp" unfolding tail by simp
  obtain l where h: "decode_hrp 1 False False hrp = Some (c, l, False, hrp)"
    using encode_hrp_decodes [OF assms(1)] by blast
  obtain l' where d: "decode_data (hrp_low (bech32_polymod_step c) hrp) l False (map letter vs) =
      Some (bech32_final_constant enc, l', False, vs)"
    using decode_data_letters [OF assms(3)] assms(6) by metis
  have "0 < length hrp" using assms(2) by simp
  then have "\<not> length hrp + length vs < 7" using assms(4) by linarith
  then show ?thesis
    unfolding bech32_decode_def Let_def hl unfolding tail
    using assms(2,4,5) by (cases enc) (simp_all add: h d)
qed

lemma bech32_roundtrip:
  assumes "bech32_encode hrp data enc = Some out" "hrp \<noteq> []"
  shows "bech32_decode out = Some (enc, hrp, data)"
proof -
  obtain c c' w where h: "encode_hrp 1 hrp = Some c" and len: "length hrp + 7 + length data \<le> 90"
    and d: "encode_data (hrp_low (bech32_polymod_step c) hrp) data = Some (c', w)"
    and out: "out = hrp @ [49] @ w @ map (\<lambda>i. charset ! unat (drop_bit ((5 - i) * 5)
      ((bech32_polymod_step ^^ 6) c' XOR bech32_final_constant enc) AND 0x1f)) [0..<6]"
    using assms(1) by (auto simp: bech32_encode_def Let_def split: option.splits if_splits prod.splits)
  define k where "k = (bech32_polymod_step ^^ 6) c' XOR bech32_final_constant enc"
  define ss where "ss = map (\<lambda>i. ucast (symbol k i) :: u8) [5, 4, 3, 2, 1, 0]"
  from encode_data_Some [OF d] have ds: "list_all small data" "w = map letter data"
    "c' = feed (hrp_low (bech32_polymod_step c) hrp) (map ucast data)" by auto
  have m: "(0x1f :: u32) = mask 5" by (simp add: mask_eq_exp_minus_1)
  have low: "take_bit 8 (symbol k i) = symbol k i" "unat (symbol k i) < 32" for i
  proof -
    have "symbol k i = take_bit 5 (drop_bit (i * 5) k)" by (simp add: symbol_def m take_bit_eq_mask)
    then show "take_bit 8 (symbol k i) = symbol k i" "unat (symbol k i) < 32"
      using take_bit_nat_less_exp [of 5 "unat (drop_bit (i * 5) k)"] by (simp_all add: unsigned_take_bit_eq)
  qed
  have uc: "unat (ucast (symbol k i) :: u8) = unat (symbol k i)" "ucast (ucast (symbol k i) :: u8) = symbol k i" for i
    using low [of i] by (simp_all add: unsigned_ucast_eq take_bit_nat_eq_self)
  have sm: "list_all small ss" by (simp add: ss_def small_def word_less_nat_alt uc low)
  have "map ucast ss = map (symbol k) [5, 4, 3, 2, 1, 0]" by (simp add: ss_def uc)
  then have f: "feed c' (map ucast ss) = bech32_final_constant enc"
    using checksum_closes [of c' enc, folded k_def] by simp
  have six: "[0..<6] = [0, 1, 2, 3, 4, 5 :: nat]" by (simp add: upt_rec)
  have "out = hrp @ [49] @ map letter (data @ ss)"
    unfolding out ds(2) k_def [symmetric] six by (simp add: ss_def letter_def uc) (simp add: symbol_def)
  then show ?thesis
    using bech32_decode_word [of hrp c "data @ ss" enc] h assms(2) ds sm f len by (simp add: ss_def)
qed

section \<open>Regrouping keeps the bits\<close>

text \<open>The \<open>n\<close> low bits of a word, most significant first, and those of a list of words.\<close>

definition bits_of :: "nat \<Rightarrow> 'a::len word \<Rightarrow> bool list" where
  "bits_of n w = map (bit w) (rev [0..<n])"

definition bitstream :: "nat \<Rightarrow> u8 list \<Rightarrow> bool list" where
  "bitstream n ws = concat (map (bits_of n) ws)"

lemma length_bits_of [simp]: "length (bits_of n w) = n"
  by (simp add: bits_of_def)

lemma bitstream_simps [simp]: "bitstream n [] = []" "bitstream n (w # ws) = bits_of n w @ bitstream n ws"
  "bitstream n (vs @ ws) = bitstream n vs @ bitstream n ws"
  by (simp_all add: bitstream_def)

lemma length_bitstream [simp]: "length (bitstream n ws) = n * length ws"
  by (induction ws) auto

lemma nth_bits_of: "i < n \<Longrightarrow> bits_of n w ! i = bit w (n - 1 - i)"
  by (simp add: bits_of_def rev_nth)

lemma bits_of_cong: "(\<And>i. i < n \<Longrightarrow> bit v i = bit w i) \<Longrightarrow> bits_of n v = bits_of n w"
  by (simp add: bits_of_def)

lemma bits_of_append:
  assumes "\<And>i. i < n \<Longrightarrow> bit u (m + i) = bit v i" "\<And>i. i < m \<Longrightarrow> bit u i = bit w i"
  shows "bits_of (n + m) u = bits_of n v @ bits_of m w"
proof (rule nth_equalityI)
  fix i assume "i < length (bits_of (n + m) u)"
  then have i: "i < n + m" by simp
  show "bits_of (n + m) u ! i = (bits_of n v @ bits_of m w) ! i"
  proof (cases "i < n")
    case True
    then have "n + m - 1 - i = m + (n - 1 - i)" by simp
    then show ?thesis using True i assms(1) [of "n - 1 - i"] by (simp add: nth_bits_of nth_append)
  next
    case False
    then have "n + m - 1 - i = m - 1 - (i - n)" using i by simp
    then show ?thesis using False i assms(2) [of "m - 1 - (i - n)"] by (simp add: nth_bits_of nth_append)
  qed
qed simp

lemma bits_of_eq:
  assumes "bits_of n v = bits_of n w" "i < n"
  shows "bit v i = bit w i"
  using arg_cong [OF assms(1), of "\<lambda>bs. bs ! (n - 1 - i)"] assms(2) by (simp add: nth_bits_of)

lemma bitstream_inject:
  "length vs = length ws \<Longrightarrow> bitstream 8 vs = bitstream 8 ws \<Longrightarrow> vs = ws"
proof (induction vs ws rule: list_induct2)
  case (Cons v vs w ws)
  then have "bits_of 8 v = bits_of 8 w" by simp
  then have "v = w" using bits_of_eq [of 8 v w] by (intro bit_word_eqI) simp
  with Cons show ?case by simp
qed simp

definition in_width :: "nat \<Rightarrow> u8 \<Rightarrow> bool" where
  "in_width n w \<longleftrightarrow> (\<forall>i. n \<le> i \<longrightarrow> \<not> bit w i)"

lemma bit_group:
  assumes "k \<le> 8"
  shows "bit (ucast (x AND mask k) :: u8) i \<longleftrightarrow> i < k \<and> bit (x :: u32) i"
  using assms by (auto simp: bit_word_ucast_iff bit_and_iff bit_mask_iff dest: bit_imp_le_length)

lemma emit_groups_bits:
  assumes "0 < k" "k \<le> 8"
  shows "emit_groups k (mask k) val n = (n', out) \<Longrightarrow>
    n' < k \<and> bits_of n val = bitstream k out @ bits_of n' val \<and> list_all (in_width k) out"
proof (induction n arbitrary: n' out rule: less_induct)
  case (less n)
  show ?case
  proof (cases "n < k")
    case True
    then show ?thesis using less(2) assms by (simp add: emit_groups.simps [of k _ val n])
  next
    case False
    let ?g = "ucast (drop_bit (n - k) val AND mask k) :: u8"
    obtain out' where e: "emit_groups k (mask k) val (n - k) = (n', out')" and out: "out = ?g # out'"
      using less(2) False assms by (subst (asm) emit_groups.simps) (auto simp: Let_def split: prod.splits)
    have "n - k < n" using False assms by simp
    note IH = less(1) [OF this e]
    have "bits_of (k + (n - k)) val = bits_of k ?g @ bits_of (n - k) val"
      by (rule bits_of_append) (simp_all add: bit_group [OF assms(2)] bit_drop_bit_eq)
    moreover have "in_width k ?g" by (auto simp: in_width_def bit_group [OF assms(2)])
    ultimately show ?thesis using IH False out by simp
  qed
qed

lemma convert_loop_bits:
  assumes "0 < k" "k \<le> 8" "j \<le> 8"
  shows "convert_loop k j (mask k) val n bs = (val', n', out) \<Longrightarrow> n < k \<Longrightarrow> list_all (in_width j) bs \<Longrightarrow>
    n' < k \<and> bits_of n val @ bitstream j bs = bitstream k out @ bits_of n' val' \<and> list_all (in_width k) out"
proof (induction bs arbitrary: val n out)
  case (Cons b bs)
  let ?v = "push_bit j val OR ucast b"
  obtain n1 o1 where e: "emit_groups k (mask k) ?v (n + j) = (n1, o1)" by fastforce
  obtain o2 where c: "convert_loop k j (mask k) ?v n1 bs = (val', n', o2)" and out: "out = o1 @ o2"
    using Cons.prems(1) e by (auto simp: Let_def split: prod.splits)
  note g = emit_groups_bits [OF assms(1,2) e]
  have b: "in_width j b" and bs: "list_all (in_width j) bs" using Cons.prems(3) by simp_all
  have "bits_of (n + j) ?v = bits_of n val @ bits_of j b"
  proof (rule bits_of_append)
    fix i assume "i < n"
    then have "j + i < 32" using Cons.prems(2) assms by linarith
    then show "bit ?v (j + i) = bit val i" using b by (auto simp: in_width_def bit_or_iff bit_push_bit_iff bit_word_ucast_iff)
  next
    fix i assume "i < j"
    then show "bit ?v i = bit b i" using assms(3) by (auto simp: bit_or_iff bit_push_bit_iff bit_word_ucast_iff)
  qed
  then have "bits_of n val @ bitstream j (b # bs) = bits_of (n + j) ?v @ bitstream j bs" by simp
  also have "\<dots> = bitstream k o1 @ (bits_of n1 ?v @ bitstream j bs)" using g by simp
  also have "\<dots> = bitstream k out @ bits_of n' val'" using g Cons.IH [OF c _ bs] out by simp
  finally show ?case using g Cons.IH [OF c _ bs] out by simp
qed auto

lemma maxv_mask: "push_bit n 1 - 1 = (mask n :: u32)"
  by (simp add: mask_eq_exp_minus_1 push_bit_eq_mult)

text \<open>Bytes to groups of five bits, the last one filled with zeros, and back.\<close>

lemma in_width_8: "list_all (in_width 8) bs"
  by (auto simp: list_all_iff in_width_def dest: bit_imp_le_length)

lemma to_groups:
  assumes "convert_bits 5 bs 8 True = (ok, gs)"
  shows "\<exists>p < 5. bitstream 5 gs = bitstream 8 bs @ replicate p False \<and> list_all (in_width 5) gs"
proof -
  obtain val n out where c: "convert_loop 5 8 (mask 5) 0 0 bs = (val, n, out)" by (metis prod_cases3)
  let ?r = "ucast (push_bit (5 - n) val AND mask 5) :: u8"
  have gs: "gs = (if n \<noteq> 0 then out @ [?r] else out)"
    using assms unfolding convert_bits_def Let_def maxv_mask c by (simp split: if_splits)
  from convert_loop_bits [OF _ _ _ c _ in_width_8] have b: "n < 5" "bitstream 8 bs = bitstream 5 out @ bits_of n val"
    "list_all (in_width 5) out" by (simp_all add: bits_of_def)
  have "bits_of (n + (5 - n)) ?r = bits_of n val @ bits_of (5 - n) (0 :: u8)"
    using b(1) by (intro bits_of_append) (auto simp: bit_group bit_push_bit_iff)
  moreover have "bits_of (5 - n) (0 :: u8) = replicate (5 - n) False"
    by (rule nth_equalityI) (simp_all add: nth_bits_of)
  moreover have "in_width 5 ?r" by (auto simp: in_width_def bit_group)
  ultimately show ?thesis using b gs by (intro exI [of _ "if n = 0 then 0 else 5 - n"]) (simp add: bits_of_def)
qed

lemma from_groups:
  assumes "bitstream 5 gs = bitstream 8 bs @ replicate p False" "p < 5" "list_all (in_width 5) gs"
  shows "convert_bits 8 gs 5 False = (True, bs)"
proof -
  obtain val n out where c: "convert_loop 8 5 (mask 8) 0 0 gs = (val, n, out)" by (metis prod_cases3)
  from convert_loop_bits [OF _ _ _ c _ assms(3)] have n: "n < 8" and
    b: "bitstream 8 bs @ replicate p False = bitstream 8 out @ bits_of n val"
    using assms(1) by (simp_all add: bits_of_def)
  have "8 * length bs + p = 8 * length out + n" using arg_cong [OF b, of length] by simp
  then have l: "length out = length bs" "n = p" using n assms(2) by presburger+
  with b have out: "out = bs" and z: "bits_of n val = replicate p False"
    using bitstream_inject [of out bs] by auto
  have "\<not> bit val i" if "i < n" for i
    using arg_cong [OF z, of "\<lambda>xs. xs ! (n - 1 - i)"] that l(2) by (simp add: nth_bits_of)
  then have "push_bit (8 - n) val AND mask 8 = 0"
    by (intro bit_word_eqI) (auto simp: bit_and_iff bit_push_bit_iff bit_mask_iff)
  then show ?thesis using out l n assms(2) unfolding convert_bits_def Let_def maxv_mask c by simp
qed

lemma segwit_decode_encode:
  assumes "segwit_addr_encode hrp witver witprog = Some addr" and "0 \<le> witver" and "hrp \<noteq> []"
  shows "segwit_addr_decode hrp addr = Some (witver, witprog)"
proof -
  obtain ok gs where gs: "convert_bits 5 witprog 8 True = (ok, gs)" by fastforce
  from to_groups [OF gs] obtain p where p: "p < 5" "bitstream 5 gs = bitstream 8 witprog @ replicate p False"
    "list_all (in_width 5) gs" by blast
  let ?enc = "if witver > 0 then BECH32_ENCODING_BECH32M else BECH32_ENCODING_BECH32"
  have v: "witver \<le> 16" and len: "2 \<le> length witprog" "length witprog \<le> 40"
      "witver = 0 \<longrightarrow> length witprog = 20 \<or> length witprog = 32"
    and e: "bech32_encode hrp (word_of_int witver # gs) ?enc = Some addr"
    using assms(1) gs by (auto simp: segwit_addr_encode_def split: if_splits)
  have d: "bech32_decode addr = Some (?enc, hrp, word_of_int witver # gs)"
    by (rule bech32_roundtrip [OF e assms(3)])
  have "5 * length gs = 8 * length witprog + p" using arg_cong [OF p(2), of length] by simp
  then have l: "length gs \<le> 64" using len(2) p(1) by linarith
  have u: "uint (word_of_int witver :: u8) = witver"
    using assms(2) v by (simp add: uint_word_of_int_eq take_bit_int_eq_self)
  then have w: "(word_of_int witver :: u8) \<le> 16" "(word_of_int witver :: u8) = 0 \<longleftrightarrow> witver = 0"
    using v by (simp_all add: word_le_def word_uint_eq_iff)
  show ?thesis
    unfolding segwit_addr_decode_def d using w u l len from_groups [OF p(2,1,3)] assms(2)
    by (auto simp: not_less word_neq_0_conv [symmetric])
qed

section \<open>Property\<close>

text \<open>
  C17: decoding an encoded witness program gives its version and its bytes, with the checksum of the
  right variant, and the regrouping into symbols of five bits loses nothing.
\<close>

theorem segwit_roundtrip:
  assumes "segwit_addr_encode hrp witver witprog = Some addr" and "0 \<le> witver" and "hrp \<noteq> []"
  shows "segwit_addr_decode hrp addr = Some (witver, witprog)"
  by (rule segwit_decode_encode [OF assms])

text \<open>An example of BIP 350, with version 16.\<close>

theorem segwit_roundtrip_witness:
  "segwit_addr_decode [98, 99] [98, 99, 49, 115, 119, 53, 48, 113, 103, 100, 122, 50, 53, 106] = Some (16, [117, 30])"
proof -
  have six: "(f ^^ 6) x = f (f (f (f (f (f x)))))" for f :: "u32 \<Rightarrow> u32" and x by (simp add: numeral_eq_Suc)
  have "segwit_addr_encode [98, 99] 16 [117, 30] = Some [98, 99, 49, 115, 119, 53, 48, 113, 103, 100, 122, 50, 53, 106]"
    unfolding segwit_addr_encode_def bech32_encode_def six by code_simp
  from segwit_roundtrip [OF this] show ?thesis by simp
qed

end
