(* ===== verification/Btc_Address.thy ===== *)
theory Btc_Address
  imports Base58 Segwit Eth_Sign
begin

text \<open>
  The Bitcoin addresses that the exchange application accepts as the user's own
  (\<open>app/app-swap/src/btc/btc.c\<close>, \<open>btchip_helpers.c\<close>). An address is a C string: the bytes before its
  final zero.
\<close>

section \<open>Public keys\<close>

text \<open>The hashes of the system calls.\<close>

record btc_env =
  btc_sha256 :: "u8 list \<Rightarrow> u8 list"
  btc_ripemd160 :: "u8 list \<Rightarrow> u8 list"

definition btchip_public_key_hash160 :: "btc_env \<Rightarrow> u8 list \<Rightarrow> u8 list" where
  "btchip_public_key_hash160 H inp = btc_ripemd160 H (btc_sha256 H inp)"

definition btchip_compute_checksum :: "btc_env \<Rightarrow> u8 list \<Rightarrow> u8 list" where
  "btchip_compute_checksum H inp = take 4 (btc_sha256 H (btc_sha256 H inp))"

text \<open>The text; it is empty when the encoding fails.\<close>

definition btchip_public_key_to_encoded_base58 ::
    "btc_env \<Rightarrow> u8 list \<Rightarrow> nat \<Rightarrow> u16 \<Rightarrow> bool \<Rightarrow> u8 list" where
  "btchip_public_key_to_encoded_base58 H inp outlen version alreadyHashed =
    (let versionSize = (if version > 255 then 2 else 1);
         tmpBuffer =
           (if \<not> alreadyHashed then
              (if version > 255 then [ucast (drop_bit 8 version), ucast version] else [ucast version]) @
              btchip_public_key_hash160 H inp
            else take (20 + versionSize) inp)
     in case base58_encode (tmpBuffer @ btchip_compute_checksum H tmpBuffer) outlen of
          None \<Rightarrow> []
        | Some out \<Rightarrow> out)"

definition btchip_compress_public_key_value :: "u8 list \<Rightarrow> u8 list" where
  "btchip_compress_public_key_value W = W[0 := (if W ! 64 AND 1 \<noteq> 0 then 0x03 else 0x02)]"

definition derive_compressed_public_key :: "eth_env \<Rightarrow> u32 list \<Rightarrow> u8 list option" where
  "derive_compressed_public_key E path =
    (case derive_pubkey E path of
       Inl _ \<Rightarrow> None
     | Inr (pubkey, _) \<Rightarrow> Some (take 33 (btchip_compress_public_key_value pubkey)))"

section \<open>Addresses\<close>

definition P2_LEGACY :: u8 where "P2_LEGACY = 0x00"
definition P2_SEGWIT :: u8 where "P2_SEGWIT = 0x01"
definition P2_NATIVE_SEGWIT :: u8 where "P2_NATIVE_SEGWIT = 0x02"

definition COIN_P2PKH_VERSION :: u16 where "COIN_P2PKH_VERSION = 0"
definition COIN_P2SH_VERSION :: u16 where "COIN_P2SH_VERSION = 5"

text \<open>
  The address is written into an array of 51 bytes, but for \<open>P2_SEGWIT\<close> the length given is 150.
\<close>

definition get_address :: "btc_env \<Rightarrow> u8 \<Rightarrow> u8 list \<Rightarrow> nat \<Rightarrow> u8 list option outcome" where
  "get_address H format compressed_pub_key max_address_length =
    (let store = (\<lambda>s. if max_address_length \<le> length s then Undefined else Done (Some s))
     in if format = P2_LEGACY then
          store (btchip_public_key_to_encoded_base58 H compressed_pub_key (max_address_length - 1)
            COIN_P2PKH_VERSION False)
        else if format = P2_SEGWIT then
          store (btchip_public_key_to_encoded_base58 H
            ([0x00, 0x14] @ btchip_public_key_hash160 H compressed_pub_key) 150 COIN_P2SH_VERSION False)
        else if format = P2_NATIVE_SEGWIT then
          (case segwit_addr_encode (chars ''bc'') 0 (btchip_public_key_hash160 H compressed_pub_key) of
             None \<Rightarrow> Done None
           | Some s \<Rightarrow> store s)
        else Done None)"

definition address_format :: "u8 list \<Rightarrow> u8" where
  "address_format addr =
    (if take 3 addr = chars ''bc1'' then P2_NATIVE_SEGWIT
     else if take 1 addr = chars ''1'' then P2_LEGACY
     else P2_SEGWIT)"

definition btc_validate_address :: "btc_env \<Rightarrow> eth_env \<Rightarrow> u8 list \<Rightarrow> u32 list \<Rightarrow> bool outcome" where
  "btc_validate_address H E addr path =
    (case derive_compressed_public_key E path of
       None \<Rightarrow> Done False
     | Some key \<Rightarrow>
         then_do (get_address H (address_format addr) key 51) (\<lambda>address. Done (address = Some addr)))"

section \<open>What the addresses commit to\<close>

text \<open>The sizes of the two hashes.\<close>

definition btc_sizes :: "btc_env \<Rightarrow> bool" where
  "btc_sizes H \<longleftrightarrow> (\<forall>m. length (btc_sha256 H m) = 32) \<and> (\<forall>m. length (btc_ripemd160 H m) = 20)"

text \<open>The bytes of an address with a version byte, as they are encoded in base 58.\<close>

definition payload :: "btc_env \<Rightarrow> u8 \<Rightarrow> u8 list \<Rightarrow> u8 list" where
  "payload H version inp =
    (let body = version # btchip_public_key_hash160 H inp in body @ btchip_compute_checksum H body)"

lemma length_payload: "btc_sizes H \<Longrightarrow> length (payload H version inp) = 25"
  by (simp add: payload_def btchip_public_key_hash160_def btchip_compute_checksum_def btc_sizes_def Let_def)

lemma encoded_size:
  assumes "length bs \<le> 120"
  shows "length (base58_text bs) \<le> length bs * 138 div 100 + 1"
proof -
  let ?z = "length (takeWhile (\<lambda>b. b = 0) bs)"
  have "length (digits58 (be_val bs)) \<le> max 1 (digits_bound (length bs - ?z))"
    using encoded_digits [OF assms refl] by metis
  moreover have "?z \<le> length bs" by (rule length_takeWhile_le)
  ultimately show ?thesis using assms by (auto simp: base58_text_def digits_bound_def)
qed

lemma base58_text_ge: "length bs \<le> length (base58_text bs)"
proof (cases "dropWhile (\<lambda>b. b = 0) bs")
  case Nil
  then have "takeWhile (\<lambda>b. b = 0) bs = bs"
    using takeWhile_dropWhile_id [of "\<lambda>b. b = 0" bs] by (metis append_Nil2)
  then show ?thesis by (simp only: base58_text_def length_append length_replicate)
next
  case (Cons b cs)
  then have "b \<noteq> 0" using hd_dropWhile [of "\<lambda>b. b = 0" bs] by simp
  then have b: "0 < unat b" by (simp add: unat_gt_0)
  have v: "be_val bs = unat b * 256 ^ length cs + be_val cs"
    using be_val_drop_zeros [of bs] by (simp add: Cons be_val_Cons)
  let ?d = "length (digits58 (be_val bs))"
  have "58 ^ length cs \<le> (256 :: nat) ^ length cs" by (rule power_mono) simp_all
  also have "\<dots> \<le> unat b * 256 ^ length cs" using b by simp
  also have "\<dots> \<le> be_val bs" unfolding v by simp
  also have "\<dots> < 58 ^ ?d" using b58_val_lt [OF b58_digits58, of "be_val bs"] by simp
  finally have "length cs < ?d" by simp
  moreover have "length bs = length (takeWhile (\<lambda>b. b = 0) bs) + Suc (length cs)"
    using arg_cong [OF takeWhile_dropWhile_id [of "\<lambda>b. b = 0" bs], of length] by (simp add: Cons)
  ultimately show ?thesis by (simp add: base58_text_def)
qed

lemma payload_text:
  assumes "btc_sizes H"
  shows "length (base58_text (payload H version inp)) \<le> 35"
    and "base58_decode (base58_text (payload H version inp)) 25 = Some (payload H version inp)"
proof -
  have l: "length (payload H version inp) = 25" by (rule length_payload [OF assms])
  then show "length (base58_text (payload H version inp)) \<le> 35"
    using encoded_size [of "payload H version inp"] by simp
  show "base58_decode (base58_text (payload H version inp)) 25 = Some (payload H version inp)"
    using l base58_text_ge [of "payload H version inp"] by (intro base58_decode_text) simp_all
qed

lemma encoded_payload:
  assumes "btc_sizes H" "version \<le> 255" "35 \<le> outlen"
  shows "btchip_public_key_to_encoded_base58 H inp outlen version False =
    base58_text (payload H (ucast version) inp)"
proof -
  have "\<not> version > 255" using assms(2) by (simp add: not_less)
  then show ?thesis
    using payload_text(1) [OF assms(1), of "ucast version" inp] length_payload [OF assms(1), of "ucast version" inp]
      assms(3) base58_encode_text [of "payload H (ucast version) inp" outlen]
    by (simp add: btchip_public_key_to_encoded_base58_def payload_def Let_def)
qed

lemma get_address_base58:
  assumes "btc_sizes H"
  shows "get_address H P2_LEGACY key 51 = Done (Some (base58_text (payload H 0 key)))"
    and "get_address H P2_SEGWIT key 51 =
      Done (Some (base58_text (payload H 5 ([0x00, 0x14] @ btchip_public_key_hash160 H key))))"
  using payload_text(1) [OF assms, of 0 key] payload_text(1) [OF assms, of 5 "[0, 20] @ btchip_public_key_hash160 H key"]
  by (simp_all add: get_address_def encoded_payload [OF assms] COIN_P2PKH_VERSION_def COIN_P2SH_VERSION_def
      P2_LEGACY_def P2_SEGWIT_def)

text \<open>
  C26: An address that \<open>btc_validate_address\<close> accepts belongs to the key of the path: decoding it, in
  the format its first characters say, gives the hash of that public key.
\<close>

theorem btc_address_own:
  assumes "btc_sizes H" and "btc_validate_address H E addr path = Done True"
  shows "\<exists>key. derive_compressed_public_key E path = Some key \<and>
    (if take 3 addr = chars ''bc1''
     then segwit_addr_decode (chars ''bc'') addr = Some (0, btchip_public_key_hash160 H key)
     else if take 1 addr = chars ''1'' then base58_decode addr 25 = Some (payload H 0 key)
     else base58_decode addr 25 = Some (payload H 5 ([0x00, 0x14] @ btchip_public_key_hash160 H key)))"
proof -
  obtain key where key: "derive_compressed_public_key E path = Some key"
    and get: "get_address H (address_format addr) key 51 = Done (Some addr)"
    using assms(2) by (auto simp: btc_validate_address_def then_do_Done split: option.splits)
  have native: "segwit_addr_decode (chars ''bc'') addr = Some (0, btchip_public_key_hash160 H key)"
    if "address_format addr = P2_NATIVE_SEGWIT"
  proof (rule segwit_decode_encode)
    show "segwit_addr_encode (chars ''bc'') 0 (btchip_public_key_hash160 H key) = Some addr"
      using get unfolding that
      by (auto simp: get_address_def P2_NATIVE_SEGWIT_def P2_LEGACY_def P2_SEGWIT_def Let_def
          split: option.splits if_splits)
  qed (simp_all add: chars_def)
  have "if take 3 addr = chars ''bc1''
     then segwit_addr_decode (chars ''bc'') addr = Some (0, btchip_public_key_hash160 H key)
     else if take 1 addr = chars ''1'' then base58_decode addr 25 = Some (payload H 0 key)
     else base58_decode addr 25 = Some (payload H 5 ([0x00, 0x14] @ btchip_public_key_hash160 H key))"
    using native get get_address_base58 [OF assms(1), of key] payload_text(2) [OF assms(1)]
    by (auto simp: address_format_def split: if_splits)
  then show ?thesis using key by blast
qed

text \<open>The legacy address of a key is accepted.\<close>

lemma legacy_address_accepted:
  assumes "btc_sizes H" and "derive_compressed_public_key E path = Some key"
  shows "btc_validate_address H E (base58_text (payload H 0 key)) path = Done True"
proof -
  have one: "base58_text (0 # bs) = 49 # base58_text bs" for bs
    by (simp add: base58_text_def BASE58_ALPHABET_def be_val_Cons)
  have "\<exists>t. base58_text (payload H 0 key) = 49 # t"
    unfolding payload_def Let_def append_Cons one by blast
  then obtain t where t: "base58_text (payload H 0 key) = 49 # t" ..
  have "take 3 (49 # t) \<noteq> chars ''bc1''" "take 1 (49 # t) = chars ''1''" by (simp_all add: chars_def)
  then have "address_format (49 # t) = P2_LEGACY" by (simp only: address_format_def if_True if_False simp_thms)
  then show ?thesis
    using assms(2) get_address_base58(1) [OF assms(1), of key] t by (simp add: btc_validate_address_def)
qed

definition example_btc :: btc_env where
  "example_btc = \<lparr>btc_sha256 = (\<lambda>m. replicate 31 0 @ [of_nat (length m)]), btc_ripemd160 = (\<lambda>m. take 20 (m @ replicate 20 1))\<rparr>"

definition example_keys :: eth_env where
  "example_keys = example_env\<lparr>eth_keypair := (\<lambda>k. Some (4 # replicate 64 7))\<rparr>"

theorem btc_address_own_witness:
  "\<exists>addr. btc_validate_address example_btc example_keys addr [] = Done True \<and>
    take 1 addr = chars ''1'' \<and> base58_decode addr 25 = Some (payload example_btc 0 (3 # replicate 32 7))"
proof -
  have sizes: "btc_sizes example_btc" by (auto simp: btc_sizes_def example_btc_def min_def)
  have key: "derive_compressed_public_key example_keys [] = Some (3 # replicate 32 7)" by code_simp
  let ?addr = "base58_text (payload example_btc 0 (3 # replicate 32 7))"
  have ok: "btc_validate_address example_btc example_keys ?addr [] = Done True"
    by (rule legacy_address_accepted [OF sizes key])
  have "take 1 ?addr = chars ''1''" "take 3 ?addr \<noteq> chars ''bc1''" by code_simp+
  then show ?thesis using btc_address_own [OF sizes ok] ok key by auto
qed

end
