(* ===== verification/Swap.thy ===== *)
theory Swap
  imports Eth_Tx Btc_Amount Btc_Address Ux
begin

text \<open>
  The exchange application (\<open>app/app-swap/src/swap.c\<close>, \<open>sell.c\<close>, \<open>partner.c\<close>, \<open>currency_config.c\<close>,
  \<open>ui.c\<close>, \<open>main.c\<close>): a partner, whose key Ledger signed, signs the terms of an exchange, and the
  device makes the transaction if the addresses are the user's and the user accepts. A string field of
  a message is the C string that the decoder stores, with its zero left out; \<open>device_transaction_id\<close>,
  which is compared with \<open>memcmp\<close>, is the whole array.
\<close>

section \<open>Messages and environment\<close>

record partner =
  pa_name :: "u8 list"
  pa_pubkey :: "u8 list"
  pa_signature :: "u8 list"

record new_transaction =
  nt_payin_address :: "u8 list"
  nt_refund_address :: "u8 list"
  nt_payout_address :: "u8 list"
  nt_currency_from :: "u8 list"
  nt_currency_to :: "u8 list"
  nt_amount_to_provider :: "u8 list"
  nt_amount_to_wallet :: "u8 list"
  nt_device_transaction_id :: "u8 list"

record request_swap =
  rq_partner :: partner
  rq_pb_tx :: "u8 list"
  rq_signature :: "u8 list"
  rq_fee :: "u8 list"
  rq_payout_path :: "u32 list"
  rq_refund_path :: "u32 list"

datatype swap_request =
  Get_version | Init_swap | Init_sell | Swap request_swap | Sell partner | Other_tag

text \<open>
  The response to a swap has the transaction, if there is one; the other fields of the responses to
  \<open>Init_sell\<close>, \<open>Swap\<close> and \<open>Sell\<close> are never written.
\<close>

datatype swap_response =
  Version "u8 list" | Device_id "u8 list" | Sell_ready | Swapped "u8 list option" | Sold
| Error_msg "u8 list"

text \<open>
  The cryptography of the system calls and the decoders that protobuf generates: \<open>sw_verify key hash
  signature\<close>, \<open>sw_pb_tx\<close> for the terms, \<open>sw_request\<close> for a request (or the decoder's message) and
  \<open>sw_encode\<close> for a response.
\<close>

record swap_env =
  sw_eth :: eth_env
  sw_btc :: btc_env
  sw_ecdsa :: "u8 list \<Rightarrow> u8 list \<Rightarrow> (u8 list \<times> u32) option"
  sw_verify :: "u8 list \<Rightarrow> u8 list \<Rightarrow> u8 list \<Rightarrow> bool"
  sw_pb_tx :: "u8 list \<Rightarrow> new_transaction option"
  sw_request :: "u8 list \<Rightarrow> string + swap_request"
  sw_encode :: "swap_response \<Rightarrow> u8 list option"

text \<open>
  What comes in during a turn: the message, the random bytes, the buttons, and what the three arrays of
  \<open>handle_swap\<close> hold at first.
\<close>

record swap_turn =
  tu_message :: "u8 list"
  tu_random :: "u8 list"
  tu_buttons :: "int list"
  tu_stack :: "nat \<Rightarrow> u8 list"

record swap_ctx =
  device_id_swap :: "u8 list"
  device_id_sell :: "u8 list"

section \<open>Currencies\<close>

record swap_config =
  validate_address :: "u8 list \<Rightarrow> u32 list \<Rightarrow> bool outcome"
  get_printable_amount :: "u8 list \<Rightarrow> u8 list \<Rightarrow> (bool \<times> u8 list) outcome"
  create_tx :: "(u32 list \<Rightarrow> u8 list \<Rightarrow> u8 list \<Rightarrow> u8 list \<Rightarrow> nat \<Rightarrow> u8 list option) option"

definition btc_config :: "swap_env \<Rightarrow> swap_config" where
  "btc_config E =
    \<lparr>validate_address = btc_validate_address (sw_btc E) (sw_eth E),
     get_printable_amount = btc_get_printable_amount,
     create_tx = None\<rparr>"

definition eth_config :: "swap_env \<Rightarrow> swap_config" where
  "eth_config E =
    \<lparr>validate_address = (\<lambda>addr path. Done (eth_validate_address (sw_eth E) addr path)),
     get_printable_amount = eth_get_printable_amount,
     create_tx = Some (eth_create_tx (sw_eth E) (sw_ecdsa E))\<rparr>"

definition get_config :: "swap_env \<Rightarrow> u8 list \<Rightarrow> swap_config option" where
  "get_config E currency =
    (if currency = chars ''BTC'' then Some (btc_config E)
     else if currency = chars ''ETH'' then Some (eth_config E)
     else None)"

section \<open>Signatures\<close>

text \<open>The key of the exchange configuration signer.\<close>

definition ledger_pubkey :: "u8 list" where
  "ledger_pubkey = [0x04] @ concat [
    [0x0c, 0x17, 0xfd, 0xc5, 0xc0, 0x62, 0x9e, 0xca],
    [0x77, 0xe0, 0xa7, 0x10, 0xcd, 0xe9, 0x66, 0xba],
    [0xe1, 0xa3, 0x2c, 0x84, 0xe3, 0x83, 0xe3, 0x28],
    [0xa5, 0x52, 0x1c, 0x28, 0x1e, 0xfb, 0xa4, 0x99],
    [0x07, 0x44, 0xea, 0xbc, 0xb5, 0x91, 0xb0, 0xd8],
    [0xbe, 0x59, 0x8a, 0x2f, 0xfa, 0xca, 0x8d, 0x29],
    [0xbc, 0x79, 0xfb, 0x20, 0x68, 0x6c, 0xc7, 0xc0],
    [0x06, 0x0c, 0x53, 0x86, 0x2c, 0x5c, 0xe3, 0x8c]]"

definition partner_message :: "partner \<Rightarrow> u8 list" where
  "partner_message p =
    (let len = of_nat (length (pa_name p)) :: u8
     in [len] @ take (unat len) (pa_name p) @ pa_pubkey p)"

definition verify_partner :: "swap_env \<Rightarrow> partner \<Rightarrow> bool" where
  "verify_partner E p =
    sw_verify E ledger_pubkey (btc_sha256 (sw_btc E) (partner_message p)) (pa_signature p)"

definition verify_tx_signature :: "swap_env \<Rightarrow> u8 list \<Rightarrow> u8 list \<Rightarrow> u8 list \<Rightarrow> bool" where
  "verify_tx_signature E raw_pubkey tx signature =
    sw_verify E raw_pubkey (btc_sha256 (sw_btc E) tx) signature"

section \<open>The screens\<close>

definition swap_items :: "u8 list \<Rightarrow> u8 list \<Rightarrow> u8 list \<Rightarrow> ux_item list" where
  "swap_items send get' fees =
    review_items ''transaction'' ''and send''
      [text_item ''Send'' send, text_item ''Get'' get', text_item ''Fees'' fees]"

text \<open>
  The three strings are copied into arrays of 50 bytes with \<open>strncpy\<close>, which reads on behind an array
  of 32 bytes without a zero.
\<close>

definition ui_sign_tx_validation ::
    "u8 list \<Rightarrow> u8 list \<Rightarrow> u8 list \<Rightarrow> int list \<Rightarrow> bool outcome" where
  "ui_sign_tx_validation send_amount get_amount fees buttons =
    (if 0 \<notin> set send_amount \<or> 0 \<notin> set get_amount \<or> 0 \<notin> set fees then Undefined
     else then_do (ux_validate (swap_items (cstr send_amount) (cstr get_amount) (cstr fees)) buttons)
            (\<lambda>(validated, _). Done validated))"

section \<open>Requests\<close>

definition reset_ctx :: swap_ctx where
  "reset_ctx = \<lparr>device_id_swap = replicate 11 0, device_id_sell = replicate 32 0\<rparr>"

definition handle_init_swap :: "u8 list \<Rightarrow> swap_ctx \<Rightarrow> u8 list \<times> swap_ctx" where
  "handle_init_swap random ctx =
    (let id' = map (\<lambda>i. 65 + random ! i mod 26) [0..<10]
     in (id', ctx\<lparr>device_id_swap := id' @ [0]\<rparr>))"

definition is_id_valid :: "swap_ctx \<Rightarrow> bool" where
  "is_id_valid ctx = list_all (\<lambda>b. b \<noteq> 0) (take 10 (device_id_swap ctx))"

text \<open>The part of \<open>handle_swap\<close> before the screens: the terms and the two configurations.\<close>

definition check_terms ::
    "swap_env \<Rightarrow> request_swap \<Rightarrow> swap_ctx \<Rightarrow> string + (new_transaction \<times> swap_config \<times> swap_config)" where
  "check_terms E req ctx =
    (if \<not> verify_partner E (rq_partner req) then Inl ''invalid partner''
     else
       case sw_pb_tx E (rq_pb_tx req) of
         None \<Rightarrow> Inl ''failed to decode swap tx''
       | Some tx \<Rightarrow>
           if \<not> is_id_valid ctx then Inl ''device tx id unset''
           else if device_id_swap ctx \<noteq> nt_device_transaction_id tx then Inl ''device tx id doesn't match''
           else if \<not> verify_tx_signature E (pa_pubkey (rq_partner req)) (rq_pb_tx req) (rq_signature req)
           then Inl ''invalid tx signature''
           else
             case get_config E (nt_currency_from tx) of
               None \<Rightarrow> Inl ''invalid currency from''
             | Some from' \<Rightarrow>
                 (case get_config E (nt_currency_to tx) of
                    None \<Rightarrow> Inl ''invalid currency to''
                  | Some to' \<Rightarrow> Inr (tx, from', to')))"

text \<open>An error message, or the transaction that is put into the response, if any.\<close>

definition handle_swap ::
    "swap_env \<Rightarrow> swap_turn \<Rightarrow> request_swap \<Rightarrow> swap_ctx \<Rightarrow> (string + u8 list option) outcome" where
  "handle_swap E u req ctx =
    (case check_terms E req ctx of
       Inl error \<Rightarrow> Done (Inl error)
     | Inr (tx, from', to') \<Rightarrow>
         then_do (validate_address to' (nt_payout_address tx) (rq_payout_path req)) (\<lambda>ok.
         if \<not> ok then Done (Inl ''invalid payout address'') else
         then_do (validate_address from' (nt_refund_address tx) (rq_refund_path req)) (\<lambda>ok.
         if \<not> ok then Done (Inl ''invalid refund address'') else
         then_do (get_printable_amount from' (nt_amount_to_provider tx) (tu_stack u 0)) (\<lambda>(ok, send_amount).
         if \<not> ok then Done (Inl ''invalid send amount'') else
         then_do (get_printable_amount to' (nt_amount_to_wallet tx) (tu_stack u 1)) (\<lambda>(ok, recv_amount).
         if \<not> ok then Done (Inl ''invalid recv amount'') else
         then_do (get_printable_amount from' (rq_fee req) (tu_stack u 2)) (\<lambda>(ok, fees).
         if \<not> ok then Done (Inl ''failed to get printable fees'') else
         then_do (ui_sign_tx_validation send_amount recv_amount fees (tu_buttons u)) (\<lambda>ok.
         if \<not> ok then Done (Inl ''not approved'') else
         case create_tx from' of
           None \<Rightarrow> Done (Inr None)
         | Some create \<Rightarrow>
             (case create (rq_refund_path req) (nt_payin_address tx) (nt_amount_to_provider tx) (rq_fee req) 256 of
                None \<Rightarrow> Done (Inl ''failed to create tx'')
              | Some bytes \<Rightarrow> Done (Inr (Some bytes))))))))))"

definition handle_sell :: "swap_env \<Rightarrow> partner \<Rightarrow> string option" where
  "handle_sell E p = (if \<not> verify_partner E p then Some ''invalid partner'' else None)"

definition set_error :: "string \<Rightarrow> swap_response" where
  "set_error msg = Error_msg (take 64 (chars msg))"

definition handle_req ::
    "swap_env \<Rightarrow> swap_turn \<Rightarrow> swap_request \<Rightarrow> swap_ctx \<Rightarrow> (swap_response \<times> swap_ctx) outcome" where
  "handle_req E u req ctx =
    (case req of
       Get_version \<Rightarrow> Done (Version (chars ''version 1.33.7''), ctx)
     | Init_swap \<Rightarrow>
         let (id', ctx) = handle_init_swap (tu_random u) reset_ctx in Done (Device_id id', ctx)
     | Init_sell \<Rightarrow> Done (Sell_ready, reset_ctx)
     | Swap r \<Rightarrow>
         then_do (handle_swap E u r ctx) (\<lambda>result.
           Done (case result of Inl error \<Rightarrow> set_error error | Inr tx \<Rightarrow> Swapped tx, reset_ctx))
     | Sell p \<Rightarrow>
         Done (case handle_sell E p of Some error \<Rightarrow> set_error error | None \<Rightarrow> Sold, reset_ctx)
     | Other_tag \<Rightarrow> Done (set_error ''invalid request tag'', reset_ctx))"

text \<open>
  A turn of \<open>main\<close>: the response, the message sent and the context. A response that cannot be encoded
  ends the application.
\<close>

definition swap_main_turn ::
    "swap_env \<Rightarrow> swap_turn \<Rightarrow> swap_ctx \<Rightarrow> (swap_response \<times> u8 list \<times> swap_ctx) outcome" where
  "swap_main_turn E u ctx =
    then_do (case sw_request E (tu_message u) of
               Inl error \<Rightarrow> Done (set_error error, ctx)
             | Inr req \<Rightarrow> handle_req E u req ctx) (\<lambda>(response, ctx).
      case sw_encode E response of None \<Rightarrow> Exited | Some out \<Rightarrow> Done (response, out, ctx))"

section \<open>Runs\<close>

text \<open>The turns of a run with their responses, from the start of \<open>main\<close> on.\<close>

inductive swap_run :: "swap_env \<Rightarrow> (swap_turn \<times> swap_response) list \<Rightarrow> swap_ctx \<Rightarrow> bool" for E where
  start: "swap_run E [] reset_ctx"
| turn: "swap_run E hist ctx \<Longrightarrow> swap_main_turn E u ctx = Done (response, out, ctx') \<Longrightarrow>
    swap_run E (hist @ [(u, response)]) ctx'"

inductive_cases swap_run_snocE: "swap_run E (hist @ [(u, response)]) ctx"

text \<open>A turn that is not about an exchange: it asks for the version or could not be decoded.\<close>

definition quiet :: "swap_env \<Rightarrow> swap_turn \<Rightarrow> bool" where
  "quiet E u \<longleftrightarrow> (case sw_request E (tu_message u) of Inl _ \<Rightarrow> True | Inr req \<Rightarrow> req = Get_version)"

text \<open>The identifier was sent to the host, and only quiet turns came after it.\<close>

definition announced :: "swap_env \<Rightarrow> (swap_turn \<times> swap_response) list \<Rightarrow> u8 list \<Rightarrow> bool" where
  "announced E hist id' \<longleftrightarrow>
    (\<exists>pre u mid. hist = pre @ [(u, Device_id id')] @ mid \<and> list_all (\<lambda>(u, _). quiet E u) mid)"

lemma announced_snoc:
  "announced E hist id' \<Longrightarrow> quiet E u \<Longrightarrow> announced E (hist @ [(u, response)]) id'"
  unfolding announced_def by (fastforce simp: list_all_append)

lemma announced_now: "announced E (hist @ [(u, Device_id id')]) id'"
  unfolding announced_def by (intro exI [of _ hist] exI [of _ u] exI [of _ "[]"]) simp

text \<open>The three kinds of turns.\<close>

lemma swap_turn_cases:
  assumes "swap_main_turn E u ctx = Done (response, out, ctx')"
  obtains (quiet) "quiet E u" "ctx' = ctx" "\<not> (\<exists>t. response = Swapped t)" "\<not> (\<exists>i. response = Device_id i)"
  | (init) id' where "response = Device_id id'" "device_id_swap ctx' = id' @ [0]"
  | (reset) "ctx' = reset_ctx" "\<not> (\<exists>i. response = Device_id i)"
      "\<And>t. response = Swapped t \<Longrightarrow>
        \<exists>req. sw_request E (tu_message u) = Inr (Swap req) \<and> handle_swap E u req ctx = Done (Inr t)"
proof (cases "sw_request E (tu_message u)")
  case (Inl e)
  then show ?thesis
    using assms quiet by (auto simp: swap_main_turn_def quiet_def set_error_def split: option.splits)
next
  case (Inr req)
  have turn: "handle_req E u req ctx = Done (response, ctx')"
    using assms Inr by (auto simp: swap_main_turn_def then_do_Done split: option.splits)
  show ?thesis
  proof (cases req)
    case Get_version
    then show ?thesis using turn Inr by (intro quiet) (auto simp: handle_req_def quiet_def)
  next
    case Init_swap
    then show ?thesis using turn by (intro init) (auto simp: handle_req_def handle_init_swap_def Let_def)
  next
    case (Swap r)
    then obtain result where h: "handle_swap E u r ctx = Done result" "ctx' = reset_ctx"
      "response = (case result of Inl error \<Rightarrow> set_error error | Inr tx \<Rightarrow> Swapped tx)"
      using turn by (auto simp: handle_req_def then_do_Done)
    then show ?thesis
      using Swap Inr by (cases result) (auto simp: set_error_def intro!: reset)
  qed (use turn in \<open>auto simp: handle_req_def set_error_def split: option.splits intro!: reset\<close>)
qed

lemma swap_run_ctx:
  "swap_run E hist ctx \<Longrightarrow>
    ctx = reset_ctx \<or> (\<exists>id'. announced E hist id' \<and> device_id_swap ctx = id' @ [0])"
proof (induction rule: swap_run.induct)
  case (turn hist ctx u response out ctx')
  from turn(2) show ?case
  proof (cases rule: swap_turn_cases)
    case quiet
    then show ?thesis using turn.IH announced_snoc by blast
  next
    case (init id')
    then show ?thesis using announced_now by blast
  qed simp
qed simp

lemma swap_run_swapped:
  assumes "swap_run E (hist @ [(u, Swapped t)]) ctx"
  obtains c req where "swap_run E hist c" "sw_request E (tu_message u) = Inr (Swap req)"
    "handle_swap E u req c = Done (Inr t)"
  using assms
proof (cases rule: swap_run.cases)
  case (turn hist' c u' response out)
  then have "swap_run E hist c" "swap_main_turn E u c = Done (Swapped t, out, ctx)" by auto
  from this(2) show ?thesis by (cases rule: swap_turn_cases) (use \<open>swap_run E hist c\<close> that in auto)
qed simp

section \<open>What an exchange takes\<close>

lemma check_terms_Inr:
  "check_terms E req ctx = Inr (tx, from', to') \<longleftrightarrow>
    verify_partner E (rq_partner req) \<and> sw_pb_tx E (rq_pb_tx req) = Some tx \<and> is_id_valid ctx \<and>
    device_id_swap ctx = nt_device_transaction_id tx \<and>
    verify_tx_signature E (pa_pubkey (rq_partner req)) (rq_pb_tx req) (rq_signature req) \<and>
    get_config E (nt_currency_from tx) = Some from' \<and> get_config E (nt_currency_to tx) = Some to'"
  by (auto simp: check_terms_def split: option.splits)

lemma ui_sign_tx_validation_True:
  "ui_sign_tx_validation send get' fees buttons = Done True \<longleftrightarrow>
    0 \<in> set send \<and> 0 \<in> set get' \<and> 0 \<in> set fees \<and>
    (\<exists>shown rest. ux_validate (swap_items (cstr send) (cstr get') (cstr fees)) buttons = Done (True, shown, rest))"
  by (auto simp: ui_sign_tx_validation_def then_do_Done)

lemma not_reset: "is_id_valid ctx \<Longrightarrow> ctx \<noteq> reset_ctx"
  by (auto simp: is_id_valid_def reset_ctx_def list_all_iff)

text \<open>
  C20: An exchange is never made behind the user's back. If a turn answers with an exchange, then the
  partner's key was signed by Ledger, the partner signed the terms, they carry the identifier that this
  device announced last and has not used since, both addresses are the user's own, the user accepted
  with the amounts and the fees on the screen, and the transaction is the one for these terms.
\<close>

theorem swap_authorised:
  assumes "swap_run E (hist @ [(u, Swapped t)]) ctx"
  shows "\<exists>req tx from' to' id' send recv fees shown rest.
    sw_request E (tu_message u) = Inr (Swap req) \<and> sw_pb_tx E (rq_pb_tx req) = Some tx \<and>
    verify_partner E (rq_partner req) \<and>
    verify_tx_signature E (pa_pubkey (rq_partner req)) (rq_pb_tx req) (rq_signature req) \<and>
    announced E hist id' \<and> nt_device_transaction_id tx = id' @ [0] \<and>
    get_config E (nt_currency_from tx) = Some from' \<and> get_config E (nt_currency_to tx) = Some to' \<and>
    validate_address to' (nt_payout_address tx) (rq_payout_path req) = Done True \<and>
    validate_address from' (nt_refund_address tx) (rq_refund_path req) = Done True \<and>
    get_printable_amount from' (nt_amount_to_provider tx) (tu_stack u 0) = Done (True, send) \<and>
    get_printable_amount to' (nt_amount_to_wallet tx) (tu_stack u 1) = Done (True, recv) \<and>
    get_printable_amount from' (rq_fee req) (tu_stack u 2) = Done (True, fees) \<and>
    ux_validate (swap_items (cstr send) (cstr recv) (cstr fees)) (tu_buttons u) = Done (True, shown, rest) \<and>
    t = (case create_tx from' of None \<Rightarrow> None
         | Some create \<Rightarrow>
             create (rq_refund_path req) (nt_payin_address tx) (nt_amount_to_provider tx) (rq_fee req) 256)"
proof -
  obtain c req where run: "swap_run E hist c" and req: "sw_request E (tu_message u) = Inr (Swap req)"
    and h: "handle_swap E u req c = Done (Inr t)"
    using swap_run_swapped [OF assms] .
  obtain tx from' to' where terms: "check_terms E req c = Inr (tx, from', to')"
    using h by (cases "check_terms E req c") (auto simp: handle_swap_def)
  note checked = terms [unfolded check_terms_Inr]
  obtain id' where id': "announced E hist id'" "device_id_swap c = id' @ [0]"
    using swap_run_ctx [OF run] not_reset checked by blast
  show ?thesis
    using h id' checked req unfolding handle_swap_def terms sum.case prod.case
    by (auto simp: then_do_Done ui_sign_tx_validation_True split: if_splits option.splits)
qed

text \<open>The exchanges of a run, and the identifiers sent.\<close>

definition swaps :: "(swap_turn \<times> swap_response) list \<Rightarrow> nat" where
  "swaps hist = length (filter (\<lambda>(_, r). case r of Swapped _ \<Rightarrow> True | _ \<Rightarrow> False) hist)"

definition identifiers :: "(swap_turn \<times> swap_response) list \<Rightarrow> nat" where
  "identifiers hist = length (filter (\<lambda>(_, r). case r of Device_id _ \<Rightarrow> True | _ \<Rightarrow> False) hist)"

lemma swap_run_counts:
  "swap_run E hist ctx \<Longrightarrow> swaps hist + (if ctx = reset_ctx then 0 else 1) \<le> identifiers hist"
proof (induction hist ctx rule: swap_run.induct)
  case start
  then show ?case by (simp add: swaps_def identifiers_def)
next
  case (turn hist ctx u response out ctx')
  from turn(2) show ?case
  proof (cases rule: swap_turn_cases)
    case quiet
    then show ?thesis using turn.IH by (cases response) (auto simp: swaps_def identifiers_def)
  next
    case (init id')
    then show ?thesis using turn.IH by (auto simp: swaps_def identifiers_def split: if_splits)
  next
    case reset
    show ?thesis
    proof (cases "\<exists>t. response = Swapped t")
      case True
      then obtain t req where t: "response = Swapped t" "handle_swap E u req ctx = Done (Inr t)"
        using reset(3) by blast
      then obtain x where "check_terms E req ctx = Inr x"
        by (cases "check_terms E req ctx") (auto simp: handle_swap_def)
      then have "ctx \<noteq> reset_ctx" using not_reset by (cases x) (auto simp: check_terms_Inr)
      then show ?thesis using turn.IH reset(1) t(1) by (simp add: swaps_def identifiers_def)
    next
      case False
      then show ?thesis
        using turn.IH reset(1,2) by (cases response) (auto simp: swaps_def identifiers_def split: if_splits)
    qed
  qed
qed

text \<open>
  C21: An identifier serves for one exchange: in every run there are at most as many exchanges as
  identifiers sent.
\<close>

theorem swap_single_use:
  assumes "swap_run E hist ctx"
  shows "swaps hist \<le> identifiers hist"
  using swap_run_counts [OF assms] by simp

section \<open>An example\<close>

text \<open>An exchange of bitcoins for bitcoins, which the user accepts.\<close>

definition example_address :: "u8 list" where
  "example_address = base58_text (payload example_btc 0 (3 # replicate 32 7))"

definition example_terms :: new_transaction where
  "example_terms =
    \<lparr>nt_payin_address = [], nt_refund_address = example_address, nt_payout_address = example_address,
     nt_currency_from = chars ''BTC'', nt_currency_to = chars ''BTC'', nt_amount_to_provider = [1],
     nt_amount_to_wallet = [1], nt_device_transaction_id = replicate 10 65 @ [0]\<rparr>"

definition example_request :: request_swap where
  "example_request =
    \<lparr>rq_partner = \<lparr>pa_name = [], pa_pubkey = [], pa_signature = []\<rparr>, rq_pb_tx = [], rq_signature = [],
     rq_fee = [1], rq_payout_path = [], rq_refund_path = []\<rparr>"

definition example_swap :: swap_env where
  "example_swap =
    \<lparr>sw_eth = example_keys, sw_btc = example_btc, sw_ecdsa = (\<lambda>_ _. None), sw_verify = (\<lambda>_ _ _. True),
     sw_pb_tx = (\<lambda>_. Some example_terms),
     sw_request = (\<lambda>m. Inr (if m = [] then Init_swap else Swap example_request)),
     sw_encode = (\<lambda>_. Some [])\<rparr>"

definition example_turn :: "u8 list \<Rightarrow> swap_turn" where
  "example_turn m =
    \<lparr>tu_message = m, tu_random = replicate 10 0,
     tu_buttons = replicate 4 BUTTON_RIGHT @ [BUTTON_BOTH], tu_stack = (\<lambda>_. replicate 32 0)\<rparr>"

lemma example_address_own: "btc_validate_address example_btc example_keys example_address [] = Done True"
proof -
  have "btc_sizes example_btc" by (auto simp: btc_sizes_def example_btc_def min_def)
  moreover have "derive_compressed_public_key example_keys [] = Some (3 # replicate 32 7)" by code_simp
  ultimately show ?thesis unfolding example_address_def by (rule legacy_address_accepted)
qed

lemma example_amount: "\<exists>out. btc_get_printable_amount [1] (replicate 32 0) = Done (True, out) \<and> 0 \<in> set out"
proof -
  have "case btc_get_printable_amount [1] (replicate 32 0) of Done (ok, out) \<Rightarrow> ok \<and> list_ex (\<lambda>b. b = 0) out | _ \<Rightarrow> False"
    by code_simp
  then show ?thesis by (auto simp: list_ex_iff split: outcome.splits prod.splits)
qed

lemma swap_items_accept:
  "\<exists>shown. ux_validate (swap_items a b c) (replicate 4 BUTTON_RIGHT @ [BUTTON_BOTH]) = Done (True, shown, [])"
  using review_accepts [of "[text_item ''Send'' a, text_item ''Get'' b, text_item ''Fees'' c]"]
  by (simp add: swap_items_def eval_nat_numeral)

lemma example_run:
  "swap_run example_swap [(example_turn [], Device_id (replicate 10 65)), (example_turn [1], Swapped None)] reset_ctx"
proof -
  let ?E = example_swap and ?c = "reset_ctx\<lparr>device_id_swap := replicate 10 65 @ [0]\<rparr>"
  have id': "handle_init_swap (replicate 10 0) reset_ctx = (replicate 10 65, ?c)"
  proof -
    have "map (\<lambda>i. 65 + (replicate 10 0 ! i) mod 26) [0..<10] = (replicate 10 65 :: u8 list)" by code_simp
    then show ?thesis by (simp only: handle_init_swap_def Let_def)
  qed
  have 1: "swap_main_turn ?E (example_turn []) reset_ctx = Done (Device_id (replicate 10 65), [], ?c)"
    by (simp add: swap_main_turn_def example_swap_def example_turn_def handle_req_def id')
  have cfg: "get_config ?E (chars ''BTC'') = Some (btc_config ?E)" by (simp add: get_config_def)
  have terms: "check_terms ?E example_request ?c = Inr (example_terms, btc_config ?E, btc_config ?E)"
    unfolding check_terms_Inr
    by (simp add: example_swap_def verify_partner_def verify_tx_signature_def is_id_valid_def
        example_terms_def get_config_def list_all_iff)
  obtain a where amount: "btc_get_printable_amount [1] (replicate 32 0) = Done (True, a)" "0 \<in> set a"
    using example_amount by blast
  have ui: "ui_sign_tx_validation a a a (replicate 4 BUTTON_RIGHT @ [BUTTON_BOTH]) = Done True"
    unfolding ui_sign_tx_validation_True using amount swap_items_accept by blast
  have "handle_swap ?E (example_turn [1]) example_request ?c = Done (Inr None)"
    unfolding handle_swap_def terms sum.case prod.case
    using amount ui example_address_own
    by (simp add: btc_config_def example_swap_def example_terms_def example_request_def example_turn_def)
  then have 2: "swap_main_turn ?E (example_turn [1]) ?c = Done (Swapped None, [], reset_ctx)"
    by (simp add: swap_main_turn_def handle_req_def example_swap_def example_turn_def)
  show ?thesis
    using swap_run.turn [OF swap_run.turn [OF swap_run.start 1] 2] by simp
qed

theorem swap_authorised_witness:
  "\<exists>id'. announced example_swap [(example_turn [], Device_id (replicate 10 65))] id' \<and>
    nt_device_transaction_id example_terms = id' @ [0]"
proof -
  have "swap_run example_swap ([(example_turn [], Device_id (replicate 10 65))] @ [(example_turn [1], Swapped None)]) reset_ctx"
    using example_run by simp
  from swap_authorised [OF this] show ?thesis by (auto simp: example_swap_def)
qed

theorem swap_single_use_witness:
  "swaps [(example_turn [], Device_id (replicate 10 65)), (example_turn [1], Swapped None)] \<le>
    identifiers [(example_turn [], Device_id (replicate 10 65)), (example_turn [1], Swapped None)]"
  by (rule swap_single_use [OF example_run])

end
