(* ===== verification/Eip712.thy ===== *)
theory Eip712
  imports Eth_Sign Ux
begin

text \<open>
  Typed data of EIP-712 (\<open>app/app-ethereum/src/eip712.c\<close>, \<open>eip712.h\<close>): the members of a structure,
  their encoding and hash, and the reading of their values from the tokens of a JSON text. The JSON
  tokenizer is a third-party library, and its result a parameter. \<open>fatal\<close> is \<open>Exited\<close>.
\<close>

section \<open>Members\<close>

text \<open>
  A member with its type and value. Strings and byte strings are pointers into the text of the
  request: \<open>None\<close> when that text is gone. The bytes of an integer and the digits of an address are
  arrays of the member itself. Structures and arrays point to other members.
\<close>

datatype member =
  M_bytes_n "u8 list" nat
| M_uint_n "u8 list" nat
| M_int_n "u8 list" nat bool
| M_bool bool
| M_address "u8 list"
| M_bytes "u8 list option"
| M_string "u8 list option"
| M_array "member list"
| M_struct hash_struct_t
and hash_struct_t = Hash_struct "u8 list" "member list"

section \<open>Encoding\<close>

definition eip_unhex_helper :: "u8 \<Rightarrow> u8 outcome" where
  "eip_unhex_helper c =
    (if c \<ge> 48 \<and> c \<le> 57 then Done (c - 48)
     else if c \<ge> 97 \<and> c \<le> 102 then Done (c - 97 + 10)
     else if c \<ge> 65 \<and> c \<le> 70 then Done (c - 65 + 10)
     else Exited)"

text \<open>\<open>bin_size\<close> bytes from the digits; a text that is too short is read behind its end.\<close>

fun eip_unhex :: "u8 list \<Rightarrow> nat \<Rightarrow> u8 list outcome" where
  "eip_unhex hex 0 = Done []"
| "eip_unhex (a # b # hex) (Suc bin_size) =
    then_do (eip_unhex_helper a) (\<lambda>h. then_do (eip_unhex_helper b) (\<lambda>l.
    then_do (eip_unhex hex bin_size) (\<lambda>bin. Done ((push_bit 4 h OR l) # bin))))"
| "eip_unhex hex (Suc bin_size) = Undefined"

definition is_hex_digit :: "u8 \<Rightarrow> bool" where
  "is_hex_digit c \<longleftrightarrow> c \<ge> 48 \<and> c \<le> 57 \<or> c \<ge> 97 \<and> c \<le> 102 \<or> c \<ge> 65 \<and> c \<le> 70"

definition is_hex_string :: "u8 list \<Rightarrow> bool" where
  "is_hex_string s = list_all is_hex_digit s"

definition is_digit_string :: "u8 list \<Rightarrow> bool" where
  "is_digit_string s = list_all (\<lambda>c. c \<ge> 48 \<and> c \<le> 57) s"

definition eip_encode_address :: "u8 list \<Rightarrow> u8 list outcome" where
  "eip_encode_address address = then_do (eip_unhex address 20) (\<lambda>bin. Done (replicate 12 0 @ bin))"

definition eip_encode_bytes_n :: "u8 list \<Rightarrow> nat \<Rightarrow> u8 list outcome" where
  "eip_encode_bytes_n hex n = then_do (eip_unhex hex n) (\<lambda>bin. Done (bin @ replicate (32 - n) 0))"

definition eip_encode_bytes ::
    "(u8 list \<Rightarrow> u8 list) \<Rightarrow> (nat \<Rightarrow> bool) \<Rightarrow> u8 list option \<Rightarrow> u8 list outcome" where
  "eip_encode_bytes sha3 alloc hex =
    (case hex of
       None \<Rightarrow> Undefined
     | Some hex \<Rightarrow>
         let n = length hex div 2
         in if \<not> alloc n then Exited else then_do (eip_unhex hex n) (\<lambda>p. Done (sha3 p)))"

definition eip_encode_uint_n :: "u8 list \<Rightarrow> u8 list" where
  "eip_encode_uint_n bin = take 32 bin"

definition eip_encode_int_n :: "u8 list \<Rightarrow> nat \<Rightarrow> bool \<Rightarrow> u8 list" where
  "eip_encode_int_n bin n positive =
    (if positive then replicate (32 - n) 0 @ take n bin
     else let result = replicate (32 - n) 0xff @ take n bin
          in result[32 - n := result ! (32 - n) OR 0x80])"

definition eip_encode_bool :: "bool \<Rightarrow> u8 list" where
  "eip_encode_bool b = (replicate 32 0)[31 := (if b then 1 else 0)]"

text \<open>
  \<open>encode_data\<close> and \<open>hash_struct\<close>, which call each other, and the loops over members: the bytes that
  are given to the hash.
\<close>

fun encode_data :: "(u8 list \<Rightarrow> u8 list) \<Rightarrow> (nat \<Rightarrow> bool) \<Rightarrow> member \<Rightarrow> u8 list outcome"
and encode_members :: "(u8 list \<Rightarrow> u8 list) \<Rightarrow> (nat \<Rightarrow> bool) \<Rightarrow> member list \<Rightarrow> u8 list outcome"
and hash_struct :: "(u8 list \<Rightarrow> u8 list) \<Rightarrow> (nat \<Rightarrow> bool) \<Rightarrow> hash_struct_t \<Rightarrow> u8 list outcome" where
  "encode_data sha3 alloc (M_bytes_n hex n) = eip_encode_bytes_n hex n"
| "encode_data sha3 alloc (M_bytes hex) = eip_encode_bytes sha3 alloc hex"
| "encode_data sha3 alloc (M_bool b) = Done (eip_encode_bool b)"
| "encode_data sha3 alloc (M_string s) = (case s of None \<Rightarrow> Undefined | Some s \<Rightarrow> Done (sha3 s))"
| "encode_data sha3 alloc (M_struct h) = hash_struct sha3 alloc h"
| "encode_data sha3 alloc (M_address a) = eip_encode_address a"
| "encode_data sha3 alloc (M_uint_n bin n) = Done (eip_encode_uint_n bin)"
| "encode_data sha3 alloc (M_int_n bin n positive) = Done (eip_encode_int_n bin n positive)"
| "encode_data sha3 alloc (M_array ms) =
    then_do (encode_members sha3 alloc ms) (\<lambda>encoded. Done (sha3 encoded))"
| "encode_members sha3 alloc [] = Done []"
| "encode_members sha3 alloc (m # ms) =
    then_do (encode_data sha3 alloc m) (\<lambda>encoded.
    then_do (encode_members sha3 alloc ms) (\<lambda>rest. Done (encoded @ rest)))"
| "hash_struct sha3 alloc (Hash_struct type_hash ms) =
    then_do (encode_members sha3 alloc ms) (\<lambda>encoded. Done (sha3 (type_hash @ encoded)))"

section \<open>Values from JSON\<close>

datatype jsmntype = JSMN_UNDEFINED | JSMN_OBJECT | JSMN_ARRAY | JSMN_STRING | JSMN_PRIMITIVE

record jsmntok =
  tok_type :: jsmntype
  tok_start :: nat
  tok_end :: nat

definition tok_text :: "u8 list \<Rightarrow> jsmntok \<Rightarrow> u8 list" where
  "tok_text json t = take (tok_end t - tok_start t) (drop (tok_start t) json)"

text \<open>The setters: whether they succeed, and the member. A failure leaves the member as it was.\<close>

definition set_bytes :: "u8 list \<Rightarrow> u8 list option \<Rightarrow> bool \<times> u8 list option" where
  "set_bytes txt old =
    (if length txt < 2 \<or> take 2 txt \<noteq> chars ''0x'' then (False, old)
     else let p = drop 2 txt; n = length txt - 2
          in if n mod 2 \<noteq> 0 \<or> \<not> is_hex_string p then (False, old) else (True, Some p))"

definition set_address :: "u8 list \<Rightarrow> u8 list \<Rightarrow> bool \<times> u8 list" where
  "set_address txt old =
    (if length txt \<noteq> 42 \<or> take 2 txt \<noteq> chars ''0x'' then (False, old)
     else if \<not> is_hex_string (drop 2 txt) then (False, old)
     else (True, drop 2 txt))"

text \<open>
  The digits go to the first \<open>count\<close> bytes of the array, aligned to their right, and the bytes that
  are cleared are the first ones of the array, too.
\<close>

definition set_uint_n :: "u8 list \<Rightarrow> u8 list \<Rightarrow> nat \<Rightarrow> (bool \<times> u8 list) outcome" where
  "set_uint_n txt bin count' =
    (if length txt \<ge> 2 \<and> take 2 txt = chars ''0x'' then
       let p = drop 2 txt; n = length txt - 2
       in if \<not> is_hex_string p then Done (False, bin)
          else if n mod 2 \<noteq> 0 then Exited
          else
            let n = n div 2
            in if n > count' then Done (False, bin)
               else
                 let r = count' - n;
                     bin = replicate (32 - count') 0 @ drop (32 - count') bin
                 in then_do (eip_unhex p n) (\<lambda>new. Done (True, take r bin @ new @ drop (r + n) bin))
     else if is_digit_string txt then Exited
     else Done (False, bin))"

text \<open>The result of \<open>set_bytes\<close> is not used.\<close>

definition set_value :: "member \<Rightarrow> u8 list \<Rightarrow> (bool \<times> member) outcome" where
  "set_value m txt =
    (case m of
       M_string _ \<Rightarrow> Done (True, M_string (Some txt))
     | M_address old \<Rightarrow> (let (ok, a) = set_address txt old in Done (ok, M_address a))
     | M_uint_n bin n \<Rightarrow> then_do (set_uint_n txt bin n) (\<lambda>(ok, bin). Done (ok, M_uint_n bin n))
     | M_bytes old \<Rightarrow> (let (_, b) = set_bytes txt old in Done (True, M_bytes b))
     | _ \<Rightarrow> Exited)"

text \<open>
  The fields of a form: a key, the member that takes the value, or anything. \<open>'slot\<close> names a member,
  \<open>get\<close> and \<open>put\<close> read and write it in the state.
\<close>

datatype 'slot json_field = Field_key "u8 list" | Field_value 'slot | Field_other

record ('slot, 'st) form_store =
  fs_get :: "'slot \<Rightarrow> 'st \<Rightarrow> member"
  fs_put :: "'slot \<Rightarrow> member \<Rightarrow> 'st \<Rightarrow> 'st"

definition validate_field ::
    "('slot, 'st) form_store \<Rightarrow> 'slot json_field \<Rightarrow> u8 list \<Rightarrow> 'st \<Rightarrow> (bool \<times> 'st) outcome" where
  "validate_field S field txt st =
    (case field of
       Field_value slot \<Rightarrow> then_do (set_value (fs_get S slot st) txt) (\<lambda>(ok, m). Done (ok, fs_put S slot m st))
     | Field_key key \<Rightarrow> Done (txt = key, st)
     | Field_other \<Rightarrow> Done (True, st))"

text \<open>A token that is not a string is passed over, whatever its field.\<close>

fun extract_fields ::
    "('slot, 'st) form_store \<Rightarrow> 'slot json_field list \<Rightarrow> u8 list \<Rightarrow> jsmntok list \<Rightarrow> 'st \<Rightarrow> (bool \<times> 'st) outcome" where
  "extract_fields S fs json [] st = Done (True, st)"
| "extract_fields S [] json (t # ts) st = Undefined"
| "extract_fields S (f # fs) json (t # ts) st =
    (if tok_type t = JSMN_STRING then
       then_do (validate_field S f (tok_text json t) st) (\<lambda>(ok, st).
         if \<not> ok then Done (False, st) else extract_fields S fs json ts st)
     else extract_fields S fs json ts st)"

section \<open>What is shown\<close>

text \<open>The text that the array holds before its zero.\<close>

definition copy_string :: "nat \<Rightarrow> u8 list option \<Rightarrow> u8 list outcome" where
  "copy_string size' s =
    (case s of
       None \<Rightarrow> Undefined
     | Some s \<Rightarrow> Done (if length s < size' then s else take (size' - 1) s))"

definition copy_address :: "nat \<Rightarrow> u8 list \<Rightarrow> u8 list" where
  "copy_address size' a =
    (let len = (if length a > size' - 1 then size' - 1 else length a) in cstr (take (len - 1) a))"

definition copy_amount ::
    "u8 list \<Rightarrow> u8 list \<Rightarrow> u64 \<Rightarrow> nat \<Rightarrow> u8 list \<Rightarrow> nat \<Rightarrow> u8 list outcome" where
  "copy_amount buf buf2 chain_id size' bin n =
    (let n256 = (if n = 32 then readu256BE bin else readu256BE (replicate (32 - n) 0 @ take n bin))
     in compute_amount buf buf2 chain_id n256 size')"

section \<open>Properties of the setters\<close>

lemma length_eip_unhex: "eip_unhex hex n = Done bin \<Longrightarrow> length bin = n"
  by (induction hex n arbitrary: bin rule: eip_unhex.induct) (auto simp: then_do_Done)

lemma eip_unhex_total: "is_hex_string hex \<Longrightarrow> length hex = 2 * n \<Longrightarrow> \<exists>bin. eip_unhex hex n = Done bin"
proof (induction hex n rule: eip_unhex.induct)
  case (2 a b hex n)
  have "\<exists>h. eip_unhex_helper c = Done h" if "is_hex_digit c" for c
    using that by (auto simp: eip_unhex_helper_def is_hex_digit_def)
  moreover have "is_hex_digit a" "is_hex_digit b" "is_hex_string hex" "length hex = 2 * n"
    using 2(2,3) by (simp_all add: is_hex_string_def)
  ultimately obtain h l where "eip_unhex_helper a = Done h" "eip_unhex_helper b = Done l" by metis
  moreover from this 2(1) \<open>is_hex_string hex\<close> \<open>length hex = 2 * n\<close>
  obtain bin where "eip_unhex hex n = Done bin" by blast
  ultimately show ?case by simp
qed (auto simp: is_hex_string_def)

lemma set_uint_n_hex:
  assumes "is_hex_string p" "length p = 2 * k" "k \<le> 32" "length bin = 32"
  shows "\<exists>new. eip_unhex p k = Done new \<and> length new = k \<and>
    set_value (M_uint_n bin 32) (chars ''0x'' @ p) = Done (True, M_uint_n (take (32 - k) bin @ new) 32)"
proof -
  obtain new where new: "eip_unhex p k = Done new" using eip_unhex_total [OF assms(1,2)] ..
  have ox: "length (chars ''0x'') = 2" by (simp add: chars_def)
  have "set_uint_n (chars ''0x'' @ p) bin 32 = Done (True, take (32 - k) bin @ new)"
    using assms new ox by (simp add: set_uint_n_def Let_def)
  then show ?thesis using new length_eip_unhex [OF new] by (simp add: set_value_def)
qed

text \<open>
  C29: The bytes of a number that the message does not give are those of the message before. When a
  member of 32 bytes is set from \<open>k\<close> bytes, what is hashed has these bytes at its end and keeps the first
  \<open>32 - k\<close> ones; it is the number of the message only if they were zero.
\<close>

theorem eip_uint_stale:
  assumes "is_hex_string p" "length p = 2 * k" "k \<le> 32" "length bin = 32"
  shows "\<exists>new m encoded. eip_unhex p k = Done new \<and>
    set_value (M_uint_n bin 32) (chars ''0x'' @ p) = Done (True, m) \<and>
    encode_data sha3 alloc m = Done encoded \<and> encoded = take (32 - k) bin @ new \<and>
    (be_val encoded = be_val new \<longleftrightarrow> take (32 - k) bin = replicate (32 - k) 0)"
proof -
  obtain new where new: "eip_unhex p k = Done new" "length new = k"
    "set_value (M_uint_n bin 32) (chars ''0x'' @ p) = Done (True, M_uint_n (take (32 - k) bin @ new) 32)"
    using set_uint_n_hex [OF assms] by blast
  have "be_val (take (32 - k) bin) = 0 \<longleftrightarrow> take (32 - k) bin = replicate (32 - k) 0"
    using be_val_inject [of "take (32 - k) bin" "replicate (32 - k) 0"] assms(3,4) be_val_zeros [of "32 - k" "[]"]
    by auto
  then have "be_val (take (32 - k) bin @ new) = be_val new \<longleftrightarrow> take (32 - k) bin = replicate (32 - k) 0"
    by (simp add: be_val_append)
  moreover have "encode_data sha3 alloc (M_uint_n (take (32 - k) bin @ new) 32) = Done (take (32 - k) bin @ new)"
    using assms(3,4) new(2) by (simp add: eip_encode_uint_n_def)
  ultimately show ?thesis using new(1,3) by blast
qed

theorem eip_uint_stale_witness:
  "\<exists>m encoded. set_value (M_uint_n (replicate 32 7) 32) (chars ''0x'' @ [48, 49]) = Done (True, m) \<and>
    encode_data (\<lambda>m. m) (\<lambda>_. True) m = Done encoded \<and> be_val encoded \<noteq> 1"
proof -
  have p: "is_hex_string [48, 49]" "length [48, 49 :: u8] = 2 * 1" "(1 :: nat) \<le> 32" "length (replicate 32 (7 :: u8)) = 32"
    by (simp_all add: is_hex_string_def is_hex_digit_def)
  obtain new m encoded where o: "eip_unhex [48, 49] 1 = Done new"
    "set_value (M_uint_n (replicate 32 7) 32) (chars ''0x'' @ [48, 49]) = Done (True, m)"
    "encode_data (\<lambda>m. m) (\<lambda>_. True) m = Done encoded"
    "be_val encoded = be_val new \<longleftrightarrow> take (32 - 1) (replicate 32 (7 :: u8)) = replicate (32 - 1) 0"
    using eip_uint_stale [OF p, of "\<lambda>m. m" "\<lambda>_. True"] by blast
  have "eip_unhex [48, 49] 1 = Done [1]" by code_simp
  then have "new = [1]" unfolding o(1) by (rule outcome.inject(1) [THEN iffD1])
  then have "be_val new = 1" by (simp add: be_val_Cons)
  moreover have "take (32 - 1) (replicate 32 (7 :: u8)) \<noteq> replicate (32 - 1) 0" by code_simp
  ultimately show ?thesis using o(2,3,4) by metis
qed

section \<open>Filling a form\<close>

lemma extract_key:
  assumes "extract_fields S (Field_key k # fs) json (t # ts) st = Done (True, st')"
  shows "extract_fields S fs json ts st = Done (True, st') \<and> (tok_type t = JSMN_STRING \<longrightarrow> tok_text json t = k)"
  using assms by (auto simp: validate_field_def split: if_splits)

lemma extract_other:
  "extract_fields S (Field_other # fs) json (t # ts) st = Done (True, st') \<Longrightarrow>
    extract_fields S fs json ts st = Done (True, st')"
  by (auto simp: validate_field_def split: if_splits)

lemma extract_value:
  assumes "extract_fields S (Field_value slot # fs) json (t # ts) st = Done (True, st')" "tok_type t = JSMN_STRING"
  shows "\<exists>m. set_value (fs_get S slot st) (tok_text json t) = Done (True, m) \<and>
    extract_fields S fs json ts (fs_put S slot m st) = Done (True, st')"
  using assms by (auto simp: validate_field_def then_do_Done split: if_splits)

lemma set_string_True: "set_value (M_string old) txt = Done (True, m) \<longleftrightarrow> m = M_string (Some txt)"
  by (auto simp: set_value_def)

text \<open>The text of an address: the prefix and forty digits.\<close>

definition address_text :: "u8 list \<Rightarrow> bool" where
  "address_text txt \<longleftrightarrow> length txt = 42 \<and> take 2 txt = chars ''0x'' \<and> is_hex_string (drop 2 txt)"

lemma set_address_True:
  "set_value (M_address old) txt = Done (True, m) \<longleftrightarrow> address_text txt \<and> m = M_address (drop 2 txt)"
  by (auto simp: set_value_def set_address_def address_text_def)

end
