(* ===== verification/Eip712_Forms.thy ===== *)
theory Eip712_Forms
  imports Eip712
begin

text \<open>
  The two forms of EIP-712 messages that the Ethereum application knows
  (\<open>app/app-ethereum/src/eip712/example_mail.c\<close>, \<open>opensea.c\<close>) and the request that signs one
  (\<open>sign_eip712.c\<close>, \<open>eip712_hash_struct\<close> of \<open>eip712.c\<close>). The members are static: their values stay
  from one request to the next.
\<close>

section \<open>Forms\<close>

definition EIP712_DOMAIN_EXAMPLE_MAIL :: "u8 list" where
  "EIP712_DOMAIN_EXAMPLE_MAIL = concat [
    [0xf2, 0xce, 0xe3, 0x75, 0xfa, 0x42, 0xb4, 0x21],
    [0x43, 0x80, 0x40, 0x25, 0xfc, 0x44, 0x9d, 0xea],
    [0xfd, 0x50, 0xcc, 0x03, 0x1c, 0xa2, 0x57, 0xe0],
    [0xb1, 0x94, 0xa6, 0x50, 0xa9, 0x12, 0x09, 0x0f]]"

definition EIP712_DOMAIN_OPENSEA :: "u8 list" where
  "EIP712_DOMAIN_OPENSEA = concat [
    [0x72, 0x98, 0x2d, 0x92, 0x44, 0x9b, 0xfb, 0x3d],
    [0x33, 0x84, 0x12, 0xce, 0x47, 0x38, 0x76, 0x1a],
    [0xff, 0x47, 0xfb, 0x97, 0x5c, 0xeb, 0x17, 0xa1],
    [0xbc, 0x37, 0x12, 0xec, 0x71, 0x6a, 0x5a, 0x68]]"

text \<open>\<open>Person(string name,address wallet)\<close>\<close>

definition person_type_hash :: "u8 list" where
  "person_type_hash = concat [
    [0xb9, 0xd8, 0xc7, 0x8a, 0xcf, 0x9b, 0x98, 0x73],
    [0x11, 0xde, 0x6c, 0x7b, 0x45, 0xbb, 0x6a, 0x9c],
    [0x8e, 0x1b, 0xf3, 0x61, 0xfa, 0x7f, 0xd3, 0x46],
    [0x7a, 0x21, 0x63, 0xf9, 0x94, 0xc7, 0x95, 0x00]]"

text \<open>\<open>Mail(Person from,Person to,string contents)Person(string name,address wallet)\<close>\<close>

definition mail_type_hash :: "u8 list" where
  "mail_type_hash = concat [
    [0xa0, 0xce, 0xde, 0xb2, 0xdc, 0x28, 0x0b, 0xa3],
    [0x9b, 0x85, 0x75, 0x46, 0xd7, 0x4f, 0x55, 0x49],
    [0xc3, 0xa1, 0xd7, 0xbd, 0xc2, 0xdd, 0x96, 0xbf],
    [0x88, 0x1f, 0x76, 0x10, 0x8e, 0x23, 0xda, 0xc2]]"

definition order_type_hash :: "u8 list" where
  "order_type_hash = concat [
    [0xdb, 0xa0, 0x8a, 0x88, 0xa7, 0x48, 0xf3, 0x56],
    [0xe8, 0xfa, 0xf8, 0x57, 0x84, 0x88, 0x34, 0x3e],
    [0xab, 0x21, 0xb1, 0x74, 0x17, 0x28, 0x77, 0x9c],
    [0x9d, 0xcf, 0xdc, 0x78, 0x2b, 0xc8, 0x00, 0xf8]]"

record eip_state =
  from_members :: "member list"
  to_members :: "member list"
  mail_contents :: member
  order_members :: "member list"

datatype eip_slot = From_member nat | To_member nat | Mail_contents | Order_member nat

fun eip_get :: "eip_slot \<Rightarrow> eip_state \<Rightarrow> member" where
  "eip_get (From_member i) st = from_members st ! i"
| "eip_get (To_member i) st = to_members st ! i"
| "eip_get Mail_contents st = mail_contents st"
| "eip_get (Order_member i) st = order_members st ! i"

fun eip_put :: "eip_slot \<Rightarrow> member \<Rightarrow> eip_state \<Rightarrow> eip_state" where
  "eip_put (From_member i) m st = st\<lparr>from_members := (from_members st)[i := m]\<rparr>"
| "eip_put (To_member i) m st = st\<lparr>to_members := (to_members st)[i := m]\<rparr>"
| "eip_put Mail_contents m st = st\<lparr>mail_contents := m\<rparr>"
| "eip_put (Order_member i) m st = st\<lparr>order_members := (order_members st)[i := m]\<rparr>"

definition eip_store :: "(eip_slot, eip_state) form_store" where
  "eip_store = \<lparr>fs_get = eip_get, fs_put = eip_put\<rparr>"

definition eip_state_init :: eip_state where
  "eip_state_init =
    \<lparr>from_members = [M_string None, M_address (replicate 40 0)],
     to_members = [M_string None, M_address (replicate 40 0)],
     mail_contents = M_string None,
     order_members = [
       M_address (replicate 40 0),
       M_address (replicate 40 0),
       M_address (replicate 40 0),
       M_uint_n (replicate 32 0) 32,
       M_uint_n (replicate 32 0) 32,
       M_uint_n (replicate 32 0) 32,
       M_uint_n (replicate 32 0) 32,
       M_address (replicate 40 0),
       M_uint_n (replicate 32 0) 1,
       M_uint_n (replicate 32 0) 1,
       M_uint_n (replicate 32 0) 1,
       M_address (replicate 40 0),
       M_uint_n (replicate 32 0) 1,
       M_bytes (Some []),
       M_bytes (Some []),
       M_address (replicate 40 0),
       M_bytes (Some []),
       M_address (replicate 40 0),
       M_uint_n (replicate 32 0) 32,
       M_uint_n (replicate 32 0) 32,
       M_uint_n (replicate 32 0) 32,
       M_uint_n (replicate 32 0) 32,
       M_uint_n (replicate 32 0) 32,
       M_uint_n (replicate 32 0) 32]\<rparr>"

text \<open>When a request is over, its text is gone, and with it what pointed into it.\<close>

fun forget_text :: "member \<Rightarrow> member" where
  "forget_text (M_string _) = M_string None"
| "forget_text (M_bytes t) = M_bytes (if t = Some [] then Some [] else None)"
| "forget_text m = m"

definition forget_texts :: "eip_state \<Rightarrow> eip_state" where
  "forget_texts st =
    st\<lparr>from_members := map forget_text (from_members st), to_members := map forget_text (to_members st),
       mail_contents := forget_text (mail_contents st), order_members := map forget_text (order_members st)\<rparr>"

definition mail_struct :: "eip_state \<Rightarrow> hash_struct_t" where
  "mail_struct st =
    Hash_struct mail_type_hash
      [M_struct (Hash_struct person_type_hash (from_members st)),
       M_struct (Hash_struct person_type_hash (to_members st)), mail_contents st]"

definition order_struct :: "eip_state \<Rightarrow> hash_struct_t" where
  "order_struct st = Hash_struct order_type_hash (order_members st)"

definition mail_fields :: "eip_slot json_field list" where
  "mail_fields =
    [Field_key (chars ''from''), Field_other,
     Field_key (chars ''name''), Field_value (From_member 0),
     Field_key (chars ''wallet''), Field_value (From_member 1),
     Field_key (chars ''to''), Field_other,
     Field_key (chars ''name''), Field_value (To_member 0),
     Field_key (chars ''wallet''), Field_value (To_member 1),
     Field_key (chars ''contents''), Field_value Mail_contents]"

definition order_fields :: "eip_slot json_field list" where
  "order_fields =
    [Field_key (chars ''exchange''), Field_value (Order_member 0),
     Field_key (chars ''maker''), Field_value (Order_member 1),
     Field_key (chars ''taker''), Field_value (Order_member 2),
     Field_key (chars ''makerRelayerFee''), Field_value (Order_member 3),
     Field_key (chars ''takerRelayerFee''), Field_value (Order_member 4),
     Field_key (chars ''makerProtocolFee''), Field_value (Order_member 5),
     Field_key (chars ''takerProtocolFee''), Field_value (Order_member 6),
     Field_key (chars ''feeRecipient''), Field_value (Order_member 7),
     Field_key (chars ''feeMethod''), Field_value (Order_member 8),
     Field_key (chars ''side''), Field_value (Order_member 9),
     Field_key (chars ''saleKind''), Field_value (Order_member 10),
     Field_key (chars ''target''), Field_value (Order_member 11),
     Field_key (chars ''howToCall''), Field_value (Order_member 12),
     Field_key (chars ''calldata''), Field_value (Order_member 13),
     Field_key (chars ''replacementPattern''), Field_value (Order_member 14),
     Field_key (chars ''staticTarget''), Field_value (Order_member 15),
     Field_key (chars ''staticExtradata''), Field_value (Order_member 16),
     Field_key (chars ''paymentToken''), Field_value (Order_member 17),
     Field_key (chars ''basePrice''), Field_value (Order_member 18),
     Field_key (chars ''extra''), Field_value (Order_member 19),
     Field_key (chars ''listingTime''), Field_value (Order_member 20),
     Field_key (chars ''expirationTime''), Field_value (Order_member 21),
     Field_key (chars ''salt''), Field_value (Order_member 22),
     Field_key (chars ''nonce''), Field_value (Order_member 23)]"

section \<open>Screens\<close>

definition mail_items :: "u8 list \<Rightarrow> u8 list \<Rightarrow> u8 list \<Rightarrow> u8 list \<Rightarrow> u8 list \<Rightarrow> ux_item list" where
  "mail_items from_name from_address to_name to_address content =
    review_items ''mail'' ''and sign''
      [text_item ''From name:'' from_name, text_item ''From address:'' from_address,
       text_item ''To name:'' to_name, text_item ''To address:'' to_address,
       text_item ''Content:'' content]"

definition order_items :: "u8 list \<Rightarrow> u8 list \<Rightarrow> u8 list \<Rightarrow> u8 list \<Rightarrow> ux_item list" where
  "order_items maker taker fees base_price =
    review_items ''OpenSea message'' ''and sign''
      [text_item ''Maker:'' maker, text_item ''Taker:'' taker, text_item ''Fees:'' fees,
       text_item ''Base Price:'' base_price]"

definition ui_eip712 :: "ux_item list \<Rightarrow> int list \<Rightarrow> bool outcome" where
  "ui_eip712 items buttons = then_do (ux_validate items buttons) (\<lambda>(validated, _). Done validated)"

text \<open>The unions of the members, read with the type that the screens expect.\<close>

definition as_string :: "member \<Rightarrow> u8 list option" where
  "as_string m = (case m of M_string s \<Rightarrow> s | _ \<Rightarrow> None)"

definition as_address :: "member \<Rightarrow> u8 list" where
  "as_address m = (case m of M_address a \<Rightarrow> a | _ \<Rightarrow> [])"

definition as_uint_n :: "member \<Rightarrow> u8 list \<times> nat" where
  "as_uint_n m = (case m of M_uint_n bin n \<Rightarrow> (bin, n) | _ \<Rightarrow> ([], 0))"

definition mail_validate_ui :: "eip_state \<Rightarrow> int list \<Rightarrow> bool outcome" where
  "mail_validate_ui st buttons =
    then_do (copy_string 80 (as_string (from_members st ! 0))) (\<lambda>from_name.
    then_do (copy_string 80 (as_string (to_members st ! 0))) (\<lambda>to_name.
    let from_address = copy_address 80 (as_address (from_members st ! 1));
        to_address = copy_address 80 (as_address (to_members st ! 1))
    in then_do (copy_string 80 (as_string (mail_contents st))) (\<lambda>content.
       ui_eip712 (mail_items from_name from_address to_name to_address content) buttons)))"

text \<open>\<open>buf\<close> and \<open>buf2\<close> are the arrays of \<open>value_to_string\<close>.\<close>

definition order_validate_ui :: "u8 list \<Rightarrow> u8 list \<Rightarrow> eip_state \<Rightarrow> int list \<Rightarrow> bool outcome" where
  "order_validate_ui buf buf2 st buttons =
    (let maker = copy_address 80 (as_address (order_members st ! 1));
         taker = copy_address 80 (as_address (order_members st ! 2));
         fees = copy_address 80 (as_address (order_members st ! 7));
         (bin, n) = as_uint_n (order_members st ! 18)
     in then_do (copy_amount buf buf2 1 80 bin n) (\<lambda>base_price.
        ui_eip712 (order_items maker taker fees base_price) buttons))"

section \<open>The request\<close>

definition fill_form ::
    "eip_slot json_field list \<Rightarrow> (eip_state \<Rightarrow> bool outcome) \<Rightarrow> (eip_state \<Rightarrow> hash_struct_t) \<Rightarrow> u8 list \<Rightarrow>
     jsmntok list \<Rightarrow> eip_state \<Rightarrow> (hash_struct_t option \<times> eip_state) outcome" where
  "fill_form form validate_ui struct json ts st =
    (if length ts \<noteq> length form then Done (None, st)
     else then_do (extract_fields eip_store form json ts st) (\<lambda>(ok, st).
       if \<not> ok then Done (None, st)
       else then_do (validate_ui st) (\<lambda>ok. Done (if ok then Some (struct st) else None, st))))"

definition eip712_example_mail ::
    "int list \<Rightarrow> u8 list \<Rightarrow> jsmntok list \<Rightarrow> eip_state \<Rightarrow> (hash_struct_t option \<times> eip_state) outcome" where
  "eip712_example_mail buttons = fill_form mail_fields (\<lambda>st. mail_validate_ui st buttons) mail_struct"

definition eip712_opensea ::
    "eth_env \<Rightarrow> int list \<Rightarrow> u8 list \<Rightarrow> jsmntok list \<Rightarrow> eip_state \<Rightarrow> (hash_struct_t option \<times> eip_state) outcome" where
  "eip712_opensea E buttons =
    fill_form order_fields (\<lambda>st. order_validate_ui (eth_buf1 E) (eth_buf2 E) st buttons) order_struct"

text \<open>\<open>jsmn\<close> gives the tokens of a text; \<open>None\<close> is an error, or more than 128 tokens.\<close>

definition eip712_hash_struct ::
    "eth_env \<Rightarrow> (u8 list \<Rightarrow> jsmntok list option) \<Rightarrow> int list \<Rightarrow> u8 list \<Rightarrow> u8 list \<Rightarrow> eip_state \<Rightarrow>
     ((string + u8 list) \<times> eip_state) outcome" where
  "eip712_hash_struct E jsmn buttons json domain st =
    (case jsmn json of
       None \<Rightarrow> Done (Inl ''failed to parse JSON'', st)
     | Some t \<Rightarrow>
         if length t < 1 \<or> tok_type (t ! 0) \<noteq> JSMN_OBJECT then Done (Inl ''JSON object expected'', st)
         else
           let filler = (if domain = EIP712_DOMAIN_EXAMPLE_MAIL then Some (eip712_example_mail buttons)
                       else if domain = EIP712_DOMAIN_OPENSEA then Some (eip712_opensea E buttons)
                       else None)
           in case filler of
                None \<Rightarrow> Done (Inl ''unknown EIP712 domain'', st)
              | Some fill \<Rightarrow>
                  then_do (fill json (drop 1 t) st) (\<lambda>(h, st).
                    case h of
                      None \<Rightarrow> Done (Inl ''failed to handle EIP712'', st)
                    | Some h \<Rightarrow>
                        then_do (hash_struct (eth_sha3 E) (eth_alloc E) h) (\<lambda>digest. Done (Inr digest, st))))"

text \<open>The message of the request is an array, which need not have a zero.\<close>

definition handle_sign_eip712 ::
    "eth_env \<Rightarrow> (u8 list \<Rightarrow> jsmntok list option) \<Rightarrow> int list \<Rightarrow> u32 list \<Rightarrow> u8 list \<Rightarrow> u8 list \<Rightarrow> eip_state \<Rightarrow>
     ((string + u8 list) \<times> eip_state) outcome" where
  "handle_sign_eip712 E jsmn buttons path message domain st =
    (let st = forget_texts st
     in if 0 \<notin> set message then Done (Inl ''invalid messsage'', st)
        else
          then_do (eip712_hash_struct E jsmn buttons (cstr message) domain st) (\<lambda>(result, st).
            case result of
              Inl error \<Rightarrow> Done (Inl error, st)
            | Inr digest \<Rightarrow> Done (eth_sign E path (eth_sha3 E ([0x19, 0x01] @ domain @ digest)), st)))"

section \<open>The types of the members\<close>

text \<open>A member without its value: what no request changes.\<close>

fun kind :: "member \<Rightarrow> member" where
  "kind (M_string _) = M_string None"
| "kind (M_bytes _) = M_bytes None"
| "kind (M_address _) = M_address []"
| "kind (M_uint_n _ n) = M_uint_n [] n"
| "kind m = m"

definition kinds :: "eip_state \<Rightarrow> eip_state" where
  "kinds st =
    \<lparr>from_members = map kind (from_members st), to_members = map kind (to_members st),
     mail_contents = kind (mail_contents st), order_members = map kind (order_members st)\<rparr>"

lemma set_value_kind: "set_value m txt = Done (ok, m') \<Longrightarrow> kind m' = kind m"
  by (cases m) (auto simp: set_value_def then_do_Done split: prod.splits)

lemma kind_forget [simp]: "kind (forget_text m) = kind m"
  by (cases m) simp_all

lemma kinds_forget [simp]: "kinds (forget_texts st) = kinds st"
  by (simp add: kinds_def forget_texts_def)

lemma map_kind_update: "kind m = kind (ms ! i) \<Longrightarrow> map kind (ms[i := m]) = map kind ms"
  by (metis list_update_beyond list_update_id map_update not_le)

lemma kinds_put: "kind m = kind (eip_get slot st) \<Longrightarrow> kinds (eip_put slot m st) = kinds st"
  by (cases slot) (simp_all add: kinds_def map_kind_update)

lemma kinds_extract: "extract_fields eip_store form json ts st = Done (ok, st') \<Longrightarrow> kinds st' = kinds st"
proof (induction eip_store form json ts st rule: extract_fields.induct)
  case (3 f fs json t ts st)
  show ?case
  proof (cases "tok_type t = JSMN_STRING")
    case True
    then obtain ok1 st1 where v: "validate_field eip_store f (tok_text json t) st = Done (ok1, st1)"
      and r: "if ok1 then extract_fields eip_store fs json ts st1 = Done (ok, st') else st' = st1"
      using 3(3) by (auto simp: then_do_Done split: if_splits)
    have "kinds st1 = kinds st"
      using v by (cases f) (auto simp: validate_field_def then_do_Done eip_store_def dest!: set_value_kind intro!: kinds_put)
    then show ?thesis using r 3(1) [OF True v refl] by (auto split: if_splits)
  next
    case False
    then show ?thesis using 3(2,3) by simp
  qed
qed simp_all

lemma kinds_fill: "fill_form form ui struct json ts st = Done (h, st') \<Longrightarrow> kinds st' = kinds st"
  by (auto simp: fill_form_def then_do_Done dest: kinds_extract split: if_splits)

text \<open>No request changes the type of a member.\<close>

lemma kinds_request:
  "handle_sign_eip712 E jsmn buttons path message domain st = Done (r, st') \<Longrightarrow> kinds st' = kinds st"
  by (auto simp: handle_sign_eip712_def eip712_hash_struct_def eip712_example_mail_def eip712_opensea_def
      Let_def then_do_Done dest!: kinds_fill split: if_splits option.splits sum.splits)

definition mail_shape :: "eip_state \<Rightarrow> bool" where
  "mail_shape st \<longleftrightarrow>
    (\<exists>x a y b z. from_members st = [M_string x, M_address a] \<and> to_members st = [M_string y, M_address b] \<and>
      mail_contents st = M_string z)"

lemma kind_cases: "kind m = M_string None \<longleftrightarrow> (\<exists>x. m = M_string x)" "kind m = M_address [] \<longleftrightarrow> (\<exists>a. m = M_address a)"
  by (cases m; simp)+

lemma mail_shape_kinds: "kinds st = kinds eip_state_init \<Longrightarrow> mail_shape st"
  by (auto simp: mail_shape_def kinds_def eip_state_init_def map_eq_Cons_conv kind_cases)

section \<open>What is shown is what is signed\<close>

lemma mail_extract:
  assumes "extract_fields eip_store mail_fields json ts st = Done (True, st')" "length ts = 14"
    and "mail_shape st" "list_all (\<lambda>i. tok_type (ts ! i) = JSMN_STRING) [3, 5, 9, 11, 13]"
  shows "address_text (tok_text json (ts ! 5)) \<and> address_text (tok_text json (ts ! 11)) \<and>
    from_members st' = [M_string (Some (tok_text json (ts ! 3))), M_address (drop 2 (tok_text json (ts ! 5)))] \<and>
    to_members st' = [M_string (Some (tok_text json (ts ! 9))), M_address (drop 2 (tok_text json (ts ! 11)))] \<and>
    mail_contents st' = M_string (Some (tok_text json (ts ! 13)))"
proof -
  obtain t0 t1 t2 t3 t4 t5 t6 t7 t8 t9 t10 t11 t12 t13 where
    ts: "ts = [t0, t1, t2, t3, t4, t5, t6, t7, t8, t9, t10, t11, t12, t13]"
    using assms(2) by (auto simp: length_Suc_conv eval_nat_numeral)
  have strings: "tok_type t3 = JSMN_STRING" "tok_type t5 = JSMN_STRING" "tok_type t9 = JSMN_STRING"
    "tok_type t11 = JSMN_STRING" "tok_type t13 = JSMN_STRING"
    using assms(4) by (simp_all add: ts)
  obtain x a y b z where st: "from_members st = [M_string x, M_address a]"
    "to_members st = [M_string y, M_address b]" "mail_contents st = M_string z"
    using assms(3) by (auto simp: mail_shape_def)
  note e = assms(1) [unfolded ts mail_fields_def]
  note e = extract_other [OF extract_key [OF e, THEN conjunct1]]
  from extract_value [OF extract_key [OF e, THEN conjunct1] strings(1)] obtain m3 where
    m3: "set_value (M_string x) (tok_text json t3) = Done (True, m3)"
    and e: "extract_fields eip_store
      [Field_key (chars ''wallet''), Field_value (From_member 1), Field_key (chars ''to''), Field_other,
       Field_key (chars ''name''), Field_value (To_member 0), Field_key (chars ''wallet''), Field_value (To_member 1),
       Field_key (chars ''contents''), Field_value Mail_contents] json [t4, t5, t6, t7, t8, t9, t10, t11, t12, t13]
      (eip_put (From_member 0) m3 st) = Done (True, st')"
    by (auto simp: eip_store_def st)
  from extract_value [OF extract_key [OF e, THEN conjunct1] strings(2)] obtain m5 where
    m5: "set_value (M_address a) (tok_text json t5) = Done (True, m5)"
    and e: "extract_fields eip_store
      [Field_key (chars ''to''), Field_other,
       Field_key (chars ''name''), Field_value (To_member 0), Field_key (chars ''wallet''), Field_value (To_member 1),
       Field_key (chars ''contents''), Field_value Mail_contents] json [t6, t7, t8, t9, t10, t11, t12, t13]
      (eip_put (From_member 1) m5 (eip_put (From_member 0) m3 st)) = Done (True, st')"
    by (auto simp: eip_store_def st)
  note e = extract_other [OF extract_key [OF e, THEN conjunct1]]
  from extract_value [OF extract_key [OF e, THEN conjunct1] strings(3)] obtain m9 where
    m9: "set_value (M_string y) (tok_text json t9) = Done (True, m9)"
    and e: "extract_fields eip_store
      [Field_key (chars ''wallet''), Field_value (To_member 1),
       Field_key (chars ''contents''), Field_value Mail_contents] json [t10, t11, t12, t13]
      (eip_put (To_member 0) m9 (eip_put (From_member 1) m5 (eip_put (From_member 0) m3 st))) = Done (True, st')"
    by (auto simp: eip_store_def st)
  from extract_value [OF extract_key [OF e, THEN conjunct1] strings(4)] obtain m11 where
    m11: "set_value (M_address b) (tok_text json t11) = Done (True, m11)"
    and e: "extract_fields eip_store [Field_key (chars ''contents''), Field_value Mail_contents] json [t12, t13]
      (eip_put (To_member 1) m11 (eip_put (To_member 0) m9 (eip_put (From_member 1) m5 (eip_put (From_member 0) m3 st))))
      = Done (True, st')"
    by (auto simp: eip_store_def st)
  from extract_value [OF extract_key [OF e, THEN conjunct1] strings(5)] obtain m13 where
    m13: "set_value (M_string z) (tok_text json t13) = Done (True, m13)"
    and e: "eip_put Mail_contents m13 (eip_put (To_member 1) m11 (eip_put (To_member 0) m9
      (eip_put (From_member 1) m5 (eip_put (From_member 0) m3 st)))) = st'"
    by (auto simp: eip_store_def st)
  show ?thesis
    using m3 m5 m9 m11 m13 by (simp add: ts st set_string_True set_address_True flip: e)
qed

lemma copy_string_Some: "copy_string 80 (Some s) = Done (take 79 s)"
  by (simp add: copy_string_def)

lemma copy_address_text: "address_text txt \<Longrightarrow> copy_address 80 (drop 2 txt) = take 39 (drop 2 txt)"
proof -
  assume a: "address_text txt"
  have "b \<noteq> 0" if "b \<in> set (take 39 (drop 2 txt))" for b
    using a in_set_takeD [OF that] by (auto simp: address_text_def is_hex_string_def list_all_iff is_hex_digit_def)
  then have "cstr (take 39 (drop 2 txt)) = take 39 (drop 2 txt)" by (simp add: cstr_def)
  then show ?thesis using a by (simp add: copy_address_def address_text_def Let_def)
qed

text \<open>The hash of a mail as EIP-712 defines it: names and contents by their hash, addresses on 32 bytes.\<close>

definition person_hash :: "(u8 list \<Rightarrow> u8 list) \<Rightarrow> u8 list \<Rightarrow> u8 list \<Rightarrow> u8 list" where
  "person_hash sha3 name wallet = sha3 (person_type_hash @ sha3 name @ replicate 12 0 @ wallet)"

definition mail_hash :: "(u8 list \<Rightarrow> u8 list) \<Rightarrow> u8 list \<Rightarrow> u8 list \<Rightarrow> u8 list \<Rightarrow> u8 list \<Rightarrow> u8 list \<Rightarrow> u8 list" where
  "mail_hash sha3 from_name from_wallet to_name to_wallet contents =
    sha3 (mail_type_hash @ person_hash sha3 from_name from_wallet @ person_hash sha3 to_name to_wallet @
      sha3 contents)"

text \<open>
  C23: What is shown of a mail is what is signed. If the request is answered with a signature, then the
  user accepted the screens with the first 79 characters of the names and of the text and the first 39
  of the 40 digits of both addresses, whose last one \<open>copy_address\<close> drops; and the signature is over the
  EIP-712 hash of the whole values. Their tokens have to be strings: a value that is not is passed over.
\<close>

theorem eip712_mail_signed:
  fixes message ts
  defines "v \<equiv> \<lambda>i. tok_text (cstr message) (ts ! i)"
  assumes "handle_sign_eip712 E jsmn buttons path message EIP712_DOMAIN_EXAMPLE_MAIL st = Done (Inr sig, st')"
    and "kinds st = kinds eip_state_init" and "jsmn (cstr message) = Some (t # ts)"
    and "list_all (\<lambda>i. tok_type (ts ! i) = JSMN_STRING) [3, 5, 9, 11, 13]"
  shows "\<exists>from_wallet to_wallet shown rest.
    eip_unhex (drop 2 (v 5)) 20 = Done from_wallet \<and> eip_unhex (drop 2 (v 11)) 20 = Done to_wallet \<and>
    ux_validate (mail_items (take 79 (v 3)) (take 39 (drop 2 (v 5))) (take 79 (v 9))
      (take 39 (drop 2 (v 11))) (take 79 (v 13))) buttons = Done (True, shown, rest) \<and>
    eth_sign E path (eth_sha3 E ([0x19, 0x01] @ EIP712_DOMAIN_EXAMPLE_MAIL @
      mail_hash (eth_sha3 E) (v 3) from_wallet (v 9) to_wallet (v 13))) = Inr sig"
proof -
  let ?json = "cstr message"
  obtain digest where sig: "eth_sign E path (eth_sha3 E ([0x19, 0x01] @ EIP712_DOMAIN_EXAMPLE_MAIL @ digest)) = Inr sig"
    and h: "eip712_hash_struct E jsmn buttons ?json EIP712_DOMAIN_EXAMPLE_MAIL (forget_texts st) = Done (Inr digest, st')"
  proof -
    obtain r s where r: "eip712_hash_struct E jsmn buttons ?json EIP712_DOMAIN_EXAMPLE_MAIL (forget_texts st) = Done (r, s)"
      and d: "(case r of Inl error \<Rightarrow> Done (Inl error, s)
        | Inr digest \<Rightarrow> Done (eth_sign E path (eth_sha3 E ([0x19, 0x01] @ EIP712_DOMAIN_EXAMPLE_MAIL @ digest)), s)) =
          Done (Inr sig, st')"
      using assms(2) by (auto simp: handle_sign_eip712_def Let_def then_do_Done split: if_splits)
    show ?thesis using that r d by (cases r) auto
  qed
  obtain hs where fill: "eip712_example_mail buttons ?json ts (forget_texts st) = Done (Some hs, st')"
    and digest: "hash_struct (eth_sha3 E) (eth_alloc E) hs = Done digest"
    using h assms(4) by (auto simp: eip712_hash_struct_def then_do_Done split: if_splits option.splits)
  have len: "length ts = 14" and x: "extract_fields eip_store mail_fields ?json ts (forget_texts st) = Done (True, st')"
    and ui: "mail_validate_ui st' buttons = Done True" and hs: "hs = mail_struct st'"
    using fill by (auto simp: eip712_example_mail_def fill_form_def then_do_Done mail_fields_def split: if_splits)
  have "mail_shape (forget_texts st)" using assms(3) by (intro mail_shape_kinds) simp
  from mail_extract [OF x len this assms(5)] have
    a: "address_text (v 5)" "address_text (v 11)" and st':
    "from_members st' = [M_string (Some (v 3)), M_address (drop 2 (v 5))]"
    "to_members st' = [M_string (Some (v 9)), M_address (drop 2 (v 11))]"
    "mail_contents st' = M_string (Some (v 13))"
    unfolding v_def by blast+
  obtain w1 w2 where w: "eip_unhex (drop 2 (v 5)) 20 = Done w1" "eip_unhex (drop 2 (v 11)) 20 = Done w2"
    using a eip_unhex_total [of "drop 2 (v 5)" 20] eip_unhex_total [of "drop 2 (v 11)" 20]
    by (auto simp: address_text_def)
  have "digest = mail_hash (eth_sha3 E) (v 3) w1 (v 9) w2 (v 13)"
    using digest by (simp add: hs mail_struct_def st' w eip_encode_address_def mail_hash_def person_hash_def)
  moreover obtain shown rest where
    "ux_validate (mail_items (take 79 (v 3)) (take 39 (drop 2 (v 5))) (take 79 (v 9))
      (take 39 (drop 2 (v 11))) (take 79 (v 13))) buttons = Done (True, shown, rest)"
    using ui by (auto simp: mail_validate_ui_def st' as_string_def as_address_def copy_string_Some
        copy_address_text [OF a(1)] copy_address_text [OF a(2)] ui_eip712_def then_do_Done)
  ultimately show ?thesis using w sig by blast
qed

text \<open>A mail with empty names and contents; the tokens of the keys are passed over.\<close>

definition example_message :: "u8 list" where
  "example_message = chars ''0x'' @ replicate 40 48 @ [0]"

definition example_tokens :: "jsmntok list" where
  "example_tokens =
    (let other = \<lparr>tok_type = JSMN_PRIMITIVE, tok_start = 0, tok_end = 0\<rparr>;
         object = other\<lparr>tok_type := JSMN_OBJECT\<rparr>; empty = other\<lparr>tok_type := JSMN_STRING\<rparr>;
         wallet = empty\<lparr>tok_end := 42\<rparr>
     in [object, other, object, other, empty, other, wallet, other, object, other, empty, other, wallet, other, empty])"

theorem eip712_mail_signed_witness:
  "\<exists>shown rest. ux_validate (mail_items [] (replicate 39 48) [] (replicate 39 48) [])
    (replicate 6 BUTTON_RIGHT @ [BUTTON_BOTH]) = Done (True, shown, rest)"
proof -
  have "case handle_sign_eip712 example_env (\<lambda>_. Some example_tokens) (replicate 6 BUTTON_RIGHT @ [BUTTON_BOTH])
      [] example_message EIP712_DOMAIN_EXAMPLE_MAIL eip_state_init of
      Done (r, _) \<Rightarrow> r = Inr (replicate 32 0) | _ \<Rightarrow> False" by code_simp
  then obtain st' where ok: "handle_sign_eip712 example_env (\<lambda>_. Some example_tokens)
      (replicate 6 BUTTON_RIGHT @ [BUTTON_BOTH]) [] example_message EIP712_DOMAIN_EXAMPLE_MAIL eip_state_init =
      Done (Inr (replicate 32 0), st')"
    by (auto split: outcome.splits)
  have tokens: "Some example_tokens = Some (hd example_tokens # tl example_tokens)"
    by (simp add: example_tokens_def Let_def)
  have strings: "list_all (\<lambda>i. tok_type (tl example_tokens ! i) = JSMN_STRING) [3, 5, 9, 11, 13]" by code_simp
  have v: "tok_text (cstr example_message) (tl example_tokens ! 3) = []"
    "tok_text (cstr example_message) (tl example_tokens ! 9) = []"
    "tok_text (cstr example_message) (tl example_tokens ! 13) = []"
    "take 39 (drop 2 (tok_text (cstr example_message) (tl example_tokens ! 5))) = replicate 39 48"
    "take 39 (drop 2 (tok_text (cstr example_message) (tl example_tokens ! 11))) = replicate 39 48"
    by code_simp+
  from eip712_mail_signed [OF ok refl tokens strings] show ?thesis unfolding v by auto
qed

end
