(* ===== verification/Eth_App.thy ===== *)
theory Eth_App
  imports Eip712_Forms
begin

text \<open>
  The command loop of the Ethereum application (\<open>app/app-ethereum/src/app-ethereum.c\<close>): requests,
  responses and what stays from one request to the next, the members of the EIP-712 forms.
\<close>

section \<open>Requests\<close>

datatype eth_request =
  Eth_get_version
| Eth_get_pubkey "u32 list" bool bool
| Eth_sign_tx "u32 list" "u8 list"
| Eth_sign_msg "u32 list" "u8 list"
| Eth_sign_eip712 "u32 list" "u8 list" "u8 list"
| Eth_other_tag

text \<open>The responses; without approval the key and the signature are left out.\<close>

datatype eth_response =
  Eth_version "u8 list"
| Eth_pubkey "(u8 list \<times> u8 list \<times> u8 list option) option"
| Eth_tx_signed "u8 list option"
| Eth_msg_signed "u8 list"
| Eth_eip712_signed "u8 list"
| Eth_error "u8 list"

text \<open>
  \<open>ea_request\<close> and \<open>ea_encode\<close> are the decoder and the encoder that protobuf generates. A turn brings the
  message, the buttons, and what the stack holds where \<open>handle_sign_tx\<close> puts its transaction.
\<close>

record eth_app =
  ea_eth :: eth_env
  ea_jsmn :: "u8 list \<Rightarrow> jsmntok list option"
  ea_request :: "u8 list \<Rightarrow> string + eth_request"
  ea_encode :: "eth_response \<Rightarrow> u8 list option"

record eth_turn =
  et_message :: "u8 list"
  et_buttons :: "int list"
  et_stack :: tx_s

definition eth_set_error :: "string \<Rightarrow> eth_response" where
  "eth_set_error msg = Eth_error (take 64 (chars msg))"

definition error_or :: "('a \<Rightarrow> eth_response) \<Rightarrow> string + 'a \<Rightarrow> eth_response" where
  "error_or response r = (case r of Inl error \<Rightarrow> eth_set_error error | Inr x \<Rightarrow> response x)"

definition eth_handle_req ::
    "eth_app \<Rightarrow> eth_turn \<Rightarrow> eth_request \<Rightarrow> eip_state \<Rightarrow> (eth_response \<times> eip_state) outcome" where
  "eth_handle_req A u req st =
    (let E = (ea_eth A)\<lparr>eth_buttons := et_buttons u\<rparr>
     in case req of
       Eth_get_version \<Rightarrow> Done (Eth_version (chars ''version 1.33.7''), st)
     | Eth_get_pubkey path confirm get_chain_code \<Rightarrow>
         then_do (handle_get_pubkey E path confirm get_chain_code) (\<lambda>r. Done (error_or Eth_pubkey r, st))
     | Eth_sign_tx path raw_tx \<Rightarrow>
         then_do (handle_sign_tx E path raw_tx (et_stack u)) (\<lambda>r. Done (error_or Eth_tx_signed r, st))
     | Eth_sign_msg path message \<Rightarrow>
         Done (error_or Eth_msg_signed (handle_sign_message E path message), st)
     | Eth_sign_eip712 path message domain \<Rightarrow>
         then_do (handle_sign_eip712 E (ea_jsmn A) (et_buttons u) path message domain st) (\<lambda>(r, st).
           Done (error_or Eth_eip712_signed r, st))
     | Eth_other_tag \<Rightarrow> Done (eth_set_error ''invalid request tag'', st))"

definition eth_main_turn ::
    "eth_app \<Rightarrow> eth_turn \<Rightarrow> eip_state \<Rightarrow> (eth_response \<times> u8 list \<times> eip_state) outcome" where
  "eth_main_turn A u st =
    then_do (case ea_request A (et_message u) of
               Inl error \<Rightarrow> Done (eth_set_error error, st)
             | Inr req \<Rightarrow> eth_handle_req A u req st) (\<lambda>(response, st).
      case ea_encode A response of None \<Rightarrow> Exited | Some out \<Rightarrow> Done (response, out, st))"

section \<open>Runs\<close>

inductive eth_run :: "eth_app \<Rightarrow> eip_state \<Rightarrow> bool" for A where
  start: "eth_run A eip_state_init"
| turn: "eth_run A st \<Longrightarrow> eth_main_turn A u st = Done (response, out, st') \<Longrightarrow> eth_run A st'"

lemma eth_handle_req_kinds: "eth_handle_req A u req st = Done (response, st') \<Longrightarrow> kinds st' = kinds st"
  by (cases req) (auto simp: eth_handle_req_def Let_def then_do_Done dest: kinds_request)

lemma eth_main_turn_kinds: "eth_main_turn A u st = Done (response, out, st') \<Longrightarrow> kinds st' = kinds st"
  by (auto simp: eth_main_turn_def then_do_Done dest: eth_handle_req_kinds split: sum.splits option.splits)

lemma eth_run_kinds: "eth_run A st \<Longrightarrow> kinds st = kinds eip_state_init"
  by (induction rule: eth_run.induct) (simp_all add: eth_main_turn_kinds)

section \<open>Approval\<close>

text \<open>The user went through a dialogue and pressed both buttons where it accepts.\<close>

definition accepted :: "ux_item list \<Rightarrow> int list \<Rightarrow> bool" where
  "accepted items buttons \<longleftrightarrow> (\<exists>shown rest. ux_validate items buttons = Done (True, shown, rest))"

lemma fill_form_accepted:
  "fill_form form ui struct json ts st = Done (Some h, st') \<Longrightarrow> ui st' = Done True \<and> h = struct st'"
  by (auto simp: fill_form_def then_do_Done split: if_splits)

lemma ui_eip712_True: "ui_eip712 items buttons = Done True \<longleftrightarrow> accepted items buttons"
  by (auto simp: ui_eip712_def then_do_Done accepted_def)

lemma eip712_accepted:
  assumes "handle_sign_eip712 E jsmn buttons path message domain st = Done (Inr sig, st')"
  shows "\<exists>form digest. (domain = EIP712_DOMAIN_EXAMPLE_MAIL \<and> form = mail_struct st' \<and>
        mail_validate_ui st' buttons = Done True \<or>
      domain = EIP712_DOMAIN_OPENSEA \<and> form = order_struct st' \<and>
        order_validate_ui (eth_buf1 E) (eth_buf2 E) st' buttons = Done True) \<and>
    hash_struct (eth_sha3 E) (eth_alloc E) form = Done digest \<and>
    eth_sign E path (eth_sha3 E ([0x19, 0x01] @ domain @ digest)) = Inr sig"
proof -
  obtain r s where "eip712_hash_struct E jsmn buttons (cstr message) domain (forget_texts st) = Done (r, s)"
    and "(case r of Inl error \<Rightarrow> Done (Inl error, s)
      | Inr digest \<Rightarrow> Done (eth_sign E path (eth_sha3 E ([0x19, 0x01] @ domain @ digest)), s)) = Done (Inr sig, st')"
    using assms by (auto simp: handle_sign_eip712_def Let_def then_do_Done split: if_splits)
  then obtain d where h: "eip712_hash_struct E jsmn buttons (cstr message) domain (forget_texts st) = Done (Inr d, st')"
    and sig: "eth_sign E path (eth_sha3 E ([0x19, 0x01] @ domain @ d)) = Inr sig"
    by (cases r) auto
  from h have "\<exists>form. (domain = EIP712_DOMAIN_EXAMPLE_MAIL \<and> form = mail_struct st' \<and>
        mail_validate_ui st' buttons = Done True \<or>
      domain = EIP712_DOMAIN_OPENSEA \<and> form = order_struct st' \<and>
        order_validate_ui (eth_buf1 E) (eth_buf2 E) st' buttons = Done True) \<and>
    hash_struct (eth_sha3 E) (eth_alloc E) form = Done d"
    by (auto simp: eip712_hash_struct_def eip712_example_mail_def eip712_opensea_def then_do_Done Let_def
        dest!: fill_form_accepted split: if_splits option.splits)
  then show ?thesis using sig by blast
qed

lemma eth_approve_True: "eth_approve_tx E scr = Done True \<longleftrightarrow> accepted (eth_tx_items scr) (eth_buttons E)"
  by (auto simp: eth_approve_tx_def then_do_Done accepted_def)

lemma sign_tx_accepted:
  assumes "handle_sign_tx E path raw tx = Done (Inr (Some sig))"
  shows "\<exists>tx' scr. rlp_decode_list (eth_alloc E) raw (tx\<lparr>tx_to := None, tx_data := None\<rparr>) = Done (False, tx') \<and>
    screens_of E tx' = Done scr \<and> accepted (eth_tx_items scr) (eth_buttons E) \<and>
    eth_sign E path (eth_sha3 E raw) = Inr sig"
proof -
  obtain tx' scr where "rlp_decode_list (eth_alloc E) raw (tx\<lparr>tx_to := None, tx_data := None\<rparr>) = Done (False, tx')"
    "screens_of E tx' = Done scr" "eth_approve_tx E scr = Done True"
    "map_sum id Some (eth_sign E path (eth_sha3 E raw)) = Inr (Some sig)"
    using assms by (auto simp: handle_sign_tx_screens then_do_Done split: if_splits)
  then show ?thesis
    by (cases "eth_sign E path (eth_sha3 E raw)") (auto simp: eth_approve_True)
qed

text \<open>The screens that were accepted are those of the transaction asked for, when it can be read.\<close>

definition exact_screens ::
    "(u8 list \<Rightarrow> u8 list) \<Rightarrow> network_info \<Rightarrow> nat \<Rightarrow> nat \<Rightarrow> u8 list \<Rightarrow> nat \<Rightarrow> tx_screens \<Rightarrow> bool" where
  "exact_screens sha3 net amount fee to chain_id scr \<longleftrightarrow>
    (\<exists>s f. shows_amount s amount 18 \<and> shows_amount f fee 18 \<and>
      scr = \<lparr>scr_amount = take 78 (net_ticker net @ [32] @ s),
             scr_address = getEthAddressStringFromBinary sha3 to (of_nat chain_id),
             scr_fees = take 49 (net_ticker net @ [32] @ f),
             scr_network = take 78 (net_name net)\<rparr>)"

lemma sign_tx_exact:
  assumes "rlp_decode_list (eth_alloc E) raw (tx\<lparr>tx_to := None, tx_data := None\<rparr>) = Done (False, tx')"
    and "screens_of E tx' = Done scr"
    and "raw = rlp_list (rlp_tx nonce gas_price gas_limit to val data chain_id)"
    and "tx_readable E nonce gas_price gas_limit to val data chain_id"
    and "get_network (of_nat chain_id) = Some net"
  shows "exact_screens (eth_sha3 E) net val (gas_price * gas_limit mod 2 ^ 256) to chain_id scr"
  using readable_screens [OF assms(4,5,3), of tx] assms(1,2) unfolding exact_screens_def by force

text \<open>The buttons of a turn have no part in what is shown and signed.\<close>

lemma buttons_irrelevant:
  "screens_of (E\<lparr>eth_buttons := b\<rparr>) tx = screens_of E tx"
  "eth_sign (E\<lparr>eth_buttons := b\<rparr>) path hash = eth_sign E path hash"
proof -
  have "ui_set_tx_address (E\<lparr>eth_buttons := b\<rparr>) = ui_set_tx_address E"
    "ui_set_tx_amount (E\<lparr>eth_buttons := b\<rparr>) = ui_set_tx_amount E"
    "ui_set_tx_fees (E\<lparr>eth_buttons := b\<rparr>) = ui_set_tx_fees E"
    by (auto simp: fun_eq_iff ui_set_tx_address_def ui_set_tx_amount_def ui_set_tx_fees_def split: option.splits)
  then show "screens_of (E\<lparr>eth_buttons := b\<rparr>) tx = screens_of E tx"
    by (simp only: screens_of_def)
  show "eth_sign (E\<lparr>eth_buttons := b\<rparr>) path hash = eth_sign E path hash"
    by (auto simp: eth_sign_def split: option.splits)
qed

lemma get_pubkey_accepted:
  assumes "handle_get_pubkey E path confirm get_chain_code = Done (Inr (Some (k, a, c)))" "confirm"
  shows "accepted (pubkey_items (ui_set_pubkey_address a)) (eth_buttons E)"
  using assms
  by (auto simp: handle_get_pubkey_def ui_get_pubkey_validation_def then_do_Done Let_def accepted_def
      split: if_splits sum.splits)

text \<open>Only the request of its kind has the response.\<close>

lemma eth_main_turn_Done:
  assumes "eth_main_turn A u st = Done (response, out, st')"
  shows "(\<exists>error. response = eth_set_error error) \<or>
    (\<exists>req. ea_request A (et_message u) = Inr req \<and> eth_handle_req A u req st = Done (response, st'))"
  using assms by (auto simp: eth_main_turn_def then_do_Done split: sum.splits option.splits)

lemma error_or_cases [simp]:
  "error_or f r = Eth_tx_signed s \<longleftrightarrow> (\<exists>x. r = Inr x \<and> f x = Eth_tx_signed s)"
  "error_or f r = Eth_pubkey p \<longleftrightarrow> (\<exists>x. r = Inr x \<and> f x = Eth_pubkey p)"
  "error_or f r = Eth_eip712_signed b \<longleftrightarrow> (\<exists>x. r = Inr x \<and> f x = Eth_eip712_signed b)"
  by (auto simp: error_or_def eth_set_error_def split: sum.splits)

text \<open>
  C22: No transaction or EIP-712 message is signed without approval. In every run of the
  application, a response with a signature of a transaction answers a request for it after the user
  accepted the screens computed from the fields that the decoder left for the bytes requested, and is
  a signature of the hash of those bytes. When the bytes are a transaction that is read in full, on a
  known network, these screens show its own amount, recipient, fees and network; on a list that the
  decoder gives up midway they also show what the stack held, \<open>et_stack\<close>. A signature of an EIP-712
  message is one of its domain and of the form as the request left it, and is given only after the
  screens of that form are accepted; a public key is given, when confirmation is asked, only after its
  address is accepted. The members of the two forms keep their types from request to request.
\<close>

theorem eth_turn_approved:
  fixes A u
  defines "buttons \<equiv> et_buttons u" and "req \<equiv> ea_request A (et_message u)"
  assumes "eth_run A st" and "eth_main_turn A u st = Done (response, out, st')"
  shows "kinds st' = kinds eip_state_init \<and>
    (\<forall>sig. response = Eth_tx_signed (Some sig) \<longrightarrow>
      (\<exists>path raw tx scr. req = Inr (Eth_sign_tx path raw) \<and>
        rlp_decode_list (eth_alloc (ea_eth A)) raw ((et_stack u)\<lparr>tx_to := None, tx_data := None\<rparr>) =
          Done (False, tx) \<and>
        screens_of (ea_eth A) tx = Done scr \<and> accepted (eth_tx_items scr) buttons \<and>
        eth_sign (ea_eth A) path (eth_sha3 (ea_eth A) raw) = Inr sig \<and>
        (\<forall>nonce gas_price gas_limit to val data chain_id net.
          raw = rlp_list (rlp_tx nonce gas_price gas_limit to val data chain_id) \<longrightarrow>
          tx_readable (ea_eth A) nonce gas_price gas_limit to val data chain_id \<longrightarrow>
          get_network (of_nat chain_id) = Some net \<longrightarrow>
          exact_screens (eth_sha3 (ea_eth A)) net val (gas_price * gas_limit mod 2 ^ 256) to chain_id scr))) \<and>
    (\<forall>sig. response = Eth_eip712_signed sig \<longrightarrow>
      (\<exists>path message domain form digest. req = Inr (Eth_sign_eip712 path message domain) \<and>
        (domain = EIP712_DOMAIN_EXAMPLE_MAIL \<and> form = mail_struct st' \<and>
           mail_validate_ui st' buttons = Done True \<or>
         domain = EIP712_DOMAIN_OPENSEA \<and> form = order_struct st' \<and>
           order_validate_ui (eth_buf1 (ea_eth A)) (eth_buf2 (ea_eth A)) st' buttons = Done True) \<and>
        hash_struct (eth_sha3 (ea_eth A)) (eth_alloc (ea_eth A)) form = Done digest \<and>
        eth_sign (ea_eth A) path (eth_sha3 (ea_eth A) ([0x19, 0x01] @ domain @ digest)) = Inr sig)) \<and>
    (\<forall>key address chain. response = Eth_pubkey (Some (key, address, chain)) \<longrightarrow>
      (\<exists>path confirm get_chain_code. req = Inr (Eth_get_pubkey path confirm get_chain_code) \<and>
        (confirm \<longrightarrow> accepted (pubkey_items (ui_set_pubkey_address address)) buttons)))"
proof -
  let ?E = "(ea_eth A)\<lparr>eth_buttons := et_buttons u\<rparr>"
  have kinds: "kinds st' = kinds eip_state_init"
    using eth_run_kinds [OF assms(3)] eth_main_turn_kinds [OF assms(4)] by simp
  from eth_main_turn_Done [OF assms(4)] show ?thesis
  proof
    assume "\<exists>error. response = eth_set_error error"
    then show ?thesis using kinds by (auto simp: eth_set_error_def)
  next
    assume "\<exists>r. ea_request A (et_message u) = Inr r \<and> eth_handle_req A u r st = Done (response, st')"
    then obtain r where r: "req = Inr r" and h: "eth_handle_req A u r st = Done (response, st')"
      unfolding req_def by blast
    show ?thesis
    proof (cases r)
      case (Eth_sign_tx path raw)
      have "\<exists>tx scr. rlp_decode_list (eth_alloc (ea_eth A)) raw ((et_stack u)\<lparr>tx_to := None, tx_data := None\<rparr>) =
            Done (False, tx) \<and>
          screens_of (ea_eth A) tx = Done scr \<and> accepted (eth_tx_items scr) buttons \<and>
          eth_sign (ea_eth A) path (eth_sha3 (ea_eth A) raw) = Inr sig"
        if "response = Eth_tx_signed (Some sig)" for sig
        using h that sign_tx_accepted [of ?E path raw "et_stack u" sig]
        by (auto simp: Eth_sign_tx eth_handle_req_def then_do_Done buttons_def buttons_irrelevant)
      then show ?thesis
        using h r kinds sign_tx_exact [of "ea_eth A" raw "et_stack u"]
        by (auto simp: Eth_sign_tx eth_handle_req_def then_do_Done)
    next
      case (Eth_sign_eip712 path message domain)
      then have "\<exists>form digest. (domain = EIP712_DOMAIN_EXAMPLE_MAIL \<and> form = mail_struct st' \<and>
           mail_validate_ui st' buttons = Done True \<or>
         domain = EIP712_DOMAIN_OPENSEA \<and> form = order_struct st' \<and>
           order_validate_ui (eth_buf1 (ea_eth A)) (eth_buf2 (ea_eth A)) st' buttons = Done True) \<and>
        hash_struct (eth_sha3 (ea_eth A)) (eth_alloc (ea_eth A)) form = Done digest \<and>
        eth_sign (ea_eth A) path (eth_sha3 (ea_eth A) ([0x19, 0x01] @ domain @ digest)) = Inr sig"
        if "response = Eth_eip712_signed sig" for sig
        using h that eip712_accepted [of ?E "ea_jsmn A" buttons path message domain st sig st']
        by (auto simp: eth_handle_req_def then_do_Done buttons_def buttons_irrelevant)
      then show ?thesis
        using Eth_sign_eip712 h r kinds by (auto simp: eth_handle_req_def then_do_Done)
    next
      case (Eth_get_pubkey path confirm get_chain_code)
      then show ?thesis
        using h r kinds get_pubkey_accepted [of ?E path confirm get_chain_code]
        by (auto simp: eth_handle_req_def then_do_Done buttons_def)
    qed (use h r kinds in \<open>auto simp: eth_handle_req_def eth_set_error_def\<close>)
  qed
qed

definition example_app :: eth_app where
  "example_app =
    \<lparr>ea_eth = example_env, ea_jsmn = \<lambda>_. Some example_tokens,
     ea_request = \<lambda>message. Inr (Eth_sign_eip712 [] message EIP712_DOMAIN_EXAMPLE_MAIL),
     ea_encode = \<lambda>_. Some []\<rparr>"

definition example_turn :: eth_turn where
  "example_turn =
    \<lparr>et_message = example_message, et_buttons = replicate 6 BUTTON_RIGHT @ [BUTTON_BOTH], et_stack = example_tx\<rparr>"

theorem eth_turn_approved_witness:
  "\<exists>st'. eth_main_turn example_app example_turn eip_state_init =
      Done (Eth_eip712_signed (replicate 32 0), [], st') \<and>
    mail_validate_ui st' (replicate 6 BUTTON_RIGHT @ [BUTTON_BOTH]) = Done True"
proof -
  have "case eth_main_turn example_app example_turn eip_state_init of
      Done (r, out, _) \<Rightarrow> r = Eth_eip712_signed (replicate 32 0) \<and> out = [] | _ \<Rightarrow> False" by code_simp
  then obtain st' where turn: "eth_main_turn example_app example_turn eip_state_init =
      Done (Eth_eip712_signed (replicate 32 0), [], st')"
    by (auto split: outcome.splits)
  have domains: "EIP712_DOMAIN_EXAMPLE_MAIL \<noteq> EIP712_DOMAIN_OPENSEA" by code_simp
  from eth_turn_approved [OF eth_run.start turn] turn domains show ?thesis
    by (auto simp: example_app_def example_turn_def)
qed

end
