(* ===== verification/Sdk_Crypto.thy ===== *)
theory Sdk_Crypto
  imports Ecall_Crypto Ecall_Memory
begin

text \<open>
  The hash functions of the library of the applications (\<open>app/sdk/crypto.c\<close>) on the VM: the context
  is an object of the application, which the system calls of \<open>ecall_hash.c\<close> copy to the device and
  back. The library behind these is a parameter, its contract the locale \<open>hash_stream\<close>.
\<close>

section \<open>The functions\<close>

text \<open>
  A function of an application: the state after it, \<open>None\<close> when a system call ended the
  application; \<open>Exited\<close> is \<open>fatal\<close>.
\<close>

type_synonym sdk_result = "vm option outcome"

definition andthen :: "sdk_result \<Rightarrow> (vm \<Rightarrow> sdk_result) \<Rightarrow> sdk_result" where
  "andthen r f = then_do r (\<lambda>x. case x of None \<Rightarrow> Done None | Some s \<Rightarrow> f s)"

text \<open>\<open>fatal\<close> unless the low byte of the register, a \<open>bool\<close>, is set.\<close>

definition or_fatal :: "eret_result \<Rightarrow> sdk_result" where
  "or_fatal r = then_do r (\<lambda>(go, ret, s).
     if \<not> go then Done None else if ret AND 0xff = 0 then Exited else Done (Some s))"

lemma eret_low: "eret_success True r AND 0xff = 1"
proof -
  have "eret_success True r AND 0xff = (r AND (0xffffff00 AND 0xff)) OR (1 AND 0xff)"
    unfolding eret_success_def by (simp only: bit.conj_disj_distrib2 and.assoc if_True)
  then show ?thesis by simp
qed

lemma eret_fails: "eret_success False r AND 0xff = 0"
proof -
  have "eret_success False r AND 0xff = (r AND (0xffffff00 AND 0xff)) OR (0 AND 0xff)"
    unfolding eret_success_def by (simp only: bit.conj_disj_distrib2 and.assoc if_False)
  then show ?thesis by simp
qed

text \<open>The stubs leave the first argument in the register that takes the result.\<close>

definition sdk_hash_update :: "env \<Rightarrow> cx_lib \<Rightarrow> u32 \<Rightarrow> u32 \<Rightarrow> u32 \<Rightarrow> u32 \<Rightarrow> vm \<Rightarrow> eret_result" where
  "sdk_hash_update E X hash_id ctx buffer sz s = sys_hash_update E X hash_id hash_id ctx buffer sz s"

definition sdk_hash_final :: "env \<Rightarrow> cx_lib \<Rightarrow> u32 \<Rightarrow> u32 \<Rightarrow> u32 \<Rightarrow> vm \<Rightarrow> eret_result" where
  "sdk_hash_final E X hash_id ctx digest s = sys_hash_final E X hash_id hash_id ctx digest s"

definition ctx_init :: "env \<Rightarrow> u32 \<Rightarrow> vm \<Rightarrow> sdk_result" where
  "ctx_init E ctx s = (let (ok, s) = mem_write E ctx 1 0 s in Done (if ok then Some s else None))"

text \<open>The three functions of each hash differ in the identifier only.\<close>

definition ripemd160_init :: "env \<Rightarrow> u32 \<Rightarrow> vm \<Rightarrow> sdk_result" where
  "ripemd160_init E ctx s = ctx_init E ctx s"

definition ripemd160_update :: "env \<Rightarrow> cx_lib \<Rightarrow> u32 \<Rightarrow> u32 \<Rightarrow> u32 \<Rightarrow> vm \<Rightarrow> sdk_result" where
  "ripemd160_update E X ctx buffer sz s = or_fatal (sdk_hash_update E X HASH_ID_RIPEMD160 ctx buffer sz s)"

definition ripemd160_final :: "env \<Rightarrow> cx_lib \<Rightarrow> u32 \<Rightarrow> u32 \<Rightarrow> vm \<Rightarrow> sdk_result" where
  "ripemd160_final E X ctx digest s = or_fatal (sdk_hash_final E X HASH_ID_RIPEMD160 ctx digest s)"

text \<open>\<open>ctx\<close> is where the stack has the local context.\<close>

definition sdk_ripemd160 :: "env \<Rightarrow> cx_lib \<Rightarrow> u32 \<Rightarrow> u32 \<Rightarrow> u32 \<Rightarrow> u32 \<Rightarrow> vm \<Rightarrow> sdk_result" where
  "sdk_ripemd160 E X ctx buffer sz digest s =
    andthen (ripemd160_init E ctx s) (\<lambda>s.
    andthen (ripemd160_update E X ctx buffer sz s) (\<lambda>s. ripemd160_final E X ctx digest s))"

definition sha3_256_init :: "env \<Rightarrow> u32 \<Rightarrow> vm \<Rightarrow> sdk_result" where
  "sha3_256_init E ctx s = ctx_init E ctx s"

definition sha3_256_update :: "env \<Rightarrow> cx_lib \<Rightarrow> u32 \<Rightarrow> u32 \<Rightarrow> u32 \<Rightarrow> vm \<Rightarrow> sdk_result" where
  "sha3_256_update E X ctx buffer sz s = or_fatal (sdk_hash_update E X HASH_ID_SHA3_256 ctx buffer sz s)"

definition sha3_256_final :: "env \<Rightarrow> cx_lib \<Rightarrow> u32 \<Rightarrow> u32 \<Rightarrow> vm \<Rightarrow> sdk_result" where
  "sha3_256_final E X ctx digest s = or_fatal (sdk_hash_final E X HASH_ID_SHA3_256 ctx digest s)"

definition sdk_sha3_256 :: "env \<Rightarrow> cx_lib \<Rightarrow> u32 \<Rightarrow> u32 \<Rightarrow> u32 \<Rightarrow> u32 \<Rightarrow> vm \<Rightarrow> sdk_result" where
  "sdk_sha3_256 E X ctx buffer sz digest s =
    andthen (sha3_256_init E ctx s) (\<lambda>s.
    andthen (sha3_256_update E X ctx buffer sz s) (\<lambda>s. sha3_256_final E X ctx digest s))"

definition sha256_init :: "env \<Rightarrow> u32 \<Rightarrow> vm \<Rightarrow> sdk_result" where
  "sha256_init E ctx s = ctx_init E ctx s"

definition sha256_update :: "env \<Rightarrow> cx_lib \<Rightarrow> u32 \<Rightarrow> u32 \<Rightarrow> u32 \<Rightarrow> vm \<Rightarrow> sdk_result" where
  "sha256_update E X ctx buffer sz s = or_fatal (sdk_hash_update E X HASH_ID_SHA256 ctx buffer sz s)"

definition sha256_final :: "env \<Rightarrow> cx_lib \<Rightarrow> u32 \<Rightarrow> u32 \<Rightarrow> vm \<Rightarrow> sdk_result" where
  "sha256_final E X ctx digest s = or_fatal (sdk_hash_final E X HASH_ID_SHA256 ctx digest s)"

definition sdk_sha256 :: "env \<Rightarrow> cx_lib \<Rightarrow> u32 \<Rightarrow> u32 \<Rightarrow> u32 \<Rightarrow> u32 \<Rightarrow> vm \<Rightarrow> sdk_result" where
  "sdk_sha256 E X ctx buffer sz digest s =
    andthen (sha256_init E ctx s) (\<lambda>s.
    andthen (sha256_update E X ctx buffer sz s) (\<lambda>s. sha256_final E X ctx digest s))"

text \<open>
  What an application does with a hash: it starts a context, gives it some buffers and asks for the
  digest. The last functions of each hash do this with one buffer.
\<close>

fun ctx_updates :: "env \<Rightarrow> cx_lib \<Rightarrow> u32 \<Rightarrow> u32 \<Rightarrow> (u32 \<times> u32) list \<Rightarrow> vm \<Rightarrow> sdk_result" where
  "ctx_updates E X i ctx [] s = Done (Some s)"
| "ctx_updates E X i ctx ((buffer, sz) # bufs) s =
    andthen (or_fatal (sdk_hash_update E X i ctx buffer sz s)) (ctx_updates E X i ctx bufs)"

definition hash_session :: "env \<Rightarrow> cx_lib \<Rightarrow> u32 \<Rightarrow> u32 \<Rightarrow> (u32 \<times> u32) list \<Rightarrow> u32 \<Rightarrow> vm \<Rightarrow> sdk_result" where
  "hash_session E X i ctx bufs digest s =
    andthen (ctx_init E ctx s) (\<lambda>s. andthen (ctx_updates E X i ctx bufs s) (\<lambda>s.
      or_fatal (sdk_hash_final E X i ctx digest s)))"

lemma andthen_simps [simp]: "andthen (Done None) f = Done None" "andthen (Done (Some s)) f = f s"
  by (simp_all add: andthen_def)

lemma ctx_updates_Nil [simp]: "ctx_updates E X i ctx [] = (\<lambda>s. Done (Some s))"
  by (rule ext) simp

lemma andthen_done [simp]: "andthen r (\<lambda>s. Done (Some s)) = r"
  by (cases r) (auto simp: andthen_def split: option.splits)

lemma session_instances:
  "sdk_ripemd160 E X ctx buffer sz digest s = hash_session E X HASH_ID_RIPEMD160 ctx [(buffer, sz)] digest s"
  "sdk_sha3_256 E X ctx buffer sz digest s = hash_session E X HASH_ID_SHA3_256 ctx [(buffer, sz)] digest s"
  "sdk_sha256 E X ctx buffer sz digest s = hash_session E X HASH_ID_SHA256 ctx [(buffer, sz)] digest s"
  by (simp_all add: hash_session_def sdk_ripemd160_def ripemd160_init_def ripemd160_update_def ripemd160_final_def
      sdk_sha3_256_def sha3_256_init_def sha3_256_update_def sha3_256_final_def
      sdk_sha256_def sha256_init_def sha256_update_def sha256_final_def)

section \<open>The contract of the library\<close>

text \<open>The contexts that hold the bytes \<open>bs\<close>, however they were divided.\<close>

inductive fed :: "cx_lib \<Rightarrow> u32 \<Rightarrow> hash_ctx \<Rightarrow> u8 list \<Rightarrow> bool" for X i where
  fed_init: "fed X i (hash_init X i) []"
| fed_update: "fed X i c bs \<Longrightarrow> hash_update X i c xs = Some c' \<Longrightarrow> fed X i c' (bs @ xs)"

definition ctx_size :: "u32 \<Rightarrow> nat" where
  "ctx_size i = (case ctx_layout i of None \<Rightarrow> 0 | Some (block, pad, acc) \<Rightarrow> 12 + block + pad + acc)"

definition fits :: "cx_lib \<Rightarrow> u32 \<Rightarrow> hash_ctx \<Rightarrow> bool" where
  "fits X i c \<longleftrightarrow> (case ctx_layout i of None \<Rightarrow> False | Some (block, pad, acc) \<Rightarrow>
     h_blen c \<le> ctx_max_blen X i \<and> length (h_block c) = block \<and> length (h_acc c) = acc)"

definition digest_len :: "u32 \<Rightarrow> nat" where
  "digest_len i = (if i = HASH_ID_RIPEMD160 then 20 else 32)"

lemma ctx_size_u32: "unat (of_nat (ctx_size i) :: u32) = ctx_size i"
  by (simp add: ctx_size_def ctx_layout_def unat_of_nat take_bit_nat_eq_self)

lemma ctx_size_less: "ctx_size i < 2 ^ 32"
  by (simp add: ctx_size_def ctx_layout_def)

lemma digest_len_u32: "unat (if i = HASH_ID_RIPEMD160 then 20 else 32 :: u32) = digest_len i"
  by (simp add: digest_len_def)

lemma length_save_ctx: "fits X i c \<Longrightarrow> (\<And>n. length (residue X n) = n) \<Longrightarrow> ctx_layout i = Some (block, pad, acc) \<Longrightarrow>
    length (save_ctx X pad c) = ctx_size i"
  by (simp add: save_ctx_def fits_def ctx_size_def)

text \<open>A context survives its stay in the guest.\<close>

lemma restore_save:
  assumes "fits X i c" "\<And>n. length (residue X n) = n" "ctx_layout i = Some (block, pad, acc)"
  shows "restore_ctx X i (block, pad, acc) (save_ctx X pad c) = Some c"
proof -
  let ?h = "[1] @ residue X 3 @ le_bytes 4 (h_counter c) @ le_bytes 4 (h_blen c)"
  have h: "length ?h = 12" "save_ctx X pad c = ?h @ h_block c @ residue X pad @ h_acc c"
    using assms(2) by (simp_all add: save_ctx_def)
  have l: "length (h_block c) = block" "length (h_acc c) = acc" "h_blen c \<le> ctx_max_blen X i"
    using assms(1,3) by (auto simp: fits_def)
  have "save_ctx X pad c = ([1] @ residue X 3) @ le_bytes 4 (h_counter c) @ le_bytes 4 (h_blen c) @
      h_block c @ residue X pad @ h_acc c" by (simp add: save_ctx_def)
  then have "slice (save_ctx X pad c) 4 4 = le_bytes 4 (h_counter c)" "slice (save_ctx X pad c) 8 4 = le_bytes 4 (h_blen c)"
    using assms(2) by (simp_all add: slice_def)
  moreover have "slice (save_ctx X pad c) 12 block = h_block c"
    "slice (save_ctx X pad c) (12 + block + pad) acc = h_acc c"
    unfolding h(2) slice_def drop_append h(1) using l assms(2) by simp_all
  moreover have "save_ctx X pad c ! 0 \<noteq> 0" by (simp add: save_ctx_def)
  ultimately show ?thesis using l(3) by (simp add: restore_ctx_def)
qed

lemma restore_from_guest:
  assumes "guest_rep E code s m" "restore_ctx_from_guest E X i ctx s = (Some r, s')"
    and "ctx_layout i = Some lay"
  shows "guest_rep E code s' m \<and> r = restore_ctx X i lay (bytes m ctx (ctx_size i))"
proof -
  obtain block pad acc where lay: "lay = (block, pad, acc)" by (cases lay)
  have n: "12 + block + pad + acc = ctx_size i" using assms(3) lay by (simp add: ctx_size_def)
  then obtain g where "copy_guest_buffer E ctx (of_nat (ctx_size i)) s = (Some g, s')"
    "r = restore_ctx X i lay g"
    using assms(2,3) unfolding restore_ctx_from_guest_def lay n [symmetric]
    by (auto split: prod.splits option.splits)
  then show ?thesis using copy_guest_buffer_bytes [OF assms(1)] ctx_size_u32 by fastforce
qed

lemma bytes_upd_same: "length bs < 2 ^ 32 \<Longrightarrow> bytes (upd m a bs) a (length bs) = bs"
  by (rule nth_equalityI) (auto simp: upd_def unat_of_nat take_bit_nat_eq_self)

text \<open>What the guest's context holds: the bytes hashed so far.\<close>

definition ctx_holds :: "cx_lib \<Rightarrow> u32 \<Rightarrow> (u32 \<Rightarrow> u8) \<Rightarrow> u32 \<Rightarrow> u8 list \<Rightarrow> bool" where
  "ctx_holds X i m ctx bs \<longleftrightarrow> (case ctx_layout i of None \<Rightarrow> False | Some lay \<Rightarrow>
     (\<exists>c. fed X i c bs \<and> restore_ctx X i lay (bytes m ctx (ctx_size i)) = Some c))"

lemma ctx_holds_init:
  assumes "m ctx = 0" "ctx_layout i = Some lay"
  shows "ctx_holds X i m ctx []"
proof -
  have "0 < ctx_size i" using assms(2) by (cases lay) (simp add: ctx_size_def)
  then have "bytes m ctx (ctx_size i) ! 0 = 0" using assms(1) nth_bytes [of 0 "ctx_size i" m ctx] by simp
  then show ?thesis using assms(2) by (auto simp: ctx_holds_def restore_ctx_def intro: fed_init split: prod.splits)
qed

text \<open>Two ranges of the guest with no byte in common, and the bytes of some buffers.\<close>

definition apart :: "u32 \<Rightarrow> nat \<Rightarrow> u32 \<Rightarrow> nat \<Rightarrow> bool" where
  "apart a n b k \<longleftrightarrow> (\<forall>i < n. \<forall>j < k. b + of_nat j \<noteq> a + of_nat i)"

definition contents :: "(u32 \<Rightarrow> u8) \<Rightarrow> (u32 \<times> u32) list \<Rightarrow> u8 list" where
  "contents m bufs = concat (map (\<lambda>(b, sz). bytes m b (unat sz)) bufs)"

lemma length_contents: "length (contents m bufs) = sum_list (map (\<lambda>b. unat (snd b)) bufs)"
  by (induction bufs) (auto simp: contents_def)

lemma contents_upd:
  assumes "list_all (\<lambda>(b, sz). apart a n b (unat sz)) bufs" "length xs \<le> n"
  shows "contents (upd m a xs) bufs = contents m bufs"
  using assms(1)
proof (induction bufs)
  case (Cons b bufs)
  obtain p sz where b: "b = (p, sz)" by (cases b)
  have "bytes (upd m a xs) p (unat sz) = bytes m p (unat sz)"
    using Cons(2) assms(2) by (intro bytes_upd_other) (auto simp: apart_def b)
  then show ?case using Cons b by (simp add: contents_def)
qed (simp add: contents_def)

lemma upd_twice:
  "\<exists>zs. upd (upd m a ys) a xs = upd m a zs \<and> length zs \<le> max (length xs) (length ys)"
proof (intro exI conjI)
  show "upd (upd m a ys) a xs = upd m a (xs @ drop (length xs) ys)"
    by (rule ext) (auto simp: upd_def nth_append)
qed simp

lemma ctx_size_pos: "ctx_layout i \<noteq> None \<Longrightarrow> 1 \<le> ctx_size i"
  by (auto simp: ctx_size_def)

text \<open>
  What the library promises of a hash, for less than \<open>2 ^ 32\<close> bytes: contexts have their sizes, an
  update succeeds, and the digest is a function \<open>digest\<close> of the bytes, however they were divided.
\<close>

locale hash_stream =
  fixes X :: cx_lib and i :: u32 and digest :: "u8 list \<Rightarrow> u8 list"
  assumes known: "ctx_layout i \<noteq> None"
    and fed_fits: "fed X i c bs \<Longrightarrow> length bs < 2 ^ 32 \<Longrightarrow> fits X i c"
    and fed_more: "fed X i c bs \<Longrightarrow> length bs + length xs < 2 ^ 32 \<Longrightarrow> hash_update X i c xs \<noteq> None"
    and fed_final: "fed X i c bs \<Longrightarrow> length bs < 2 ^ 32 \<Longrightarrow> hash_final X i c = Some (digest bs)"
    and digest_length: "length (digest bs) = digest_len i"
    and residue_length: "length (residue X n) = n"
begin

lemma loop_fed:
  assumes "guest_rep E code s m" "fed X i c bs" "length bs + unat sz < 2 ^ 32"
  shows "\<exists>r s'. hash_loop E X i addr sz c s = Done (r, s') \<and>
    (\<forall>c'. r = Some c' \<longrightarrow> guest_rep E code s' m \<and> fed X i c' (bs @ bytes m addr (unat sz)))"
  using assms
proof (induction "unat sz" arbitrary: addr sz c s bs rule: less_induct)
  case less
  show ?case
  proof (cases "sz = 0")
    case True
    then show ?thesis using less(2,3) by (simp add: hash_loop.simps [of E X i addr 0] bytes_def)
  next
    case False
    let ?n = "BUFFER_MIN_SIZE addr sz"
    have n: "unat ?n \<le> unat sz" by (rule BUFFER_MIN_SIZE_le)
    obtain q s1 where b: "get_buffer E addr ?n False s = (q, s1)" by (cases "get_buffer E addr ?n False s")
    show ?thesis
    proof (cases q)
      case None
      then show ?thesis using False b by (simp add: hash_loop.simps [of E X i addr sz] Let_def)
    next
      case (Some p)
      note g = guest.get_law [OF less(2) b [unfolded Some]]
      let ?xs = "bytes m addr (unat ?n)"
      have l: "length bs + length ?xs < 2 ^ 32" using less(4) n by simp
      obtain c' where c': "hash_update X i c ?xs = Some c'" using fed_more [OF less(3) l] by blast
      have "length (bs @ ?xs) + unat (sz - ?n) < 2 ^ 32" using less(4) rest_size [OF n] by simp
      from less(1) [OF chunk_less [OF False] _ fed_update [OF less(3) c'] this, of s1 "addr + ?n"] g
      show ?thesis
        using False b Some c' bytes_chunk [OF n, of m addr]
        by (auto simp: hash_loop.simps [of E X i addr sz] Let_def)
    qed
  qed
qed

lemma layout: obtains block pad acc where "ctx_layout i = Some (block, pad, acc)"
  using known by auto

lemma save_holds:
  assumes "fed X i c bs" "length bs < 2 ^ 32" "ctx_layout i = Some (block, pad, acc)"
  shows "ctx_holds X i (upd m ctx (save_ctx X pad c)) ctx bs"
proof -
  have "bytes (upd m ctx (save_ctx X pad c)) ctx (ctx_size i) = save_ctx X pad c"
    using length_save_ctx [OF fed_fits [OF assms(1,2)] residue_length assms(3)]
      bytes_upd_same [of "save_ctx X pad c"] ctx_size_less [of i] by simp
  then show ?thesis
    using restore_save [OF fed_fits [OF assms(1,2)] residue_length assms(3)] assms(1,3)
    by (auto simp: ctx_holds_def)
qed

lemma update_holds:
  assumes "guest_rep E code s m" "ctx_holds X i m ctx bs" "length bs + unat sz < 2 ^ 32"
  shows "\<exists>r. or_fatal (sdk_hash_update E X i ctx buffer sz s) = Done r \<and>
    (\<forall>s'. r = Some s' \<longrightarrow> (\<exists>saved. length saved = ctx_size i \<and> guest_rep E code s' (upd m ctx saved) \<and>
      ctx_holds X i (upd m ctx saved) ctx (bs @ bytes m buffer (unat sz))))"
proof -
  obtain block pad acc where lay: "ctx_layout i = Some (block, pad, acc)" by (rule layout)
  have n: "12 + block + pad + acc = ctx_size i" by (simp add: ctx_size_def lay)
  obtain c where c: "fed X i c bs" "restore_ctx X i (block, pad, acc) (bytes m ctx (ctx_size i)) = Some c"
    using assms(2) lay by (auto simp: ctx_holds_def)
  obtain q s1 where q: "restore_ctx_from_guest E X i ctx s = (q, s1)" by (cases "restore_ctx_from_guest E X i ctx s")
  show ?thesis
  proof (cases q)
    case None
    then show ?thesis using q by (simp add: sdk_hash_update_def sys_hash_update_def give_up_def or_fatal_def)
  next
    case (Some r)
    have s1: "guest_rep E code s1 m" and r: "r = Some c"
      using restore_from_guest [OF assms(1) q [unfolded Some] lay] c(2) by simp_all
    obtain q' s2 where l: "hash_loop E X i buffer sz c s1 = Done (q', s2)"
      and fed: "\<And>c'. q' = Some c' \<Longrightarrow> guest_rep E code s2 m \<and> fed X i c' (bs @ bytes m buffer (unat sz))"
      using loop_fed [OF s1 c(1) assms(3)] by blast
    show ?thesis
    proof (cases q')
      case None
      then show ?thesis
        using q Some r l by (simp add: sdk_hash_update_def sys_hash_update_def give_up_def or_fatal_def)
    next
      case (Some c')
      let ?saved = "save_ctx X pad c'" and ?bs = "bs @ bytes m buffer (unat sz)"
      have f: "fed X i c' ?bs" "length ?bs < 2 ^ 32" and s2: "guest_rep E code s2 m"
        using fed [OF Some] assms(3) by auto
      have len: "length ?saved = ctx_size i" using fed_fits [OF f] residue_length lay by (rule length_save_ctx)
      obtain ok s3 where w: "copy_host_buffer E ctx ?saved (of_nat (ctx_size i)) s2 = (ok, s3)"
        by (cases "copy_host_buffer E ctx ?saved (of_nat (ctx_size i)) s2")
      have "guest_rep E code s3 (upd m ctx ?saved)" if ok
        using copy_host_buffer_bytes [OF s2] w that len ctx_size_u32 by simp
      moreover have "save_ctx_from_host E X (eret_success True i) i ctx c' s2 =
          (if ok then reply True (eret_success True i) s3 else give_up (eret_success True (eret_success True i)) s3)"
        unfolding save_ctx_from_host_def lay option.case prod.case n w by (cases ok) simp_all
      then have "or_fatal (sdk_hash_update E X i ctx buffer sz s) = Done (if ok then Some s3 else None)"
        using q \<open>q = Some r\<close> r l Some
        by (cases ok) (simp_all add: sdk_hash_update_def sys_hash_update_def reply_def give_up_def or_fatal_def eret_low)
      ultimately show ?thesis using save_holds [OF f lay] len by auto
    qed
  qed
qed

lemma final_digest:
  assumes "guest_rep E code s m" "ctx_holds X i m ctx bs" "length bs < 2 ^ 32"
  shows "\<exists>r. or_fatal (sdk_hash_final E X i ctx p_out s) = Done r \<and>
    (\<forall>s'. r = Some s' \<longrightarrow> guest_rep E code s' (upd m p_out (digest bs)))"
proof -
  obtain block pad acc where lay: "ctx_layout i = Some (block, pad, acc)" by (rule layout)
  obtain c where c: "fed X i c bs" "restore_ctx X i (block, pad, acc) (bytes m ctx (ctx_size i)) = Some c"
    using assms(2) lay by (auto simp: ctx_holds_def)
  obtain q s1 where q: "restore_ctx_from_guest E X i ctx s = (q, s1)" by (cases "restore_ctx_from_guest E X i ctx s")
  show ?thesis
  proof (cases q)
    case None
    then show ?thesis using q by (simp add: sdk_hash_final_def sys_hash_final_def give_up_def or_fatal_def)
  next
    case (Some r)
    have s1: "guest_rep E code s1 m" and r: "r = Some c"
      using restore_from_guest [OF assms(1) q [unfolded Some] lay] c(2) by simp_all
    define len :: u32 where "len = (if i = HASH_ID_RIPEMD160 then 20 else 32)"
    have len: "length (digest bs) = unat len" unfolding len_def digest_len_u32 by (rule digest_length)
    obtain ok s2 where w: "copy_host_buffer E p_out (digest bs) len s1 = (ok, s2)"
      by (cases "copy_host_buffer E p_out (digest bs) len s1")
    have "guest_rep E code s2 (upd m p_out (digest bs))" if ok
      using copy_host_buffer_bytes [OF s1 _ len] w that by simp
    moreover have "sys_hash_final E X i i ctx p_out s =
        (if ok then reply True i s2 else give_up (eret_success True i) s2)"
      unfolding sys_hash_final_def q Some r prod.case option.case fed_final [OF c(1) assms(3)] len_def [symmetric]
        Let_def w by (cases ok) simp_all
    then have "or_fatal (sdk_hash_final E X i ctx p_out s) = Done (if ok then Some s2 else None)"
      by (cases ok) (simp_all add: sdk_hash_final_def reply_def give_up_def or_fatal_def eret_low)
    ultimately show ?thesis by auto
  qed
qed

lemma updates_hold:
  assumes "guest_rep E code s m" "ctx_holds X i m ctx bs" "length bs + sum_list (map (\<lambda>b. unat (snd b)) bufs) < 2 ^ 32"
    and "list_all (\<lambda>(b, sz). apart ctx (ctx_size i) b (unat sz)) bufs"
  shows "\<exists>r. ctx_updates E X i ctx bufs s = Done r \<and>
    (\<forall>s'. r = Some s' \<longrightarrow> (\<exists>saved. length saved \<le> ctx_size i \<and> guest_rep E code s' (upd m ctx saved) \<and>
      ctx_holds X i (upd m ctx saved) ctx (bs @ contents m bufs)))"
  using assms
proof (induction bufs arbitrary: s m bs)
  case Nil
  have "upd m ctx [] = m" by simp
  then show ?case using Nil(1,2) by (auto simp: contents_def intro!: exI [of _ "[]"])
next
  case (Cons b bufs)
  obtain p sz where b: "b = (p, sz)" by (cases b)
  have a: "apart ctx (ctx_size i) p (unat sz)" "length bs + unat sz < 2 ^ 32" using Cons(4,5) b by auto
  obtain r where r: "or_fatal (sdk_hash_update E X i ctx p sz s) = Done r"
    and h: "\<And>s'. r = Some s' \<Longrightarrow> \<exists>saved. length saved = ctx_size i \<and> guest_rep E code s' (upd m ctx saved) \<and>
      ctx_holds X i (upd m ctx saved) ctx (bs @ bytes m p (unat sz))"
    using update_holds [OF Cons(2,3) a(2), of p] by blast
  show ?case
  proof (cases r)
    case None
    then show ?thesis using b r by simp
  next
    case (Some s1)
    from h [OF Some] obtain saved where s1: "length saved = ctx_size i" "guest_rep E code s1 (upd m ctx saved)"
      "ctx_holds X i (upd m ctx saved) ctx (bs @ bytes m p (unat sz))" by blast
    have bufs: "list_all (\<lambda>(b, sz). apart ctx (ctx_size i) b (unat sz)) bufs" using Cons(5) by simp
    have "length (bs @ bytes m p (unat sz)) + sum_list (map (\<lambda>b. unat (snd b)) bufs) < 2 ^ 32" using Cons(4) b by simp
    from Cons(1) [OF s1(2,3) this bufs] obtain r' where r': "ctx_updates E X i ctx bufs s1 = Done r'"
      and h': "\<And>s'. r' = Some s' \<Longrightarrow> \<exists>saved'. length saved' \<le> ctx_size i \<and>
        guest_rep E code s' (upd (upd m ctx saved) ctx saved') \<and>
        ctx_holds X i (upd (upd m ctx saved) ctx saved') ctx ((bs @ bytes m p (unat sz)) @ contents (upd m ctx saved) bufs)"
      by blast
    have "\<exists>saved'. length saved' \<le> ctx_size i \<and> guest_rep E code s' (upd m ctx saved') \<and>
        ctx_holds X i (upd m ctx saved') ctx (bs @ contents m (b # bufs))" if t: "r' = Some s'" for s'
    proof -
      obtain saved' where s': "length saved' \<le> ctx_size i" "guest_rep E code s' (upd (upd m ctx saved) ctx saved')"
        "ctx_holds X i (upd (upd m ctx saved) ctx saved') ctx ((bs @ bytes m p (unat sz)) @ contents (upd m ctx saved) bufs)"
        using h' [OF t] by blast
      obtain zs where zs: "upd (upd m ctx saved) ctx saved' = upd m ctx zs" "length zs \<le> ctx_size i"
        using upd_twice [of m ctx saved saved'] s1(1) s'(1) by auto
      moreover have "(bs @ bytes m p (unat sz)) @ contents (upd m ctx saved) bufs = bs @ contents m (b # bufs)"
        using contents_upd [OF bufs, of saved m] s1(1) b by (simp add: contents_def)
      ultimately show ?thesis using s'(2,3) by auto
    qed
    then show ?thesis using b r r' Some by simp
  qed
qed

lemma session_digest:
  assumes "guest_rep E code s m" "sum_list (map (\<lambda>b. unat (snd b)) bufs) < 2 ^ 32"
    and "list_all (\<lambda>(b, sz). apart ctx (ctx_size i) b (unat sz)) bufs"
  shows "\<exists>r. hash_session E X i ctx bufs p_out s = Done r \<and>
    (\<forall>s'. r = Some s' \<longrightarrow> (\<exists>saved. length saved \<le> ctx_size i \<and>
      guest_rep E code s' (upd (upd m ctx saved) p_out (digest (contents m bufs)))))"
proof -
  obtain ok s1 where w: "mem_write E ctx 1 0 s = (ok, s1)" by (cases "mem_write E ctx 1 0 s")
  show ?thesis
  proof (cases ok)
    case False
    then show ?thesis using w by (simp add: hash_session_def ctx_init_def)
  next
    case True
    let ?m = "upd m ctx [0]"
    have z: "le_bytes 1 (0 :: u32) = [0]" by simp
    have s1: "guest_rep E code s1 ?m" using mem_write_bytes [OF assms(1), of ctx 1 0 s1] w True by (simp add: z)
    obtain lay where "ctx_layout i = Some lay" using known by blast
    moreover have "?m ctx = 0" by (simp add: upd_def)
    ultimately have "ctx_holds X i ?m ctx []" by (intro ctx_holds_init)
    from updates_hold [OF s1 this _ assms(3)] assms(2)
    obtain r where r: "ctx_updates E X i ctx bufs s1 = Done r"
      and h: "\<And>s'. r = Some s' \<Longrightarrow> \<exists>saved. length saved \<le> ctx_size i \<and> guest_rep E code s' (upd ?m ctx saved) \<and>
        ctx_holds X i (upd ?m ctx saved) ctx (contents ?m bufs)"
      by auto
    show ?thesis
    proof (cases r)
      case None
      then show ?thesis using w True r by (simp add: hash_session_def ctx_init_def)
    next
      case (Some s2)
      from h [OF Some] obtain saved where s2: "length saved \<le> ctx_size i" "guest_rep E code s2 (upd ?m ctx saved)"
        "ctx_holds X i (upd ?m ctx saved) ctx (contents ?m bufs)" by blast
      have one: "length [0 :: u8] \<le> ctx_size i" using ctx_size_pos known by auto
      have c: "contents ?m bufs = contents m bufs" by (rule contents_upd [OF assms(3) one])
      have "length (contents m bufs) < 2 ^ 32" using assms(2) by (simp add: length_contents)
      from final_digest [OF s2(2,3) [unfolded c] this, of p_out] obtain q where
        q: "or_fatal (sdk_hash_final E X i ctx p_out s2) = Done q"
        "\<And>s'. q = Some s' \<Longrightarrow> guest_rep E code s' (upd (upd ?m ctx saved) p_out (digest (contents m bufs)))"
        by blast
      obtain saved' where "upd ?m ctx saved = upd m ctx saved'" "length saved' \<le> ctx_size i"
        using upd_twice [of m ctx "[0]" saved] s2(1) one by auto
      then show ?thesis using w True r Some q by (auto simp: hash_session_def ctx_init_def)
    qed
  qed
qed

end

section \<open>When nothing needs the host\<close>

text \<open>The page is one of the data and in its cache: the calls that use no other page go on.\<close>

definition at_hand :: "u32 \<Rightarrow> vm \<Rightarrow> bool" where
  "at_hand a s \<longleftrightarrow> in_section SECTION_DATA a s \<and> \<not> in_section SECTION_CODE a s \<and>
    sorted (addrs (pages (cache_of SECTION_DATA s))) \<and> a \<in> set (addrs (pages (cache_of SECTION_DATA s)))"

definition in_page :: "u32 \<Rightarrow> u32 \<Rightarrow> nat \<Rightarrow> bool" where
  "in_page a b n \<longleftrightarrow> PAGE_START b = a \<and> page_off b + n \<le> 256"

lemma at_hand_page:
  assumes "at_hand a s" "PAGE_START b = a"
  obtains i where "get_page E b prot s = (Some (SECTION_DATA, i), s)"
proof -
  obtain i where "find_page SECTION_DATA a s = Some i"
    using assms(1) find_page_None [of SECTION_DATA s a] by (auto simp: at_hand_def)
  then show ?thesis
    using assms by (intro that [of i]) (simp add: get_page_def Let_def get_cache_def at_hand_def)
qed

lemma at_hand_buffer:
  assumes "at_hand a s" "in_page a b (unat n)" "n \<noteq> 0"
  obtains q where "get_buffer E b n w s = (Some q, s)"
proof -
  have n: "0 < unat n" "unat n \<le> 256" using assms(2,3) by (simp_all add: in_page_def unat_gt_0)
  then have "fit_in_page b n" using fit_in_page_iff [of "unat n" b] assms(2) by (simp add: in_page_def)
  moreover have "\<not> PAGE_SIZE < n" using n by (simp add: not_less word_le_nat_alt PAGE_SIZE_def)
  moreover obtain i where "get_page E b (if w then PAGE_PROT_RW else PAGE_PROT_RO) s = (Some (SECTION_DATA, i), s)"
    using at_hand_page [OF assms(1)] assms(2) unfolding in_page_def by blast
  ultimately show ?thesis using assms(3) that by (simp add: get_buffer_def)
qed

lemma one_chunk: "in_page a b (unat n) \<Longrightarrow> BUFFER_MIN_SIZE b n = n"
  by (rule word_unat_eq_iff [THEN iffD2]) (auto simp: unat_BUFFER_MIN_SIZE in_page_def min_def)

lemma addrs_write: "addrs (pages (cache_of c (write_at q bs s))) = addrs (pages (cache_of c s))"
proof -
  have "(addrs ps)[i := p_addr (ps ! i)] = addrs ps" for i and ps :: "page_s list"
    by (metis list_update_beyond list_update_id length_map linorder_not_less nth_map)
  then show ?thesis by (cases q) (simp add: write_at_def set_page_def get_page_at_def map_update)
qed

lemma at_hand_write: "at_hand a s \<Longrightarrow> at_hand a (write_at q bs s)"
  unfolding at_hand_def addrs_write by (cases q) (simp add: in_section_def write_at_def set_page_def)

lemma copy_guest_at_hand:
  assumes "at_hand a s" "in_page a b (unat n)"
  obtains bs where "copy_guest_buffer E b n s = (Some bs, s)"
proof (cases "n = 0")
  case False
  obtain q where "get_buffer E b n False s = (Some q, s)" using at_hand_buffer [OF assms False] .
  then show ?thesis
    using that one_chunk [OF assms(2)] False
    by (simp add: copy_guest_buffer.simps [of E b n] copy_guest_buffer.simps [of E _ 0])
qed (use that in \<open>simp add: copy_guest_buffer.simps [of E b 0]\<close>)

lemma copy_host_at_hand:
  assumes "at_hand a s" "in_page a b (unat n)"
  obtains s' where "copy_host_buffer E b bs n s = (True, s')" "at_hand a s'"
proof (cases "n = 0")
  case False
  obtain q where "get_buffer E b n True s = (Some q, s)" using at_hand_buffer [OF assms False] .
  then show ?thesis
    using that at_hand_write [OF assms(1)] one_chunk [OF assms(2)] False
    by (simp add: copy_host_buffer.simps [of E b _ n] copy_host_buffer.simps [of E _ _ 0])
qed (use that assms in \<open>simp add: copy_host_buffer.simps [of E b _ 0]\<close>)

lemma hash_loop_at_hand:
  assumes "at_hand a s" "in_page a b (unat n)" "hash_loop E X i b n c s = Done (r, s')"
  shows "r \<noteq> None \<and> s' = s"
proof (cases "n = 0")
  case False
  obtain q where "get_buffer E b n False s = (Some q, s)" using at_hand_buffer [OF assms(1,2) False] .
  then have "hash_loop E X i b n c s =
      (case hash_update X i c (read_at q (unat n) s) of None \<Rightarrow> Exited | Some c \<Rightarrow> Done (Some c, s))"
    using one_chunk [OF assms(2)] False
    by (simp add: hash_loop.simps [of E X i b n] hash_loop.simps [of E X i _ 0] cong: option.case_cong)
  then show ?thesis using assms(3) by (simp split: option.splits)
qed (use assms in \<open>cases r; simp add: hash_loop.simps [of E X i b 0]\<close>)

lemma write_at_hand:
  assumes "at_hand a s" "PAGE_START b = a"
  shows "\<exists>s'. mem_write E b 1 v s = (True, s') \<and> at_hand a s'"
proof -
  obtain i where g: "get_page E b PAGE_PROT_RW s = (Some (SECTION_DATA, i), s)"
    using at_hand_page [OF assms] .
  have f: "fit_in_page b (of_nat 1)" using fit_in_page_iff [of 1 b] page_off_less [of b] by simp
  from access_fits [OF f] have "\<not> b - PAGE_START b > PAGE_SIZE - of_nat 1"
    by (simp add: not_less word_le_nat_alt unat_sub_PAGE_START PAGE_SIZE_def)
  then show ?thesis using f g at_hand_write [OF assms(1)] by (simp add: mem_write_def Let_def)
qed

lemma restore_at_hand:
  assumes "at_hand a s" "in_page a ctx (ctx_size i)" "ctx_layout i \<noteq> None"
  obtains r where "restore_ctx_from_guest E X i ctx s = (Some r, s)"
proof -
  obtain block pad acc where lay: "ctx_layout i = Some (block, pad, acc)" using assms(3) by auto
  have n: "12 + block + pad + acc = ctx_size i" by (simp add: ctx_size_def lay)
  have "in_page a ctx (unat (of_nat (ctx_size i) :: u32))" unfolding ctx_size_u32 by (rule assms(2))
  then obtain bs where "copy_guest_buffer E ctx (of_nat (ctx_size i)) s = (Some bs, s)"
    by (rule copy_guest_at_hand [OF assms(1)])
  then show ?thesis
    by (intro that) (unfold restore_ctx_from_guest_def lay option.case prod.case n, simp)
qed

context hash_stream
begin

lemma update_at_hand:
  assumes "or_fatal (sdk_hash_update E X i ctx buffer sz s) = Done r" "at_hand a s"
    and "in_page a ctx (ctx_size i)" "in_page a buffer (unat sz)"
  shows "\<exists>s'. r = Some s' \<and> at_hand a s'"
proof -
  obtain block pad acc where lay: "ctx_layout i = Some (block, pad, acc)" by (rule layout)
  have n: "12 + block + pad + acc = ctx_size i" by (simp add: ctx_size_def lay)
  obtain q where q: "restore_ctx_from_guest E X i ctx s = (Some q, s)"
    using restore_at_hand [OF assms(2,3) known] .
  obtain c where c: "q = Some c"
    using assms(1) q by (cases q) (auto simp: sdk_hash_update_def sys_hash_update_def reply_def or_fatal_def eret_fails)
  obtain r' s1 where l: "hash_loop E X i buffer sz c s = Done (r', s1)"
    using assms(1) q c by (cases "hash_loop E X i buffer sz c s")
      (auto simp: sdk_hash_update_def sys_hash_update_def or_fatal_def)
  obtain c' where c': "r' = Some c'" and s1: "s1 = s" using hash_loop_at_hand [OF assms(2,4) l] by auto
  have "in_page a ctx (unat (of_nat (ctx_size i) :: u32))" unfolding ctx_size_u32 by (rule assms(3))
  then obtain s2 where w: "copy_host_buffer E ctx (save_ctx X pad c') (of_nat (ctx_size i)) s = (True, s2)"
    and s2: "at_hand a s2" by (rule copy_host_at_hand [OF assms(2)])
  have "save_ctx_from_host E X (eret_success True i) i ctx c' s = reply True (eret_success True i) s2"
    unfolding save_ctx_from_host_def lay option.case prod.case n w by simp
  then have "r = Some s2"
    using assms(1) q c l c' s1 by (simp add: sdk_hash_update_def sys_hash_update_def reply_def or_fatal_def eret_low)
  then show ?thesis using s2 by blast
qed

lemma final_at_hand:
  assumes "or_fatal (sdk_hash_final E X i ctx p_out s) = Done r" "at_hand a s"
    and "in_page a ctx (ctx_size i)" "in_page a p_out (digest_len i)"
  shows "r \<noteq> None"
proof -
  obtain q where q: "restore_ctx_from_guest E X i ctx s = (Some q, s)"
    using restore_at_hand [OF assms(2,3) known] .
  define len :: u32 where "len = (if i = HASH_ID_RIPEMD160 then 20 else 32)"
  have "in_page a p_out (unat len)" unfolding len_def digest_len_u32 by (rule assms(4))
  then have w: "\<exists>s'. copy_host_buffer E p_out d len s = (True, s')" for d
    using copy_host_at_hand [OF assms(2)] by metis
  have "sys_hash_final E X i i ctx p_out s = (case q of None \<Rightarrow> reply False i s
      | Some c \<Rightarrow> case hash_final X i c of None \<Rightarrow> Exited | Some d \<Rightarrow>
          (case copy_host_buffer E p_out d len s of (False, s) \<Rightarrow> give_up (eret_success True i) s
           | (True, s) \<Rightarrow> reply True i s))"
    unfolding sys_hash_final_def q prod.case option.case len_def [symmetric] Let_def by (cases q) simp_all
  then obtain c d where "sys_hash_final E X i i ctx p_out s =
      (case copy_host_buffer E p_out d len s of (False, s) \<Rightarrow> give_up (eret_success True i) s
       | (True, s) \<Rightarrow> reply True i s)"
    using assms(1)
    by (cases q; cases "hash_final X i (the q)") (auto simp: sdk_hash_final_def or_fatal_def reply_def eret_fails)
  then show ?thesis using assms(1) w [of d] by (auto simp: sdk_hash_final_def or_fatal_def reply_def eret_low)
qed

lemma session_at_hand:
  assumes "hash_session E X i ctx bufs p_out s = Done r" "at_hand a s"
    and "in_page a ctx (ctx_size i)" "in_page a p_out (digest_len i)"
    and "list_all (\<lambda>(b, sz). in_page a b (unat sz)) bufs"
  shows "r \<noteq> None"
proof -
  have updates: "\<exists>s'. r = Some s' \<and> at_hand a s'"
    if "ctx_updates E X i ctx bufs s = Done r" "at_hand a s" for s r
    using that assms(5)
  proof (induction bufs arbitrary: s)
    case Nil
    then have "r = Some s" by simp
    then show ?case using Nil(2) by blast
  next
    case (Cons b bufs)
    obtain p sz where b: "b = (p, sz)" by (cases b)
    obtain r1 where r1: "or_fatal (sdk_hash_update E X i ctx p sz s) = Done r1"
      using Cons(2) b by (cases "or_fatal (sdk_hash_update E X i ctx p sz s)") (auto simp: andthen_def)
    obtain s1 where "r1 = Some s1" "at_hand a s1"
      using update_at_hand [OF r1 Cons(3) assms(3)] Cons(4) b by auto
    then show ?case using Cons b r1 by simp
  qed
  obtain ok s1 where w: "mem_write E ctx 1 0 s = (ok, s1)" by (cases "mem_write E ctx 1 0 s")
  have s1: "ok \<and> at_hand a s1"
    using write_at_hand [OF assms(2), of ctx E 0] assms(3) w unfolding in_page_def by fastforce
  then obtain r1 where r1: "ctx_updates E X i ctx bufs s1 = Done r1"
    using assms(1) w by (cases "ctx_updates E X i ctx bufs s1") (auto simp: hash_session_def ctx_init_def andthen_def)
  obtain s2 where s2: "r1 = Some s2" "at_hand a s2" using updates [OF r1] s1 by blast
  have "or_fatal (sdk_hash_final E X i ctx p_out s2) = Done r"
    using assms(1) w s1 r1 s2 by (simp add: hash_session_def ctx_init_def)
  then show ?thesis by (rule final_at_hand [OF _ s2(2) assms(3,4)])
qed

end

end
