(* ===== verification/Sdk_Sha256.thy ===== *)
theory Sdk_Sha256
  imports Sdk_Crypto Sha256sum
begin

text \<open>
  A session of hash system calls on paged memory, for any library with the contract \<open>hash_stream\<close>. The
  hash functions of the device's OS are not in the repository: that the contract can be met is shown
  on a stand-in, which keeps its contexts with the functions of \<open>app-sha256\<close>, and which serves as the
  example of the property; nothing is claimed of the OS.
\<close>

section \<open>A stand-in for the library\<close>

fun words_of :: "u8 list \<Rightarrow> u32 list" where
  "words_of (a # b # c # d # bs) = le_val [a, b, c, d] # words_of bs"
| "words_of _ = []"

definition to_sha :: "hash_ctx \<Rightarrow> SHA256_CTX" where
  "to_sha c = \<lparr>sha_data = h_block c, sha_datalen = h_blen c, sha_bitlen = 512 * ucast (h_counter c),
     sha_state = words_of (h_acc c)\<rparr>"

definition of_sha :: "SHA256_CTX \<Rightarrow> hash_ctx" where
  "of_sha x = \<lparr>h_counter = ucast (drop_bit 9 (sha_bitlen x)), h_blen = sha_datalen x, h_block = sha_data x,
     h_acc = concat (map (le_bytes 4) (sha_state x))\<rparr>"

text \<open>SHA-256 behind the interface of the OS; its other functions are those of \<open>X\<close>.\<close>

definition sha_lib :: "cx_lib \<Rightarrow> cx_lib" where
  "sha_lib X = X\<lparr>
     hash_init := \<lambda>_. of_sha (xsha256_init
       \<lparr>sha_data = replicate 64 0, sha_datalen = 0, sha_bitlen = 0, sha_state = []\<rparr>),
     hash_update := \<lambda>_ c bs. Some (of_sha (xsha256_update (to_sha c) bs)),
     hash_final := \<lambda>_ c. Some (xsha256_final (to_sha c)),
     residue := \<lambda>n. replicate n 0\<rparr>"

lemma words_of_bytes: "words_of (concat (map (le_bytes 4) ws)) = ws"
proof (induction ws)
  case (Cons w ws)
  have "words_of (le_bytes 4 w @ bs) = le_val (le_bytes 4 w) # words_of bs" for bs
    unfolding le_bytes_4 by (simp del: le_val.simps)
  then show ?case using Cons by simp
qed simp

lemma state_list_length: "length (state_list W) = 8"
  by (cases W rule: working_cases) simp

lemma fips_length: "length (fips_sha256 M) = 32"
proof -
  have "length (working_bytes W) = 32" for W by (cases W rule: working_cases) simp
  then show ?thesis by (simp add: fips_sha256_def)
qed

lemma length_words: "length (concat (map (le_bytes 4) ws)) = 4 * length ws"
  by (induction ws) simp_all

lemma counter_back:
  assumes "k < 2 ^ 32"
  shows "512 * ucast (ucast (drop_bit 9 (of_nat (512 * k) :: u64)) :: u32) = (of_nat (512 * k) :: u64)"
proof -
  have "512 * k < 2 ^ LENGTH(64)" "k < 2 ^ LENGTH(64)" using assms by simp_all
  then have k: "unat (of_nat (512 * k) :: u64) = 512 * k" "unat (of_nat k :: u64) = k"
    by (simp_all only: unat_of_nat mod_less)
  have "drop_bit 9 (of_nat (512 * k) :: u64) = of_nat k"
    by (rule word_unat_eq_iff [THEN iffD2]) (simp only: unat_drop_bit_eq k, simp add: drop_bit_eq_div)
  moreover have "k < 2 ^ LENGTH(32)" using assms by simp
  then have "unat (of_nat k :: u32) = k" by (simp only: unat_of_nat mod_less)
  then have "ucast (of_nat k :: u32) = (of_nat k :: u64)" by (metis of_nat_unat)
  moreover have "ucast (of_nat k :: u64) = (of_nat k :: u32)" using k(2) by (metis of_nat_unat)
  ultimately show ?thesis by simp
qed

lemma to_of_sha:
  assumes "sha_rep x bs" "length bs < 2 ^ 32"
  shows "to_sha (of_sha x) = x"
proof -
  obtain don rest where x: "bs = don @ rest" "64 dvd length don" "sha_bitlen x = of_nat (8 * length don)"
    using assms(1) unfolding sha_rep_def by blast
  obtain k where k: "length don = 64 * k" using x(2) by (rule dvdE)
  have "k < 2 ^ 32" using assms(2) x(1) k by simp
  from counter_back [OF this] show ?thesis
    by (simp add: to_sha_def of_sha_def words_of_bytes x(3) k)
qed

lemma sha_fits:
  assumes "sha_rep x bs"
  shows "fits (sha_lib X) HASH_ID_SHA256 (of_sha x)"
proof -
  obtain don and rest :: "u8 list" where x: "length (sha_data x) = 64" "length rest < 64" "sha_datalen x = of_nat (length rest)"
    "sha_state x = state_list (foldl compress H0 (blocks don))"
    using assms unfolding sha_rep_def by blast
  have "length (sha_state x) = 8" unfolding x(4) by (rule state_list_length)
  moreover have "sha_datalen x \<le> 64" using x(2,3) by (simp add: word_le_nat_alt unat_of_nat_le_64)
  ultimately show ?thesis
    using x(1) by (simp add: fits_def of_sha_def length_words ctx_layout_def ctx_max_blen_def
        HASH_ID_SHA256_def HASH_ID_RIPEMD160_def HASH_ID_SHA3_256_def)
qed

text \<open>A context that was fed is one of SHA-256 for the bytes.\<close>

lemma fed_sha:
  assumes "fed (sha_lib X) i c bs" "length bs < 2 ^ 32"
  shows "\<exists>x. sha_rep x bs \<and> c = of_sha x"
  using assms
proof (induction rule: fed.induct)
  case fed_init
  show ?case by (intro exI conjI, rule sha_rep_init) (simp_all add: sha_lib_def)
next
  case (fed_update c bs xs c')
  then obtain x where x: "sha_rep x bs" "c = of_sha x" by auto
  then have "c' = of_sha (xsha256_update x xs)"
    using fed_update to_of_sha [OF x(1)] by (simp add: sha_lib_def)
  then show ?case using sha_rep_update [OF x(1)] by blast
qed

interpretation sha: hash_stream "sha_lib X" HASH_ID_SHA256 fips_sha256 for X
proof
  show "ctx_layout HASH_ID_SHA256 \<noteq> None" by code_simp
  fix c bs xs and n :: nat
  show "hash_update (sha_lib X) HASH_ID_SHA256 c xs \<noteq> None" by (simp add: sha_lib_def)
  show "length (residue (sha_lib X) n) = n" by (simp add: sha_lib_def)
  show "length (fips_sha256 bs) = digest_len HASH_ID_SHA256"
    by (simp add: fips_length digest_len_def HASH_ID_SHA256_def HASH_ID_RIPEMD160_def)
  assume f: "fed (sha_lib X) HASH_ID_SHA256 c bs" "length bs < 2 ^ 32"
  obtain x where x: "sha_rep x bs" "c = of_sha x" using fed_sha [OF f] by blast
  show "fits (sha_lib X) HASH_ID_SHA256 c" unfolding x(2) by (rule sha_fits [OF x(1)])
  show "hash_final (sha_lib X) HASH_ID_SHA256 c = Some (fips_sha256 bs)"
    using xsha256_final_correct [OF x(1)] to_of_sha [OF x(1) f(2)] by (simp add: sha_lib_def x(2))
qed

section \<open>Properties\<close>

text \<open>
  C19: A hash computed through the system calls is the hash. For every library with the contract of
  its documentation, every division of the data into buffers and whatever pages are evicted in
  between, the context survives its copies in the guest: starting it, giving it the buffers and
  finishing it never fails with \<open>fatal\<close>; when the application goes on, its memory has the digest of
  the bytes of the buffers, and nothing else but the context has changed. It does go on when no page
  has to be requested.
\<close>

theorem hash_session_flat:
  assumes "hash_stream X i digest" and "guest_rep E code s m"
    and "sum_list (map (\<lambda>b. unat (snd b)) bufs) < 2 ^ 32"
    and "list_all (\<lambda>(b, sz). apart ctx (ctx_size i) b (unat sz)) bufs"
  shows "\<exists>r. hash_session E X i ctx bufs p_out s = Done r \<and>
    (\<forall>s'. r = Some s' \<longrightarrow> (\<exists>saved. length saved \<le> ctx_size i \<and>
      guest_rep E code s' (upd (upd m ctx saved) p_out (digest (contents m bufs))))) \<and>
    (\<forall>a. at_hand a s \<and> in_page a ctx (ctx_size i) \<and> in_page a p_out (digest_len i) \<and>
      list_all (\<lambda>(b, sz). in_page a b (unat sz)) bufs \<longrightarrow> r \<noteq> None)"
  using hash_stream.session_digest [OF assms, of p_out] hash_stream.session_at_hand [OF assms(1)] by blast

section \<open>Examples\<close>

text \<open>A state whose data page is in the cache.\<close>

lemma at_hand_get_page:
  assumes "guest_rep E code s m" "get_page E a prot s = (Some (SECTION_DATA, i), s')"
    and "in_section SECTION_DATA (PAGE_START a) s" "\<not> in_section SECTION_CODE (PAGE_START a) s"
  shows "at_hand (PAGE_START a) s'"
proof -
  note f = get_page_bytes [OF assms(1,2)]
  obtain g where "mem_rep E code s' g" using f by (auto simp: guest_rep_def)
  from mem_rep_sorted [OF this] have k: "cache_wf SECTION_DATA (cache_of SECTION_DATA s')" .
  then have "get_page_at SECTION_DATA i s' \<in> set (pages (cache_of SECTION_DATA s'))"
    using f by (simp add: cache_wf_def get_page_at_def)
  from imageI [OF this, of p_addr] show ?thesis
    using cache_wf_sorted [OF k] f assms(3,4) by (simp add: at_hand_def in_section_def)
qed

lemma ex_at_hand:
  obtains s where "guest_rep once_env (\<lambda>_. None) s ex_mem" "at_hand 0x200 s"
proof (rule once_get_page [of PAGE_PROT_RO])
  fix n s assume g: "get_page once_env 0x234 PAGE_PROT_RO ex_mem_vm = (Some (SECTION_DATA, n), s)"
  show ?thesis
    using get_page_bytes [OF ex_guest_rep g] at_hand_get_page [OF ex_guest_rep g ex_in_data] ex_fits(2)
    by (intro that [of s]) simp_all
qed

lemma ex_ranges: "apart 0x234 108 0x2c0 4" "in_page 0x200 0x234 108" "in_page 0x200 0x2c0 4" "in_page 0x200 0x2d0 32"
proof -
  show "apart 0x234 108 0x2c0 4"
    unfolding apart_def
  proof (intro allI impI notI)
    fix i j :: nat assume ij: "i < 108" "j < 4" "(0x2c0 :: u32) + of_nat j = 0x234 + of_nat i"
    have n: "unat ((0x2c0 :: u32) + of_nat j) = 0x2c0 + j" "unat ((0x234 :: u32) + of_nat i) = 0x234 + i"
      using ij(1,2) by (simp_all add: unat_word_ariths unat_of_nat take_bit_nat_eq_self)
    have "0x2c0 + j = 0x234 + i" using n unfolding ij(3) by linarith
    with ij(1,2) show False by simp
  qed
qed (simp_all add: in_page_def PAGE_START_def PAGE_SIZE_def page_off_def)

theorem hash_session_flat_witness:
  "\<forall>X. \<exists>s s' m'. guest_rep once_env (\<lambda>_. None) s ex_mem \<and>
    hash_session once_env (sha_lib X) HASH_ID_SHA256 0x234 [(0x2c0, 4)] 0x2d0 s = Done (Some s') \<and>
    guest_rep once_env (\<lambda>_. None) s' m' \<and> bytes m' 0x2d0 32 = fips_sha256 (bytes ex_mem 0x2c0 4)"
proof
  fix X
  obtain s where s: "guest_rep once_env (\<lambda>_. None) s ex_mem" "at_hand 0x200 s" by (rule ex_at_hand)
  have c: "ctx_size HASH_ID_SHA256 = 108" "digest_len HASH_ID_SHA256 = 32" by code_simp+
  have sum: "sum_list (map (\<lambda>b. unat (snd b)) [(0x2c0 :: u32, 4 :: u32)]) < 2 ^ 32" by simp
  have apart: "list_all (\<lambda>(b, sz). apart 0x234 (ctx_size HASH_ID_SHA256) b (unat sz)) [(0x2c0, 4 :: u32)]"
    using ex_ranges(1) by (simp add: c)
  obtain r where r: "hash_session once_env (sha_lib X) HASH_ID_SHA256 0x234 [(0x2c0, 4)] 0x2d0 s = Done r"
    "\<forall>s'. r = Some s' \<longrightarrow> (\<exists>saved. length saved \<le> ctx_size HASH_ID_SHA256 \<and> guest_rep once_env (\<lambda>_. None) s'
      (upd (upd ex_mem 0x234 saved) 0x2d0 (fips_sha256 (contents ex_mem [(0x2c0, 4)]))))"
    "\<forall>a. at_hand a s \<and> in_page a 0x234 (ctx_size HASH_ID_SHA256) \<and> in_page a 0x2d0 (digest_len HASH_ID_SHA256) \<and>
      list_all (\<lambda>(b, sz). in_page a b (unat sz)) [(0x2c0, 4 :: u32)] \<longrightarrow> r \<noteq> None"
    using hash_session_flat [OF sha.hash_stream_axioms s(1) sum apart, where X1 = X and p_out = "0x2d0"]
    by (elim exE conjE) (rule that)
  have "r \<noteq> None" using r(3) [rule_format, of "0x200"] s(2) ex_ranges by (simp add: c)
  then obtain s' where some: "r = Some s'" by blast
  obtain saved where s': "guest_rep once_env (\<lambda>_. None) s'
      (upd (upd ex_mem 0x234 saved) 0x2d0 (fips_sha256 (bytes ex_mem 0x2c0 4)))"
    using r(2) [rule_format, OF some] by (auto simp: contents_def)
  have "bytes (upd m a (fips_sha256 bs)) a 32 = fips_sha256 bs" for m a bs
    using bytes_upd_same [of "fips_sha256 bs" m a] by (simp add: fips_length)
  then show "\<exists>s s' m'. guest_rep once_env (\<lambda>_. None) s ex_mem \<and>
      hash_session once_env (sha_lib X) HASH_ID_SHA256 0x234 [(0x2c0, 4)] 0x2d0 s = Done (Some s') \<and>
      guest_rep once_env (\<lambda>_. None) s' m' \<and> bytes m' 0x2d0 32 = fips_sha256 (bytes ex_mem 0x2c0 4)"
    using s(1) s' r(1) some by blast
qed

end
