(* ===== verification/Sdk_Runtime.thy ===== *)
theory Sdk_Runtime
  imports Ecall_Memory
begin

text \<open>
  What the compiler and the applications need of the runtime library: the shifts of 64-bit numbers on
  a 32-bit machine (\<open>app/sdk/risc-v/math.c\<close>) and \<open>xrecvall\<close> (\<open>app/sdk/sdk.c\<close>) on the VM.
\<close>

section \<open>Shifts\<close>

text \<open>The two halves of a number.\<close>

record DWunion =
  dw_low :: u32
  dw_high :: u32

definition dw_of :: "u64 \<Rightarrow> DWunion" where
  "dw_of u = \<lparr>dw_low = ucast u, dw_high = ucast (drop_bit 32 u)\<rparr>"

definition dw_ll :: "DWunion \<Rightarrow> u64" where
  "dw_ll w = push_bit 32 (ucast (dw_high w)) OR ucast (dw_low w)"

text \<open>A shift of 32 bits by less than 0 or more than 31 places is undefined.\<close>

definition shl32 :: "u32 \<Rightarrow> int \<Rightarrow> u32 outcome" where
  "shl32 x n = (if 0 \<le> n \<and> n < 32 then Done (push_bit (nat n) x) else Undefined)"

definition shr32 :: "u32 \<Rightarrow> int \<Rightarrow> u32 outcome" where
  "shr32 x n = (if 0 \<le> n \<and> n < 32 then Done (drop_bit (nat n) x) else Undefined)"

definition ashldi3 :: "u64 \<Rightarrow> int \<Rightarrow> u64 outcome" where
  "ashldi3 u b =
    (if b = 0 then Done u
     else
       let uu = dw_of u; bm = 32 - b
       in if bm \<le> 0 then
            then_do (shl32 (dw_low uu) (- bm)) (\<lambda>high. Done (dw_ll \<lparr>dw_low = 0, dw_high = high\<rparr>))
          else
            then_do (shr32 (dw_low uu) bm) (\<lambda>carries.
            then_do (shl32 (dw_low uu) b) (\<lambda>low.
            then_do (shl32 (dw_high uu) b) (\<lambda>high.
              Done (dw_ll \<lparr>dw_low = low, dw_high = high OR carries\<rparr>)))))"

definition lshrdi3 :: "u64 \<Rightarrow> int \<Rightarrow> u64 outcome" where
  "lshrdi3 u b =
    (if b = 0 then Done u
     else
       let uu = dw_of u; bm = 32 - b
       in if bm \<le> 0 then
            then_do (shr32 (dw_high uu) (- bm)) (\<lambda>low. Done (dw_ll \<lparr>dw_low = low, dw_high = 0\<rparr>))
          else
            then_do (shl32 (dw_high uu) bm) (\<lambda>carries.
            then_do (shr32 (dw_high uu) b) (\<lambda>high.
            then_do (shr32 (dw_low uu) b) (\<lambda>low.
              Done (dw_ll \<lparr>dw_low = low OR carries, dw_high = high\<rparr>)))))"

text \<open>The bits of the two halves.\<close>

lemma bit_dw_ll:
  "bit (dw_ll w) i \<longleftrightarrow> (if i < 32 then bit (dw_low w) i else i < 64 \<and> bit (dw_high w) (i - 32))"
  by (auto simp: dw_ll_def bit_or_iff bit_push_bit_iff bit_word_ucast_iff dest: bit_imp_le_length)

lemma bit_dw_of:
  "bit (dw_low (dw_of u)) i \<longleftrightarrow> i < 32 \<and> bit u i" "bit (dw_high (dw_of u)) i \<longleftrightarrow> i < 32 \<and> bit u (i + 32)"
  by (auto simp: dw_of_def bit_word_ucast_iff bit_drop_bit_eq ac_simps)

lemmas bits_of_halves = bit_dw_ll bit_dw_of bit_push_bit_iff bit_drop_bit_eq bit_or_iff

text \<open>The branches, with the distance as a natural number.\<close>

lemma halves_left:
  assumes "k < 32"
  shows "dw_ll \<lparr>dw_low = push_bit k (dw_low (dw_of u)),
      dw_high = push_bit k (dw_high (dw_of u)) OR drop_bit (32 - k) (dw_low (dw_of u))\<rparr> = push_bit k u"
proof (rule bit_word_eqI)
  fix n assume "n < LENGTH(64)"
  moreover have "32 - k + (n - 32) = n - k" "n - 32 - k + 32 = n - k" if "32 \<le> n" "k \<le> n - 32"
    using that assms by simp_all
  moreover have "32 - k + (n - 32) = n - k" "n - k < 32" if "32 \<le> n" "\<not> k \<le> n - 32"
    using that assms by simp_all
  ultimately show "bit (dw_ll \<lparr>dw_low = push_bit k (dw_low (dw_of u)),
      dw_high = push_bit k (dw_high (dw_of u)) OR drop_bit (32 - k) (dw_low (dw_of u))\<rparr>) n = bit (push_bit k u) n"
    using assms by (cases "n < 32"; cases "k \<le> n - 32") (auto simp: bits_of_halves)
qed

lemma halves_right:
  assumes "k < 32" "0 < k"
  shows "dw_ll \<lparr>dw_low = drop_bit k (dw_low (dw_of u)) OR push_bit (32 - k) (dw_high (dw_of u)),
      dw_high = drop_bit k (dw_high (dw_of u))\<rparr> = drop_bit k u"
proof (rule bit_word_eqI)
  fix n assume "n < LENGTH(64)"
  moreover have "n - (32 - k) + 32 = k + n" if "32 - k \<le> n" using that assms by simp
  moreover have "k + (n - 32) + 32 = k + n" if "32 \<le> n" using that by simp
  moreover have "n < 64 \<Longrightarrow> \<not> k + n < 64 \<Longrightarrow> \<not> bit u (k + n)" by (auto dest: bit_imp_le_length)
  ultimately show "bit (dw_ll \<lparr>dw_low = drop_bit k (dw_low (dw_of u)) OR push_bit (32 - k) (dw_high (dw_of u)),
      dw_high = drop_bit k (dw_high (dw_of u))\<rparr>) n = bit (drop_bit k u) n"
    using assms by (cases "n < 32"; cases "32 - k \<le> n"; cases "k + n < 64") (auto simp: bits_of_halves add.commute)
qed

lemma halves_far:
  assumes "k < 32"
  shows "dw_ll \<lparr>dw_low = 0, dw_high = push_bit k (dw_low (dw_of u))\<rparr> = push_bit (32 + k) u"
    "dw_ll \<lparr>dw_low = drop_bit k (dw_high (dw_of u)), dw_high = 0\<rparr> = drop_bit (32 + k) u"
  using assms by (rule_tac [!] bit_word_eqI)
    (auto simp: bits_of_halves ac_simps dest: bit_imp_le_length)

section \<open>Receiving everything\<close>

text \<open>
  \<open>xrecvall\<close> asks until the buffer is full; it may ask forever. The \<open>bool\<close> says whether the
  application goes on.
\<close>

partial_function (option) xrecvall :: "env \<Rightarrow> u32 \<Rightarrow> u32 \<Rightarrow> vm \<Rightarrow> (bool \<times> vm) option" where
  "xrecvall E buffer sz s =
    (if sz = 0 then Some (True, s)
     else case sys_xrecv E buffer sz s of
       (go, n, s) \<Rightarrow> if \<not> go then Some (False, s) else xrecvall E (buffer + n) (sz - n) s)"

lemma xrecvall_fills:
  assumes "xrecvall E buffer sz s = Some (True, s')" "guest_rep E code s m"
  shows "\<exists>bs. length bs = unat sz \<and> guest_rep E code s' (upd m buffer bs)"
proof -
  have "\<forall>m. snd r = s' \<and> fst r \<longrightarrow> guest_rep E code s m \<longrightarrow>
      (\<exists>bs. length bs = unat sz \<and> guest_rep E code s' (upd m buffer bs))"
    if "xrecvall E buffer sz s = Some r" for E buffer sz s r
    using that
  proof (rule xrecvall.raw_induct [rotated])
    fix rec E buffer sz s r
    assume ih: "\<And>E buffer sz s r. rec E buffer sz s = Some r \<Longrightarrow>
        \<forall>m. snd r = s' \<and> fst r \<longrightarrow> guest_rep E code s m \<longrightarrow>
          (\<exists>bs. length bs = unat sz \<and> guest_rep E code s' (upd m buffer bs))"
      and step: "(if sz = 0 then Some (True, s)
        else case sys_xrecv E buffer sz s of
          (go, n, s) \<Rightarrow> if \<not> go then Some (False, s) else rec E (buffer + n) (sz - n) s) = Some r"
    show "\<forall>m. snd r = s' \<and> fst r \<longrightarrow> guest_rep E code s m \<longrightarrow>
      (\<exists>bs. length bs = unat sz \<and> guest_rep E code s' (upd m buffer bs))"
    proof (intro allI impI)
      fix m assume r: "snd r = s' \<and> fst r" and m: "guest_rep E code s m"
      show "\<exists>bs. length bs = unat sz \<and> guest_rep E code s' (upd m buffer bs)"
      proof (cases "sz = 0")
        case True
        then show ?thesis using step r m by (intro exI [of _ "[]"]) auto
      next
        case False
        obtain n s1 where x: "sys_xrecv E buffer sz s = (True, n, s1)" and rec: "rec E (buffer + n) (sz - n) s1 = Some r"
          using step r False by (auto split: prod.splits if_splits)
        obtain bs where bs: "n = of_nat (length bs)" "length bs \<le> unat sz" "guest_rep E code s1 (upd m buffer bs)"
          using xrecv_loop_bytes [OF m, of buffer sz 0 0 n s1] x by (auto simp: sys_xrecv_def)
        have n: "length bs = unat n"
          using bs(1,2) unsigned_less [of sz, where 'a = nat] by (simp add: unat_of_nat take_bit_nat_eq_self)
        obtain cs where cs: "length cs = unat (sz - n)" "guest_rep E code s' (upd (upd m buffer bs) (buffer + n) cs)"
          using ih [OF rec] r bs(3) by blast
        have le: "unat n \<le> unat sz" using bs(2) n by simp
        have "length (bs @ cs) = unat sz" using n cs(1) rest_size [OF le] by simp
        moreover have "guest_rep E code s' (upd m buffer (bs @ cs))"
          using cs(2) upd_chunk [OF le n cs(1), of m buffer] by simp
        ultimately show ?thesis by blast
      qed
    qed
  qed
  from this [OF assms(1)] assms(2) show ?thesis by simp
qed

lemma shifts_near:
  assumes "k < 32" "0 < k"
  shows "ashldi3 u (int k) = Done (push_bit k u) \<and> lshrdi3 u (int k) = Done (drop_bit k u)"
proof -
  have k: "nat (32 - int k) = 32 - k" "\<not> 32 - int k \<le> 0" using assms by simp_all
  then show ?thesis
    using assms halves_left [OF assms(1), of u] halves_right [OF assms, of u]
    by (simp add: ashldi3_def lshrdi3_def shl32_def shr32_def Let_def)
qed

lemma shifts_far:
  assumes "k < 32"
  shows "ashldi3 u (int (32 + k)) = Done (push_bit (32 + k) u) \<and> lshrdi3 u (int (32 + k)) = Done (drop_bit (32 + k) u)"
  using assms halves_far [OF assms, of u]
  by (simp add: ashldi3_def lshrdi3_def shl32_def shr32_def Let_def)

lemma shifts_undefined:
  assumes "b < 0 \<or> 64 \<le> b"
  shows "ashldi3 u b = Undefined \<and> lshrdi3 u b = Undefined"
  using assms by (auto simp: ashldi3_def lshrdi3_def shl32_def shr32_def Let_def)

section \<open>Properties\<close>

text \<open>
  C36: The shifts of the runtime library are those of 64-bit numbers: for every distance from 0 to 63
  no shift of a half is undefined and the result is the number shifted; for any other distance it is
  undefined, as in C.
\<close>

theorem shifts_correct:
  "ashldi3 u b = (if 0 \<le> b \<and> b < 64 then Done (push_bit (nat b) u) else Undefined) \<and>
   lshrdi3 u b = (if 0 \<le> b \<and> b < 64 then Done (drop_bit (nat b) u) else Undefined)"
proof -
  consider "b = 0" | k where "b = int k" "k < 32" "0 < k" | k where "b = int (32 + k)" "k < 32" | "b < 0 \<or> 64 \<le> b"
  proof (cases "0 \<le> b \<and> b < 64")
    case True
    then obtain n where n: "b = int n" "n < 64" by (intro that [of "nat b"]) (simp_all add: nat_less_iff)
    show ?thesis
    proof (cases "n < 32")
      case False
      then obtain k where "n = 32 + k" using nat_le_iff_add not_less by blast
      then show ?thesis using n that(3) [of k] by simp
    qed (use n that(1,2) in \<open>cases "n = 0"; simp\<close>)
  qed (use that(4) in linarith)
  then show ?thesis
  proof cases
    case 1
    then show ?thesis by (simp add: ashldi3_def lshrdi3_def)
  next
    case (2 k)
    then show ?thesis using shifts_near [of k u] by simp
  next
    case (3 k)
    then have "nat b = 32 + k" "0 \<le> b \<and> b < 64" by simp_all
    then show ?thesis using 3 shifts_far [of k u] by simp
  next
    case 4
    then show ?thesis using shifts_undefined [of b u] by auto
  qed
qed

end
