(* ===== verification/Spec2Isabelle.thy ===== *)
theory Spec2Isabelle
  imports Vm_Refinement Ecall_Memory Wide_Multiplication Vm_Main Sha256sum Swap Eth_App Sdk_Sha256 Sdk_Runtime
begin

text \<open>
  A verification library for app-streaming: a virtual machine on a Ledger device (\<open>vm/src\<close>) that
  runs RISC-V applications too large for the device. The pages of an application are kept by an
  untrusted host, encrypted and authenticated, and streamed to the device through small caches.

  \<^bold>\<open>The program.\<close> \<open>main.c\<close> receives commands; \<open>app_signature.c\<close> lets the device sign an application
  whose manifest the HSM signed; \<open>stream.c\<close> starts an application whose manifest the device signed,
  requests and commits pages, and runs the CPU of \<open>cpu.c\<close>; \<open>memory.c\<close> caches the pages, with the
  generator of \<open>lfsr.c\<close> to choose the one to evict; \<open>merkle.c\<close> keeps the root of a Merkle tree of the
  counters of the pages, so that the host cannot answer an old page; \<open>keys.c\<close> derives the keys;
  \<open>ecall.c\<close>, \<open>ecall_bolos.c\<close>, \<open>ecall_hash.c\<close> and \<open>ecall_dispatcher.c\<close> are the system calls, \<open>uint256.c\<close>
  wide integers for them, \<open>loading.c\<close> and \<open>ui.c\<close> the screen. \<open>host/\<close> holds the host's half, of which
  \<open>merkletree.py\<close> is modelled. The applications under \<open>app/\<close> use the system calls through the library
  \<open>app/sdk\<close>: \<open>app-sha256\<close> hashes what the host sends, \<open>app-ethereum\<close> signs transactions and typed
  messages, \<open>app-swap\<close> checks the offer of an exchange partner and signs the transaction for it.

  \<^bold>\<open>The theories.\<close>
  \<^item> \<open>Prelude\<close>: machine integers, little-endian encodings, copies, the outcomes of C functions.
  \<^item> \<open>Device\<close>: the environment (\<open>env\<close>), pages (\<open>page.h\<close>), the APDU buffer and the transport, APDU
    parsing (\<open>apdu.h\<close>). \<open>Vm_State\<close>: the record \<open>vm\<close> of all static variables and the manifest
    (\<open>stream.h\<close>). \<open>Keys\<close>: \<open>keys.c\<close>. \<open>Loading\<close>: \<open>loading.c\<close>. \<open>Lfsr\<close>: \<open>lfsr.c\<close>.
  \<^item> \<open>Merkle_Tree\<close>: \<open>merkle.c\<close>, \<open>merkletree.py\<close>; \<open>mt_rep\<close> relates a context to the list of entries its
    root commits to. \<open>Stream_Pages\<close>: \<open>stream_request_page\<close> and \<open>stream_commit_page\<close>; \<open>pager_rep\<close> adds
    the history of committed pages (a ghost).
  \<^item> \<open>Page_Cache\<close>: \<open>memory.c\<close>; \<open>mem_wf\<close> is the invariant of the caches. \<open>Guest_Memory\<close>: accesses and
    the start of an application (\<open>stream.c\<close>). \<open>Flat_Memory\<close>, \<open>Flat_Properties\<close>: the abstraction:
    \<open>guest_rep E code s m\<close> says that the state represents the memory \<open>m\<close> of the application.
  \<^item> \<open>Rv_Decode\<close>, \<open>Rv_Execute\<close>: \<open>cpu.c\<close> and \<open>rv_cpu.h\<close>, over a record \<open>bus\<close> of the memory and the
    system calls. \<open>Ecall\<close>, \<open>Ecall_Memory\<close>: \<open>ecall.c\<close>. \<open>Ecall_Crypto\<close>: \<open>ecall_bolos.c\<close>, \<open>ecall_hash.c\<close>.
    \<open>Vm_Run\<close>: the dispatcher and \<open>stream_run_app\<close>. \<open>Vm_Refinement\<close>: a turn of the VM against a
    machine with flat memory.
  \<^item> \<open>App_Signature\<close>: \<open>app_signature.c\<close>, \<open>general_handlers.c\<close>. \<open>Vm_Start\<close>: the start establishes the
    invariant. \<open>Vm_Main\<close>: \<open>main.c\<close>.
  \<^item> \<open>Uint256\<close>, \<open>Wide_Division\<close>, \<open>Wide_Multiplication\<close>: \<open>uint256.c\<close>, against integers modulo \<open>2 ^ 256\<close>;
    the locales \<open>wide_int\<close> and \<open>wide_printer\<close> carry the division and the printing for both widths.
  \<^item> The library of the applications: \<open>Sdk_Uint256\<close> (\<open>sdk/uint256.c\<close>), \<open>C_Strings\<close> (texts as bytes), \<open>Ux\<close>
    (\<open>sdk/ux\<close>: \<open>ux_validate\<close> draws the items and moves with the buttons), \<open>Sdk_Crypto\<close> (the hashes of
    \<open>sdk/crypto.c\<close> through the system calls, over the contract \<open>hash_stream\<close> of the library of the OS),
    \<open>Sdk_Sha256\<close> (hash sessions, with a stand-in for the OS's library in the example), \<open>Sdk_Runtime\<close>
    (\<open>sdk/risc-v/math.c\<close>, \<open>sdk/sdk.c\<close>). \<open>Sha256sum\<close>: \<open>app-sha256\<close>.
  \<^item> The Ethereum application (\<open>app/app-ethereum/src\<close>): \<open>Eth_Display\<close> and \<open>Eth_Amounts\<close> (\<open>utils.c\<close>, and the
    same functions of \<open>app-swap\<close>), \<open>Rlp\<close> (\<open>rlp.c\<close>), \<open>Eth_Sign\<close> (\<open>sign*.c\<close>, \<open>get_pubkey.c\<close>, \<open>ui.c\<close>), \<open>Eip712\<close>
    and \<open>Eip712_Forms\<close> (\<open>eip712.c\<close>, \<open>eip712/\<close>, \<open>sign_eip712.c\<close>), \<open>Eth_App\<close> (\<open>app-ethereum.c\<close>, the relation
    \<open>eth_run\<close>).
  \<^item> The exchange application (\<open>app/app-swap/src\<close>): \<open>Eth_Tx\<close> (\<open>eth/tx.c\<close>, \<open>eth/sign_tx.c\<close>), \<open>Btc_Amount\<close>
    (\<open>btc/bcd.c\<close>), \<open>Base58\<close>, \<open>Segwit\<close>, \<open>Btc_Address\<close> (\<open>btc/btc.c\<close>, \<open>btc/btchip_helpers.c\<close>), \<open>Swap\<close> (\<open>main.c\<close>,
    \<open>swap.c\<close>, \<open>sell.c\<close>, \<open>partner.c\<close>, \<open>currency_config.c\<close>; the relation \<open>swap_run\<close>).

  \<^bold>\<open>Correspondence.\<close> A C function is a function of the same name; static variables are fields of
  \<open>vm\<close>; a pointer result is an index or an option; \<open>return false\<close> is \<open>False\<close> or \<open>None\<close> with the state at
  that point; \<open>fatal\<close> is \<open>Exited\<close>, a write past an object \<open>Undefined\<close>. The host is an arbitrary function
  of the transcript. Hash, MAC, cipher and signatures are parameters; theorems that need a law of
  them name it (\<open>decrypts\<close>, \<open>sizes_ok\<close>) or say that the host exhibits no forgery or collision in what
  the device accepted (\<open>fair\<close>, \<open>genuine\<close>, \<open>trusted\<close>). In the applications an error message is \<open>Inl\<close>,
  the system calls, the protobuf codec and the JSON tokenizer are parameters (records \<open>eth_env\<close>,
  \<open>eth_app\<close> and those of \<open>Swap\<close>), a C text is the list of its bytes before the zero, a buffer that a
  function leaves partly unset is an argument, and the user is the list of the button events.

  \<^bold>\<open>What is shown.\<close> Safety of the pager against the host (\<open>Merkle_Tree\<close>, \<open>Stream_Pages\<close>): a page is the
  one last committed, and no IV is used twice. Paging is invisible (\<open>Flat_Properties\<close>), a turn of the
  VM refines a turn of a machine with a flat memory and every state of a run represents one
  (\<open>Vm_Refinement\<close>) unless a drawing call fails, from the start on (\<open>Vm_Start\<close>). The CPU agrees with the RISC-V manual but for the
  listed divergences (\<open>Rv_Execute\<close>). Memory system calls have their C meaning (\<open>Ecall_Memory\<close>). The
  device signs and runs only what was signed (\<open>App_Signature\<close>, \<open>Vm_Main\<close>). Wide integers are integers
  (\<open>Wide_Division\<close>, \<open>Wide_Multiplication\<close>). Addresses round-trip (\<open>Segwit\<close>, \<open>Base58\<close>) and those accepted
  are the user's (\<open>Btc_Address\<close>). \<open>app-sha256\<close> computes SHA-256 (\<open>Sha256sum\<close>). A hash
  session through the system calls gives the digest of the OS's library, if that has its documented
  contract (\<open>Sdk_Sha256\<close>). Amounts are shown exactly (\<open>Eth_Amounts\<close>, \<open>Btc_Amount\<close>); a dialogue shows its items before it decides (\<open>Ux\<close>). No transaction or
  EIP-712 message is signed and nothing exchanged unless the user accepted its screens (\<open>Eth_Sign\<close>,
  \<open>Eip712_Forms\<close>, \<open>Eth_App\<close>, \<open>Swap\<close>), and those of a transaction that is read in full show its values; on
  a list that is given up midway they show what the stack held. Plain messages are signed unasked. An
  exchange is authorised by Ledger and the partner, and its identifier serves once (\<open>Swap\<close>). Where the code departs from RLP or EIP-712 the theorems state what it does (\<open>Eth_Tx\<close>,
  \<open>Eth_Sign\<close>, \<open>Eip712\<close>).

  \<^bold>\<open>Fuel and termination.\<close> Only \<open>create_empty_pages\<close> has fuel: the pages of its range and one more,
  proved enough for page aligned bounds. Loops that may not end are \<open>partial_function (option)\<close>
  (\<open>strlen_loop\<close>, \<open>divmod256_loop\<close>, \<open>compute_section_hmacs\<close>, \<open>stream_run_app\<close>, \<open>xrecvall\<close>); the theorems on
  the first two prove that they return; the others depend on the host, who may answer forever.
  \<open>ux_loop\<close> recurs on the button events, and is \<open>Blocked\<close> when they are used up; the loops over digits
  and bytes recur on their lists.

  \<^bold>\<open>Not modelled.\<close> The transports, the UI flows, glyphs and the instrumentation of \<open>vm/src\<close>; the OS
  and its cryptographic library; clearing of secrets in memory; loading and idle screens of the
  applications; the system call stubs of \<open>app/sdk\<close>, which are inline assembly (\<open>risc-v\<close>) or calls of
  OpenSSL and an emulator (\<open>native\<close>), and the functions of \<open>sdk.c\<close> and \<open>crypto.c\<close> that only pass their
  arguments to one; the generated protobuf code; the tokenizer jsmn, whose sources are not in the
  repository; the \<open>main\<close> of \<open>app-sha256\<close>; \<open>app-rust\<close>, in another language; the rest of the host.
\<close>

end
